(* ===== verification/Prelude.thy ===== *)
theory Prelude
  imports Main "HOL-Library.Word" "HOL-Library.Multiset"
begin

text \<open>
  Shared vocabulary of the development: faults of C code as values, linked lists of
  structs on an explicit heap, and the list lemmas every component uses.
  Address 0 is the NULL pointer. A heap maps the addresses of the live (allocated and
  not yet freed) structs to their contents, so reading a NULL, dangling or freed pointer
  is an explicit fault, never an unspecified value.
\<close>

section \<open>Faults and results\<close>

type_synonym addr = nat
type_synonym byte = "8 word"
type_synonym long = "32 word"   \<comment> \<open>the bits of a \<^verbatim>\<open>long\<close> or \<^verbatim>\<open>unsigned long\<close>\<close>

abbreviation NULL :: addr where "NULL \<equiv> 0"

datatype fault =
    BadPtr addr        \<comment> \<open>dereference or free of a NULL, dangling or freed pointer\<close>
  | OutOfBounds int    \<comment> \<open>array index outside the array\<close>
  | DivByZero          \<comment> \<open>integer division or remainder by zero\<close>
  | Exit int           \<comment> \<open>the process ends by \<^verbatim>\<open>exit\<close>\<close>

type_synonym 'a res = "fault + 'a"

text \<open>
  A loop over pointers may run forever on a cyclic list or on a guard that never
  changes: its result is an option, where \<^const>\<open>None\<close> is the run that does not return.
\<close>

type_synonym 'a run = "'a res option"

definition rbind :: "'a res \<Rightarrow> ('a \<Rightarrow> 'b res) \<Rightarrow> 'b res" where
  "rbind m f = (case m of Inl e \<Rightarrow> Inl e | Inr x \<Rightarrow> f x)"

definition obind :: "'a run \<Rightarrow> ('a \<Rightarrow> 'b run) \<Rightarrow> 'b run" where
  "obind m f = (case m of None \<Rightarrow> None | Some (Inl e) \<Rightarrow> Some (Inl e) | Some (Inr x) \<Rightarrow> f x)"

definition lift_res :: "'a res \<Rightarrow> 'a run" where
  "lift_res m = Some m"

named_theorems run_simps "evaluation of results, binds and heap accesses"

lemma rbind_simps [simp, run_simps]:
  "rbind (Inl e) f = Inl e"
  "rbind (Inr x) f = f x"
  by (simp_all add: rbind_def)

lemma obind_simps [simp, run_simps]:
  "obind None g = None"
  "obind (Some (Inl e)) g = Some (Inl e)"
  "obind (Some (Inr x)) g = g x"
  by (simp_all add: obind_def)

lemma rbind_eq_Inr: "rbind m f = Inr y \<longleftrightarrow> (\<exists>x. m = Inr x \<and> f x = Inr y)"
  by (cases m) auto

lemma obind_eq_Some_Inr:
  "obind m g = Some (Inr y) \<longleftrightarrow> (\<exists>x. m = Some (Inr x) \<and> g x = Some (Inr y))"
  by (auto simp: obind_def split: option.splits sum.splits)

section \<open>Structs with a next pointer\<close>

datatype 'a node = Node (dat: 'a) (nxt: addr)

type_synonym 'a heap = "addr \<Rightarrow> 'a node option"

definition deref :: "'a heap \<Rightarrow> addr \<Rightarrow> 'a node res" where
  "deref h a = (if a = NULL then Inl (BadPtr a)
     else case h a of None \<Rightarrow> Inl (BadPtr a) | Some nd \<Rightarrow> Inr nd)"

definition set_next :: "'a heap \<Rightarrow> addr \<Rightarrow> addr \<Rightarrow> 'a heap res" where
  "set_next h a v = rbind (deref h a) (\<lambda>nd. Inr (h(a \<mapsto> Node (dat nd) v)))"

definition free_node :: "'a heap \<Rightarrow> addr \<Rightarrow> 'a heap res" where
  "free_node h a = rbind (deref h a) (\<lambda>_. Inr (h(a := None)))"

text \<open>
  The allocator is a parameter: it returns NULL (out of memory) or an address that is
  not in use, which is what malloc and calloc document.
\<close>

type_synonym 'a allocator = "'a heap \<Rightarrow> addr"

definition alloc_ok :: "'a allocator \<Rightarrow> bool" where
  "alloc_ok m \<longleftrightarrow> (\<forall>h. m h = NULL \<or> h (m h) = None)"

lemma alloc_okD: "alloc_ok m \<Longrightarrow> m h \<noteq> NULL \<Longrightarrow> h (m h) = None"
  using spec [of "\<lambda>h. m h = NULL \<or> h (m h) = None" h] by (simp add: alloc_ok_def)

text \<open>An allocator that does not fail while only finitely many structs are live.\<close>

definition mem_suffices :: "'a allocator \<Rightarrow> bool" where
  "mem_suffices m \<longleftrightarrow> (\<forall>h. finite (dom h) \<longrightarrow> m h \<noteq> NULL)"

text \<open>One such allocator: the address after the largest live one.\<close>

definition bump :: "'a allocator" where
  "bump h = (if finite (dom h) then Suc (Max (insert 0 (dom h))) else NULL)"

lemma bump_alloc_ok [simp]: "alloc_ok bump"
proof -
  have "Suc (Max (insert 0 (dom h))) \<notin> dom h" if "finite (dom h)" for h :: "addr \<Rightarrow> 'a node option"
    using that by (metis Max_ge Suc_n_not_le_n finite_insert insertCI)
  then show "alloc_ok (bump :: 'a allocator)" by (auto simp: alloc_ok_def bump_def)
qed

lemma bump_mem_suffices [simp]: "mem_suffices bump"
  by (simp add: mem_suffices_def bump_def)

lemma deref_Some [simp, run_simps]: "a \<noteq> NULL \<Longrightarrow> h a = Some nd \<Longrightarrow> deref h a = Inr nd"
  by (simp add: deref_def)

lemma deref_NULL [simp, run_simps]: "deref h NULL = Inl (BadPtr NULL)"
  by (simp add: deref_def)

lemma deref_None [simp]: "h a = None \<Longrightarrow> deref h a = Inl (BadPtr a)"
  by (simp add: deref_def)

lemma deref_eq_Inr: "deref h a = Inr nd \<longleftrightarrow> a \<noteq> NULL \<and> h a = Some nd"
  by (auto simp: deref_def split: option.splits)

lemma set_next_Some [simp, run_simps]:
  "a \<noteq> NULL \<Longrightarrow> h a = Some (Node d n) \<Longrightarrow> set_next h a v = Inr (h(a \<mapsto> Node d v))"
  by (simp add: set_next_def)

lemma free_node_Some [simp, run_simps]:
  "a \<noteq> NULL \<Longrightarrow> h a = Some nd \<Longrightarrow> free_node h a = Inr (h(a := None))"
  by (simp add: free_node_def)

section \<open>List segments\<close>

text \<open>
  \<open>lseg h p ns q\<close>: following next pointers from \<open>p\<close> visits the structs \<open>ns\<close> (addresses
  and contents, in order) and then reaches \<open>q\<close>. A NULL-terminated list is \<open>lseg h p ns NULL\<close>.
\<close>

fun lseg :: "'a heap \<Rightarrow> addr \<Rightarrow> (addr \<times> 'a) list \<Rightarrow> addr \<Rightarrow> bool" where
  "lseg h p [] q \<longleftrightarrow> p = q"
| "lseg h p ((a, d) # ns) q \<longleftrightarrow>
     p = a \<and> a \<noteq> NULL \<and>
     (case h a of None \<Rightarrow> False | Some nd \<Rightarrow> dat nd = d \<and> lseg h (nxt nd) ns q)"

abbreviation addrs :: "(addr \<times> 'a) list \<Rightarrow> addr list" where
  "addrs ns \<equiv> map fst ns"

lemma lseg_Cons:
  "lseg h p (x # ns) q \<longleftrightarrow>
     p = fst x \<and> p \<noteq> NULL \<and> (\<exists>n. h p = Some (Node (snd x) n) \<and> lseg h n ns q)"
proof (cases x)
  case (Pair a d)
  have "(case h a of None \<Rightarrow> False | Some nd \<Rightarrow> dat nd = d \<and> lseg h (nxt nd) ns q) \<longleftrightarrow>
        (\<exists>n. h a = Some (Node d n) \<and> lseg h n ns q)"
    by (auto split: option.splits) (metis node.collapse)
  then show ?thesis using Pair by auto
qed

declare lseg.simps(2) [simp del]

lemma lseg_append:
  "lseg h p (xs @ ys) q \<longleftrightarrow> (\<exists>m. lseg h p xs m \<and> lseg h m ys q)"
  by (induction xs arbitrary: p) (auto simp: lseg_Cons)

lemma lseg_NULL [simp]: "lseg h NULL ns q \<longleftrightarrow> ns = [] \<and> q = NULL"
  by (cases ns) (auto simp: lseg_Cons)

lemma lseg_cong:
  "(\<And>a. a \<in> set (addrs ns) \<Longrightarrow> h a = h' a) \<Longrightarrow> lseg h p ns q = lseg h' p ns q"
proof (induction ns arbitrary: p)
  case (Cons x ns)
  then have x: "h (fst x) = h' (fst x)" and ns: "\<And>n. lseg h n ns q = lseg h' n ns q" by auto
  show ?case unfolding lseg_Cons ns using x by metis
qed simp

lemma lseg_upd_notin [simp]:
  "a \<notin> set (addrs ns) \<Longrightarrow> lseg (h(a := v)) p ns q = lseg h p ns q"
  by (rule lseg_cong) auto

lemma lseg_addrs_live: "lseg h p ns q \<Longrightarrow> a \<in> set (addrs ns) \<Longrightarrow> a \<noteq> NULL \<and> h a \<noteq> None"
  by (induction ns arbitrary: p) (auto simp: lseg_Cons)

lemma lseg_set_dom: "lseg h p ns q \<Longrightarrow> set (addrs ns) \<subseteq> dom h"
  using lseg_addrs_live by fastforce

lemma lseg_NULL_notin: "lseg h p ns q \<Longrightarrow> NULL \<notin> set (addrs ns)"
  using lseg_addrs_live by fastforce

lemma lseg_unique: "lseg h p xs NULL \<Longrightarrow> lseg h p ys NULL \<Longrightarrow> xs = ys"
proof (induction xs arbitrary: p ys)
  case Nil
  then show ?case by simp
next
  case (Cons x xs)
  from Cons.prems obtain n where n: "p = fst x" "p \<noteq> NULL" "h p = Some (Node (snd x) n)"
      "lseg h n xs NULL"
    by (auto simp: lseg_Cons)
  with Cons.prems obtain y ys' where ys: "ys = y # ys'" by (cases ys) auto
  with Cons.prems n have "fst y = fst x" "snd y = snd x" "lseg h n ys' NULL"
    by (auto simp: lseg_Cons)
  with Cons.IH n ys show ?case by (simp add: prod_eq_iff)
qed

lemma lseg_distinct: "lseg h p ns NULL \<Longrightarrow> distinct (addrs ns)"
proof (induction ns arbitrary: p)
  case (Cons x ns)
  then obtain n where n: "p = fst x" "lseg h n ns NULL" by (auto simp: lseg_Cons)
  have "fst x \<notin> set (addrs ns)"
  proof
    assume "fst x \<in> set (addrs ns)"
    then obtain ys y zs where ns: "ns = ys @ y # zs" "fst y = fst x"
      by (metis (no_types, lifting) in_set_conv_decomp list.set_map image_iff)
    with n have "lseg h (fst x) (y # zs) NULL" by (auto simp: lseg_append lseg_Cons)
    with Cons.prems n have "x # ns = y # zs" using lseg_unique by metis
    then have "length (x # ns) = length (y # zs)" by simp
    with ns show False by simp
  qed
  with n Cons.IH show ?case by simp
qed simp

text \<open>Relinking the last struct of a segment.\<close>

lemma lseg_snoc_upd:
  assumes "lseg h p (ns @ [(a, d)]) q" and "distinct (addrs (ns @ [(a, d)]))"
  shows "lseg (h(a \<mapsto> Node d v)) p (ns @ [(a, d)]) v"
  using assms by (auto simp: lseg_append lseg_Cons)

lemma lseg_snoc_last:
  "lseg h p (ns @ [(a, d)]) q \<Longrightarrow> h a = Some (Node d q) \<and> a \<noteq> NULL"
  by (auto simp: lseg_append lseg_Cons)

lemma lseg_starts: "lseg h p (x # ns) q \<Longrightarrow> p = fst x"
  by (simp add: lseg_Cons)

lemma lseg_empty_iff: "lseg h p ns NULL \<Longrightarrow> p = NULL \<longleftrightarrow> ns = []"
  by (cases ns) (auto simp: lseg_Cons)

text \<open>The first and the last address of a segment, with the neighbour where it is empty.\<close>

definition first_addr :: "(addr \<times> 'a) list \<Rightarrow> addr \<Rightarrow> addr" where
  "first_addr ns q = (case ns of [] \<Rightarrow> q | n # _ \<Rightarrow> fst n)"

lemma first_addr_simps [simp]:
  "first_addr [] q = q" "first_addr (n # ns) q = fst n"
  by (simp_all add: first_addr_def)

lemma lseg_first_addr: "lseg h p ns q \<Longrightarrow> p = first_addr ns q"
  by (cases ns) (auto simp: lseg_Cons)

lemma first_addr_eq_end: "q \<notin> set (addrs ns) \<Longrightarrow> first_addr ns q = q \<longleftrightarrow> ns = []"
  by (cases ns) auto

definition prev_addr :: "(addr \<times> 'a) list \<Rightarrow> addr" where
  "prev_addr ns = (if ns = [] then NULL else fst (last ns))"

lemma prev_addr_simps [simp]:
  "prev_addr [] = NULL" "prev_addr (ns @ [n]) = fst n" "prev_addr [n] = fst n"
  "ms \<noteq> [] \<Longrightarrow> prev_addr (ns @ ms) = prev_addr ms"
  by (simp_all add: prev_addr_def)

lemma prev_addr_Cons: "prev_addr (n # ns) = (if ns = [] then fst n else prev_addr ns)"
  by (simp add: prev_addr_def)

lemma prev_addr_NULL: "lseg h p (ns @ ms) q \<Longrightarrow> prev_addr ns = NULL \<longleftrightarrow> ns = []"
  using lseg_addrs_live [of h p "ns @ ms" q "prev_addr ns"]
  by (cases ns rule: rev_cases) auto

text \<open>Appending a fresh struct behind the tail pointer of a non-empty list.\<close>

lemma lseg_append_node:
  assumes seg: "lseg h p ns NULL" and ns: "p \<noteq> NULL" and a: "a \<noteq> NULL" "a \<notin> set (addrs ns)"
  shows "\<exists>h'. set_next (h(a \<mapsto> Node t NULL)) (prev_addr ns) a = Inr h'
     \<and> lseg h' p (ns @ [(a, t)]) NULL \<and> dom h' = insert a (dom h)
     \<and> (\<forall>b. b \<notin> insert a (set (addrs ns)) \<longrightarrow> h' b = h b)"
proof (cases ns rule: rev_cases)
  case Nil
  with seg ns show ?thesis by simp
next
  case (snoc ns' z)
  obtain az dz where z: "z = (az, dz)" by (cases z)
  from seg snoc z have hz: "h az = Some (Node dz NULL)" "az \<noteq> NULL" "lseg h p ns' az"
    by (auto simp: lseg_append lseg_Cons)
  have ne: "az \<noteq> a" "az \<notin> set (addrs ns')" using lseg_distinct [OF seg] snoc z a by auto
  let ?h = "h(a \<mapsto> Node t NULL, az \<mapsto> Node dz a)"
  have "a \<notin> set (addrs ns')" using a snoc by auto
  then have "lseg ?h p (ns' @ [(az, dz), (a, t)]) NULL"
    using hz ne a by (simp add: lseg_append lseg_Cons)
  moreover have "set_next (h(a \<mapsto> Node t NULL)) (prev_addr ns) a = Inr ?h"
    using hz ne snoc z by simp
  moreover have "dom ?h = insert a (dom h)" using hz by auto
  ultimately show ?thesis using snoc z by auto
qed

section \<open>List lemmas\<close>

lemma filter_fst_neq:
  "distinct (addrs (xs @ (a, d) # ys)) \<Longrightarrow>
   filter (\<lambda>n. fst n \<noteq> a) (xs @ (a, d) # ys) = xs @ ys"
proof -
  assume "distinct (addrs (xs @ (a, d) # ys))"
  then have "\<forall>n\<in>set xs. fst n \<noteq> a" "\<forall>n\<in>set ys. fst n \<noteq> a" by force+
  then show ?thesis by simp
qed

lemma filter_fst_id: "a \<notin> set (addrs xs) \<Longrightarrow> filter (\<lambda>n. fst n \<noteq> a) xs = xs"
  by (rule filter_True) force

text \<open>Lists of lists: disjointness of two inner lists, and appending to one of them.\<close>

lemma distinct_concat_nth:
  "distinct (concat yss) \<Longrightarrow> i < length yss \<Longrightarrow> j < length yss \<Longrightarrow> i \<noteq> j \<Longrightarrow>
   set (yss ! i) \<inter> set (yss ! j) = {}"
proof (induction yss arbitrary: i j)
  case (Cons ys yss)
  have "set ys \<inter> set (yss ! k) = {}" if "k < length yss" for k
    using Cons.prems(1) that by (fastforce dest: nth_mem)
  with Cons show ?case by (cases i; cases j) auto
qed simp

lemma mset_concat_append_at:
  "i < length xss \<Longrightarrow>
   mset (concat (xss[i := xss ! i @ [x]])) = add_mset x (mset (concat xss))"
proof (induction xss arbitrary: i)
  case (Cons xs xss)
  then show ?case by (cases i) auto
qed simp

end
