(* ===== verification/ListSort.thy ===== *)
theory ListSort
  imports Prelude
begin

text \<open>
  The pointer bubble sort that the scheduler (\<^verbatim>\<open>SortExecutionList\<close>) and the data collector
  (\<^verbatim>\<open>Sort_Linked_List\<close>) both contain, statement for statement. The model keeps the five
  pointers \<open>start\<close>, \<open>p\<close>, \<open>q\<close>, \<open>r\<close>, \<open>s\<close> of the code and relinks structs on the heap. The
  result is proved to be the library's stable \<open>sort_key\<close> of the list that was linked there.
\<close>

section \<open>The code\<close>

text \<open>One turn of the inner loop: compare, relink or advance, then move the end marker.\<close>

definition sort_body ::
  "('a \<Rightarrow> 'k::linorder) \<Rightarrow> 'a heap \<Rightarrow> addr \<Rightarrow> addr \<Rightarrow> addr \<Rightarrow> addr \<Rightarrow> addr
     \<Rightarrow> ('a heap \<times> addr \<times> addr \<times> addr \<times> addr \<times> addr) res" where
  "sort_body key h start p q r s =
     rbind (deref h p) (\<lambda>np. rbind (deref h q) (\<lambda>nq.
     rbind (if key (dat np) > key (dat nq)
            then if p = start
                 then let temp = nxt nq in
                      rbind (set_next h q p) (\<lambda>h1.
                      rbind (set_next h1 p temp) (\<lambda>h2.
                      Inr (h2, q, p, q)))
                 else let temp = nxt nq in
                      rbind (set_next h q p) (\<lambda>h1.
                      rbind (set_next h1 p temp) (\<lambda>h2.
                      rbind (set_next h2 r q) (\<lambda>h3.
                      Inr (h3, start, p, q))))
            else Inr (h, start, nxt np, p))
     (\<lambda>(h', start', p', r').
     rbind (deref h' p') (\<lambda>np'.
       let q' = nxt np' in Inr (h', start', p', q', r', if q' = s then p' else s)))))"

partial_function (option) sort_inner ::
  "('a \<Rightarrow> 'k::linorder) \<Rightarrow> 'a heap \<Rightarrow> addr \<Rightarrow> addr \<Rightarrow> addr \<Rightarrow> addr \<Rightarrow> addr
     \<Rightarrow> ('a heap \<times> addr \<times> addr) run" where
  "sort_inner key h start p q r s =
     (if p = s then Some (Inr (h, start, s))
      else case sort_body key h start p q r s of
             Inl e \<Rightarrow> Some (Inl e)
           | Inr (h', start', p', q', r', s') \<Rightarrow> sort_inner key h' start' p' q' r' s')"

partial_function (option) sort_outer ::
  "('a \<Rightarrow> 'k::linorder) \<Rightarrow> 'a heap \<Rightarrow> addr \<Rightarrow> addr \<Rightarrow> ('a heap \<times> addr) run" where
  "sort_outer key h start s =
     (case deref h start of
        Inl e \<Rightarrow> Some (Inl e)
      | Inr nd \<Rightarrow>
          if s = nxt nd then Some (Inr (h, start))
          else case sort_inner key h start start (nxt nd) start s of
                 None \<Rightarrow> None
               | Some (Inl e) \<Rightarrow> Some (Inl e)
               | Some (Inr (h', start', s')) \<Rightarrow> sort_outer key h' start' s')"

text \<open>The sort key of a linked struct is that of its contents.\<close>

definition on_dat :: "('a \<Rightarrow> 'k) \<Rightarrow> addr \<times> 'a \<Rightarrow> 'k" where
  "on_dat key n = key (snd n)"

section \<open>One pass, on lists\<close>

text \<open>The list a pass produces: the first largest element sinks to the end.\<close>

fun bub :: "('b \<Rightarrow> 'k::linorder) \<Rightarrow> 'b \<Rightarrow> 'b list \<Rightarrow> 'b list" where
  "bub f x [] = [x]"
| "bub f x (y # ys) = (if f y < f x then y # bub f x ys else x # bub f y ys)"

text \<open>Two lists with the same elements, in the same order among equal keys.\<close>

definition stable_eq :: "('b \<Rightarrow> 'k) \<Rightarrow> 'b list \<Rightarrow> 'b list \<Rightarrow> bool" where
  "stable_eq f xs ys \<longleftrightarrow>
     mset xs = mset ys \<and> (\<forall>k. filter (\<lambda>x. f x = k) xs = filter (\<lambda>x. f x = k) ys)"

lemma stable_eq_refl [simp]: "stable_eq f xs xs"
  by (simp add: stable_eq_def)

lemma stable_eq_trans [trans]:
  "stable_eq f xs ys \<Longrightarrow> stable_eq f ys zs \<Longrightarrow> stable_eq f xs zs"
  by (simp add: stable_eq_def)

lemma stable_eq_append: "stable_eq f xs ys \<Longrightarrow> stable_eq f (xs @ zs) (ys @ zs)"
  by (simp add: stable_eq_def)

lemma stable_eq_set: "stable_eq f xs ys \<Longrightarrow> set xs = set ys"
  by (metis stable_eq_def set_mset_mset)

lemma stable_eq_length: "stable_eq f xs ys \<Longrightarrow> length xs = length ys"
  by (metis stable_eq_def size_mset)

lemma sorted_stable_eq: "stable_eq f zs xs \<Longrightarrow> sorted (map f zs) \<Longrightarrow> zs = sort_key f xs"
proof -
  assume *: "stable_eq f zs xs" "sorted (map f zs)"
  have "sort_key f xs = zs"
  proof (rule properties_for_sort_key)
    show "mset zs = mset xs" using * by (simp add: stable_eq_def)
    show "filter (\<lambda>x. f k = f x) zs = filter (\<lambda>x. f k = f x) xs" for k
      using * unfolding stable_eq_def eq_commute [of "f k"] by blast
    show "sorted (map f zs)" using * by simp
  qed
  then show ?thesis by simp
qed

lemma sort_key_stable_eq: "stable_eq f (sort_key f xs) xs"
  by (simp add: stable_eq_def sort_key_stable)

lemma bub_not_Nil [simp]: "bub f x ys \<noteq> []"
  by (cases ys) auto

lemma bub_stable: "stable_eq f (bub f x ys) (x # ys)"
  by (induction ys arbitrary: x) (auto simp: stable_eq_def)

lemma set_bub: "set (bub f x ys) = insert x (set ys)"
  using stable_eq_set [OF bub_stable, of f x ys] by simp

lemma bub_max: "z \<in> insert x (set ys) \<Longrightarrow> f z \<le> f (last (bub f x ys))"
proof (induction ys arbitrary: x z)
  case (Cons y ys)
  show ?case
  proof (cases "f y < f x")
    case True
    with Cons.prems Cons.IH [of x x] Cons.IH [of _ x] show ?thesis by fastforce
  next
    case False
    with Cons.prems Cons.IH [of y y] Cons.IH [of _ y] show ?thesis by fastforce
  qed
qed simp

section \<open>The inner loop is a pass\<close>

lemma body_keep:
  assumes seg: "lseg h start (pre @ x # y # rest) s"
    and s: "s \<notin> set (addrs (pre @ x # y # rest))"
    and key: "\<not> on_dat key y < on_dat key x"
  shows "sort_body key h start (fst x) (fst y) r s =
     Inr (h, start, fst y, first_addr rest s, fst x, if rest = [] then fst y else s)"
proof -
  from seg obtain n where hx: "h (fst x) = Some (Node (snd x) (fst y))" "fst x \<noteq> NULL"
    and hy: "h (fst y) = Some (Node (snd y) n)" "fst y \<noteq> NULL" and n: "lseg h n rest s"
    by (auto simp: lseg_append lseg_Cons)
  from s have "s \<notin> set (addrs rest)" by auto
  then have "first_addr rest s = s \<longleftrightarrow> rest = []" by (rule first_addr_eq_end)
  with hx hy key lseg_first_addr [OF n] show ?thesis
    by (simp add: sort_body_def Let_def on_dat_def)
qed

lemma body_swap:
  assumes seg: "lseg h start (pre @ x # y # rest) s"
    and dist: "distinct (addrs (pre @ x # y # rest))"
    and s: "s \<notin> set (addrs (pre @ x # y # rest))"
    and r: "pre \<noteq> [] \<Longrightarrow> r = fst (last pre)"
    and key: "on_dat key y < on_dat key x"
  shows "\<exists>h' start'. sort_body key h start (fst x) (fst y) r s =
       Inr (h', start', fst x, first_addr rest s, fst y, if rest = [] then fst x else s)
     \<and> lseg h' start' (pre @ y # x # rest) s
     \<and> (\<forall>a. a \<notin> set (addrs (pre @ x # y # rest)) \<longrightarrow> h' a = h a)"
proof -
  obtain ax dx ay dy where xy: "x = (ax, dx)" "y = (ay, dy)" by fastforce
  from seg obtain n where hx: "h ax = Some (Node dx ay)" "ax \<noteq> NULL"
    and hy: "h ay = Some (Node dy n)" "ay \<noteq> NULL" and n: "lseg h n rest s"
    and pre: "lseg h start pre ax"
    by (auto simp: xy lseg_append lseg_Cons)
  from s have "s \<notin> set (addrs rest)" by auto
  then have q: "n = s \<longleftrightarrow> rest = []" "n = first_addr rest s"
    using first_addr_eq_end lseg_first_addr [OF n] by metis+
  from dist xy have ne: "ax \<noteq> ay" "ax \<notin> set (addrs pre)" "ay \<notin> set (addrs pre)"
    "ax \<notin> set (addrs rest)" "ay \<notin> set (addrs rest)" by auto
  let ?h2 = "h(ay \<mapsto> Node dy ax, ax \<mapsto> Node dx n)"
  show ?thesis
  proof (cases pre rule: rev_cases)
    case Nil
    with pre have start: "start = ax" by simp
    have "sort_body key h start (fst x) (fst y) r s =
        Inr (?h2, ay, ax, n, ay, if n = s then ax else s)"
      using hx hy ne key start xy by (simp add: sort_body_def Let_def on_dat_def)
    moreover have "lseg ?h2 ay (y # x # rest) s"
      using hx hy ne n xy by (simp add: lseg_Cons)
    ultimately show ?thesis using Nil xy q by auto
  next
    case (snoc pre' z)
    obtain az dz where z: "z = (az, dz)" by (cases z)
    from pre snoc z have hz: "h az = Some (Node dz ax)" "az \<noteq> NULL" and pre': "lseg h start pre' az"
      by (auto simp: lseg_append lseg_Cons)
    from dist snoc z xy have nz: "az \<noteq> ax" "az \<noteq> ay" "az \<notin> set (addrs pre')"
      "az \<notin> set (addrs rest)" "ax \<notin> set (addrs pre')" "ay \<notin> set (addrs pre')" by auto
    have start: "ax \<noteq> start"
    proof
      assume "ax = start"
      with pre' have "first_addr pre' az = ax" using lseg_first_addr by metis
      with nz show False by (cases pre') auto
    qed
    let ?h3 = "?h2(az \<mapsto> Node dz ay)"
    have "r = az" using r snoc z by simp
    then have "sort_body key h start (fst x) (fst y) r s =
        Inr (?h3, start, ax, n, ay, if n = s then ax else s)"
      using hx hy hz ne nz key start xy by (simp add: sort_body_def Let_def on_dat_def)
    moreover have "lseg ?h3 start (pre' @ z # y # x # rest) s"
      using hx hy hz ne nz n pre' xy z by (simp add: lseg_Cons lseg_append)
    ultimately show ?thesis using snoc z xy q by auto
  qed
qed

lemma sort_inner_pass:
  assumes "lseg h start (pre @ x # y # rest) s"
    and "distinct (addrs (pre @ x # y # rest))"
    and "s \<notin> set (addrs (pre @ x # y # rest))"
    and "pre \<noteq> [] \<Longrightarrow> r = fst (last pre)"
  shows "\<exists>h' start'. sort_inner key h start (fst x) (fst y) r s =
       Some (Inr (h', start', fst (last (bub (on_dat key) x (y # rest)))))
     \<and> lseg h' start' (pre @ bub (on_dat key) x (y # rest)) s
     \<and> (\<forall>a. a \<notin> set (addrs (pre @ x # y # rest)) \<longrightarrow> h' a = h a)"
  using assms
proof (induction rest arbitrary: h start pre x y r)
  case Nil
  from Nil.prems(3) have ns: "fst x \<noteq> s" by auto
  show ?case
  proof (cases "on_dat key y < on_dat key x")
    case True
    from body_swap [OF Nil.prems True] obtain h' start' where b:
      "sort_body key h start (fst x) (fst y) r s = Inr (h', start', fst x, s, fst y, fst x)"
      "lseg h' start' (pre @ y # [x]) s"
      "\<forall>a. a \<notin> set (addrs (pre @ x # [y])) \<longrightarrow> h' a = h a" by auto
    with ns True show ?thesis
      by (auto simp: sort_inner.simps [of key h] sort_inner.simps [of key h'])
  next
    case False
    with body_keep [OF Nil.prems(1,3) False] Nil.prems(1) ns show ?thesis
      by (auto simp: sort_inner.simps [of key h start "fst x"]
          sort_inner.simps [of key h start "fst y"])
  qed
next
  case (Cons z rest)
  from Cons.prems(3) have ns: "fst x \<noteq> s" by auto
  show ?case
  proof (cases "on_dat key y < on_dat key x")
    case True
    from body_swap [OF Cons.prems True] obtain h1 st1 where b:
      "sort_body key h start (fst x) (fst y) r s = Inr (h1, st1, fst x, fst z, fst y, s)"
      "lseg h1 st1 ((pre @ [y]) @ x # z # rest) s"
      "\<forall>a. a \<notin> set (addrs (pre @ x # y # z # rest)) \<longrightarrow> h1 a = h a" by auto
    have "distinct (addrs ((pre @ [y]) @ x # z # rest))" "s \<notin> set (addrs ((pre @ [y]) @ x # z # rest))"
      using Cons.prems(2,3) by auto
    then obtain h' start' where ih:
      "sort_inner key h1 st1 (fst x) (fst z) (fst y) s =
         Some (Inr (h', start', fst (last (bub (on_dat key) x (z # rest)))))"
      "lseg h' start' ((pre @ [y]) @ bub (on_dat key) x (z # rest)) s"
      "\<forall>a. a \<notin> set (addrs ((pre @ [y]) @ x # z # rest)) \<longrightarrow> h' a = h1 a"
      using Cons.IH [OF b(2), of "fst y"] by (metis last_snoc)
    have "sort_inner key h start (fst x) (fst y) r s =
         Some (Inr (h', start', fst (last (bub (on_dat key) x (z # rest)))))"
      using ns b(1) ih(1) by (subst sort_inner.simps) simp
    with True ih b(3) show ?thesis by auto
  next
    case False
    have b: "sort_body key h start (fst x) (fst y) r s = Inr (h, start, fst y, fst z, fst x, s)"
      using body_keep [OF Cons.prems(1,3) False] by simp
    have "lseg h start ((pre @ [x]) @ y # z # rest) s" "distinct (addrs ((pre @ [x]) @ y # z # rest))"
      "s \<notin> set (addrs ((pre @ [x]) @ y # z # rest))" using Cons.prems(1-3) by auto
    then obtain h' start' where ih:
      "sort_inner key h start (fst y) (fst z) (fst x) s =
         Some (Inr (h', start', fst (last (bub (on_dat key) y (z # rest)))))"
      "lseg h' start' ((pre @ [x]) @ bub (on_dat key) y (z # rest)) s"
      "\<forall>a. a \<notin> set (addrs ((pre @ [x]) @ y # z # rest)) \<longrightarrow> h' a = h a"
      using Cons.IH [of h start "pre @ [x]" y z "fst x"] by (metis last_snoc)
    have "sort_inner key h start (fst x) (fst y) r s =
         Some (Inr (h', start', fst (last (bub (on_dat key) y (z # rest)))))"
      using ns b ih(1) by (subst sort_inner.simps) simp
    with False ih show ?thesis by auto
  qed
qed

section \<open>The whole sort\<close>

text \<open>
  Between passes the list is \<open>xs @ ts\<close>: \<open>xs\<close> still to sort, \<open>ts\<close> sorted and at least as
  large, and the end marker \<open>s\<close> points at the first struct of \<open>ts\<close>.
\<close>

lemma sort_outer_step:
  assumes seg: "lseg h start (xs @ ts) NULL" and xs: "xs = x # y # rest"
    and s: "s = first_addr ts NULL" and B: "B = bub (on_dat key) x (y # rest)"
  shows "\<exists>h1 st1. sort_outer key h start s = sort_outer key h1 st1 (fst (last B))
     \<and> lseg h1 st1 (B @ ts) NULL \<and> (\<forall>a. a \<notin> set (addrs xs) \<longrightarrow> h1 a = h a)"
proof -
  note dist = lseg_distinct [OF seg]
  from seg s have sx: "lseg h start xs s" and ts: "lseg h s ts NULL"
    using lseg_first_addr by (auto simp: lseg_append)
  then have hx: "start = fst x" "start \<noteq> NULL" "h start = Some (Node (snd x) (fst y))"
    by (auto simp: lseg_Cons xs)
  have s_notin: "s \<notin> set (addrs xs)"
    using dist s lseg_NULL_notin [OF seg] by (cases ts) auto
  then have ne: "s \<noteq> fst y" by (auto simp: xs)
  obtain h1 st1 where p: "sort_inner key h (fst x) (fst x) (fst y) (fst x) s =
       Some (Inr (h1, st1, fst (last B)))" "lseg h1 st1 B s"
    "\<forall>a. a \<notin> set (addrs xs) \<longrightarrow> h1 a = h a"
    using sort_inner_pass [of h start "[]" x y rest s start key] sx dist s_notin hx(1)
    by (auto simp: xs B simp del: bub.simps)
  have "h a = h1 a" if "a \<in> set (addrs ts)" for a
  proof -
    have "a \<notin> set (addrs xs)" using that dist by auto
    then show ?thesis using p(3) by simp
  qed
  then have "lseg h s ts NULL = lseg h1 s ts NULL" by (rule lseg_cong)
  with ts p(2) have "lseg h1 st1 (B @ ts) NULL" by (auto simp: lseg_append)
  moreover have "sort_outer key h start s = sort_outer key h1 st1 (fst (last B))"
    using hx ne p(1) by (subst sort_outer.simps) simp
  ultimately show ?thesis using p(3) by blast
qed

text \<open>What the pass does to the ordering part of the invariant.\<close>

lemma pass_ordered:
  assumes B: "B = bub f x ys" and xs: "xs = x # ys"
    and srt: "sorted (map f ts)" and le: "\<forall>x\<in>set xs. \<forall>t\<in>set ts. f x \<le> f t"
  shows "sorted (map f (last B # ts))"
    and "\<forall>z\<in>set (butlast B). \<forall>t\<in>set (last B # ts). f z \<le> f t"
    and "B = butlast B @ [last B]" and "length B = length xs" and "set B = set xs"
proof -
  show sp: "B = butlast B @ [last B]" by (simp add: B)
  show len: "length B = length xs" using stable_eq_length [OF bub_stable, of f x ys] by (simp add: B xs)
  show st: "set B = set xs" by (simp add: B xs set_bub)
  have last: "last B \<in> set xs" using last_in_set [of B] st B bub_not_Nil by metis
  then show "sorted (map f (last B # ts))" using srt le by auto
  have "f z \<le> f (last B)" if "z \<in> set xs" for z using that bub_max [of z x ys f] by (simp add: B xs)
  moreover have "set (butlast B) \<subseteq> set xs" using in_set_butlastD [of _ B] st by blast
  ultimately show "\<forall>z\<in>set (butlast B). \<forall>t\<in>set (last B # ts). f z \<le> f t"
    using le by auto
qed

lemma sort_key_cong_stable: "stable_eq f xs ys \<Longrightarrow> sort_key f xs = sort_key f ys"
  by (rule sorted_stable_eq) (auto intro: stable_eq_trans sort_key_stable_eq)

lemma sort_outer_passes:
  assumes "lseg h start (xs @ ts) NULL" and "xs \<noteq> []" and "s = first_addr ts NULL"
    and "sorted (map (on_dat key) ts)"
    and "\<forall>x\<in>set xs. \<forall>t\<in>set ts. on_dat key x \<le> on_dat key t"
  shows "\<exists>h' start'. sort_outer key h start s = Some (Inr (h', start'))
     \<and> lseg h' start' (sort_key (on_dat key) (xs @ ts)) NULL
     \<and> (\<forall>a. a \<notin> set (addrs (xs @ ts)) \<longrightarrow> h' a = h a)"
  using assms
proof (induction "length xs" arbitrary: xs ts h start s rule: less_induct)
  case less
  let ?f = "on_dat key"
  from less.prems(2) obtain x xs' where x: "xs = x # xs'" by (cases xs) auto
  show ?case
  proof (cases xs')
    case Nil
    with less.prems(1,3) x have "sort_outer key h start s = Some (Inr (h, start))"
      using lseg_first_addr by (subst sort_outer.simps) (fastforce simp: lseg_Cons)
    moreover have "sort_key ?f (xs @ ts) = xs @ ts"
      using less.prems(4,5) x Nil by (intro sorted_stable_eq [symmetric]) auto
    ultimately show ?thesis using less.prems(1) by auto
  next
    case (Cons y rest)
    define B where "B = bub ?f x (y # rest)"
    have xs: "xs = x # y # rest" using x Cons by simp
    obtain h1 st1 where st: "sort_outer key h start s = sort_outer key h1 st1 (fst (last B))"
      "lseg h1 st1 (B @ ts) NULL" "\<forall>a. a \<notin> set (addrs xs) \<longrightarrow> h1 a = h a"
      using sort_outer_step [OF less.prems(1) xs less.prems(3) B_def] by blast
    note po = pass_ordered [OF B_def xs less.prems(4,5)]
    have eq: "butlast B @ last B # ts = B @ ts" using po(3) by (metis append_Cons append_Nil append_assoc)
    have "length (butlast B) < length xs" "butlast B \<noteq> []"
      using po(4) xs by (auto simp flip: length_greater_0_conv)
    then obtain h' start' where fin: "sort_outer key h1 st1 (fst (last B)) = Some (Inr (h', start'))"
      "lseg h' start' (sort_key ?f (B @ ts)) NULL" "\<forall>a. a \<notin> set (addrs (B @ ts)) \<longrightarrow> h' a = h1 a"
      using less.hyps [of "butlast B" h1 st1 "last B # ts" "fst (last B)"] st(2) po(1,2)
      unfolding eq by auto
    have "stable_eq ?f (B @ ts) (xs @ ts)" unfolding B_def xs by (intro stable_eq_append bub_stable)
    then have "sort_key ?f (B @ ts) = sort_key ?f (xs @ ts)" by (rule sort_key_cong_stable)
    with fin(2) have "lseg h' start' (sort_key ?f (xs @ ts)) NULL" by simp
    then show ?thesis using st fin(1,3) po(5) by auto
  qed
qed

lemma sort_outer_correct:
  assumes "lseg h start xs NULL" and "xs \<noteq> []"
  shows "\<exists>h' start'. sort_outer key h start NULL = Some (Inr (h', start'))
     \<and> lseg h' start' (sort_key (on_dat key) xs) NULL
     \<and> (\<forall>a. a \<notin> set (addrs xs) \<longrightarrow> h' a = h a)"
  using sort_outer_passes [of h start xs "[]" NULL key] assms by auto

lemma map_snd_insort: "map snd (insort_key (on_dat f) x xs) = insort_key f (snd x) (map snd xs)"
  by (induction xs) (auto simp: on_dat_def)

lemma map_snd_sort: "map snd (sort_key (on_dat f) xs) = sort_key f (map snd xs)"
  by (induction xs) (auto simp: map_snd_insort)

end
