(* ===== verification/SchedTypes.thy ===== *)
theory SchedTypes
  imports Prelude
begin

text \<open>
  Data of the task scheduler (\<^verbatim>\<open>src/Common/NASCenter_Scheduler.h\<close> and the local structs of
  \<^verbatim>\<open>NASCenter_Scheduler.c\<close>): tasks, the 25-slot master table, the execution list, the
  scheduler's globals, and the two validation functions that read the clock.
  C enums are ints, as in the code, because callers may pass values outside the enum and
  \<^verbatim>\<open>ValidateTask\<close> checks for them. UI16 and UI32 are words of 16 and 32 bits.
\<close>

section \<open>Constants and enums\<close>

type_synonym UI16 = "16 word"
type_synonym UI32 = "32 word"

abbreviation (input) MASTER_ARR_SIZE :: nat where "MASTER_ARR_SIZE \<equiv> 25"
abbreviation (input) EVERY_HOUR_TASK :: nat where "EVERY_HOUR_TASK \<equiv> 24"
abbreviation (input) NO_SECS_IN_HOUR :: int where "NO_SECS_IN_HOUR \<equiv> 3600"
abbreviation (input) NO_SECS_IN_MIN :: int where "NO_SECS_IN_MIN \<equiv> 60"
abbreviation (input) NO_SECS_IN_DAY :: int where "NO_SECS_IN_DAY \<equiv> 86400"
abbreviation (input) NO_HOUR_IN_DAY :: int where "NO_HOUR_IN_DAY \<equiv> 24"
abbreviation (input) NO_MINS_IN_HOUR :: int where "NO_MINS_IN_HOUR \<equiv> 60"
abbreviation (input) CHECK_STATUS_TIME :: int where "CHECK_STATUS_TIME \<equiv> 6"

abbreviation (input) SCH_ONE_SHOT :: int where "SCH_ONE_SHOT \<equiv> 0"
abbreviation (input) SCH_PERIODIC :: int where "SCH_PERIODIC \<equiv> 1"

abbreviation (input) SCH_SEC_MIN_HOUR :: int where "SCH_SEC_MIN_HOUR \<equiv> 0"
abbreviation (input) SCH_DAY :: int where "SCH_DAY \<equiv> 1"
abbreviation (input) SCH_WEEK :: int where "SCH_WEEK \<equiv> 2"
abbreviation (input) SCH_MONTH :: int where "SCH_MONTH \<equiv> 3"

abbreviation (input) SCH_SUN :: int where "SCH_SUN \<equiv> 0"
abbreviation (input) SCH_SAT :: int where "SCH_SAT \<equiv> 6"
abbreviation (input) SCH_ALL_DAYS :: int where "SCH_ALL_DAYS \<equiv> 7"

datatype ENASCenterError =
    NASC_FAILURE | NASC_SUCCESS | NASC_INVALID_PARAM | NASC_INSUFFICIENT_MEMORY
  | NASC_TIMEOUT | NASC_ILLEGAL_OPERATION | NASC_SOCK_CREATION_FAILED
  | NASC_FILE_TRANS_IGNORE_ERROR | NASC_FILE_TRANS_CONN_CLOSED | NASC_FILE_TRANS_TIME_OUT

fun err_code :: "ENASCenterError \<Rightarrow> int" where
  "err_code NASC_FAILURE = 0"
| "err_code NASC_SUCCESS = 1"
| "err_code NASC_INVALID_PARAM = 2"
| "err_code NASC_INSUFFICIENT_MEMORY = 3"
| "err_code NASC_TIMEOUT = 4"
| "err_code NASC_ILLEGAL_OPERATION = 5"
| "err_code NASC_SOCK_CREATION_FAILED = 6"
| "err_code NASC_FILE_TRANS_IGNORE_ERROR = 7"
| "err_code NASC_FILE_TRANS_CONN_CLOSED = 8"
| "err_code NASC_FILE_TRANS_TIME_OUT = 9"

datatype eValidateDateTime = SCH_DATE_ONLY | SCH_TIME_ONLY | SCH_BOTH

section \<open>Structs\<close>

record stDate =
  ui16Day :: UI16
  ui16Month :: UI16
  ui16Year :: UI16

record stTime =
  ui16Hour :: UI16
  ui16Minute :: UI16
  ui16Second :: UI16

text \<open>A callback is its function pointer; its argument is the pointer passed to it.\<close>

record stTask =
  StartDate :: stDate
  EndDate :: stDate
  StartTime :: stTime
  EndTime :: stTime
  eType :: int
  ePCity :: int
  ui32Interval :: UI32
  eWeekDay :: int
  fp :: addr
  vpArg :: addr

record stMasterTable =
  pHeadMasterData :: addr
  pTailMasterData :: addr
  nSize :: int

record stExecuteTask =
  xfp :: addr
  xvpArg :: addr
  xInterval :: UI32

record stExecutionList =
  pHeadExecData :: addr
  pTailExecData :: addr
  nExecSize :: int

text \<open>The fields of \<^verbatim>\<open>struct tm\<close> the scheduler reads from \<^verbatim>\<open>localtime\<close>, with their ranges.\<close>

record tm =
  tm_sec :: int
  tm_min :: int
  tm_hour :: int
  tm_mday :: int
  tm_mon :: int
  tm_year :: int
  tm_wday :: int

definition tm_ok :: "tm \<Rightarrow> bool" where
  "tm_ok t \<longleftrightarrow> 0 \<le> tm_sec t \<and> tm_sec t \<le> 60 \<and> 0 \<le> tm_min t \<and> tm_min t \<le> 59
     \<and> 0 \<le> tm_hour t \<and> tm_hour t \<le> 23 \<and> 1 \<le> tm_mday t \<and> tm_mday t \<le> 31
     \<and> 0 \<le> tm_mon t \<and> tm_mon t \<le> 11 \<and> 0 \<le> tm_wday t \<and> tm_wday t \<le> 6"

text \<open>
  The globals of the module. The two list types live in two heaps: a master node and an
  execution node are never the same object.
\<close>

record sched =
  mheap :: "stTask heap"
  gSchMasterTable :: "stMasterTable list"
  gbTaskChanged :: bool
  gbStopScheduler :: bool
  eheap :: "stExecuteTask heap"
  gExecList :: stExecutionList

section \<open>Validation\<close>

text \<open>The comparison of a date with today's, written out twice in the code.\<close>

definition date_before :: "stDate \<Rightarrow> tm \<Rightarrow> bool" where
  "date_before d pTime \<longleftrightarrow>
     uint (ui16Year d) < tm_year pTime + 1900
   \<or> (uint (ui16Year d) = tm_year pTime + 1900 \<and> uint (ui16Month d) < tm_mon pTime)
   \<or> (uint (ui16Year d) = tm_year pTime + 1900 \<and> uint (ui16Month d) = tm_mon pTime
        \<and> uint (ui16Day d) < tm_mday pTime)"

definition ValidateTask :: "tm \<Rightarrow> stTask \<Rightarrow> ENASCenterError" where
  "ValidateTask pTime task =
    (if date_before (StartDate task) pTime \<and> eType task \<noteq> SCH_PERIODIC then NASC_FAILURE
     else if (uint (ui16Hour (StartTime task)) > NO_HOUR_IN_DAY - 1
              \<or> uint (ui16Minute (StartTime task)) > NO_MINS_IN_HOUR - 1
              \<or> uint (ui16Second (StartTime task)) > NO_SECS_IN_MIN - 1)
             \<and> eType task \<noteq> SCH_PERIODIC then NASC_FAILURE
     else if eType task \<noteq> SCH_ONE_SHOT \<and> eType task \<noteq> SCH_PERIODIC then NASC_FAILURE
     else if ePCity task = SCH_SEC_MIN_HOUR
             \<and> (ui32Interval task = 0 \<or> uint (ui32Interval task) > NO_SECS_IN_DAY) then NASC_FAILURE
     else if ePCity task = SCH_SEC_MIN_HOUR
             \<and> (eWeekDay task < SCH_SUN \<or> eWeekDay task > SCH_ALL_DAYS) then NASC_FAILURE
     else if ePCity task = SCH_SEC_MIN_HOUR \<and> eType task \<noteq> SCH_PERIODIC then NASC_FAILURE
     else if ePCity task = SCH_DAY
             \<and> (eWeekDay task < SCH_SUN \<or> eWeekDay task > SCH_ALL_DAYS) then NASC_FAILURE
     else if (ePCity task = SCH_WEEK \<or> ePCity task = SCH_MONTH)
             \<and> (eWeekDay task < SCH_SUN \<or> eWeekDay task > SCH_SAT) then NASC_FAILURE
     else NASC_SUCCESS)"

definition ValidateDateTime ::
  "tm \<Rightarrow> stDate \<Rightarrow> stTime \<Rightarrow> eValidateDateTime \<Rightarrow> ENASCenterError" where
  "ValidateDateTime pTime inDate inTime eVDTFlag =
    (let bValidDate = (if eVDTFlag = SCH_DATE_ONLY \<or> eVDTFlag = SCH_BOTH
                       then \<not> date_before inDate pTime else True);
         i32TimeInSec = uint (ui16Hour inTime) * NO_SECS_IN_HOUR
                        + uint (ui16Minute inTime) * NO_SECS_IN_MIN + uint (ui16Second inTime);
         i32CurrTimeInSec = tm_hour pTime * NO_SECS_IN_HOUR + tm_min pTime * NO_SECS_IN_MIN
                            + tm_sec pTime;
         bValidTime = (if eVDTFlag = SCH_TIME_ONLY \<or> eVDTFlag = SCH_BOTH
                       then \<not> i32TimeInSec < i32CurrTimeInSec else True)
     in if eVDTFlag = SCH_DATE_ONLY
        then (if bValidDate = False then NASC_FAILURE else NASC_SUCCESS)
        else if eVDTFlag = SCH_TIME_ONLY
        then (if bValidTime = False then NASC_FAILURE else NASC_SUCCESS)
        else (if bValidDate = False \<and> bValidTime = False then NASC_FAILURE else NASC_SUCCESS))"

section \<open>Calendar order\<close>

text \<open>
  The specification the date comparison refines: dates ordered by year, then month, then
  day, as an instance of the library's linear orders.
\<close>

datatype cdate = CDate (cyear: int) (cmonth: int) (cday: int)

instantiation cdate :: linorder
begin

definition less_cdate :: "cdate \<Rightarrow> cdate \<Rightarrow> bool" where
  "less_cdate a b \<longleftrightarrow> cyear a < cyear b \<or> cyear a = cyear b \<and>
     (cmonth a < cmonth b \<or> cmonth a = cmonth b \<and> cday a < cday b)"

definition less_eq_cdate :: "cdate \<Rightarrow> cdate \<Rightarrow> bool" where
  "less_eq_cdate a b \<longleftrightarrow> a < b \<or> a = (b::cdate)"

instance
  by standard (auto simp: less_cdate_def less_eq_cdate_def intro: cdate.expand)

end

definition date_of :: "stDate \<Rightarrow> cdate" where
  "date_of d = CDate (uint (ui16Year d)) (uint (ui16Month d)) (uint (ui16Day d))"

definition today :: "tm \<Rightarrow> cdate" where
  "today t = CDate (tm_year t + 1900) (tm_mon t) (tm_mday t)"

lemma date_before_less: "date_before d t \<longleftrightarrow> date_of d < today t"
  by (auto simp: date_before_def less_cdate_def date_of_def today_def)

lemma ValidateDateTime_date:
  "ValidateDateTime t d tim SCH_DATE_ONLY = NASC_FAILURE \<longleftrightarrow> date_of d < today t"
  by (simp add: ValidateDateTime_def date_before_less)

lemma ValidateTask_cases:
  "ValidateTask t task = NASC_SUCCESS \<or> ValidateTask t task = NASC_FAILURE"
  by (simp add: ValidateTask_def)

end
