(* ===== verification/SchedMaster.thy ===== *)
theory SchedMaster
  imports SchedTypes
begin

text \<open>
  The master table of the scheduler (\<^verbatim>\<open>src/Common/NASCenter_Scheduler.c\<close>): 25 linked lists of
  tasks, one per hour of the day and one for the tasks of every hour. Each list is kept by
  its head pointer, tail pointer and size; a task id is the address of its node. The
  operations here run with \<^verbatim>\<open>gMasterTable_mutex\<close> held from their first access to their last,
  so each is one step of the model.
\<close>

section \<open>Operations\<close>

definition InitMasterTable :: "sched \<Rightarrow> sched" where
  "InitMasterTable s = s\<lparr>gSchMasterTable :=
     replicate MASTER_ARR_SIZE \<lparr>pHeadMasterData = NULL, pTailMasterData = NULL, nSize = 0\<rparr>\<rparr>"

text \<open>
  The common part of \<^verbatim>\<open>SCH_AddTask\<close> after the switch has chosen the list: \<open>i\<close> is the index
  of the list, which the code takes from the task without checking it against the array.
\<close>

definition add_to_slot :: "stTask allocator \<Rightarrow> nat \<Rightarrow> stTask \<Rightarrow> sched \<Rightarrow> (int \<times> sched) res" where
  "add_to_slot malloc i task s =
    (if i \<ge> length (gSchMasterTable s) then Inl (OutOfBounds (int i))
     else let newNode = malloc (mheap s) in
       if newNode = NULL then Inr (-1, s)
       else let sl = gSchMasterTable s ! i;
                h = (mheap s)(newNode \<mapsto> Node task NULL) in
         rbind (if pHeadMasterData sl = NULL
                then Inr (h, sl\<lparr>pHeadMasterData := newNode\<rparr>)
                else rbind (set_next h (pTailMasterData sl) newNode) (\<lambda>h'. Inr (h', sl)))
         (\<lambda>(h', sl'). Inr (int newNode,
            s\<lparr>mheap := h',
              gSchMasterTable := (gSchMasterTable s)
                [i := sl'\<lparr>pTailMasterData := newNode, nSize := nSize sl' + 1\<rparr>],
              gbTaskChanged := True\<rparr>)))"

definition SCH_AddTask :: "stTask allocator \<Rightarrow> tm \<Rightarrow> stTask \<Rightarrow> sched \<Rightarrow> (int \<times> sched) res" where
  "SCH_AddTask malloc now task s =
    (if ValidateTask now task \<noteq> NASC_SUCCESS then Inr (-1, s)
     else if ePCity task = SCH_SEC_MIN_HOUR then add_to_slot malloc EVERY_HOUR_TASK task s
     else if ePCity task = SCH_DAY \<or> ePCity task = SCH_WEEK \<or> ePCity task = SCH_MONTH
     then add_to_slot malloc (unat (ui16Hour (StartTime task))) task s
     else Inr (-1, s))"

text \<open>
  Taking the node \<open>pCurrent\<close> out of its list: the block that \<^verbatim>\<open>SCH_DeleteTask\<close> and
  \<^verbatim>\<open>SCH_AutoCleanTask\<close> both contain. Returns the heap, the list and the node's successor
  read before the node is freed (used by the cleaning loop).
\<close>

definition unlink_master ::
  "stTask heap \<Rightarrow> stMasterTable \<Rightarrow> addr \<Rightarrow> addr \<Rightarrow> (stTask heap \<times> stMasterTable \<times> addr) res" where
  "unlink_master h sl pPrevious pCurrent =
    rbind (deref h pCurrent) (\<lambda>cur.
    rbind (if pPrevious \<noteq> NULL then
             rbind (set_next h pPrevious (nxt cur)) (\<lambda>h'.
               Inr (h', if nxt cur = NULL then sl\<lparr>pTailMasterData := pPrevious\<rparr> else sl))
           else if nxt cur = NULL then
             Inr (h, sl\<lparr>pHeadMasterData := NULL, pTailMasterData := NULL\<rparr>)
           else Inr (h, sl\<lparr>pHeadMasterData := nxt cur\<rparr>))
    (\<lambda>(h', sl'). rbind (free_node h' pCurrent) (\<lambda>h''.
      Inr (h'', sl'\<lparr>nSize := nSize sl' - 1\<rparr>, nxt cur))))"

text \<open>The while loop of \<^verbatim>\<open>SCH_DeleteTask\<close> over one list; the flag is \<open>bFound\<close>.\<close>

partial_function (option) delete_walk ::
  "int \<Rightarrow> stTask heap \<Rightarrow> stMasterTable \<Rightarrow> addr \<Rightarrow> addr
     \<Rightarrow> (stTask heap \<times> stMasterTable \<times> bool) run" where
  "delete_walk lTaskId h sl pPrevious pCurrent =
    (if pCurrent = NULL then Some (Inr (h, sl, False))
     else if lTaskId = int pCurrent then
       Some (rbind (unlink_master h sl pPrevious pCurrent) (\<lambda>(h', sl', _). Inr (h', sl', True)))
     else case deref h pCurrent of
            Inl e \<Rightarrow> Some (Inl e)
          | Inr nd \<Rightarrow> delete_walk lTaskId h sl pCurrent (nxt nd))"

text \<open>The for loop over the lists, which stops at the one that held the task.\<close>

fun delete_slots ::
  "int \<Rightarrow> stTask heap \<Rightarrow> stMasterTable list \<Rightarrow> (stTask heap \<times> stMasterTable list \<times> bool) run" where
  "delete_slots lTaskId h [] = Some (Inr (h, [], False))"
| "delete_slots lTaskId h (sl # sls) =
     (if pHeadMasterData sl = NULL
      then obind (delete_slots lTaskId h sls) (\<lambda>(h', sls', b). Some (Inr (h', sl # sls', b)))
      else obind (delete_walk lTaskId h sl NULL (pHeadMasterData sl)) (\<lambda>(h', sl', bFound).
        if bFound then Some (Inr (h', sl' # sls, True))
        else obind (delete_slots lTaskId h' sls) (\<lambda>(h'', sls', b). Some (Inr (h'', sl' # sls', b)))))"

definition SCH_DeleteTask :: "int \<Rightarrow> sched \<Rightarrow> (ENASCenterError \<times> sched) run" where
  "SCH_DeleteTask lTaskId s =
     obind (delete_slots lTaskId (mheap s) (gSchMasterTable s)) (\<lambda>(h, tab, bFound).
       Some (Inr (if bFound then NASC_SUCCESS else NASC_FAILURE,
                  s\<lparr>mheap := h, gSchMasterTable := tab\<rparr>)))"

definition SCH_ModifyTask ::
  "stTask allocator \<Rightarrow> tm \<Rightarrow> int \<Rightarrow> stTask \<Rightarrow> sched \<Rightarrow> (int \<times> sched) run" where
  "SCH_ModifyTask malloc now lTaskId task s =
     obind (SCH_DeleteTask lTaskId s) (\<lambda>(bFound, s').
       if err_code bFound \<noteq> 0 then lift_res (SCH_AddTask malloc now task s')
       else Some (Inr (-1, s')))"

partial_function (option) get_walk :: "int \<Rightarrow> stTask heap \<Rightarrow> addr \<Rightarrow> stTask option run" where
  "get_walk lTaskId h pCurrent =
    (if pCurrent = NULL then Some (Inr None)
     else case deref h pCurrent of
            Inl e \<Rightarrow> Some (Inl e)
          | Inr nd \<Rightarrow> if lTaskId = int pCurrent then Some (Inr (Some (dat nd)))
                      else get_walk lTaskId h (nxt nd))"

fun get_slots :: "int \<Rightarrow> stTask heap \<Rightarrow> stMasterTable list \<Rightarrow> stTask option run" where
  "get_slots lTaskId h [] = Some (Inr None)"
| "get_slots lTaskId h (sl # sls) =
     (if pHeadMasterData sl = NULL then get_slots lTaskId h sls
      else obind (get_walk lTaskId h (pHeadMasterData sl)) (\<lambda>r.
        case r of Some task \<Rightarrow> Some (Inr (Some task)) | None \<Rightarrow> get_slots lTaskId h sls))"

text \<open>The task is copied to the caller only when found.\<close>

definition SCH_GetTask :: "int \<Rightarrow> sched \<Rightarrow> (ENASCenterError \<times> stTask option) run" where
  "SCH_GetTask lTaskId s =
     obind (get_slots lTaskId (mheap s) (gSchMasterTable s)) (\<lambda>r.
       Some (Inr (case r of Some task \<Rightarrow> (NASC_SUCCESS, Some task) | None \<Rightarrow> (NASC_FAILURE, None))))"

text \<open>
  The cleaning loop over one list. \<^verbatim>\<open>ValidateDateTime\<close> reads the clock at every call: \<open>clk k\<close>
  is the k-th reading. A ONE\_SHOT task that has not expired leaves \<open>pCurrent\<close> unchanged, as
  in the code.
\<close>

partial_function (option) autoclean_walk ::
  "(nat \<Rightarrow> tm) \<Rightarrow> nat \<Rightarrow> stTask heap \<Rightarrow> stMasterTable \<Rightarrow> addr \<Rightarrow> addr
     \<Rightarrow> (nat \<times> stTask heap \<times> stMasterTable) run" where
  "autoclean_walk clk k h sl pPrevious pCurrent =
    (if pCurrent = NULL then Some (Inr (k, h, sl))
     else case deref h pCurrent of
       Inl e \<Rightarrow> Some (Inl e)
     | Inr nd \<Rightarrow>
         if eType (dat nd) = SCH_ONE_SHOT then
           (if ValidateDateTime (clk k) (StartDate (dat nd)) (StartTime (dat nd)) SCH_DATE_ONLY
                 = NASC_FAILURE
            then (case unlink_master h sl pPrevious pCurrent of
                    Inl e \<Rightarrow> Some (Inl e)
                  | Inr (h', sl', pTemp) \<Rightarrow> autoclean_walk clk (Suc k) h' sl' pPrevious pTemp)
            else autoclean_walk clk (Suc k) h sl pPrevious pCurrent)
         else autoclean_walk clk k h sl pCurrent (nxt nd))"

fun autoclean_slots ::
  "(nat \<Rightarrow> tm) \<Rightarrow> nat \<Rightarrow> stTask heap \<Rightarrow> stMasterTable list
     \<Rightarrow> (nat \<times> stTask heap \<times> stMasterTable list) run" where
  "autoclean_slots clk k h [] = Some (Inr (k, h, []))"
| "autoclean_slots clk k h (sl # sls) =
     (if pHeadMasterData sl = NULL
      then obind (autoclean_slots clk k h sls) (\<lambda>(k', h', sls'). Some (Inr (k', h', sl # sls')))
      else obind (autoclean_walk clk k h sl NULL (pHeadMasterData sl)) (\<lambda>(k', h', sl').
           obind (autoclean_slots clk k' h' sls) (\<lambda>(k'', h'', sls').
             Some (Inr (k'', h'', sl' # sls')))))"

definition SCH_AutoCleanTask :: "(nat \<Rightarrow> tm) \<Rightarrow> sched \<Rightarrow> sched run" where
  "SCH_AutoCleanTask clk s =
     obind (autoclean_slots clk 0 (mheap s) (gSchMasterTable s)) (\<lambda>(_, h, tab).
       Some (Inr (s\<lparr>mheap := h, gSchMasterTable := tab\<rparr>)))"

partial_function (option) clear_walk ::
  "stTask heap \<Rightarrow> stMasterTable \<Rightarrow> (stTask heap \<times> stMasterTable) run" where
  "clear_walk h sl =
    (if pHeadMasterData sl = NULL then Some (Inr (h, sl))
     else case deref h (pHeadMasterData sl) of
            Inl e \<Rightarrow> Some (Inl e)
          | Inr nd \<Rightarrow>
              (case free_node h (pHeadMasterData sl) of
                 Inl e \<Rightarrow> Some (Inl e)
               | Inr h' \<Rightarrow> clear_walk h' (sl\<lparr>nSize := nSize sl - 1, pHeadMasterData := nxt nd\<rparr>)))"

fun clear_slots ::
  "stTask heap \<Rightarrow> stMasterTable list \<Rightarrow> (stTask heap \<times> stMasterTable list) run" where
  "clear_slots h [] = Some (Inr (h, []))"
| "clear_slots h (sl # sls) =
     (if pHeadMasterData sl = NULL
      then obind (clear_slots h sls) (\<lambda>(h', sls'). Some (Inr (h', sl # sls')))
      else obind (clear_walk h sl) (\<lambda>(h', sl').
           obind (clear_slots h' sls) (\<lambda>(h'', sls').
             Some (Inr (h'', sl'\<lparr>pHeadMasterData := NULL, pTailMasterData := NULL\<rparr> # sls')))))"

definition ClearMasterTable :: "sched \<Rightarrow> sched run" where
  "ClearMasterTable s =
     obind (clear_slots (mheap s) (gSchMasterTable s)) (\<lambda>(h, tab).
       Some (Inr (s\<lparr>mheap := h, gSchMasterTable := tab\<rparr>)))"

section \<open>Abstraction\<close>

text \<open>
  A list is well formed for the nodes \<open>ns\<close> when the heap links exactly these from the head,
  and the tail pointer and size agree. The whole table is well formed for \<open>xss\<close> when each
  list is, no node is in two lists, every live node is in a list (nothing leaks), and every
  task is in the list its periodicity and start hour name.
\<close>

definition slot_ok :: "stTask heap \<Rightarrow> stMasterTable \<Rightarrow> (addr \<times> stTask) list \<Rightarrow> bool" where
  "slot_ok h sl ns \<longleftrightarrow> lseg h (pHeadMasterData sl) ns NULL
     \<and> pTailMasterData sl = prev_addr ns \<and> nSize sl = int (length ns)"

definition task_home :: "stTask \<Rightarrow> nat" where
  "task_home task = (if ePCity task = SCH_SEC_MIN_HOUR then EVERY_HOUR_TASK
                     else unat (ui16Hour (StartTime task)))"

definition master_ok :: "sched \<Rightarrow> (addr \<times> stTask) list list \<Rightarrow> bool" where
  "master_ok s xss \<longleftrightarrow> length (gSchMasterTable s) = MASTER_ARR_SIZE
     \<and> list_all2 (slot_ok (mheap s)) (gSchMasterTable s) xss
     \<and> distinct (addrs (concat xss))
     \<and> dom (mheap s) = set (addrs (concat xss))
     \<and> (\<forall>i<length xss. \<forall>n\<in>set (xss ! i). task_home (snd n) = i)"

lemma slot_ok_lseg: "slot_ok h sl ns \<Longrightarrow> lseg h (pHeadMasterData sl) ns NULL"
  by (simp add: slot_ok_def)

lemma slot_ok_distinct: "slot_ok h sl ns \<Longrightarrow> distinct (addrs ns)"
  using slot_ok_lseg lseg_distinct by blast

lemma slot_ok_cong:
  "(\<And>a. a \<in> set (addrs ns) \<Longrightarrow> h a = h' a) \<Longrightarrow> slot_ok h sl ns = slot_ok h' sl ns"
  using lseg_cong [of ns h h'] by (simp add: slot_ok_def)

lemma slots_cong:
  "list_all2 (slot_ok h) sls xss \<Longrightarrow>
   (\<And>a. a \<in> set (addrs (concat xss)) \<Longrightarrow> h a = h' a) \<Longrightarrow> list_all2 (slot_ok h') sls xss"
proof (induction rule: list_all2_induct)
  case (Cons sl sls ns xss)
  then have "slot_ok h' sl ns" using slot_ok_cong [of ns h h' sl] by simp
  with Cons show ?case by auto
qed simp

section \<open>Unlinking a node\<close>

lemma unlink_master_ok:
  assumes ok: "slot_ok h sl (pre @ (a, d) # ys)"
  shows "\<exists>h' sl'. unlink_master h sl (prev_addr pre) a = Inr (h', sl', first_addr ys NULL)
     \<and> slot_ok h' sl' (pre @ ys) \<and> dom h' = dom h - {a}
     \<and> (\<forall>b. b \<notin> set (addrs (pre @ (a, d) # ys)) \<longrightarrow> h' b = h b)"
proof -
  note dist = slot_ok_distinct [OF ok]
  from slot_ok_lseg [OF ok] obtain n where pre: "lseg h (pHeadMasterData sl) pre a"
    and ha: "a \<noteq> NULL" "h a = Some (Node d n)" and ys: "lseg h n ys NULL"
    by (auto simp: lseg_append lseg_Cons)
  have n: "n = first_addr ys NULL" "n = NULL \<longleftrightarrow> ys = []"
    using ys lseg_first_addr lseg_empty_iff by metis+
  have tail: "pTailMasterData sl = (if ys = [] then a else prev_addr ys)"
    and size: "nSize sl = int (length pre + length ys) + 1"
    using ok by (auto simp: slot_ok_def prev_addr_def)
  show ?thesis
  proof (cases pre rule: rev_cases)
    case Nil
    let ?sl = "if ys = [] then sl\<lparr>pHeadMasterData := NULL, pTailMasterData := NULL\<rparr>
               else sl\<lparr>pHeadMasterData := n\<rparr>"
    have "unlink_master h sl (prev_addr pre) a =
        Inr (h(a := None), ?sl\<lparr>nSize := nSize ?sl - 1\<rparr>, n)"
      using Nil ha n(2) by (simp add: unlink_master_def)
    moreover have "slot_ok (h(a := None)) (?sl\<lparr>nSize := nSize ?sl - 1\<rparr>) (pre @ ys)"
      using Nil dist ys n tail size by (auto simp: slot_ok_def)
    ultimately show ?thesis using n by auto
  next
    case (snoc pre' z)
    obtain az dz where z: "z = (az, dz)" by (cases z)
    from pre snoc z have hz: "h az = Some (Node dz a)" "az \<noteq> NULL"
      "lseg h (pHeadMasterData sl) pre' az" by (auto simp: lseg_append lseg_Cons)
    from dist snoc z have ne: "az \<noteq> a" "az \<notin> set (addrs pre')" "az \<notin> set (addrs ys)"
      "a \<notin> set (addrs pre')" "a \<notin> set (addrs ys)" by auto
    let ?h = "h(az \<mapsto> Node dz n, a := None)"
    let ?sl = "if ys = [] then sl\<lparr>pTailMasterData := az\<rparr> else sl"
    have "unlink_master h sl (prev_addr pre) a = Inr (?h, ?sl\<lparr>nSize := nSize ?sl - 1\<rparr>, n)"
      using snoc z ha hz ne n(2) by (simp add: unlink_master_def)
    moreover have "lseg ?h (pHeadMasterData sl) (pre' @ (az, dz) # ys) NULL"
      using hz ne ys by (simp add: lseg_append lseg_Cons)
    then have "slot_ok ?h (?sl\<lparr>nSize := nSize ?sl - 1\<rparr>) (pre @ ys)"
      using snoc z tail size by (cases "ys = []") (simp_all add: slot_ok_def prev_addr_Cons)
    moreover have "dom ?h = dom h - {a}" using hz ne by auto
    ultimately show ?thesis using n snoc z by auto
  qed
qed

section \<open>Delete\<close>

lemma delete_walk_absent:
  assumes "lseg h cur rest NULL" and "\<forall>n\<in>set rest. int (fst n) \<noteq> i"
  shows "delete_walk i h sl prev cur = Some (Inr (h, sl, False))"
  using assms
proof (induction rest arbitrary: cur prev)
  case Nil
  then show ?case by (simp add: delete_walk.simps)
next
  case (Cons x rest)
  then obtain n where "cur = fst x" "cur \<noteq> NULL" "h cur = Some (Node (snd x) n)" "lseg h n rest NULL"
    by (auto simp: lseg_Cons)
  with Cons show ?case by (subst delete_walk.simps) simp
qed

lemma delete_walk_skip:
  assumes "lseg h cur mid q" and "q \<noteq> NULL" and "\<forall>n\<in>set mid. int (fst n) \<noteq> i"
  shows "delete_walk i h sl prev cur =
         delete_walk i h sl (if mid = [] then prev else prev_addr mid) q"
  using assms
proof (induction mid arbitrary: cur prev)
  case (Cons x mid)
  then obtain n where n: "cur = fst x" "cur \<noteq> NULL" "h cur = Some (Node (snd x) n)" "lseg h n mid q"
    by (auto simp: lseg_Cons)
  with Cons.prems have "delete_walk i h sl prev cur = delete_walk i h sl cur n"
    unfolding delete_walk.simps [of i h sl prev cur] by auto
  also have "\<dots> = delete_walk i h sl (if mid = [] then cur else prev_addr mid) q"
    using Cons.IH [OF n(4)] Cons.prems by simp
  finally show ?case using n(1) by (simp add: prev_addr_Cons)
qed simp

lemma delete_walk_ok:
  assumes ok: "slot_ok h sl ns"
  shows "\<exists>h' sl'. delete_walk i h sl NULL (pHeadMasterData sl) =
       Some (Inr (h', sl', i \<in> int ` set (addrs ns)))
     \<and> slot_ok h' sl' (filter (\<lambda>n. int (fst n) \<noteq> i) ns)
     \<and> dom h' = dom h - {b \<in> set (addrs ns). int b = i}
     \<and> (\<forall>b. b \<notin> set (addrs ns) \<longrightarrow> h' b = h b)"
proof (cases "i \<in> int ` set (addrs ns)")
  case False
  then have "filter (\<lambda>n. int (fst n) \<noteq> i) ns = ns" by (intro filter_True) auto
  moreover have "delete_walk i h sl NULL (pHeadMasterData sl) = Some (Inr (h, sl, False))"
    using False slot_ok_lseg [OF ok] by (intro delete_walk_absent) auto
  moreover have "{b \<in> set (addrs ns). int b = i} = {}" using False by auto
  ultimately show ?thesis using False ok by auto
next
  case True
  then obtain a d where a: "i = int a" "(a, d) \<in> set ns" by auto
  then obtain mid ys where ns: "ns = mid @ (a, d) # ys" by (meson split_list)
  note dist = slot_ok_distinct [OF ok]
  have fil: "filter (\<lambda>n. int (fst n) \<noteq> i) ns = mid @ ys"
    using filter_fst_neq [of mid a d ys] dist a ns by simp
  from slot_ok_lseg [OF ok] have seg: "lseg h (pHeadMasterData sl) mid a" "a \<noteq> NULL"
    by (auto simp: ns lseg_append lseg_Cons)
  have "\<forall>n\<in>set mid. int (fst n) \<noteq> i" using dist ns a by force
  then have "delete_walk i h sl NULL (pHeadMasterData sl) = delete_walk i h sl (prev_addr mid) a"
    using delete_walk_skip [OF seg, of i sl NULL] by (simp add: prev_addr_def)
  moreover have "{b \<in> set (addrs ns). int b = i} = {a}" using a ns by auto
  ultimately show ?thesis using unlink_master_ok [of h sl mid a d ys] ok ns a seg fil
    by (auto simp: delete_walk.simps)
qed


lemma delete_slots_ok:
  assumes "list_all2 (slot_ok h) sls xss" and "distinct (addrs (concat xss))"
  shows "\<exists>h' sls'. delete_slots i h sls =
       Some (Inr (h', sls', i \<in> int ` set (addrs (concat xss))))
     \<and> list_all2 (slot_ok h') sls' (map (filter (\<lambda>n. int (fst n) \<noteq> i)) xss)
     \<and> dom h' = dom h - {b \<in> set (addrs (concat xss)). int b = i}
     \<and> (\<forall>b. b \<notin> set (addrs (concat xss)) \<longrightarrow> h' b = h b)"
  using assms
proof (induction xss arbitrary: sls rule: list.induct)
  case Nil
  then show ?case by simp
next
  case (Cons ns xss)
  then obtain sl sls0 where sls: "sls = sl # sls0" "slot_ok h sl ns" "list_all2 (slot_ok h) sls0 xss"
    by (auto simp: list_all2_Cons2)
  from Cons.prems(2) have disj: "set (addrs ns) \<inter> set (addrs (concat xss)) = {}"
    and dist: "distinct (addrs (concat xss))" by auto
  from Cons.IH [OF sls(3) dist] obtain h' sls' where ih:
    "delete_slots i h sls0 = Some (Inr (h', sls', i \<in> int ` set (addrs (concat xss))))"
    "list_all2 (slot_ok h') sls' (map (filter (\<lambda>n. int (fst n) \<noteq> i)) xss)"
    "dom h' = dom h - {b \<in> set (addrs (concat xss)). int b = i}"
    "\<forall>b. b \<notin> set (addrs (concat xss)) \<longrightarrow> h' b = h b" by blast
  from delete_walk_ok [OF sls(2), of i] obtain h1 sl1 where w:
    "delete_walk i h sl NULL (pHeadMasterData sl) = Some (Inr (h1, sl1, i \<in> int ` set (addrs ns)))"
    "slot_ok h1 sl1 (filter (\<lambda>n. int (fst n) \<noteq> i) ns)"
    "dom h1 = dom h - {b \<in> set (addrs ns). int b = i}" "\<forall>b. b \<notin> set (addrs ns) \<longrightarrow> h1 b = h b"
    by blast
  show ?case
  proof (cases "i \<in> int ` set (addrs ns)")
    case True
    then obtain a where "i = int a" "a \<in> set (addrs ns)" by blast
    with disj have no: "i \<notin> int ` set (addrs (concat xss))"
      by (metis IntI empty_iff imageE of_nat_eq_iff)
    have "map (filter (\<lambda>n. int (fst n) \<noteq> i)) xss = xss"
    proof (intro map_idI filter_True ballI notI)
      fix ms n assume "ms \<in> set xss" "n \<in> set ms" "int (fst n) = i"
      then have "i \<in> int ` set (addrs (concat xss))" by auto
      with no show False by contradiction
    qed
    moreover have "h b = h1 b" if "b \<in> set (addrs (concat xss))" for b
      using w(4) disj that by (metis IntI empty_iff)
    then have "list_all2 (slot_ok h1) sls0 xss" by (rule slots_cong [OF sls(3)])
    moreover have "pHeadMasterData sl \<noteq> NULL"
      using True slot_ok_lseg [OF sls(2)] lseg_empty_iff by fastforce
    moreover have "{b \<in> set (addrs (concat (ns # xss))). int b = i} = {b \<in> set (addrs ns). int b = i}"
      using no by auto
    ultimately show ?thesis using True sls w by (auto simp del: list.set_map)
  next
    case False
    then have ns: "filter (\<lambda>n. int (fst n) \<noteq> i) ns = ns" by (intro filter_True) auto
    have walk: "delete_walk i h sl NULL (pHeadMasterData sl) = Some (Inr (h, sl, False))"
      using False slot_ok_lseg [OF sls(2)] by (intro delete_walk_absent) auto
    have "h b = h' b" if "b \<in> set (addrs ns)" for b
      using ih(4) disj that by (metis IntI empty_iff)
    then have "slot_ok h' sl ns" using slot_ok_cong sls(2) by blast
    moreover have "{b \<in> set (addrs (concat (ns # xss))). int b = i} =
        {b \<in> set (addrs (concat xss)). int b = i}" using False by auto
    ultimately show ?thesis using False sls ih walk ns by (auto simp del: list.set_map)
  qed
qed

text \<open>The abstract table as a finite map from task ids to tasks.\<close>

definition id_pair :: "addr \<times> 'a \<Rightarrow> int \<times> 'a" where
  "id_pair n = (int (fst n), snd n)"

definition task_map :: "(addr \<times> stTask) list list \<Rightarrow> int \<Rightarrow> stTask option" where
  "task_map xss = map_of (map id_pair (concat xss))"

lemma id_pair_simps [simp]: "fst (id_pair n) = int (fst n)" "snd (id_pair n) = snd n"
  "id_pair (a, d) = (int a, d)"
  by (simp_all add: id_pair_def)

lemma distinct_id_pair: "distinct (map fst (map id_pair ns)) \<longleftrightarrow> distinct (addrs ns)"
proof -
  have "map fst (map id_pair ns) = map int (addrs ns)" by simp
  then show ?thesis by (metis distinct_map inj_on_of_nat)
qed

lemma map_of_id_perm:
  assumes "mset xs = mset ys" and "distinct (addrs ys)"
  shows "map_of (map id_pair xs) = map_of (map id_pair ys)"
proof -
  have "mset (addrs xs) = mset (addrs ys)" using assms(1) by (simp add: mset_map)
  then have "distinct (addrs xs)" using assms(2) mset_eq_imp_distinct_iff by blast
  then have "distinct (map fst (map id_pair xs))" "distinct (map fst (map id_pair ys))"
    using assms(2) unfolding distinct_id_pair by simp_all
  moreover have "set (map id_pair xs) = set (map id_pair ys)"
    using assms(1) by (metis mset_eq_setD set_map)
  ultimately show ?thesis using map_of_inject_set by blast
qed

lemma task_map_None: "task_map xss i = None \<longleftrightarrow> i \<notin> int ` set (addrs (concat xss))"
  by (simp add: task_map_def map_of_eq_None_iff image_image id_pair_def)

definition remove_task :: "int \<Rightarrow> (addr \<times> stTask) list list \<Rightarrow> (addr \<times> stTask) list list" where
  "remove_task i xss = map (filter (\<lambda>n. int (fst n) \<noteq> i)) xss"

lemma concat_remove_task: "concat (remove_task i xss) = filter (\<lambda>n. int (fst n) \<noteq> i) (concat xss)"
  by (simp add: remove_task_def filter_concat)

lemma map_of_filter_id:
  "map_of (map id_pair (filter (\<lambda>n. int (fst n) \<noteq> i) ns)) =
   (map_of (map id_pair ns))(i := None)"
  by (induction ns) (auto simp: fun_eq_iff id_pair_def)

lemma task_map_remove: "task_map (remove_task i xss) = (task_map xss)(i := None)"
  unfolding task_map_def concat_remove_task by (rule map_of_filter_id)

lemma SCH_DeleteTask_ok:
  assumes ok: "master_ok s xss"
  shows "\<exists>s'. SCH_DeleteTask i s =
       Some (Inr (if task_map xss i = None then NASC_FAILURE else NASC_SUCCESS, s'))
     \<and> master_ok s' (remove_task i xss)
     \<and> s' = s\<lparr>mheap := mheap s', gSchMasterTable := gSchMasterTable s'\<rparr>"
proof -
  from delete_slots_ok [of "mheap s" "gSchMasterTable s" xss i] ok obtain h' sls' where d:
    "delete_slots i (mheap s) (gSchMasterTable s) =
       Some (Inr (h', sls', i \<in> int ` set (addrs (concat xss))))"
    "list_all2 (slot_ok h') sls' (remove_task i xss)"
    "dom h' = dom (mheap s) - {b \<in> set (addrs (concat xss)). int b = i}"
    by (auto simp: master_ok_def remove_task_def simp del: list.set_map)
  let ?s = "s\<lparr>mheap := h', gSchMasterTable := sls'\<rparr>"
  have "length sls' = MASTER_ARR_SIZE"
    using list_all2_lengthD [OF d(2)] list_all2_lengthD [of "slot_ok (mheap s)"] ok
    by (auto simp: master_ok_def remove_task_def)
  moreover have "distinct (addrs (concat (remove_task i xss)))"
    using ok by (simp add: concat_remove_task master_ok_def distinct_map_filter)
  moreover have "dom h' = set (addrs (concat (remove_task i xss)))"
    using ok d(3) by (auto simp: concat_remove_task master_ok_def)
  ultimately have "master_ok ?s (remove_task i xss)"
    using ok d(2) by (auto simp: master_ok_def remove_task_def)
  then show ?thesis using d(1) by (auto simp: SCH_DeleteTask_def task_map_None)
qed

section \<open>Get\<close>

lemma get_walk_ok:
  "lseg h cur ns NULL \<Longrightarrow>
   get_walk i h cur = Some (Inr (map_of (map id_pair ns) i))"
proof (induction ns arbitrary: cur)
  case Nil
  then show ?case by (simp add: get_walk.simps)
next
  case (Cons x ns)
  then obtain n where n: "cur = fst x" "cur \<noteq> NULL" "h cur = Some (Node (snd x) n)" "lseg h n ns NULL"
    by (auto simp: lseg_Cons)
  show ?case unfolding get_walk.simps [of i h cur] using Cons.IH [OF n(4)] n(1-3) by auto
qed

lemma get_slots_ok:
  "list_all2 (slot_ok h) sls xss \<Longrightarrow> distinct (addrs (concat xss)) \<Longrightarrow>
   get_slots i h sls = Some (Inr (task_map xss i))"
proof (induction sls xss rule: list_all2_induct)
  case Nil
  then show ?case by (simp add: task_map_def)
next
  case (Cons sl sls ns xss)
  let ?m = "\<lambda>ns. map_of (map id_pair ns)"
  have w: "get_walk i h (pHeadMasterData sl) = Some (Inr (?m ns i))"
    using Cons.hyps(1) by (intro get_walk_ok slot_ok_lseg)
  have ih: "get_slots i h sls = Some (Inr (task_map xss i))" using Cons by simp
  have "pHeadMasterData sl = NULL \<longleftrightarrow> ns = []"
    using lseg_empty_iff slot_ok_lseg Cons.hyps(1) by blast
  moreover have "task_map (ns # xss) i = (case ?m ns i of Some t \<Rightarrow> Some t | None \<Rightarrow> task_map xss i)"
    by (simp add: task_map_def map_add_def split: option.split)
  ultimately show ?case using w ih by (auto split: option.split)
qed

lemma SCH_GetTask_ok:
  "master_ok s xss \<Longrightarrow> SCH_GetTask i s =
     Some (Inr (case task_map xss i of Some t \<Rightarrow> (NASC_SUCCESS, Some t) | None \<Rightarrow> (NASC_FAILURE, None)))"
  using get_slots_ok [of "mheap s" "gSchMasterTable s" xss i]
  by (simp add: SCH_GetTask_def master_ok_def)

section \<open>Add\<close>

definition insert_task ::
  "addr \<Rightarrow> stTask \<Rightarrow> (addr \<times> stTask) list list \<Rightarrow> (addr \<times> stTask) list list" where
  "insert_task a task xss =
     xss[task_home task := xss ! task_home task @ [(a, task)]]"

lemma slot_append_ok:
  assumes ok: "slot_ok h sl ns" and a: "a \<noteq> NULL" "a \<notin> set (addrs ns)"
  shows "\<exists>h' sl'. (if pHeadMasterData sl = NULL
       then Inr (h(a \<mapsto> Node t NULL), sl\<lparr>pHeadMasterData := a\<rparr>)
       else rbind (set_next (h(a \<mapsto> Node t NULL)) (pTailMasterData sl) a) (\<lambda>h'. Inr (h', sl))) = Inr (h', sl')
     \<and> slot_ok h' (sl'\<lparr>pTailMasterData := a, nSize := nSize sl' + 1\<rparr>) (ns @ [(a, t)])
     \<and> dom h' = insert a (dom h) \<and> (\<forall>b. b \<notin> insert a (set (addrs ns)) \<longrightarrow> h' b = h b)"
proof (cases ns rule: rev_cases)
  case Nil
  with ok have "pHeadMasterData sl = NULL" by (simp add: slot_ok_def)
  moreover have "slot_ok (h(a \<mapsto> Node t NULL)) (sl\<lparr>pHeadMasterData := a, pTailMasterData := a, nSize := nSize sl + 1\<rparr>)
      [(a, t)]" using Nil ok a by (simp add: slot_ok_def lseg_Cons)
  ultimately show ?thesis using Nil by auto
next
  case snoc
  then have head: "pHeadMasterData sl \<noteq> NULL"
    using slot_ok_lseg [OF ok] lseg_empty_iff by blast
  from lseg_append_node [OF slot_ok_lseg [OF ok] head a, of t] obtain h' where
    "set_next (h(a \<mapsto> Node t NULL)) (prev_addr ns) a = Inr h'" "lseg h' (pHeadMasterData sl) (ns @ [(a, t)]) NULL"
    "dom h' = insert a (dom h)" "\<forall>b. b \<notin> insert a (set (addrs ns)) \<longrightarrow> h' b = h b" by blast
  then show ?thesis using head ok by (simp add: slot_ok_def)
qed

lemma master_ok_length: "master_ok s xss \<Longrightarrow> length xss = MASTER_ARR_SIZE"
  by (auto simp: master_ok_def dest: list_all2_lengthD)

lemma master_ok_slot:
  "master_ok s xss \<Longrightarrow> i < MASTER_ARR_SIZE \<Longrightarrow> slot_ok (mheap s) (gSchMasterTable s ! i) (xss ! i)"
  by (auto simp: master_ok_def list_all2_conv_all_nth)

lemma master_ok_disj:
  "master_ok s xss \<Longrightarrow> i < MASTER_ARR_SIZE \<Longrightarrow> j < MASTER_ARR_SIZE \<Longrightarrow> i \<noteq> j \<Longrightarrow>
   set (addrs (xss ! i)) \<inter> set (addrs (xss ! j)) = {}"
proof -
  assume ok: "master_ok s xss" and ij: "i < MASTER_ARR_SIZE" "j < MASTER_ARR_SIZE" "i \<noteq> j"
  then have "distinct (concat (map addrs xss))" by (simp only: master_ok_def map_concat)
  then have "set (map addrs xss ! i) \<inter> set (map addrs xss ! j) = {}"
    using ij master_ok_length [OF ok] by (intro distinct_concat_nth) simp_all
  then show ?thesis using ij master_ok_length [OF ok] by (simp only: nth_map)
qed

lemma master_ok_live: "master_ok s xss \<Longrightarrow> i < MASTER_ARR_SIZE \<Longrightarrow> set (addrs (xss ! i)) \<subseteq> dom (mheap s)"
  by (rule lseg_set_dom [OF slot_ok_lseg [OF master_ok_slot]])

lemma mset_insert_task:
  "task_home t < length xss \<Longrightarrow>
   mset (concat (insert_task a t xss)) = add_mset (a, t) (mset (concat xss))"
  by (simp add: insert_task_def mset_concat_append_at)

lemma insert_task_distinct:
  assumes "task_home t < length xss" and "distinct (addrs (concat xss))" and "a \<notin> set (addrs (concat xss))"
  shows "distinct (addrs (concat (insert_task a t xss)))"
    and "set (addrs (concat (insert_task a t xss))) = insert a (set (addrs (concat xss)))"
    and "task_map (insert_task a t xss) = (task_map xss)(int a \<mapsto> t)"
proof -
  note m = mset_insert_task [OF assms(1), of a]
  have ma: "mset (addrs (concat (insert_task a t xss))) = mset (a # addrs (concat xss))"
    using m by (simp add: mset_map)
  then show d: "distinct (addrs (concat (insert_task a t xss)))"
    using assms(2,3) by (metis distinct.simps(2) mset_eq_imp_distinct_iff)
  from ma show "set (addrs (concat (insert_task a t xss))) = insert a (set (addrs (concat xss)))"
    by (metis list.set(2) mset_eq_setD)
  have "mset (concat (insert_task a t xss)) = mset ((a, t) # concat xss)" using m by simp
  then have "map_of (map id_pair (concat (insert_task a t xss))) = map_of (map id_pair ((a, t) # concat xss))"
    using assms(2,3) by (intro map_of_id_perm) auto
  then show "task_map (insert_task a t xss) = (task_map xss)(int a \<mapsto> t)"
    by (simp add: task_map_def)
qed

lemma add_to_slot_ok:
  assumes ok: "master_ok s xss" and i: "i = task_home t" "i < MASTER_ARR_SIZE"
    and a: "malloc (mheap s) = a" "a \<noteq> NULL" "a \<notin> dom (mheap s)"
  shows "\<exists>s'. add_to_slot malloc i t s = Inr (int a, s') \<and> master_ok s' (insert_task a t xss)
     \<and> gbTaskChanged s' \<and> s' = s\<lparr>mheap := mheap s', gSchMasterTable := gSchMasterTable s', gbTaskChanged := True\<rparr>"
proof -
  let ?sl = "gSchMasterTable s ! i"
  have len: "length (gSchMasterTable s) = MASTER_ARR_SIZE" "length xss = MASTER_ARR_SIZE"
    using ok master_ok_length by (auto simp: master_ok_def)
  have fresh: "a \<notin> set (addrs (xss ! j))" if "j < MASTER_ARR_SIZE" for j
    using master_ok_live [OF ok that] a(3) by blast
  obtain h' sl' where w: "(if pHeadMasterData ?sl = NULL
       then Inr ((mheap s)(a \<mapsto> Node t NULL), ?sl\<lparr>pHeadMasterData := a\<rparr>)
       else rbind (set_next ((mheap s)(a \<mapsto> Node t NULL)) (pTailMasterData ?sl) a) (\<lambda>h'. Inr (h', ?sl))) = Inr (h', sl')"
    "slot_ok h' (sl'\<lparr>pTailMasterData := a, nSize := nSize sl' + 1\<rparr>) (xss ! i @ [(a, t)])"
    "dom h' = insert a (dom (mheap s))" "\<forall>b. b \<notin> insert a (set (addrs (xss ! i))) \<longrightarrow> h' b = mheap s b"
    using slot_append_ok [OF master_ok_slot [OF ok i(2)] a(2) fresh [OF i(2)]] by blast
  let ?s' = "s\<lparr>mheap := h', gSchMasterTable := (gSchMasterTable s)
       [i := sl'\<lparr>pTailMasterData := a, nSize := nSize sl' + 1\<rparr>], gbTaskChanged := True\<rparr>"
  have other: "slot_ok h' (gSchMasterTable s ! j) (xss ! j)" if "j < MASTER_ARR_SIZE" "j \<noteq> i" for j
  proof -
    have "mheap s b = h' b" if "b \<in> set (addrs (xss ! j))" for b
      using w(4) that master_ok_disj [OF ok \<open>j < MASTER_ARR_SIZE\<close> i(2) \<open>j \<noteq> i\<close>] fresh [OF \<open>j < MASTER_ARR_SIZE\<close>]
      by (metis IntI empty_iff insertE)
    then show ?thesis using master_ok_slot [OF ok that(1)] slot_ok_cong by blast
  qed
  have sl: "list_all2 (slot_ok h') (gSchMasterTable ?s') (insert_task a t xss)"
    using len i w(2) other by (auto simp: list_all2_conv_all_nth insert_task_def nth_list_update)
  have fr: "a \<notin> set (addrs (concat xss))" using a(3) ok by (simp add: master_ok_def)
  have "distinct (addrs (concat xss))" using ok by (simp add: master_ok_def)
  note ins = insert_task_distinct [OF _ this fr, of t]
  have "\<forall>j<length xss. \<forall>n\<in>set (insert_task a t xss ! j). task_home (snd n) = j"
    using ok i len by (auto simp: insert_task_def nth_list_update master_ok_def)
  then have "master_ok ?s' (insert_task a t xss)"
    using ins(1,2) sl w(3) len i ok by (simp add: master_ok_def insert_task_def)
  moreover have "add_to_slot malloc i t s = Inr (int a, ?s')"
    using w(1) a(1,2) i(2) len by (simp add: add_to_slot_def Let_def)
  ultimately show ?thesis by auto
qed

section \<open>Cleaning expired tasks\<close>

definition one_shot :: "addr \<times> stTask \<Rightarrow> bool" where
  "one_shot n \<longleftrightarrow> eType (snd n) = SCH_ONE_SHOT"

definition expired_at :: "tm \<Rightarrow> addr \<times> stTask \<Rightarrow> bool" where
  "expired_at t n \<longleftrightarrow> date_of (StartDate (snd n)) < today t"

text \<open>
  If the loop over a list returns at all, it has removed every ONE\_SHOT task of it, and each
  of them was seen expired at some clock reading.
\<close>

definition clean_post ::
  "(nat \<Rightarrow> tm) \<Rightarrow> nat \<Rightarrow> stTask heap \<Rightarrow> (addr \<times> stTask) list \<Rightarrow> (addr \<times> stTask) list
     \<Rightarrow> (nat \<times> stTask heap \<times> stMasterTable) res \<Rightarrow> bool" where
  "clean_post clk k h pre ns r \<longleftrightarrow> (\<exists>k' h' sl'. r = Inr (k', h', sl') \<and> k \<le> k'
     \<and> slot_ok h' sl' (pre @ filter (\<lambda>n. \<not> one_shot n) ns)
     \<and> (\<forall>n\<in>set ns. one_shot n \<longrightarrow> (\<exists>j\<ge>k. expired_at (clk j) n))
     \<and> dom h' = dom h - set (addrs (filter one_shot ns))
     \<and> (\<forall>b. b \<notin> set (addrs (pre @ ns)) \<longrightarrow> h' b = h b))"

lemma clean_post_remove:
  assumes x: "one_shot x" "expired_at (clk k) x"
    and h1: "dom h1 = dom h - {fst x}" "\<forall>b. b \<notin> set (addrs (pre @ x # ns)) \<longrightarrow> h1 b = h b"
    and post: "clean_post clk (Suc k) h1 pre ns r"
  shows "clean_post clk k h pre (x # ns) r"
proof -
  from post obtain k' h' sl' where p: "r = Inr (k', h', sl')" "Suc k \<le> k'"
    "slot_ok h' sl' (pre @ filter (\<lambda>n. \<not> one_shot n) ns)"
    "\<forall>n\<in>set ns. one_shot n \<longrightarrow> (\<exists>j\<ge>Suc k. expired_at (clk j) n)"
    "dom h' = dom h1 - set (addrs (filter one_shot ns))"
    "\<forall>b. b \<notin> set (addrs (pre @ ns)) \<longrightarrow> h' b = h1 b"
    unfolding clean_post_def by blast
  have "\<forall>n\<in>set (x # ns). one_shot n \<longrightarrow> (\<exists>j\<ge>k. expired_at (clk j) n)"
    using p(4) x(2) by (metis Suc_leD le_refl set_ConsD)
  moreover have "dom h' = dom h - set (addrs (filter one_shot (x # ns)))"
    using p(5) h1(1) x(1) by auto
  moreover have "\<forall>b. b \<notin> set (addrs (pre @ x # ns)) \<longrightarrow> h' b = h b"
    using p(6) h1(2) by auto
  ultimately show ?thesis using p(1-3) x(1) unfolding clean_post_def by force
qed

lemma clean_post_keep:
  "\<not> one_shot x \<Longrightarrow> clean_post clk k h (pre @ [x]) ns r \<Longrightarrow> clean_post clk k h pre (x # ns) r"
  unfolding clean_post_def by auto

lemma clean_post_later:
  assumes "clean_post clk (Suc k) h pre ns r"
  shows "clean_post clk k h pre ns r"
proof -
  from assms obtain k' h' sl' where p: "r = Inr (k', h', sl')" "Suc k \<le> k'"
    "slot_ok h' sl' (pre @ filter (\<lambda>n. \<not> one_shot n) ns)"
    "\<forall>n\<in>set ns. one_shot n \<longrightarrow> (\<exists>j\<ge>Suc k. expired_at (clk j) n)"
    "dom h' = dom h - set (addrs (filter one_shot ns))"
    "\<forall>b. b \<notin> set (addrs (pre @ ns)) \<longrightarrow> h' b = h b"
    unfolding clean_post_def by blast
  moreover have "\<forall>n\<in>set ns. one_shot n \<longrightarrow> (\<exists>j\<ge>k. expired_at (clk j) n)"
    using p(4) Suc_leD by blast
  ultimately show ?thesis unfolding clean_post_def by (intro exI [of _ k'] exI [of _ h'] exI [of _ sl']) auto
qed

lemma autoclean_walk_post:
  assumes "autoclean_walk clk k h sl prv cur = Some r"
  shows "\<forall>pre ns. slot_ok h sl (pre @ ns) \<longrightarrow> cur = first_addr ns NULL \<longrightarrow> prv = prev_addr pre
     \<longrightarrow> clean_post clk k h pre ns r"
proof (rule autoclean_walk.raw_induct [where P = "\<lambda>clk k h sl prv cur r. \<forall>pre ns. slot_ok h sl (pre @ ns)
     \<longrightarrow> cur = first_addr ns NULL \<longrightarrow> prv = prev_addr pre \<longrightarrow> clean_post clk k h pre ns r", OF _ assms],
     intro allI impI)
  fix walk clk k h sl prv cur r pre ns
  assume IH: "\<And>clk k h sl prv cur r. walk clk k h sl prv cur = Some r \<Longrightarrow>
      \<forall>pre ns. slot_ok h sl (pre @ ns) \<longrightarrow> cur = first_addr ns NULL \<longrightarrow> prv = prev_addr pre
        \<longrightarrow> clean_post clk k h pre ns r"
    and eq: "(if cur = NULL then Some (Inr (k, h, sl))
     else case deref h cur of
       Inl e \<Rightarrow> Some (Inl e)
     | Inr nd \<Rightarrow>
         if eType (dat nd) = SCH_ONE_SHOT then
           (if ValidateDateTime (clk k) (StartDate (dat nd)) (StartTime (dat nd)) SCH_DATE_ONLY
                 = NASC_FAILURE
            then (case unlink_master h sl prv cur of
                    Inl e \<Rightarrow> Some (Inl e)
                  | Inr (h', sl', pTemp) \<Rightarrow> walk clk (Suc k) h' sl' prv pTemp)
            else walk clk (Suc k) h sl prv cur)
         else walk clk k h sl cur (nxt nd)) = Some r"
    and ok: "slot_ok h sl (pre @ ns)" and cur: "cur = first_addr ns NULL" and prv: "prv = prev_addr pre"
  show "clean_post clk k h pre ns r"
  proof (cases ns)
    case Nil
    with cur eq ok show ?thesis by (auto simp: clean_post_def)
  next
    case (Cons x ms)
    with slot_ok_lseg [OF ok] obtain n where x: "cur = fst x" "cur \<noteq> NULL" "h cur = Some (Node (snd x) n)"
      "lseg h n ms NULL" using cur by (auto simp: lseg_append lseg_Cons)
    have n: "n = first_addr ms NULL" using lseg_first_addr [OF x(4)] .
    show ?thesis
    proof (cases "one_shot x")
      case os: True
      show ?thesis
      proof (cases "expired_at (clk k) x")
        case True
        obtain h1 sl1 where u: "unlink_master h sl prv cur = Inr (h1, sl1, n)"
          "slot_ok h1 sl1 (pre @ ms)" "dom h1 = dom h - {cur}"
          "\<forall>b. b \<notin> set (addrs (pre @ x # ms)) \<longrightarrow> h1 b = h b"
          using unlink_master_ok [of h sl pre "fst x" "snd x" ms] ok Cons prv x(1) n by auto
        have "walk clk (Suc k) h1 sl1 prv n = Some r"
          using eq x u(1) os True by (simp add: one_shot_def expired_at_def ValidateDateTime_date)
        with IH u(2) n prv have "clean_post clk (Suc k) h1 pre ms r" by blast
        with clean_post_remove os True u(3,4) x(1) Cons show ?thesis by metis
      next
        case False
        then have "walk clk (Suc k) h sl prv cur = Some r"
          using eq x os by (simp add: one_shot_def expired_at_def ValidateDateTime_date)
        with IH ok cur prv show ?thesis using clean_post_later by blast
      qed
    next
      case False
      then have "walk clk k h sl cur n = Some r" using eq x by (simp add: one_shot_def)
      moreover have "slot_ok h sl ((pre @ [x]) @ ms)" using ok Cons by simp
      ultimately have "clean_post clk k h (pre @ [x]) ms r" using IH n x(1) by fastforce
      with clean_post_keep False Cons show ?thesis by blast
    qed
  qed
qed


lemma autoclean_walk_total:
  "slot_ok h sl (pre @ ns) \<Longrightarrow> (\<And>n j. n \<in> set ns \<Longrightarrow> one_shot n \<Longrightarrow> k \<le> j \<Longrightarrow> expired_at (clk j) n)
   \<Longrightarrow> \<exists>r. autoclean_walk clk k h sl (prev_addr pre) (first_addr ns NULL) = Some r"
proof (induction ns arbitrary: k h sl pre)
  case Nil
  then show ?case by (simp add: autoclean_walk.simps)
next
  case (Cons x ms)
  from slot_ok_lseg [OF Cons.prems(1)] obtain n where x: "fst x \<noteq> NULL"
    "h (fst x) = Some (Node (snd x) n)" "lseg h n ms NULL" by (auto simp: lseg_append lseg_Cons)
  have n: "n = first_addr ms NULL" using lseg_first_addr [OF x(3)] .
  show ?case
  proof (cases "one_shot x")
    case True
    then have ex: "expired_at (clk k) x" using Cons.prems(2) by simp
    obtain h1 sl1 where u: "unlink_master h sl (prev_addr pre) (fst x) = Inr (h1, sl1, n)"
      "slot_ok h1 sl1 (pre @ ms)"
      using unlink_master_ok [of h sl pre "fst x" "snd x" ms] Cons.prems(1) n by auto
    have "\<exists>r. autoclean_walk clk (Suc k) h1 sl1 (prev_addr pre) n = Some r"
      unfolding n by (rule Cons.IH [OF u(2)]) (use Cons.prems(2) in auto)
    then show ?thesis
      using x u(1) True ex autoclean_walk.simps [of clk k h sl "prev_addr pre" "fst x"]
      by (simp add: one_shot_def expired_at_def ValidateDateTime_date)
  next
    case False
    have "\<exists>r. autoclean_walk clk k h sl (prev_addr (pre @ [x])) (first_addr ms NULL) = Some r"
      by (rule Cons.IH) (use Cons.prems in auto)
    then show ?thesis
      using x n False autoclean_walk.simps [of clk k h sl "prev_addr pre" "fst x"] by (simp add: one_shot_def)
  qed
qed

abbreviation keep_tasks :: "(addr \<times> stTask) list list \<Rightarrow> (addr \<times> stTask) list list" where
  "keep_tasks \<equiv> map (filter (\<lambda>n. \<not> one_shot n))"

definition all_seen_expired :: "(nat \<Rightarrow> tm) \<Rightarrow> nat \<Rightarrow> (addr \<times> stTask) list \<Rightarrow> bool" where
  "all_seen_expired clk k ns \<longleftrightarrow> (\<forall>n\<in>set ns. one_shot n \<longrightarrow> (\<exists>j\<ge>k. expired_at (clk j) n))"

lemma all_seen_expired_mono: "all_seen_expired clk k' ns \<Longrightarrow> k \<le> k' \<Longrightarrow> all_seen_expired clk k ns"
  unfolding all_seen_expired_def by (meson le_trans)

lemma autoclean_slot_post:
  assumes ok: "slot_ok h sl ns" and r: "autoclean_walk clk k h sl NULL (pHeadMasterData sl) = Some r"
  shows "\<exists>k' h' sl'. r = Inr (k', h', sl') \<and> k \<le> k'
     \<and> slot_ok h' sl' (filter (\<lambda>n. \<not> one_shot n) ns) \<and> all_seen_expired clk k ns
     \<and> dom h' = dom h - set (addrs (filter one_shot ns))
     \<and> (\<forall>b. b \<notin> set (addrs ns) \<longrightarrow> h' b = h b)"
proof -
  have "pHeadMasterData sl = first_addr ns NULL" using lseg_first_addr slot_ok_lseg [OF ok] by blast
  then have "clean_post clk k h [] ns r" using autoclean_walk_post [OF r] ok by simp
  then show ?thesis by (simp add: clean_post_def all_seen_expired_def)
qed

lemma autoclean_walk_empty: "autoclean_walk clk k h sl NULL NULL = Some (Inr (k, h, sl))"
  by (simp add: autoclean_walk.simps)

lemma autoclean_slots_Cons:
  "autoclean_slots clk k h (sl # sls) =
     obind (autoclean_walk clk k h sl NULL (pHeadMasterData sl)) (\<lambda>(k', h', sl').
       obind (autoclean_slots clk k' h' sls) (\<lambda>(k'', h'', sls'). Some (Inr (k'', h'', sl' # sls'))))"
  by (simp add: autoclean_walk_empty)

declare autoclean_slots.simps(2) [simp del]

lemma autoclean_slots_post:
  assumes "list_all2 (slot_ok h) sls xss" and "distinct (addrs (concat xss))"
    and "autoclean_slots clk k h sls = Some r"
  shows "\<exists>k' h' sls'. r = Inr (k', h', sls')
     \<and> list_all2 (slot_ok h') sls' (keep_tasks xss) \<and> all_seen_expired clk k (concat xss)
     \<and> dom h' = dom h - set (addrs (filter one_shot (concat xss)))
     \<and> (\<forall>b. b \<notin> set (addrs (concat xss)) \<longrightarrow> h' b = h b)"
  using assms
proof (induction xss arbitrary: sls k h r rule: list.induct)
  case Nil
  then show ?case by (auto simp: all_seen_expired_def)
next
  case (Cons ns xss)
  then obtain sl sls0 where sls: "sls = sl # sls0" "slot_ok h sl ns" "list_all2 (slot_ok h) sls0 xss"
    by (auto simp: list_all2_Cons2)
  from Cons.prems(2) have disj: "set (addrs ns) \<inter> set (addrs (concat xss)) = {}"
    and dist: "distinct (addrs (concat xss))" by auto
  note eq = Cons.prems(3) [unfolded sls(1) autoclean_slots_Cons]
  from eq obtain w where w: "autoclean_walk clk k h sl NULL (pHeadMasterData sl) = Some w"
    by (cases "autoclean_walk clk k h sl NULL (pHeadMasterData sl)") auto
  from autoclean_slot_post [OF sls(2) w] obtain k1 h1 sl1 where p: "w = Inr (k1, h1, sl1)" "k \<le> k1"
    "slot_ok h1 sl1 (filter (\<lambda>n. \<not> one_shot n) ns)" "all_seen_expired clk k ns"
    "dom h1 = dom h - set (addrs (filter one_shot ns))" "\<forall>b. b \<notin> set (addrs ns) \<longrightarrow> h1 b = h b"
    by blast
  have "h b = h1 b" if "b \<in> set (addrs (concat xss))" for b
    using p(6) disj that by (metis IntI empty_iff)
  then have sls1: "list_all2 (slot_ok h1) sls0 xss" by (rule slots_cong [OF sls(3)])
  from eq w p(1) obtain q where q: "autoclean_slots clk k1 h1 sls0 = Some q"
    by (cases "autoclean_slots clk k1 h1 sls0") auto
  from Cons.IH [OF sls1 dist q] obtain k2 h2 sls2 where ih: "q = Inr (k2, h2, sls2)"
    "list_all2 (slot_ok h2) sls2 (keep_tasks xss)" "all_seen_expired clk k1 (concat xss)"
    "dom h2 = dom h1 - set (addrs (filter one_shot (concat xss)))"
    "\<forall>b. b \<notin> set (addrs (concat xss)) \<longrightarrow> h2 b = h1 b" by blast
  have r: "r = Inr (k2, h2, sl1 # sls2)"
    using eq w p(1) q ih(1) by simp
  have "h1 b = h2 b" if "b \<in> set (addrs (filter (\<lambda>n. \<not> one_shot n) ns))" for b
  proof -
    have "b \<in> set (addrs ns)" using that by auto
    then show ?thesis using ih(5) disj by (metis IntI empty_iff)
  qed
  then have s1: "slot_ok h2 sl1 (filter (\<lambda>n. \<not> one_shot n) ns)" using p(3) slot_ok_cong by blast
  have seen: "all_seen_expired clk k (concat (ns # xss))"
    using p(4) all_seen_expired_mono [OF ih(3) p(2)] by (auto simp: all_seen_expired_def)
  have "dom h2 = dom h - set (addrs (filter one_shot (concat (ns # xss))))"
    using ih(4) p(5) by auto
  moreover have "\<forall>b. b \<notin> set (addrs (concat (ns # xss))) \<longrightarrow> h2 b = h b"
    using ih(5) p(6) by simp
  ultimately show ?case using r s1 ih(2) seen by simp
qed

lemma autoclean_slots_total:
  assumes "list_all2 (slot_ok h) sls xss" and "distinct (addrs (concat xss))"
    and "\<And>n j. n \<in> set (concat xss) \<Longrightarrow> one_shot n \<Longrightarrow> expired_at (clk j) n"
  shows "\<exists>r. autoclean_slots clk k h sls = Some r"
  using assms
proof (induction xss arbitrary: sls k h rule: list.induct)
  case Nil
  then show ?case by simp
next
  case (Cons ns xss)
  then obtain sl sls0 where sls: "sls = sl # sls0" "slot_ok h sl ns" "list_all2 (slot_ok h) sls0 xss"
    by (auto simp: list_all2_Cons2)
  from Cons.prems(2) have disj: "set (addrs ns) \<inter> set (addrs (concat xss)) = {}"
    and dist: "distinct (addrs (concat xss))" by auto
  have hd: "pHeadMasterData sl = first_addr ns NULL" using lseg_first_addr slot_ok_lseg [OF sls(2)] by blast
  obtain w where w: "autoclean_walk clk k h sl NULL (pHeadMasterData sl) = Some w"
    using autoclean_walk_total [of h sl "[]" ns k clk] Cons.prems(3) sls(2) hd by auto
  from autoclean_slot_post [OF sls(2) w] obtain k1 h1 sl1 where p: "w = Inr (k1, h1, sl1)"
    "\<forall>b. b \<notin> set (addrs ns) \<longrightarrow> h1 b = h b" by blast
  have "h b = h1 b" if "b \<in> set (addrs (concat xss))" for b
    using p(2) disj that by (metis IntI empty_iff)
  then have sls1: "list_all2 (slot_ok h1) sls0 xss" by (rule slots_cong [OF sls(3)])
  have "\<exists>r. autoclean_slots clk k1 h1 sls0 = Some r"
    by (rule Cons.IH [OF sls1 dist]) (use Cons.prems(3) in auto)
  then obtain q where q: "autoclean_slots clk k1 h1 sls0 = Some q" by blast
  from autoclean_slots_post [OF sls1 dist q] obtain k2 h2 sls2 where "q = Inr (k2, h2, sls2)" by blast
  then show ?case unfolding sls(1) autoclean_slots_Cons using w p(1) q by simp
qed

lemma addrs_filter_diff:
  "distinct (addrs ns) \<Longrightarrow>
   set (addrs ns) - set (addrs (filter P ns)) = set (addrs (filter (\<lambda>n. \<not> P n) ns))"
  by (induction ns) (auto simp: image_iff)

lemma autoclean_master_ok:
  assumes ok: "master_ok s xss"
    and t: "list_all2 (slot_ok h') sls' (keep_tasks xss)"
    and d: "dom h' = dom (mheap s) - set (addrs (filter one_shot (concat xss)))"
  shows "master_ok (s\<lparr>mheap := h', gSchMasterTable := sls'\<rparr>) (keep_tasks xss)"
proof -
  let ?c = "concat (keep_tasks xss)"
  have c: "?c = filter (\<lambda>n. \<not> one_shot n) (concat xss)" by (simp add: filter_concat)
  have dist: "distinct (addrs (concat xss))" using ok by (simp add: master_ok_def)
  have "set (addrs (concat xss)) - set (addrs (filter one_shot (concat xss))) = set (addrs ?c)"
    unfolding c using dist by (rule addrs_filter_diff)
  then have "dom h' = set (addrs ?c)" using d ok by (simp add: master_ok_def del: set_concat)
  moreover have "distinct (addrs ?c)" unfolding c using dist by (rule distinct_map_filter)
  moreover have "length sls' = MASTER_ARR_SIZE"
    using list_all2_lengthD [OF t] master_ok_length [OF ok] by simp
  moreover have "\<forall>i<length (keep_tasks xss). \<forall>n\<in>set (keep_tasks xss ! i). task_home (snd n) = i"
    using ok by (simp add: master_ok_def)
  ultimately show ?thesis using t by (simp only: master_ok_def) simp
qed

lemma SCH_AutoCleanTask_post:
  assumes ok: "master_ok s xss" and r: "SCH_AutoCleanTask clk s = Some r"
  shows "\<exists>s'. r = Inr s' \<and> master_ok s' (keep_tasks xss) \<and> all_seen_expired clk 0 (concat xss)
     \<and> s' = s\<lparr>mheap := mheap s', gSchMasterTable := gSchMasterTable s'\<rparr>"
proof -
  have l: "list_all2 (slot_ok (mheap s)) (gSchMasterTable s) xss" "distinct (addrs (concat xss))"
    using ok by (simp_all add: master_ok_def)
  from r obtain q where q: "autoclean_slots clk 0 (mheap s) (gSchMasterTable s) = Some q"
    unfolding SCH_AutoCleanTask_def by (cases "autoclean_slots clk 0 (mheap s) (gSchMasterTable s)") auto
  from autoclean_slots_post [OF l q] obtain k' h' sls' where p: "q = Inr (k', h', sls')"
    "list_all2 (slot_ok h') sls' (keep_tasks xss)" "all_seen_expired clk 0 (concat xss)"
    "dom h' = dom (mheap s) - set (addrs (filter one_shot (concat xss)))" by blast
  have "r = Inr (s\<lparr>mheap := h', gSchMasterTable := sls'\<rparr>)"
    using r q p(1) by (simp add: SCH_AutoCleanTask_def)
  then show ?thesis using autoclean_master_ok [OF ok p(2,4)] p(3) by simp
qed

lemma SCH_AutoCleanTask_total:
  assumes ok: "master_ok s xss"
    and ex: "\<And>n j. n \<in> set (concat xss) \<Longrightarrow> one_shot n \<Longrightarrow> expired_at (clk j) n"
  shows "\<exists>s'. SCH_AutoCleanTask clk s = Some (Inr s') \<and> master_ok s' (keep_tasks xss)
     \<and> s' = s\<lparr>mheap := mheap s', gSchMasterTable := gSchMasterTable s'\<rparr>"
proof -
  have l: "list_all2 (slot_ok (mheap s)) (gSchMasterTable s) xss" "distinct (addrs (concat xss))"
    using ok by (simp_all add: master_ok_def)
  obtain q where q: "autoclean_slots clk 0 (mheap s) (gSchMasterTable s) = Some q"
    using autoclean_slots_total [OF l, of clk 0] ex by blast
  moreover obtain k' h' sls' where "q = Inr (k', h', sls')"
    using autoclean_slots_post [OF l q] by blast
  ultimately obtain s' where "SCH_AutoCleanTask clk s = Some (Inr s')"
    by (auto simp: SCH_AutoCleanTask_def)
  with SCH_AutoCleanTask_post [OF ok this] show ?thesis by auto
qed

section \<open>Initialising and clearing\<close>

abbreviation no_tasks :: "(addr \<times> stTask) list list" where
  "no_tasks \<equiv> replicate MASTER_ARR_SIZE []"

lemma slot_ok_empty: "nSize sl = 0 \<Longrightarrow>
  slot_ok h (sl\<lparr>pHeadMasterData := NULL, pTailMasterData := NULL\<rparr>) []"
  by (simp add: slot_ok_def)

lemma InitMasterTable_ok:
  "dom (mheap s) = {} \<Longrightarrow> master_ok (InitMasterTable s) no_tasks"
  by (simp add: master_ok_def InitMasterTable_def list_all2_conv_all_nth slot_ok_def)

lemma clear_walk_ok:
  "lseg h (pHeadMasterData sl) ns NULL \<Longrightarrow> \<exists>h' sl'. clear_walk h sl = Some (Inr (h', sl'))
     \<and> nSize sl' = nSize sl - int (length ns) \<and> dom h' = dom h - set (addrs ns)
     \<and> (\<forall>b. b \<notin> set (addrs ns) \<longrightarrow> h' b = h b)"
proof (induction ns arbitrary: h sl)
  case Nil
  then show ?case by (auto simp: clear_walk.simps)
next
  case (Cons x ns)
  from Cons.prems obtain n where x: "pHeadMasterData sl = fst x" "fst x \<noteq> NULL"
    "h (fst x) = Some (Node (snd x) n)" "lseg h n ns NULL" by (auto simp: lseg_Cons)
  have "fst x \<notin> set (addrs ns)" using lseg_distinct [OF Cons.prems] by simp
  then have "lseg (h(fst x := None)) (pHeadMasterData (sl\<lparr>nSize := nSize sl - 1, pHeadMasterData := n\<rparr>)) ns NULL"
    using x(4) by simp
  from Cons.IH [OF this] obtain h' sl' where ih: "clear_walk (h(fst x := None))
       (sl\<lparr>nSize := nSize sl - 1, pHeadMasterData := n\<rparr>) = Some (Inr (h', sl'))"
    "nSize sl' = nSize (sl\<lparr>nSize := nSize sl - 1, pHeadMasterData := n\<rparr>) - int (length ns)"
    "dom h' = dom (h(fst x := None)) - set (addrs ns)"
    "\<forall>b. b \<notin> set (addrs ns) \<longrightarrow> h' b = (h(fst x := None)) b" by blast
  then have "clear_walk h sl = Some (Inr (h', sl'))" using x by (simp add: clear_walk.simps [of h])
  then show ?case using ih(2-4) by auto
qed

lemma clear_slots_ok:
  assumes "list_all2 (slot_ok h) sls xss" and "distinct (addrs (concat xss))"
  shows "\<exists>h' sls'. clear_slots h sls = Some (Inr (h', sls'))
     \<and> (\<forall>g. list_all2 (slot_ok g) sls' (map (\<lambda>_. []) xss))
     \<and> dom h' = dom h - set (addrs (concat xss))"
  using assms
proof (induction xss arbitrary: sls h rule: list.induct)
  case Nil
  then show ?case by simp
next
  case (Cons ns xss)
  then obtain sl sls0 where sls: "sls = sl # sls0" "slot_ok h sl ns" "list_all2 (slot_ok h) sls0 xss"
    by (auto simp: list_all2_Cons2)
  from Cons.prems(2) have disj: "set (addrs ns) \<inter> set (addrs (concat xss)) = {}"
    and dist: "distinct (addrs (concat xss))" by auto
  show ?case
  proof (cases "pHeadMasterData sl = NULL")
    case True
    then have "ns = []" using slot_ok_lseg [OF sls(2)] by simp
    then show ?thesis using True sls(1,2) Cons.IH [OF sls(3) dist] by (auto simp: slot_ok_def)
  next
    case False
    from clear_walk_ok [OF slot_ok_lseg [OF sls(2)]] obtain h1 sl1 where w:
      "clear_walk h sl = Some (Inr (h1, sl1))" "nSize sl1 = nSize sl - int (length ns)"
      "dom h1 = dom h - set (addrs ns)" "\<forall>b. b \<notin> set (addrs ns) \<longrightarrow> h1 b = h b" by blast
    have "h b = h1 b" if "b \<in> set (addrs (concat xss))" for b
      using w(4) disj that by (metis IntI empty_iff)
    then have "list_all2 (slot_ok h1) sls0 xss" by (rule slots_cong [OF sls(3)])
    from Cons.IH [OF this dist] obtain h2 sls2 where ih: "clear_slots h1 sls0 = Some (Inr (h2, sls2))"
      "\<forall>g. list_all2 (slot_ok g) sls2 (map (\<lambda>_. []) xss)" "dom h2 = dom h1 - set (addrs (concat xss))"
      by blast
    have "nSize sl1 = 0" using w(2) sls(2) by (simp add: slot_ok_def)
    then have "slot_ok g (sl1\<lparr>pHeadMasterData := NULL, pTailMasterData := NULL\<rparr>) []" for g
      by (rule slot_ok_empty)
    then show ?thesis using False sls(1) w(1,3) ih by auto
  qed
qed

lemma ClearMasterTable_ok:
  assumes ok: "master_ok s xss"
  shows "\<exists>s'. ClearMasterTable s = Some (Inr s') \<and> master_ok s' no_tasks \<and> dom (mheap s') = {}
     \<and> s' = s\<lparr>mheap := mheap s', gSchMasterTable := gSchMasterTable s'\<rparr>"
proof -
  have l: "list_all2 (slot_ok (mheap s)) (gSchMasterTable s) xss" "distinct (addrs (concat xss))"
    "dom (mheap s) = set (addrs (concat xss))" using ok by (simp_all add: master_ok_def)
  from clear_slots_ok [OF l(1,2)] obtain h' sls' where c:
    "clear_slots (mheap s) (gSchMasterTable s) = Some (Inr (h', sls'))"
    "list_all2 (slot_ok h') sls' (map (\<lambda>_. []) xss)" "dom h' = {}" using l(3) by blast
  have n: "map (\<lambda>_. []) xss = no_tasks" using master_ok_length [OF ok] by (simp add: map_replicate_const)
  then have "master_ok (s\<lparr>mheap := h', gSchMasterTable := sls'\<rparr>) no_tasks"
    using c(2,3) list_all2_lengthD [OF c(2)] by (simp add: master_ok_def)
  then show ?thesis using c(1,3) by (simp add: ClearMasterTable_def)
qed

section \<open>Adding, on every branch\<close>

definition rejected :: "tm \<Rightarrow> stTask \<Rightarrow> bool" where
  "rejected now task \<longleftrightarrow> ValidateTask now task \<noteq> NASC_SUCCESS
     \<or> ePCity task \<notin> {SCH_SEC_MIN_HOUR, SCH_DAY, SCH_WEEK, SCH_MONTH}"

lemma SCH_AddTask_rejected: "rejected now t \<Longrightarrow> SCH_AddTask malloc now t s = Inr (-1, s)"
  by (auto simp: rejected_def SCH_AddTask_def)

lemma SCH_AddTask_accepted:
  "\<not> rejected now t \<Longrightarrow> SCH_AddTask malloc now t s = add_to_slot malloc (task_home t) t s"
  by (auto simp: rejected_def SCH_AddTask_def task_home_def)

lemma add_to_slot_oom:
  "malloc (mheap s) = NULL \<Longrightarrow> i < length (gSchMasterTable s) \<Longrightarrow>
   add_to_slot malloc i t s = Inr (-1, s)"
  by (simp add: add_to_slot_def)

lemma add_to_slot_oob:
  "length (gSchMasterTable s) \<le> i \<Longrightarrow> add_to_slot malloc i t s = Inl (OutOfBounds (int i))"
  by (simp add: add_to_slot_def)

lemma SCH_AddTask_ok:
  assumes ok: "master_ok s xss" and m: "alloc_ok malloc"
    and acc: "\<not> rejected now t" "task_home t < MASTER_ARR_SIZE" "malloc (mheap s) \<noteq> NULL"
  shows "\<exists>s'. SCH_AddTask malloc now t s = Inr (int (malloc (mheap s)), s')
     \<and> master_ok s' (insert_task (malloc (mheap s)) t xss) \<and> gbTaskChanged s'
     \<and> s' = s\<lparr>mheap := mheap s', gSchMasterTable := gSchMasterTable s', gbTaskChanged := True\<rparr>"
proof -
  have "malloc (mheap s) \<notin> dom (mheap s)" using alloc_okD [OF m acc(3)] by blast
  from add_to_slot_ok [of s xss "task_home t" t malloc "malloc (mheap s)", OF ok refl acc(2) refl acc(3) this] show ?thesis
    using SCH_AddTask_accepted [OF acc(1)] by simp
qed

section \<open>The tasks of a state\<close>

text \<open>The map from task ids to tasks, read off the heap: the observable content of the table.\<close>

definition tasks :: "sched \<Rightarrow> int \<Rightarrow> stTask option" where
  "tasks s i = (if 0 < i then map_option dat (mheap s (nat i)) else None)"

lemma lseg_lookup:
  "lseg h p ns q \<Longrightarrow> n \<in> set ns \<Longrightarrow> fst n \<noteq> NULL \<and> map_option dat (h (fst n)) = Some (snd n)"
  by (induction ns arbitrary: p) (auto simp: lseg_Cons)

lemma tasks_task_map:
  assumes ok: "master_ok s xss"
  shows "tasks s = task_map xss"
proof
  fix i
  have dist: "distinct (map fst (map id_pair (concat xss)))"
    unfolding distinct_id_pair using ok by (simp add: master_ok_def)
  show "tasks s i = task_map xss i"
  proof (cases "i \<in> int ` set (addrs (concat xss))")
    case True
    then obtain n where n: "n \<in> set (concat xss)" "i = int (fst n)" by auto
    then obtain ms where "ms \<in> set xss" "n \<in> set ms" by auto
    then obtain j where j: "j < MASTER_ARR_SIZE" "n \<in> set (xss ! j)"
      using master_ok_length [OF ok] by (metis in_set_conv_nth)
    have "fst n \<noteq> NULL \<and> map_option dat (mheap s (fst n)) = Some (snd n)"
      using lseg_lookup [OF slot_ok_lseg [OF master_ok_slot [OF ok j(1)]] j(2)] .
    then have "tasks s i = Some (snd n)" using n(2) by (simp add: tasks_def)
    moreover have "(i, snd n) \<in> set (map id_pair (concat xss))" using n by (force simp: id_pair_def)
    then have "task_map xss i = Some (snd n)" unfolding task_map_def using dist by (simp only: map_of_eq_Some_iff)
    ultimately show ?thesis by simp
  next
    case False
    have "mheap s (nat i) = None" if "0 < i"
    proof -
      have "nat i \<notin> set (addrs (concat xss))" using False that by (metis image_eqI nat_0_le order_less_imp_le)
      then show ?thesis using ok by (metis domIff master_ok_def)
    qed
    then have "tasks s i = None" by (simp add: tasks_def)
    then show ?thesis using False task_map_None by metis
  qed
qed

end
