(* ===== verification/SchedStore.thy ===== *)
theory SchedStore
  imports SchedMaster
begin

text \<open>
  The contract of the master table: a finite map from task ids to tasks. The interface of the
  public operations is the locale \<open>task_store\<close>, what its clients rely on is proved in it once,
  and it is interpreted on the operations of \<^verbatim>\<open>NASCenter_Scheduler.c\<close>. The second part is
  the transition system of the public operations with its refinement to the map.
\<close>

section \<open>Interface\<close>

locale task_store =
  fixes inv :: "'s \<Rightarrow> bool" and look :: "'s \<Rightarrow> int \<Rightarrow> 't option"
    and admits refuses :: "'c \<Rightarrow> 't \<Rightarrow> 's \<Rightarrow> bool"
    and add :: "'c \<Rightarrow> 't \<Rightarrow> 's \<Rightarrow> (int \<times> 's) res"
    and del :: "int \<Rightarrow> 's \<Rightarrow> (ENASCenterError \<times> 's) run"
    and get :: "int \<Rightarrow> 's \<Rightarrow> (ENASCenterError \<times> 't option) run"
  assumes add_admits: "inv s \<Longrightarrow> admits c t s \<Longrightarrow>
      \<exists>i s'. add c t s = Inr (i, s') \<and> inv s' \<and> 0 < i \<and> look s i = None \<and> look s' = (look s)(i \<mapsto> t)"
    and add_refuses: "inv s \<Longrightarrow> refuses c t s \<Longrightarrow> add c t s = Inr (-1, s)"
    and del_law: "inv s \<Longrightarrow> \<exists>s'. del i s =
        Some (Inr (if look s i = None then NASC_FAILURE else NASC_SUCCESS, s'))
        \<and> inv s' \<and> look s' = (look s)(i := None)"
    and get_law: "inv s \<Longrightarrow> get i s =
        Some (Inr (if look s i = None then NASC_FAILURE else NASC_SUCCESS, look s i))"
begin

text \<open>A task just added is found under the id that was returned, and the others are not touched.\<close>

lemma get_after_add:
  assumes "inv s" "add c t s = Inr (i, s')" "admits c t s"
  shows "get i s' = Some (Inr (NASC_SUCCESS, Some t))" and "j \<noteq> i \<Longrightarrow> get j s' = get j s"
  using add_admits [OF assms(1,3)] assms get_law by auto

lemma del_after_add:
  assumes "inv s" "admits c t s"
  obtains i s' s'' where "add c t s = Inr (i, s')" "del i s' = Some (Inr (NASC_SUCCESS, s''))"
    "look s'' = look s"
proof -
  obtain i s' where a: "add c t s = Inr (i, s')" "inv s'" "look s i = None" "look s' = (look s)(i \<mapsto> t)"
    using add_admits [OF assms] by blast
  obtain s'' where d: "del i s' = Some (Inr (NASC_SUCCESS, s''))" "look s'' = (look s')(i := None)"
    using del_law [OF a(2), of i] a(4) by auto
  have "look s'' = look s" using a(3,4) d(2) by (auto simp: fun_eq_iff)
  with a d show ?thesis using that by blast
qed

lemma get_after_del:
  assumes "inv s" "del i s = Some (Inr (e, s'))"
  shows "get i s' = Some (Inr (NASC_FAILURE, None))" and "j \<noteq> i \<Longrightarrow> get j s' = get j s"
  using del_law [OF assms(1), of i] assms get_law by auto

text \<open>The composition of delete and add that \<^verbatim>\<open>SCH_ModifyTask\<close> is, in its three outcomes.\<close>

lemma modify_unknown:
  assumes "inv s" "look s i = None"
  shows "\<exists>s'. obind (del i s) (\<lambda>(b, s'). if err_code b \<noteq> 0 then lift_res (add c t s')
       else Some (Inr (-1, s'))) = Some (Inr (-1, s')) \<and> inv s' \<and> look s' = look s"
  using del_law [OF assms(1), of i] assms by (auto simp: fun_upd_idem)

lemma modify_replaced:
  assumes "inv s" "look s i \<noteq> None" "\<And>s'. look s' = (look s)(i := None) \<Longrightarrow> inv s' \<Longrightarrow> admits c t s'"
  shows "\<exists>j s'. obind (del i s) (\<lambda>(b, s'). if err_code b \<noteq> 0 then lift_res (add c t s')
       else Some (Inr (-1, s'))) = Some (Inr (j, s')) \<and> 0 < j \<and> inv s'
       \<and> ((look s)(i := None)) j = None \<and> look s' = (look s)(i := None, j \<mapsto> t)"
proof -
  obtain s1 where d: "del i s = Some (Inr (NASC_SUCCESS, s1))" "inv s1" "look s1 = (look s)(i := None)"
    using del_law [OF assms(1), of i] assms(2) by auto
  obtain j s' where "add c t s1 = Inr (j, s')" "inv s'" "0 < j" "look s1 j = None" "look s' = (look s1)(j \<mapsto> t)"
    using add_admits [OF d(2) assms(3) [OF d(3,2)]] by blast
  then show ?thesis using d by (simp add: lift_res_def)
qed

lemma modify_lost:
  assumes "inv s" "look s i \<noteq> None" "\<And>s'. look s' = (look s)(i := None) \<Longrightarrow> inv s' \<Longrightarrow> refuses c t s'"
  shows "\<exists>s'. obind (del i s) (\<lambda>(b, s'). if err_code b \<noteq> 0 then lift_res (add c t s')
       else Some (Inr (-1, s'))) = Some (Inr (-1, s')) \<and> inv s' \<and> look s' = (look s)(i := None)"
proof -
  obtain s1 where d: "del i s = Some (Inr (NASC_SUCCESS, s1))" "inv s1" "look s1 = (look s)(i := None)"
    using del_law [OF assms(1), of i] assms(2) by auto
  then show ?thesis using add_refuses [OF d(2) assms(3) [OF d(3,2)]] by (simp add: lift_res_def)
qed

end

section \<open>The master table provides it\<close>

definition master_inv :: "sched \<Rightarrow> bool" where
  "master_inv s \<longleftrightarrow> (\<exists>xss. master_ok s xss)"

text \<open>
  What \<^verbatim>\<open>SCH_AddTask\<close> does with a task: it is admitted (valid, its hour inside the table and
  memory available), refused (invalid or out of memory, the result -1), or, for a valid task
  whose start hour exceeds 24, it writes outside the table.
\<close>

abbreviation add_with :: "stTask allocator \<times> tm \<Rightarrow> stTask \<Rightarrow> sched \<Rightarrow> (int \<times> sched) res" where
  "add_with c t s \<equiv> SCH_AddTask (fst c) (snd c) t s"

definition add_admits_task :: "stTask allocator \<times> tm \<Rightarrow> stTask \<Rightarrow> sched \<Rightarrow> bool" where
  "add_admits_task c t s \<longleftrightarrow> alloc_ok (fst c) \<and> \<not> rejected (snd c) t
     \<and> task_home t < MASTER_ARR_SIZE \<and> fst c (mheap s) \<noteq> NULL"

definition add_refuses_task :: "stTask allocator \<times> tm \<Rightarrow> stTask \<Rightarrow> sched \<Rightarrow> bool" where
  "add_refuses_task c t s \<longleftrightarrow> rejected (snd c) t
     \<or> task_home t < MASTER_ARR_SIZE \<and> fst c (mheap s) = NULL"

lemma master_inv_table: "master_inv s \<Longrightarrow> length (gSchMasterTable s) = MASTER_ARR_SIZE"
  by (auto simp: master_inv_def master_ok_def)

lemma SCH_AddTask_admits:
  assumes inv: "master_inv s" and c: "add_admits_task c t s"
  shows "\<exists>i s'. add_with c t s = Inr (i, s') \<and> master_inv s' \<and> 0 < i
     \<and> tasks s i = None \<and> tasks s' = (tasks s)(i \<mapsto> t)"
proof -
  obtain xss where ok: "master_ok s xss" using inv by (auto simp: master_inv_def)
  let ?a = "fst c (mheap s)"
  have a: "alloc_ok (fst c)" "\<not> rejected (snd c) t" "task_home t < MASTER_ARR_SIZE" "?a \<noteq> NULL"
    using c by (simp_all add: add_admits_task_def)
  have new: "?a \<notin> dom (mheap s)" using alloc_okD [OF a(1,4)] by blast
  from SCH_AddTask_ok [OF ok a] obtain s' where s': "add_with c t s = Inr (int ?a, s')"
    "master_ok s' (insert_task ?a t xss)" by blast
  have "?a \<notin> set (addrs (concat xss))" using new ok by (simp add: master_ok_def)
  then have "task_map (insert_task ?a t xss) = (task_map xss)(int ?a \<mapsto> t)"
    using a(3) ok by (intro insert_task_distinct) (simp_all add: master_ok_def master_ok_length [OF ok])
  then have "tasks s' = (tasks s)(int ?a \<mapsto> t)"
    using tasks_task_map [OF ok] tasks_task_map [OF s'(2)] by simp
  moreover have "tasks s (int ?a) = None" using new by (simp add: tasks_def domIff)
  ultimately show ?thesis using s' a(4) by (auto simp: master_inv_def)
qed

lemma SCH_AddTask_refuses:
  assumes "master_inv s" and c: "add_refuses_task c t s"
  shows "add_with c t s = Inr (-1, s)"
proof (cases "rejected (snd c) t")
  case True
  then show ?thesis by (rule SCH_AddTask_rejected)
next
  case False
  then show ?thesis using c master_inv_table [OF assms(1)]
    by (auto simp: add_refuses_task_def SCH_AddTask_accepted intro: add_to_slot_oom)
qed

lemma SCH_DeleteTask_law:
  assumes "master_inv s"
  shows "\<exists>s'. SCH_DeleteTask i s =
      Some (Inr (if tasks s i = None then NASC_FAILURE else NASC_SUCCESS, s'))
      \<and> master_inv s' \<and> tasks s' = (tasks s)(i := None)"
proof -
  obtain xss where ok: "master_ok s xss" using assms by (auto simp: master_inv_def)
  from SCH_DeleteTask_ok [OF ok, of i] obtain s' where d: "SCH_DeleteTask i s =
      Some (Inr (if tasks s i = None then NASC_FAILURE else NASC_SUCCESS, s'))"
    "master_ok s' (remove_task i xss)" using tasks_task_map [OF ok] by metis
  then show ?thesis using tasks_task_map [OF ok] tasks_task_map [OF d(2)] task_map_remove
    by (metis master_inv_def)
qed

lemma SCH_GetTask_law:
  "master_inv s \<Longrightarrow> SCH_GetTask i s =
     Some (Inr (if tasks s i = None then NASC_FAILURE else NASC_SUCCESS, tasks s i))"
  unfolding master_inv_def using SCH_GetTask_ok tasks_task_map by (fastforce split: option.split)

interpretation ms: task_store master_inv tasks add_admits_task add_refuses_task add_with
    SCH_DeleteTask SCH_GetTask
  by unfold_locales
    (use SCH_AddTask_admits SCH_AddTask_refuses SCH_DeleteTask_law SCH_GetTask_law in blast)+

section \<open>The transition system of the public operations\<close>

datatype sch_event =
    EvAdd stTask int            \<comment> \<open>the task and the id returned\<close>
  | EvDelete int bool           \<comment> \<open>the id and whether it was found\<close>
  | EvModify int stTask int     \<comment> \<open>the id, the new task, the new id\<close>
  | EvGet int "stTask option"   \<comment> \<open>the id and the task copied out\<close>
  | EvClean                     \<comment> \<open>the scheduler's cleaning at midnight\<close>
  | EvClear                     \<comment> \<open>the scheduler's clearing when it stops\<close>

inductive sch_step :: "sched \<Rightarrow> sch_event \<Rightarrow> sched \<Rightarrow> bool" where
  st_add: "alloc_ok malloc \<Longrightarrow> SCH_AddTask malloc now t s = Inr (i, s') \<Longrightarrow> sch_step s (EvAdd t i) s'"
| st_delete: "SCH_DeleteTask i s = Some (Inr (e, s')) \<Longrightarrow> sch_step s (EvDelete i (e = NASC_SUCCESS)) s'"
| st_modify: "alloc_ok malloc \<Longrightarrow> SCH_ModifyTask malloc now i t s = Some (Inr (j, s'))
     \<Longrightarrow> sch_step s (EvModify i t j) s'"
| st_get: "SCH_GetTask i s = Some (Inr (e, r)) \<Longrightarrow> sch_step s (EvGet i r) s"
| st_clean: "SCH_AutoCleanTask clk s = Some (Inr s') \<Longrightarrow> sch_step s EvClean s'"
| st_clear: "ClearMasterTable s = Some (Inr s') \<Longrightarrow> sch_step s EvClear s'"

inductive_cases sch_stepE [elim]:
  "sch_step s (EvAdd t i) s'" "sch_step s (EvDelete i b) s'" "sch_step s (EvModify i t j) s'"
  "sch_step s (EvGet i r) s'" "sch_step s EvClean s'" "sch_step s EvClear s'"

text \<open>The specification: the same events on a map. A modification that fails loses the old task.\<close>

definition periodic_only :: "(int \<Rightarrow> stTask option) \<Rightarrow> int \<Rightarrow> stTask option" where
  "periodic_only m i = (case m i of None \<Rightarrow> None
     | Some t \<Rightarrow> if eType t = SCH_ONE_SHOT then None else Some t)"

inductive map_step :: "(int \<Rightarrow> stTask option) \<Rightarrow> sch_event \<Rightarrow> (int \<Rightarrow> stTask option) \<Rightarrow> bool" where
  ms_add: "0 < i \<Longrightarrow> m i = None \<Longrightarrow> map_step m (EvAdd t i) (m(i \<mapsto> t))"
| ms_refuse: "map_step m (EvAdd t (-1)) m"
| ms_delete: "map_step m (EvDelete i (m i \<noteq> None)) (m(i := None))"
| ms_replace: "m i \<noteq> None \<Longrightarrow> 0 < j \<Longrightarrow> (m(i := None)) j = None
     \<Longrightarrow> map_step m (EvModify i t j) (m(i := None, j \<mapsto> t))"
| ms_lose: "map_step m (EvModify i t (-1)) (m(i := None))"
| ms_get: "map_step m (EvGet i (m i)) m"
| ms_clean: "map_step m EvClean (periodic_only m)"
| ms_clear: "map_step m EvClear Map.empty"

inductive_simps map_step_simps:
  "map_step m (EvAdd t i) m'" "map_step m (EvDelete i b) m'" "map_step m (EvModify i t j) m'"
  "map_step m (EvGet i r) m'" "map_step m EvClean m'" "map_step m EvClear m'"

lemma add_outcomes:
  assumes inv: "master_inv s" and m: "alloc_ok malloc" and r: "SCH_AddTask malloc now t s = Inr (i, s')"
  shows "master_inv s' \<and> (0 < i \<and> tasks s i = None \<and> tasks s' = (tasks s)(i \<mapsto> t) \<or> i = -1 \<and> s' = s)"
proof (cases "add_refuses_task (malloc, now) t s")
  case True
  then show ?thesis using SCH_AddTask_refuses [OF inv True] inv r by simp
next
  case False
  have "task_home t < MASTER_ARR_SIZE"
  proof (rule ccontr)
    assume "\<not> ?thesis"
    then have "SCH_AddTask malloc now t s = Inl (OutOfBounds (int (task_home t)))"
      using False SCH_AddTask_accepted master_inv_table [OF inv]
      by (simp add: add_refuses_task_def add_to_slot_oob)
    with r show False by simp
  qed
  then have "add_admits_task (malloc, now) t s"
    using False m by (simp add: add_admits_task_def add_refuses_task_def)
  from SCH_AddTask_admits [OF inv this] r show ?thesis by auto
qed

lemma modify_outcomes:
  assumes inv: "master_inv s" and m: "alloc_ok malloc" and r: "SCH_ModifyTask malloc now i t s = Some (Inr (j, s'))"
  shows "master_inv s' \<and> (tasks s i \<noteq> None \<and> 0 < j \<and> ((tasks s)(i := None)) j = None
     \<and> tasks s' = (tasks s)(i := None, j \<mapsto> t) \<or> j = -1 \<and> tasks s' = (tasks s)(i := None))"
proof -
  obtain s1 where d: "SCH_DeleteTask i s =
      Some (Inr (if tasks s i = None then NASC_FAILURE else NASC_SUCCESS, s1))"
    "master_inv s1" "tasks s1 = (tasks s)(i := None)"
    using SCH_DeleteTask_law [OF inv] by blast
  show ?thesis
  proof (cases "tasks s i = None")
    case True
    then show ?thesis using d r by (auto simp: SCH_ModifyTask_def)
  next
    case False
    then have "SCH_DeleteTask i s = Some (Inr (NASC_SUCCESS, s1))" using d(1) by simp
    then have "SCH_AddTask malloc now t s1 = Inr (j, s')"
      using r by (simp add: SCH_ModifyTask_def lift_res_def)
    from add_outcomes [OF d(2) m this] d(3) False show ?thesis by auto
  qed
qed

lemma map_of_periodic:
  "distinct (addrs ns) \<Longrightarrow> map_of (map id_pair (filter (\<lambda>n. \<not> one_shot n) ns)) i
     = periodic_only (map_of (map id_pair ns)) i"
proof (induction ns)
  case (Cons n ns)
  have "int (fst n) \<notin> fst ` set (map id_pair ns)" using Cons.prems
    by (simp add: image_image image_iff)
  then have "map_of (map id_pair ns) (int (fst n)) = None" by (rule iffD2 [OF map_of_eq_None_iff])
  then show ?case using Cons by (auto simp: periodic_only_def one_shot_def)
qed (simp add: periodic_only_def)

lemma tasks_keep_tasks:
  assumes ok: "master_ok s xss" "master_ok s' (keep_tasks xss)"
  shows "tasks s' = periodic_only (tasks s)"
proof
  fix i
  have "distinct (addrs (concat xss))" using ok(1) by (simp add: master_ok_def)
  from map_of_periodic [OF this, of i] show "tasks s' i = periodic_only (tasks s) i"
    unfolding tasks_task_map [OF ok(1)] tasks_task_map [OF ok(2)] task_map_def filter_concat
    by (simp add: periodic_only_def)
qed

lemma sch_step_refines:
  assumes "sch_step s e s'" and inv: "master_inv s"
  shows "master_inv s' \<and> map_step (tasks s) e (tasks s')"
  using assms(1)
proof cases
  case (st_add malloc now t i)
  from add_outcomes [OF inv st_add(2,3)] st_add(1) show ?thesis by (auto simp: map_step_simps)
next
  case (st_delete i e)
  with SCH_DeleteTask_law [OF inv, of i] show ?thesis by (auto simp: map_step_simps)
next
  case (st_modify malloc now i t j)
  from modify_outcomes [OF inv st_modify(2,3)] st_modify(1) show ?thesis by (auto simp: map_step_simps)
next
  case (st_get i e r)
  with SCH_GetTask_law [OF inv, of i] inv show ?thesis by (auto simp: map_step_simps)
next
  case (st_clean clk)
  obtain xss where ok: "master_ok s xss" using inv by (auto simp: master_inv_def)
  from SCH_AutoCleanTask_post [OF ok st_clean(2)] have "master_ok s' (keep_tasks xss)" by auto
  then show ?thesis using tasks_keep_tasks [OF ok] st_clean(1) by (auto simp: master_inv_def map_step_simps)
next
  case st_clear
  obtain xss where ok: "master_ok s xss" using inv by (auto simp: master_inv_def)
  from ClearMasterTable_ok [OF ok] st_clear(2) have "master_ok s' no_tasks" "dom (mheap s') = {}" by auto
  then have "tasks s' = Map.empty" by (auto simp: tasks_def fun_eq_iff)
  then show ?thesis using \<open>master_ok s' no_tasks\<close> st_clear(1) by (auto simp: master_inv_def map_step_simps)
qed

section \<open>Runs\<close>

inductive sch_runs :: "sched \<Rightarrow> sch_event list \<Rightarrow> sched \<Rightarrow> bool" where
  runs_nil: "sch_runs s [] s"
| runs_step: "sch_step s e s1 \<Longrightarrow> sch_runs s1 es s' \<Longrightarrow> sch_runs s (e # es) s'"

inductive map_runs :: "(int \<Rightarrow> stTask option) \<Rightarrow> sch_event list \<Rightarrow> (int \<Rightarrow> stTask option) \<Rightarrow> bool" where
  mruns_nil: "map_runs m [] m"
| mruns_step: "map_step m e m1 \<Longrightarrow> map_runs m1 es m' \<Longrightarrow> map_runs m (e # es) m'"

inductive_simps map_runs_simps: "map_runs m [] m'" "map_runs m (e # es) m'"

lemma sch_runs_refines:
  "sch_runs s es s' \<Longrightarrow> master_inv s \<Longrightarrow> master_inv s' \<and> map_runs (tasks s) es (tasks s')"
  by (induction rule: sch_runs.induct) (use sch_step_refines mruns_nil mruns_step in blast)+

text \<open>An event that can end or replace the task with id \<open>i\<close>.\<close>

fun ends_task :: "int \<Rightarrow> sch_event \<Rightarrow> bool" where
  "ends_task i (EvDelete j _) = (i = j)"
| "ends_task i (EvModify j _ _) = (i = j)"
| "ends_task i EvClean = True"
| "ends_task i EvClear = True"
| "ends_task i _ = False"

lemma map_step_keeps:
  "map_step m e m' \<Longrightarrow> \<not> ends_task i e \<Longrightarrow> m i = Some t \<Longrightarrow> m' i = Some t"
  by (induction rule: map_step.induct) auto

lemma map_runs_keeps:
  "map_runs m es m' \<Longrightarrow> \<forall>e\<in>set es. \<not> ends_task i e \<Longrightarrow> m i = Some t \<Longrightarrow> m' i = Some t"
  by (induction rule: map_runs.induct) (auto dest: map_step_keeps)

lemma map_runs_append: "map_runs m (xs @ ys) m' \<longleftrightarrow> (\<exists>m1. map_runs m xs m1 \<and> map_runs m1 ys m')"
  by (induction xs arbitrary: m) (auto simp: map_runs_simps)

section \<open>Concrete tables\<close>

text \<open>
  States at which the properties are applied: a freshly initialised table, a daily task of
  three o'clock, and the table with that task at address 1.
\<close>

definition no_sched :: sched where
  "no_sched = \<lparr>mheap = Map.empty, gSchMasterTable = [], gbTaskChanged = False, gbStopScheduler = False,
     eheap = Map.empty, gExecList = \<lparr>pHeadExecData = NULL, pTailExecData = NULL, nExecSize = 0\<rparr>\<rparr>"

definition at_clock :: "int \<Rightarrow> int \<Rightarrow> int \<Rightarrow> tm" where
  "at_clock h m sec = \<lparr>tm_sec = sec, tm_min = m, tm_hour = h, tm_mday = 5, tm_mon = 6, tm_year = 107, tm_wday = 4\<rparr>"

definition task_at :: "int \<Rightarrow> int \<Rightarrow> UI16 \<Rightarrow> UI16 \<Rightarrow> stTask" where
  "task_at ty pcity hour year = \<lparr>StartDate = \<lparr>ui16Day = 5, ui16Month = 6, ui16Year = year\<rparr>,
     EndDate = \<lparr>ui16Day = 5, ui16Month = 6, ui16Year = year\<rparr>,
     StartTime = \<lparr>ui16Hour = hour, ui16Minute = 30, ui16Second = 0\<rparr>,
     EndTime = \<lparr>ui16Hour = 0, ui16Minute = 0, ui16Second = 0\<rparr>, eType = ty, ePCity = pcity,
     ui32Interval = 1200, eWeekDay = 4, fp = 100, vpArg = 200\<rparr>"

definition daily_task :: stTask where
  "daily_task = task_at SCH_PERIODIC SCH_DAY 3 2007"

definition one_task :: "stTask \<Rightarrow> sched" where
  "one_task t = (let s = InitMasterTable no_sched in s\<lparr>mheap := [1 \<mapsto> Node t NULL],
     gSchMasterTable := (gSchMasterTable s)[task_home t :=
       \<lparr>pHeadMasterData = 1, pTailMasterData = 1, nSize = 1\<rparr>], gbTaskChanged := True\<rparr>)"

lemmas demo_defs = no_sched_def at_clock_def task_at_def daily_task_def one_task_def
  InitMasterTable_def task_home_def

lemma no_sched_master: "master_ok (InitMasterTable no_sched) no_tasks"
  by (rule InitMasterTable_ok) (simp add: no_sched_def)

lemma no_sched_inv [simp]: "master_inv (InitMasterTable no_sched)"
  using no_sched_master by (auto simp: master_inv_def)

lemma bump_empty [simp]: "bump Map.empty = 1"
  by (simp add: bump_def)

lemma add_to_no_sched:
  assumes "\<not> rejected now t" "task_home t < MASTER_ARR_SIZE"
  shows "SCH_AddTask bump now t (InitMasterTable no_sched) = Inr (1, one_task t)"
  using assms by (simp add: SCH_AddTask_accepted add_to_slot_def one_task_def InitMasterTable_def no_sched_def)

lemma one_task_master:
  assumes "task_home t < MASTER_ARR_SIZE"
  shows "master_ok (one_task t) (no_tasks[task_home t := [(1, t)]])"
proof -
  have "slot_ok (mheap (one_task t)) \<lparr>pHeadMasterData = 1, pTailMasterData = 1, nSize = 1\<rparr> [(1, t)]"
    by (simp add: slot_ok_def lseg_Cons one_task_def Let_def)
  moreover have "list_all2 (slot_ok (mheap (one_task t))) (gSchMasterTable (InitMasterTable no_sched)) no_tasks"
    by (simp add: list_all2_conv_all_nth InitMasterTable_def slot_ok_def)
  ultimately have "list_all2 (slot_ok (mheap (one_task t))) (gSchMasterTable (one_task t)) (no_tasks[task_home t := [(1, t)]])"
    by (simp add: one_task_def Let_def list_all2_update_cong)
  moreover have "mset (concat (no_tasks[task_home t := no_tasks ! task_home t @ [(1::nat, t)]]))
      = add_mset (1, t) (mset (concat no_tasks))"
    using assms by (intro mset_concat_append_at) simp
  then have "mset (concat (no_tasks[task_home t := [(1, t)]])) = mset [(1, t)]" using assms by simp
  then have "concat (no_tasks[task_home t := [(1, t)]]) = [(1, t)]" by simp
  ultimately show ?thesis using assms
    by (auto simp: master_ok_def one_task_def InitMasterTable_def Let_def nth_list_update split: if_splits)
qed

section \<open>Properties\<close>

lemma master_ok_dom: "master_ok s xss \<Longrightarrow> dom (mheap s) = set (addrs (concat xss))"
  unfolding master_ok_def by (elim conjE)

lemma master_inv_malloc:
  assumes "master_inv s" and "mem_suffices malloc"
  shows "malloc (mheap s) \<noteq> NULL"
proof -
  obtain xss where "master_ok s xss" using assms(1) unfolding master_inv_def by blast
  from master_ok_dom [OF this] have "finite (dom (mheap s))" by (simp only: finite_set)
  then show ?thesis using assms(2) by (simp add: mem_suffices_def)
qed

lemmas add_demo = add_to_no_sched [of "at_clock 3 0 0" daily_task]

lemma daily_accepted [simp]: "\<not> rejected (at_clock h m x) daily_task" "task_home daily_task = 3"
  by (simp_all add: rejected_def ValidateTask_def demo_defs)

lemma one_task_inv: "task_home t < MASTER_ARR_SIZE \<Longrightarrow> master_inv (one_task t)"
  using one_task_master by (auto simp: master_inv_def)

lemma tasks_one_task [simp]: "tasks (one_task t) = [1 \<mapsto> t]"
  by (auto simp: tasks_def one_task_def Let_def fun_eq_iff)

lemma tasks_no_sched [simp]: "tasks (InitMasterTable no_sched) = Map.empty"
  by (simp add: tasks_def InitMasterTable_def no_sched_def fun_eq_iff)

lemma demo_add_step: "sch_step (InitMasterTable no_sched) (EvAdd daily_task 1) (one_task daily_task)"
  by (rule st_add [of bump "at_clock 3 0 0"]) (use add_demo in simp_all)

lemma demo_delete_step: "\<exists>s'. sch_step (one_task daily_task) (EvDelete 1 True) s'"
proof -
  obtain s' where "SCH_DeleteTask 1 (one_task daily_task) = Some (Inr (NASC_SUCCESS, s'))"
    using SCH_DeleteTask_law [OF one_task_inv, of daily_task 1] by auto
  from st_delete [OF this] show ?thesis by auto
qed

text \<open>C2: Every sequence of public operations on the master table (adding, deleting, modifying and
  reading tasks, the cleaning at midnight, the clearing on stop) behaves like the same sequence on a
  finite map from task ids to tasks, and keeps the 25 linked lists well formed.\<close>

theorem master_table_refines_map:
  assumes "sch_runs s es s'" and "master_inv s"
  shows "master_inv s' \<and> map_runs (tasks s) es (tasks s')"
  by (rule sch_runs_refines [OF assms])

theorem master_table_refines_map_witness:
  "\<exists>s'. map_runs Map.empty [EvAdd daily_task 1, EvDelete 1 True] (tasks s')"
proof -
  obtain s' where "sch_step (one_task daily_task) (EvDelete 1 True) s'" using demo_delete_step by blast
  then have "sch_runs (InitMasterTable no_sched) [EvAdd daily_task 1, EvDelete 1 True] s'"
    by (intro runs_step [OF demo_add_step] runs_step [OF _ runs_nil])
  from master_table_refines_map [OF this no_sched_inv] show ?thesis
    by auto
qed

text \<open>C14: A task that was added (a positive id came back) is found by SCH_GetTask under its id, unchanged,
  after any later sequence of operations that does not delete or modify this id, clean or clear:
  adding, deleting and modifying other tasks never damages it.\<close>

theorem added_task_is_kept:
  assumes "master_inv s" and "sch_runs s (EvAdd t i # es) s'" and "0 < i"
    and "\<forall>e\<in>set es. \<not> ends_task i e"
  shows "SCH_GetTask i s' = Some (Inr (NASC_SUCCESS, Some t))"
proof -
  from sch_runs_refines [OF assms(2,1)] have inv: "master_inv s'"
    and runs: "map_runs (tasks s) (EvAdd t i # es) (tasks s')" by auto
  from runs assms(3) have "map_runs ((tasks s)(i \<mapsto> t)) es (tasks s')"
    by (auto simp: map_runs_simps map_step_simps)
  from map_runs_keeps [OF this assms(4)] have "tasks s' i = Some t" by simp
  with SCH_GetTask_law [OF inv, of i] show ?thesis by simp
qed

theorem added_task_is_kept_witness:
  "SCH_GetTask 1 (one_task daily_task) = Some (Inr (NASC_SUCCESS, Some daily_task))"
proof -
  have "sch_runs (InitMasterTable no_sched) [EvAdd daily_task 1] (one_task daily_task)"
    by (intro runs_step [OF demo_add_step] runs_nil)
  from added_task_is_kept [OF no_sched_inv this] show ?thesis by simp
qed

text \<open>C25: SCH_AddTask on every branch. A task that validation or the switch rejects, or for which there is no
  memory, gives -1 and changes nothing; an accepted task gets the address of its node as a fresh id
  and is appended to the list of its home slot, with the change flag set; the index is the task's
  own start hour, so the code writes outside the 25 lists when it exceeds 24.\<close>

theorem SCH_AddTask_behaviour:
  assumes "master_ok s xss" and "alloc_ok malloc"
  shows "if rejected now t then SCH_AddTask malloc now t s = Inr (-1, s)
    else if task_home t > 24 then SCH_AddTask malloc now t s = Inl (OutOfBounds (int (task_home t)))
    else if malloc (mheap s) = NULL then SCH_AddTask malloc now t s = Inr (-1, s)
    else (\<exists>s'. SCH_AddTask malloc now t s = Inr (int (malloc (mheap s)), s')
       \<and> master_ok s' (insert_task (malloc (mheap s)) t xss) \<and> gbTaskChanged s'
       \<and> malloc (mheap s) \<notin> set (addrs (concat xss)))"
proof -
  have len: "length (gSchMasterTable s) = MASTER_ARR_SIZE" using assms(1) by (simp add: master_ok_def)
  have new: "malloc (mheap s) \<noteq> NULL \<Longrightarrow> malloc (mheap s) \<notin> set (addrs (concat xss))"
    using alloc_okD [OF assms(2), of "mheap s"] assms(1) unfolding master_ok_def by blast
  show ?thesis using SCH_AddTask_ok [OF assms, of now t] new len
    by (auto simp: SCH_AddTask_rejected SCH_AddTask_accepted add_to_slot_oob add_to_slot_oom)
qed

theorem SCH_AddTask_behaviour_witness:
  "\<exists>s'. SCH_AddTask bump (at_clock 3 0 0) daily_task (InitMasterTable no_sched) = Inr (1, s')
     \<and> master_ok s' (insert_task 1 daily_task no_tasks)"
  using SCH_AddTask_behaviour [OF no_sched_master bump_alloc_ok, of "at_clock 3 0 0" daily_task]
  by (auto simp: InitMasterTable_def no_sched_def)

text \<open>The writes outside the master table are exactly those of a valid PERIODIC task of a day, a week or a
  month whose start hour exceeds 24: validation checks the hour only for tasks that are not PERIODIC.\<close>

theorem SCH_AddTask_out_of_bounds_iff:
  assumes "master_inv s" and "alloc_ok malloc"
  shows "(\<exists>e. SCH_AddTask malloc now t s = Inl e) \<longleftrightarrow>
    eType t = SCH_PERIODIC \<and> uint (ui16Hour (StartTime t)) > 24
    \<and> (ePCity t = SCH_DAY \<and> SCH_SUN \<le> eWeekDay t \<and> eWeekDay t \<le> SCH_ALL_DAYS
       \<or> ePCity t \<in> {SCH_WEEK, SCH_MONTH} \<and> SCH_SUN \<le> eWeekDay t \<and> eWeekDay t \<le> SCH_SAT)"
proof -
  obtain xss where ok: "master_ok s xss" using assms by (auto simp: master_inv_def)
  have len: "length (gSchMasterTable s) = MASTER_ARR_SIZE" using ok by (simp add: master_ok_def)
  have "(\<exists>e. SCH_AddTask malloc now t s = Inl e) \<longleftrightarrow> \<not> rejected now t \<and> 25 \<le> task_home t"
  proof (cases "rejected now t \<or> 25 \<le> task_home t \<or> malloc (mheap s) = NULL")
    case True
    then show ?thesis using len SCH_AddTask_rejected SCH_AddTask_accepted add_to_slot_oob add_to_slot_oom
      by (cases "rejected now t"; cases "25 \<le> task_home t") auto
  next
    case False
    then show ?thesis using SCH_AddTask_ok [OF ok assms(2), of now t] by fastforce
  qed
  also have "25 \<le> task_home t \<longleftrightarrow> ePCity t \<noteq> SCH_SEC_MIN_HOUR \<and> uint (ui16Hour (StartTime t)) > 24"
  proof (cases "ePCity t = SCH_SEC_MIN_HOUR")
    case False
    have "int (unat (ui16Hour (StartTime t))) = uint (ui16Hour (StartTime t))" by simp
    then have "25 \<le> unat (ui16Hour (StartTime t)) \<longleftrightarrow> uint (ui16Hour (StartTime t)) > 24" by linarith
    with False show ?thesis by (simp add: task_home_def del: unat_eq_nat_uint)
  qed (simp add: task_home_def)
  finally have "(\<exists>e. SCH_AddTask malloc now t s = Inl e) \<longleftrightarrow>
    \<not> rejected now t \<and> ePCity t \<noteq> SCH_SEC_MIN_HOUR \<and> uint (ui16Hour (StartTime t)) > 24" .
  moreover have "\<not> rejected now t \<longleftrightarrow> eType t = SCH_PERIODIC
      \<and> (ePCity t = SCH_DAY \<and> SCH_SUN \<le> eWeekDay t \<and> eWeekDay t \<le> SCH_ALL_DAYS
         \<or> ePCity t \<in> {SCH_WEEK, SCH_MONTH} \<and> SCH_SUN \<le> eWeekDay t \<and> eWeekDay t \<le> SCH_SAT)"
    if "ePCity t \<noteq> SCH_SEC_MIN_HOUR" "uint (ui16Hour (StartTime t)) > 24"
    using that by (cases "eType t = SCH_PERIODIC"; cases "ePCity t = SCH_DAY"; cases "ePCity t = SCH_WEEK")
      (simp_all add: rejected_def ValidateTask_def not_less, linarith?)
  ultimately show ?thesis by (cases "ePCity t = SCH_SEC_MIN_HOUR") (simp, blast)
qed

theorem SCH_AddTask_out_of_bounds_iff_witness:
  "\<exists>e. SCH_AddTask bump (at_clock 3 0 0) (task_at SCH_PERIODIC SCH_DAY 25 2007) (InitMasterTable no_sched) = Inl e"
  unfolding SCH_AddTask_out_of_bounds_iff [OF no_sched_inv bump_alloc_ok] by (simp add: task_at_def)

text \<open>C26: SCH_DeleteTask always returns. It reports success exactly for the id of a stored task, removes the node
  of this task alone from the list it is in, wherever it is in the list, frees it, and leaves
  every other task and the order of the lists as they were.\<close>

theorem SCH_DeleteTask_behaviour:
  assumes "master_ok s xss"
  shows "\<exists>s'. SCH_DeleteTask i s = Some (Inr
       (if i \<in> int ` set (addrs (concat xss)) then NASC_SUCCESS else NASC_FAILURE, s'))
     \<and> master_ok s' (map (filter (\<lambda>n. int (fst n) \<noteq> i)) xss)
     \<and> dom (mheap s') = dom (mheap s) - {a. int a = i}"
proof -
  obtain s' where d: "SCH_DeleteTask i s =
      Some (Inr (if task_map xss i = None then NASC_FAILURE else NASC_SUCCESS, s'))"
    "master_ok s' (remove_task i xss)" using SCH_DeleteTask_ok [OF assms] by blast
  have "task_map xss i = None \<longleftrightarrow> i \<notin> int ` set (addrs (concat xss))"
    unfolding task_map_def map_of_eq_None_iff by force
  moreover have "dom (mheap s') = dom (mheap s) - {a. int a = i}"
  proof -
    have "dom (mheap s') = set (addrs (filter (\<lambda>n. int (fst n) \<noteq> i) (concat xss)))"
      using master_ok_dom [OF d(2)] by (simp only: concat_remove_task)
    also have "\<dots> = set (addrs (concat xss)) - {a. int a = i}" by force
    finally show ?thesis using assms by (simp add: master_ok_def)
  qed
  ultimately show ?thesis using d(1) d(2) [unfolded remove_task_def] by (intro exI [of _ s']) simp
qed

theorem SCH_DeleteTask_behaviour_witness:
  "\<exists>s'. SCH_DeleteTask 1 (one_task daily_task) = Some (Inr (NASC_SUCCESS, s')) \<and> dom (mheap s') = {}"
proof -
  have "concat (no_tasks[3 := [(1, daily_task)]]) = [(1, daily_task)]"
    by (simp add: numeral_eq_Suc)
  then show ?thesis
    using SCH_DeleteTask_behaviour [OF one_task_master [of daily_task], of 1]
    by (auto simp: one_task_def Let_def)
qed

text \<open>C30: SCH_ModifyTask deletes the old task before the new one is validated: when the new task is rejected
  the caller gets -1 and the old task is gone. An unknown id changes nothing, and with an accepted
  task the new one is stored under a fresh id in place of the old one.\<close>

theorem SCH_ModifyTask_outcomes:
  assumes "master_inv s" and "alloc_ok malloc" and "mem_suffices malloc" and "task_home t \<le> 24"
  shows "\<exists>j s'. SCH_ModifyTask malloc now i t s = Some (Inr (j, s')) \<and> master_inv s'
    \<and> (if tasks s i = None then j = -1 \<and> tasks s' = tasks s
       else if rejected now t then j = -1 \<and> tasks s' = (tasks s)(i := None)
       else 0 < j \<and> tasks s' = (tasks s)(i := None, j \<mapsto> t))"
proof (cases "tasks s i = None")
  case True
  from ms.modify_unknown [OF assms(1) this, of "(malloc, now)" t, unfolded fst_conv snd_conv] True
  show ?thesis by (auto simp: SCH_ModifyTask_def)
next
  case False
  show ?thesis
  proof (cases "rejected now t")
    case True
    then have "add_refuses_task (malloc, now) t s'" for s' by (simp add: add_refuses_task_def)
    from ms.modify_lost [OF assms(1) False this, unfolded fst_conv snd_conv] False True
    show ?thesis by (auto simp: SCH_ModifyTask_def)
  next
    case acc: False
    have "add_admits_task (malloc, now) t s'" if "master_inv s'" for s'
      using master_inv_malloc [OF that assms(3)] assms(2,4) acc by (simp add: add_admits_task_def)
    from ms.modify_replaced [OF assms(1) False this, unfolded fst_conv snd_conv] False acc
    show ?thesis by (auto simp: SCH_ModifyTask_def)
  qed
qed

theorem SCH_ModifyTask_outcomes_witness:
  "\<exists>s'. SCH_ModifyTask bump (at_clock 3 0 0) 1 (task_at SCH_ONE_SHOT SCH_DAY 24 2007) (one_task daily_task)
     = Some (Inr (-1, s')) \<and> tasks s' 1 = None"
proof -
  have "rejected (at_clock 3 0 0) (task_at SCH_ONE_SHOT SCH_DAY 24 2007)"
    by (simp add: rejected_def ValidateTask_def task_at_def)
  moreover have "task_home (task_at SCH_ONE_SHOT SCH_DAY 24 2007) \<le> 24"
    by (simp add: task_at_def task_home_def)
  ultimately show ?thesis
    using SCH_ModifyTask_outcomes [OF one_task_inv bump_alloc_ok bump_mem_suffices, of daily_task _ "at_clock 3 0 0" 1]
    by fastforce
qed

text \<open>C27: The cleaning at midnight never returns, holding the mutex of the table, as long as a ONE_SHOT task is
  stored whose start date has not passed at any reading of the clock from then on: the loop then
  stays at this task. (With a start date in the future, which is what validation asks for, this is
  the normal case.)\<close>

theorem SCH_AutoCleanTask_hangs:
  assumes "master_ok s xss" and "n \<in> set (concat xss)" and "eType (snd n) = SCH_ONE_SHOT"
    and "\<And>j. \<not> date_of (StartDate (snd n)) < today (clk j)"
  shows "SCH_AutoCleanTask clk s = None"
proof (cases "SCH_AutoCleanTask clk s")
  case (Some r)
  from SCH_AutoCleanTask_post [OF assms(1) this] have "all_seen_expired clk 0 (concat xss)" by blast
  with assms show ?thesis by (auto simp: all_seen_expired_def expired_at_def one_shot_def)
qed

theorem SCH_AutoCleanTask_hangs_witness:
  "SCH_AutoCleanTask (\<lambda>_. at_clock 0 0 0) (one_task (task_at SCH_ONE_SHOT SCH_DAY 3 2008)) = None"
proof -
  let ?t = "task_at SCH_ONE_SHOT SCH_DAY 3 2008"
  have "(1, ?t) \<in> set (concat (no_tasks[3 := [(1, ?t)]]))" by (simp add: set_update_distinct numeral_eq_Suc)
  moreover have "master_ok (one_task ?t) (no_tasks[3 := [(1, ?t)]])"
    using one_task_master [of ?t] by (simp add: task_home_def task_at_def)
  ultimately show ?thesis
    by (intro SCH_AutoCleanTask_hangs) (auto simp: task_at_def date_of_def today_def at_clock_def less_cdate_def)
qed

text \<open>When every stored ONE_SHOT task has expired, the cleaning returns, has removed and freed exactly
  the ONE_SHOT tasks, and has kept the periodic ones in their order.\<close>

theorem SCH_AutoCleanTask_cleans:
  assumes "master_ok s xss"
    and "\<And>n j. n \<in> set (concat xss) \<Longrightarrow> eType (snd n) = SCH_ONE_SHOT \<Longrightarrow>
           date_of (StartDate (snd n)) < today (clk j)"
  shows "\<exists>s'. SCH_AutoCleanTask clk s = Some (Inr s')
     \<and> master_ok s' (map (filter (\<lambda>n. eType (snd n) \<noteq> SCH_ONE_SHOT)) xss)
     \<and> eheap s' = eheap s \<and> gExecList s' = gExecList s"
proof -
  have "\<exists>s'. SCH_AutoCleanTask clk s = Some (Inr s') \<and> master_ok s' (keep_tasks xss)
     \<and> s' = s\<lparr>mheap := mheap s', gSchMasterTable := gSchMasterTable s'\<rparr>"
    using assms(2) by (intro SCH_AutoCleanTask_total [OF assms(1)]) (auto simp: expired_at_def one_shot_def)
  then obtain s' where s': "SCH_AutoCleanTask clk s = Some (Inr s')" "master_ok s' (keep_tasks xss)"
    "s' = s\<lparr>mheap := mheap s', gSchMasterTable := gSchMasterTable s'\<rparr>" by blast
  have "eheap s' = eheap s" "gExecList s' = gExecList s" by (subst s'(3), simp)+
  with s'(1,2) show ?thesis by (auto simp: one_shot_def [abs_def])
qed

theorem SCH_AutoCleanTask_cleans_witness:
  "\<exists>s'. SCH_AutoCleanTask (\<lambda>_. at_clock 0 0 0) (one_task (task_at SCH_ONE_SHOT SCH_DAY 3 2006)) = Some (Inr s')
     \<and> dom (mheap s') = {}"
proof -
  let ?t = "task_at SCH_ONE_SHOT SCH_DAY 3 2006"
  let ?xss = "no_tasks[3 := [(1, ?t)]]"
  have x: "concat ?xss = [(1, ?t)]" by (simp add: numeral_eq_Suc)
  have ok: "master_ok (one_task ?t) ?xss"
    using one_task_master [of ?t] by (simp add: task_home_def task_at_def)
  have "\<exists>s'. SCH_AutoCleanTask (\<lambda>_. at_clock 0 0 0) (one_task ?t) = Some (Inr s')
     \<and> master_ok s' (map (filter (\<lambda>n. eType (snd n) \<noteq> SCH_ONE_SHOT)) ?xss)
     \<and> eheap s' = eheap (one_task ?t) \<and> gExecList s' = gExecList (one_task ?t)"
    unfolding x by (rule SCH_AutoCleanTask_cleans [OF ok])
      (unfold x, auto simp: task_at_def date_of_def today_def at_clock_def less_cdate_def)
  then obtain s' where s': "SCH_AutoCleanTask (\<lambda>_. at_clock 0 0 0) (one_task ?t) = Some (Inr s')"
    "master_ok s' (map (filter (\<lambda>n. eType (snd n) \<noteq> SCH_ONE_SHOT)) ?xss)" by blast
  have "dom (mheap s') = {}"
    unfolding master_ok_dom [OF s'(2)] filter_concat [symmetric] x by (simp add: task_at_def)
  with s'(1) show ?thesis by blast
qed

text \<open>Clearing the table when the scheduler stops always returns, frees every task and leaves 25 empty lists.\<close>

theorem ClearMasterTable_frees_all:
  assumes "master_inv s"
  shows "\<exists>s'. ClearMasterTable s = Some (Inr s') \<and> mheap s' = Map.empty \<and> master_ok s' no_tasks"
proof -
  obtain xss where "master_ok s xss" using assms by (auto simp: master_inv_def)
  from ClearMasterTable_ok [OF this] show ?thesis by auto
qed

theorem ClearMasterTable_frees_all_witness:
  "\<exists>s'. ClearMasterTable (one_task daily_task) = Some (Inr s') \<and> mheap s' = Map.empty"
  using ClearMasterTable_frees_all [OF one_task_inv, of daily_task] by auto

end
