(* ===== verification/SchedExec.thy ===== *)
theory SchedExec
  imports SchedStore ListSort
begin

text \<open>
  The execution list of the current hour (\<^verbatim>\<open>src/Common/NASCenter_Scheduler.c\<close>): building it
  from the master table, sorting it by the second of the hour at which each task is due, and
  clearing it. Seconds since midnight are kept in the 16-bit variables of the code and the
  number of repetitions in one variable for all nodes, as there.
\<close>

section \<open>Operations\<close>

definition InitExecutionList :: "sched \<Rightarrow> sched" where
  "InitExecutionList s = s\<lparr>gExecList := \<lparr>pHeadExecData = NULL, pTailExecData = NULL, nExecSize = 0\<rparr>\<rparr>"

definition AddToExecutionList ::
  "stExecuteTask allocator \<Rightarrow> stTask \<Rightarrow> UI32 \<Rightarrow> sched \<Rightarrow> (ENASCenterError \<times> sched) res" where
  "AddToExecutionList malloc MTask ui32Ival s =
    (let newExecNode = malloc (eheap s) in
     if newExecNode = NULL then Inr (NASC_FAILURE, s)
     else let el = gExecList s;
              h = (eheap s)(newExecNode \<mapsto> Node
                    \<lparr>xfp = fp MTask, xvpArg = vpArg MTask, xInterval = ui32Ival\<rparr> NULL) in
       rbind (if pHeadExecData el = NULL
              then Inr (h, el\<lparr>pHeadExecData := newExecNode\<rparr>)
              else rbind (set_next h (pTailExecData el) newExecNode) (\<lambda>h'. Inr (h', el)))
       (\<lambda>(h', el'). Inr (NASC_SUCCESS, s\<lparr>eheap := h',
          gExecList := el'\<lparr>pTailExecData := newExecNode, nExecSize := nExecSize el' + 1\<rparr>\<rparr>)))"

text \<open>
  The body of the loop over the every-hour list before the tasks are added: the interval and
  the number of executions for one node, given the number left by the previous node.
  \<^const>\<open>None\<close> is the early return of the function for an interval longer than a day.
\<close>

definition every_hour_node :: "tm \<Rightarrow> UI16 \<Rightarrow> stTask \<Rightarrow> UI32 \<Rightarrow> (UI32 \<times> UI32) option" where
  "every_hour_node pTime ui16EndHrInSec task ui32NoOfExec =
    (let ui32Ival = ui32Interval task in
     if ePCity task = SCH_SEC_MIN_HOUR \<and> (eWeekDay task = tm_wday pTime \<or> eWeekDay task = SCH_ALL_DAYS)
     then if ui32Ival > 0 \<and> ui32Ival \<le> 3600 then Some (ui32Ival, 3600 div ui32Ival)
          else if ui32Ival > 3600 \<and> ui32Ival \<le> 86400
          then let ui32Mod = (ucast ui16EndHrInSec :: UI32) mod ui32Ival in
               if ui32Mod < 3600
               then Some (if ui32Mod = 0 then 3600 else ui32Mod, 1)
               else Some (ui32Ival, ui32NoOfExec)
          else if ui32Ival > 86400 then None
          else Some (ui32Ival, ui32NoOfExec)
     else Some (ui32Ival, ui32NoOfExec))"

text \<open>The for loop that adds one task \<open>ui32NoOfExec\<close> times; \<open>ui32Count\<close> counts up, the last argument down.\<close>

fun add_execs ::
  "stExecuteTask allocator \<Rightarrow> stTask \<Rightarrow> UI32 \<Rightarrow> UI32 \<Rightarrow> nat \<Rightarrow> sched \<Rightarrow> sched res" where
  "add_execs malloc task ui32Ival ui32Count 0 s = Inr s"
| "add_execs malloc task ui32Ival ui32Count (Suc n) s =
     rbind (AddToExecutionList malloc task (ui32Ival * (ui32Count + 1)) s) (\<lambda>(_, s').
       add_execs malloc task ui32Ival (ui32Count + 1) n s')"

text \<open>The flag of the result is whether the function goes on to the list of the current hour.\<close>

partial_function (option) every_hour_walk ::
  "stExecuteTask allocator \<Rightarrow> tm \<Rightarrow> UI16 \<Rightarrow> addr \<Rightarrow> UI32 \<Rightarrow> sched \<Rightarrow> (bool \<times> sched) run" where
  "every_hour_walk malloc pTime ui16EndHrInSec pTemp ui32NoOfExec s =
    (if pTemp = NULL then Some (Inr (True, s))
     else case deref (mheap s) pTemp of
       Inl e \<Rightarrow> Some (Inl e)
     | Inr nd \<Rightarrow>
         (case every_hour_node pTime ui16EndHrInSec (dat nd) ui32NoOfExec of
            None \<Rightarrow> Some (Inr (False, s))
          | Some (ui32Ival, ui32NoOfExec') \<Rightarrow>
              (case add_execs malloc (dat nd) ui32Ival 0 (unat ui32NoOfExec') s of
                 Inl e \<Rightarrow> Some (Inl e)
               | Inr s' \<Rightarrow> every_hour_walk malloc pTime ui16EndHrInSec (nxt nd) ui32NoOfExec' s')))"

definition start_offset :: "stTask \<Rightarrow> UI32" where
  "start_offset task =
     of_int (uint (ui16Minute (StartTime task)) * NO_SECS_IN_MIN + uint (ui16Second (StartTime task)))"

text \<open>The three conditions of the code under which a task of the current hour is added.\<close>

definition add_hour_node ::
  "stExecuteTask allocator \<Rightarrow> tm \<Rightarrow> stTask \<Rightarrow> sched \<Rightarrow> sched res" where
  "add_hour_node malloc pTime task s =
     rbind (if ePCity task = SCH_DAY \<and> (eWeekDay task = tm_wday pTime \<or> eWeekDay task = SCH_ALL_DAYS)
            then AddToExecutionList malloc task (start_offset task) s else Inr (NASC_SUCCESS, s)) (\<lambda>(_, s).
     rbind (if ePCity task = SCH_WEEK \<and> eWeekDay task = tm_wday pTime
            then AddToExecutionList malloc task (start_offset task) s else Inr (NASC_SUCCESS, s)) (\<lambda>(_, s).
     rbind (if ePCity task = SCH_MONTH \<and> uint (ui16Day (StartDate task)) = tm_mday pTime
            then AddToExecutionList malloc task (start_offset task) s else Inr (NASC_SUCCESS, s)) (\<lambda>(_, s).
     Inr s)))"

partial_function (option) hour_walk ::
  "stExecuteTask allocator \<Rightarrow> tm \<Rightarrow> addr \<Rightarrow> sched \<Rightarrow> sched run" where
  "hour_walk malloc pTime pTemp s =
    (if pTemp = NULL then Some (Inr s)
     else case deref (mheap s) pTemp of
       Inl e \<Rightarrow> Some (Inl e)
     | Inr nd \<Rightarrow>
         (case add_hour_node malloc pTime (dat nd) s of
            Inl e \<Rightarrow> Some (Inl e)
          | Inr s' \<Rightarrow> hour_walk malloc pTime (nxt nd) s'))"

definition end_hour_sec :: "tm \<Rightarrow> UI16" where
  "end_hour_sec pTime = (of_int (tm_hour pTime * NO_SECS_IN_HOUR) :: UI16) + 3600"

text \<open>
  The test of the code that both list heads have address NULL is false for every state: the
  address of an array element is never NULL.
\<close>

definition BuildExecutionList :: "stExecuteTask allocator \<Rightarrow> tm \<Rightarrow> sched \<Rightarrow> sched run" where
  "BuildExecutionList malloc pTime s =
    (let ui16StartHr = unat (of_int (tm_hour pTime) :: UI16) in
     if length (gSchMasterTable s) \<le> EVERY_HOUR_TASK then Some (Inl (OutOfBounds (int EVERY_HOUR_TASK)))
     else obind (every_hour_walk malloc pTime (end_hour_sec pTime)
                   (pHeadMasterData (gSchMasterTable s ! EVERY_HOUR_TASK)) 0 s) (\<lambda>(go_on, s').
       if \<not> go_on then Some (Inr s')
       else if length (gSchMasterTable s') \<le> ui16StartHr then Some (Inl (OutOfBounds (int ui16StartHr)))
       else hour_walk malloc pTime (pHeadMasterData (gSchMasterTable s' ! ui16StartHr)) s'))"

text \<open>
  Sorting with a temporary head of interval 0. The tail pointer of the list is not updated.
  The result of \<^verbatim>\<open>calloc\<close> is written through without a test.
\<close>

definition SortExecutionList :: "stExecuteTask allocator \<Rightarrow> sched \<Rightarrow> sched run" where
  "SortExecutionList calloc s =
    (if pHeadExecData (gExecList s) = NULL then Some (Inr s)
     else let pstNewHead = calloc (eheap s) in
       if pstNewHead = NULL then Some (Inl (BadPtr NULL))
       else let h = (eheap s)(pstNewHead \<mapsto> Node \<lparr>xfp = NULL, xvpArg = NULL, xInterval = 0\<rparr>
                                 (pHeadExecData (gExecList s))) in
         obind (sort_outer xInterval h pstNewHead NULL) (\<lambda>(h', start).
           lift_res (rbind (deref h' start) (\<lambda>nd. rbind (free_node h' start) (\<lambda>h''.
             Inr (s\<lparr>eheap := h'', gExecList := (gExecList s)\<lparr>pHeadExecData := nxt nd\<rparr>\<rparr>))))))"

partial_function (option) clear_exec ::
  "stExecuteTask heap \<Rightarrow> stExecutionList \<Rightarrow> (stExecuteTask heap \<times> stExecutionList) run" where
  "clear_exec h el =
    (if pHeadExecData el = NULL then Some (Inr (h, el))
     else case deref h (pHeadExecData el) of
       Inl e \<Rightarrow> Some (Inl e)
     | Inr nd \<Rightarrow> (case free_node h (pHeadExecData el) of
           Inl e \<Rightarrow> Some (Inl e)
         | Inr h' \<Rightarrow> clear_exec h' (el\<lparr>nExecSize := nExecSize el - 1, pHeadExecData := nxt nd\<rparr>)))"

definition ClearExecutionList :: "sched \<Rightarrow> sched run" where
  "ClearExecutionList s =
     obind (clear_exec (eheap s) (gExecList s)) (\<lambda>(h, el).
       Some (Inr (s\<lparr>eheap := h, gExecList := el\<lparr>pHeadExecData := NULL, pTailExecData := NULL\<rparr>\<rparr>)))"

section \<open>Well-formed execution lists\<close>

text \<open>\<open>exec_linked\<close> leaves the tail pointer out: sorting does not keep it.\<close>

definition exec_linked :: "sched \<Rightarrow> (addr \<times> stExecuteTask) list \<Rightarrow> bool" where
  "exec_linked s es \<longleftrightarrow> lseg (eheap s) (pHeadExecData (gExecList s)) es NULL
     \<and> nExecSize (gExecList s) = int (length es) \<and> dom (eheap s) = set (addrs es)"

definition exec_ok :: "sched \<Rightarrow> (addr \<times> stExecuteTask) list \<Rightarrow> bool" where
  "exec_ok s es \<longleftrightarrow> exec_linked s es \<and> pTailExecData (gExecList s) = prev_addr es"

definition exec_of :: "stTask \<Rightarrow> UI32 \<Rightarrow> stExecuteTask" where
  "exec_of task i = \<lparr>xfp = fp task, xvpArg = vpArg task, xInterval = i\<rparr>"

text \<open>\<open>s'\<close> is \<open>s\<close> with the tasks \<open>xs\<close> appended to its execution list, and nothing else changed.\<close>

definition exec_extends ::
  "sched \<Rightarrow> (addr \<times> stExecuteTask) list \<Rightarrow> stExecuteTask list \<Rightarrow> sched \<Rightarrow> bool" where
  "exec_extends s es xs s' \<longleftrightarrow> (\<exists>ns. exec_ok s' (es @ ns) \<and> map snd ns = xs)
     \<and> s' = s\<lparr>eheap := eheap s', gExecList := gExecList s'\<rparr>"

lemma exec_ok_linked: "exec_ok s es \<Longrightarrow> exec_linked s es"
  by (simp add: exec_ok_def)

lemma exec_extends_refl: "exec_ok s es \<Longrightarrow> exec_extends s es [] s"
  by (simp add: exec_extends_def)

text \<open>Appending tasks is the composition the loops need: each step may name the list it found.\<close>

lemma exec_extends_trans:
  assumes 1: "exec_extends s es xs s1"
    and 2: "\<And>es1. exec_ok s1 es1 \<Longrightarrow> \<exists>s2. P s2 \<and> exec_extends s1 es1 ys s2"
  shows "\<exists>s2. P s2 \<and> exec_extends s es (xs @ ys) s2"
proof -
  from 1 obtain ns where ns: "exec_ok s1 (es @ ns)" "map snd ns = xs"
    "s1 = s\<lparr>eheap := eheap s1, gExecList := gExecList s1\<rparr>" by (auto simp: exec_extends_def)
  from 2 [OF ns(1)] obtain s2 ms where s2: "P s2" "exec_ok s2 ((es @ ns) @ ms)" "map snd ms = ys"
    "s2 = s1\<lparr>eheap := eheap s2, gExecList := gExecList s2\<rparr>" by (auto simp: exec_extends_def)
  have "s2 = s\<lparr>eheap := eheap s2, gExecList := gExecList s2\<rparr>"
    using s2(4) ns(3) by (metis sched.surjective sched.update_convs(5,6))
  moreover have "exec_ok s2 (es @ (ns @ ms))" "map snd (ns @ ms) = xs @ ys"
    using s2(2,3) ns(2) by simp_all
  ultimately show ?thesis using s2(1) unfolding exec_extends_def by blast
qed

lemma AddToExecutionList_ok:
  assumes ok: "exec_ok s es" and m: "alloc_ok malloc" "mem_suffices malloc"
  shows "\<exists>s'. AddToExecutionList malloc t i s = Inr (NASC_SUCCESS, s') \<and> exec_extends s es [exec_of t i] s'"
proof -
  let ?a = "malloc (eheap s)" and ?el = "gExecList s"
  let ?h = "(eheap s)(?a \<mapsto> Node (exec_of t i) NULL)"
  have lnk: "lseg (eheap s) (pHeadExecData ?el) es NULL" "nExecSize ?el = int (length es)"
    "dom (eheap s) = set (addrs es)" "pTailExecData ?el = prev_addr es"
    using ok by (auto simp: exec_ok_def exec_linked_def)
  have a: "?a \<noteq> NULL" using m(2) lnk(3) by (simp add: mem_suffices_def)
  then have new: "?a \<notin> set (addrs es)" using alloc_okD [OF m(1)] lnk(3) by (metis domIff)
  obtain h' el' where r: "(if pHeadExecData ?el = NULL
       then Inr (?h, ?el\<lparr>pHeadExecData := ?a\<rparr>)
       else rbind (set_next ?h (pTailExecData ?el) ?a) (\<lambda>h'. Inr (h', ?el))) = Inr (h', el')"
    "lseg h' (pHeadExecData el') (es @ [(?a, exec_of t i)]) NULL" "dom h' = insert ?a (dom (eheap s))"
    "nExecSize el' = nExecSize ?el"
  proof (cases "pHeadExecData ?el = NULL")
    case True
    then have "es = []" using lnk(1) by simp
    then show ?thesis using True a that [of ?h "?el\<lparr>pHeadExecData := ?a\<rparr>"] by (simp add: lseg_Cons)
  next
    case False
    from lseg_append_node [OF lnk(1) False a new, of "exec_of t i"] obtain h' where
      "set_next ?h (prev_addr es) ?a = Inr h'" "lseg h' (pHeadExecData ?el) (es @ [(?a, exec_of t i)]) NULL"
      "dom h' = insert ?a (dom (eheap s))" by blast
    then show ?thesis using False lnk(4) that [of h' ?el] by simp
  qed
  let ?s' = "s\<lparr>eheap := h', gExecList := el'\<lparr>pTailExecData := ?a, nExecSize := nExecSize el' + 1\<rparr>\<rparr>"
  have "exec_ok ?s' (es @ [(?a, exec_of t i)])"
    using r(2-4) lnk(2,3) by (auto simp: exec_ok_def exec_linked_def)
  then have "exec_extends s es [exec_of t i] ?s'"
    unfolding exec_extends_def by (auto intro!: exI [of _ "[(?a, exec_of t i)]"])
  moreover have "AddToExecutionList malloc t i s = Inr (NASC_SUCCESS, ?s')"
    unfolding AddToExecutionList_def Let_def exec_of_def [symmetric] r(1) using a by simp
  ultimately show ?thesis by blast
qed

section \<open>What the build adds\<close>

text \<open>The tasks added for the every-hour list, and whether the function goes on after it.\<close>

fun every_hour_plan :: "tm \<Rightarrow> UI16 \<Rightarrow> UI32 \<Rightarrow> stTask list \<Rightarrow> stExecuteTask list \<times> bool" where
  "every_hour_plan pTime e k [] = ([], True)"
| "every_hour_plan pTime e k (t # ts) =
     (case every_hour_node pTime e t k of
        None \<Rightarrow> ([], False)
      | Some (i, k') \<Rightarrow>
          (map (\<lambda>j. exec_of t (i * (of_nat j + 1))) [0..<unat k'] @ fst (every_hour_plan pTime e k' ts),
           snd (every_hour_plan pTime e k' ts)))"

definition due_this_hour :: "tm \<Rightarrow> stTask \<Rightarrow> bool" where
  "due_this_hour pTime task \<longleftrightarrow>
     ePCity task = SCH_DAY \<and> (eWeekDay task = tm_wday pTime \<or> eWeekDay task = SCH_ALL_DAYS)
   \<or> ePCity task = SCH_WEEK \<and> eWeekDay task = tm_wday pTime
   \<or> ePCity task = SCH_MONTH \<and> uint (ui16Day (StartDate task)) = tm_mday pTime"

definition hour_plan :: "tm \<Rightarrow> stTask list \<Rightarrow> stExecuteTask list" where
  "hour_plan pTime ts = map (\<lambda>t. exec_of t (start_offset t)) (filter (due_this_hour pTime) ts)"

definition exec_plan :: "tm \<Rightarrow> stTask list \<Rightarrow> stTask list \<Rightarrow> stExecuteTask list" where
  "exec_plan pTime every hour =
     (let p = every_hour_plan pTime (end_hour_sec pTime) 0 every
      in fst p @ (if snd p then hour_plan pTime hour else []))"

lemma add_execs_ok:
  assumes m: "alloc_ok malloc" "mem_suffices malloc"
  shows "exec_ok s es \<Longrightarrow> \<exists>s'. add_execs malloc t i c n s = Inr s'
     \<and> exec_extends s es (map (\<lambda>j. exec_of t (i * (c + of_nat j + 1))) [0..<n]) s'"
proof (induction n arbitrary: c s es)
  case 0
  then show ?case by (simp add: exec_extends_refl)
next
  case (Suc n)
  from AddToExecutionList_ok [OF Suc.prems m] obtain s1 where s1:
    "AddToExecutionList malloc t (i * (c + 1)) s = Inr (NASC_SUCCESS, s1)"
    "exec_extends s es [exec_of t (i * (c + 1))] s1" by blast
  have "\<exists>s2. add_execs malloc t i (c + 1) n s1 = Inr s2 \<and> exec_extends s es
     ([exec_of t (i * (c + 1))] @ map (\<lambda>j. exec_of t (i * (c + 1 + of_nat j + 1))) [0..<n]) s2"
    by (rule exec_extends_trans [OF s1(2) Suc.IH])
  moreover have "[exec_of t (i * (c + 1))] @ map (\<lambda>j. exec_of t (i * (c + 1 + of_nat j + 1))) [0..<n]
     = map (\<lambda>j. exec_of t (i * (c + of_nat j + 1))) [0..<Suc n]"
    by (simp add: upt_conv_Cons map_Suc_upt [symmetric] o_def add.assoc add.commute del: upt_Suc map_Suc_upt)
  ultimately show ?case using s1(1) by simp
qed

lemma exec_extends_mheap:
  "exec_extends s es xs s' \<Longrightarrow> mheap s' = mheap s \<and> gSchMasterTable s' = gSchMasterTable s"
  unfolding exec_extends_def by (metis sched.select_convs(1,2) sched.surjective sched.update_convs(5,6))

lemma every_hour_walk_ok:
  assumes m: "alloc_ok malloc" "mem_suffices malloc"
  shows "lseg (mheap s) p ns NULL \<Longrightarrow> exec_ok s es \<Longrightarrow>
     \<exists>s'. every_hour_walk malloc pTime e p k s =
            Some (Inr (snd (every_hour_plan pTime e k (map snd ns)), s'))
        \<and> exec_extends s es (fst (every_hour_plan pTime e k (map snd ns))) s'"
proof (induction ns arbitrary: p k s es)
  case Nil
  then show ?case by (simp add: every_hour_walk.simps exec_extends_refl)
next
  case (Cons x ns)
  from Cons.prems(1) obtain n where x: "p = fst x" "p \<noteq> NULL" "mheap s p = Some (Node (snd x) n)"
    "lseg (mheap s) n ns NULL" by (auto simp: lseg_Cons)
  show ?case
  proof (cases "every_hour_node pTime e (snd x) k")
    case None
    then show ?thesis using x Cons.prems(2)
      by (simp add: every_hour_walk.simps [of malloc pTime e "fst x"] exec_extends_refl)
  next
    case (Some ik)
    obtain i k' where ik: "ik = (i, k')" by (cases ik)
    from add_execs_ok [OF m Cons.prems(2), of "snd x" i 0 "unat k'"] obtain s1 where s1:
      "add_execs malloc (snd x) i 0 (unat k') s = Inr s1"
      "exec_extends s es (map (\<lambda>j. exec_of (snd x) (i * (of_nat j + 1))) [0..<unat k']) s1" by auto
    have "lseg (mheap s1) n ns NULL" using x(4) exec_extends_mheap [OF s1(2)] by simp
    from exec_extends_trans [OF s1(2) Cons.IH [OF this]] show ?thesis
      using x Some ik s1(1) by (simp add: every_hour_walk.simps [of malloc pTime e "fst x"])
  qed
qed

lemma add_hour_node_ok:
  assumes ok: "exec_ok s es" and m: "alloc_ok malloc" "mem_suffices malloc"
  shows "\<exists>s'. add_hour_node malloc pTime t s = Inr s' \<and> exec_extends s es (hour_plan pTime [t]) s'"
proof -
  obtain s' where s': "AddToExecutionList malloc t (start_offset t) s = Inr (NASC_SUCCESS, s')"
    "exec_extends s es [exec_of t (start_offset t)] s'"
    using AddToExecutionList_ok [OF ok m] by blast
  show ?thesis
  proof (cases "due_this_hour pTime t")
    case True
    then have "add_hour_node malloc pTime t s = Inr s'"
      using s'(1) by (auto simp: add_hour_node_def due_this_hour_def)
    then show ?thesis using True s'(2) by (simp add: hour_plan_def)
  next
    case False
    then have "add_hour_node malloc pTime t s = Inr s"
      by (auto simp: add_hour_node_def due_this_hour_def)
    then show ?thesis using False exec_extends_refl [OF ok] by (simp add: hour_plan_def)
  qed
qed

lemma hour_plan_Cons: "hour_plan pTime (t # ts) = hour_plan pTime [t] @ hour_plan pTime ts"
  by (simp add: hour_plan_def)

lemma hour_walk_ok:
  assumes m: "alloc_ok malloc" "mem_suffices malloc"
  shows "lseg (mheap s) p ns NULL \<Longrightarrow> exec_ok s es \<Longrightarrow>
     \<exists>s'. hour_walk malloc pTime p s = Some (Inr s')
        \<and> exec_extends s es (hour_plan pTime (map snd ns)) s'"
proof (induction ns arbitrary: p s es)
  case Nil
  then show ?case by (simp add: hour_walk.simps exec_extends_refl hour_plan_def)
next
  case (Cons x ns)
  from Cons.prems(1) obtain n where x: "p = fst x" "p \<noteq> NULL" "mheap s p = Some (Node (snd x) n)"
    "lseg (mheap s) n ns NULL" by (auto simp: lseg_Cons)
  from add_hour_node_ok [OF Cons.prems(2) m] obtain s1 where s1:
    "add_hour_node malloc pTime (snd x) s = Inr s1" "exec_extends s es (hour_plan pTime [snd x]) s1" by blast
  have "lseg (mheap s1) n ns NULL" using x(4) exec_extends_mheap [OF s1(2)] by simp
  from exec_extends_trans [OF s1(2) Cons.IH [OF this]]
  have "\<exists>s2. hour_walk malloc pTime n s1 = Some (Inr s2)
     \<and> exec_extends s es (hour_plan pTime (map snd (x # ns))) s2"
    by (simp only: hour_plan_Cons [of pTime "snd x" "map snd ns"] list.map)
  then show ?case using x s1(1) by (simp add: hour_walk.simps [of malloc pTime "fst x"])
qed

lemma unat_of_int16: "0 \<le> i \<Longrightarrow> i < 65536 \<Longrightarrow> unat (of_int i :: UI16) = nat i"
proof -
  assume i: "0 \<le> i" "i < 65536"
  have "uint (of_int i :: UI16) = i mod 65536" by (simp add: uint_word_of_int)
  then have "uint (of_int i :: UI16) = i" using i by simp
  then show ?thesis by (metis nat_uint_eq)
qed

lemma hour_index:
  assumes "tm_ok t"
  shows "unat (of_int (tm_hour t) :: UI16) = nat (tm_hour t)" and "nat (tm_hour t) < EVERY_HOUR_TASK"
proof -
  have h: "0 \<le> tm_hour t" "tm_hour t < 24" using assms by (simp_all add: tm_ok_def)
  then show "unat (of_int (tm_hour t) :: UI16) = nat (tm_hour t)" by (intro unat_of_int16) simp_all
  show "nat (tm_hour t) < EVERY_HOUR_TASK" using h by simp
qed

lemma BuildExecutionList_plan:
  assumes ok: "master_ok s xss" and ex: "exec_ok s es" and t: "tm_ok t"
    and m: "alloc_ok malloc" "mem_suffices malloc"
  shows "\<exists>s'. BuildExecutionList malloc t s = Some (Inr s')
     \<and> exec_extends s es (exec_plan t (map snd (xss ! EVERY_HOUR_TASK)) (map snd (xss ! nat (tm_hour t)))) s'"
proof -
  let ?p = "every_hour_plan t (end_hour_sec t) 0 (map snd (xss ! EVERY_HOUR_TASK))"
  have len: "length (gSchMasterTable s) = MASTER_ARR_SIZE" using ok by (simp add: master_ok_def)
  have seg: "lseg (mheap s) (pHeadMasterData (gSchMasterTable s ! i)) (xss ! i) NULL"
    if "i < MASTER_ARR_SIZE" for i by (rule slot_ok_lseg [OF master_ok_slot [OF ok that]])
  from every_hour_walk_ok [OF m seg ex, of EVERY_HOUR_TASK t "end_hour_sec t" 0] obtain s1 where s1:
    "every_hour_walk malloc t (end_hour_sec t) (pHeadMasterData (gSchMasterTable s ! EVERY_HOUR_TASK)) 0 s
       = Some (Inr (snd ?p, s1))" "exec_extends s es (fst ?p) s1" by auto
  note mh = exec_extends_mheap [OF s1(2)]
  show ?thesis
  proof (cases "snd ?p")
    case False
    then show ?thesis using s1 len
      by (simp add: BuildExecutionList_def Let_def exec_plan_def)
  next
    case True
    have h: "nat (tm_hour t) < MASTER_ARR_SIZE" using hour_index(2) [OF t] by simp
    then have seg1: "lseg (mheap s1) (pHeadMasterData (gSchMasterTable s1 ! nat (tm_hour t)))
        (xss ! nat (tm_hour t)) NULL" using seg mh by simp
    from exec_extends_trans [OF s1(2) hour_walk_ok [OF m seg1]] show ?thesis
      using True s1(1) len h mh hour_index [OF t]
      by (simp add: BuildExecutionList_def Let_def exec_plan_def)
  qed
qed

section \<open>Sorting and clearing\<close>

lemma SortExecutionList_sorted:
  assumes ok: "exec_linked s es" and m: "alloc_ok calloc" "mem_suffices calloc"
  shows "\<exists>s'. SortExecutionList calloc s = Some (Inr s')
     \<and> exec_linked s' (sort_key (on_dat xInterval) es)
     \<and> s' = s\<lparr>eheap := eheap s', gExecList := (gExecList s)\<lparr>pHeadExecData := pHeadExecData (gExecList s')\<rparr>\<rparr>"
proof (cases "es = []")
  case True
  then have "pHeadExecData (gExecList s) = NULL" using ok by (simp add: exec_linked_def)
  then show ?thesis using True ok by (simp add: SortExecutionList_def)
next
  case False
  let ?a = "calloc (eheap s)" and ?hd = "pHeadExecData (gExecList s)"
  let ?z = "\<lparr>xfp = NULL, xvpArg = NULL, xInterval = 0\<rparr> :: stExecuteTask"
  let ?h = "(eheap s)(?a \<mapsto> Node ?z ?hd)"
  have seg: "lseg (eheap s) ?hd es NULL" and live: "dom (eheap s) = set (addrs es)"
    and size: "nExecSize (gExecList s) = int (length es)"
    using ok by (auto simp: exec_linked_def)
  have a: "?a \<noteq> NULL" using m(2) live by (simp add: mem_suffices_def)
  have new: "?a \<notin> set (addrs es)" using alloc_okD [OF m(1) a] live by (metis domIff)
  have hd: "?hd \<noteq> NULL" using seg False lseg_empty_iff by blast
  have seg1: "lseg ?h ?a ((?a, ?z) # es) NULL" using seg a new by (simp add: lseg_Cons)
  from sort_outer_correct [OF seg1] obtain h' start where srt:
    "sort_outer xInterval ?h ?a NULL = Some (Inr (h', start))"
    "lseg h' start (sort_key (on_dat xInterval) ((?a, ?z) # es)) NULL"
    "\<forall>b. b \<notin> set (addrs ((?a, ?z) # es)) \<longrightarrow> h' b = ?h b" by blast
  let ?xs = "sort_key (on_dat xInterval) es"
  have "sort_key (on_dat xInterval) ((?a, ?z) # es) = (?a, ?z) # ?xs"
    by (simp add: insort_is_Cons on_dat_def)
  with srt(2) obtain n where st: "start = ?a" "h' ?a = Some (Node ?z n)" "lseg h' n ?xs NULL"
    by (auto simp: lseg_Cons)
  have nin: "?a \<notin> set (addrs ?xs)" using new by simp
  have seg2: "lseg (h'(?a := None)) n ?xs NULL" using st(3) nin by simp
  let ?s' = "s\<lparr>eheap := h'(?a := None), gExecList := (gExecList s)\<lparr>pHeadExecData := n\<rparr>\<rparr>"
  have "dom (h'(?a := None)) = set (addrs es)"
  proof (intro equalityI subsetI)
    fix b assume b: "b \<in> dom (h'(?a := None))"
    then have "b \<noteq> ?a" "h' b \<noteq> None" by (auto split: if_splits)
    then show "b \<in> set (addrs es)" using srt(3) live by (metis domIff fst_conv fun_upd_other list.simps(9) set_ConsD)
  next
    fix b assume "b \<in> set (addrs es)"
    then have "b \<in> set (addrs ?xs)" by simp
    then show "b \<in> dom (h'(?a := None))" using lseg_set_dom [OF seg2] by blast
  qed
  then have "exec_linked ?s' ?xs" using seg2 size by (simp add: exec_linked_def)
  moreover have "SortExecutionList calloc s = Some (Inr ?s')"
    using hd a srt(1) st(1,2) by (simp add: SortExecutionList_def Let_def lift_res_def)
  ultimately show ?thesis by auto
qed

lemma clear_exec_ok:
  "lseg h (pHeadExecData el) ns NULL \<Longrightarrow> \<exists>h' el'. clear_exec h el = Some (Inr (h', el'))
     \<and> nExecSize el' = nExecSize el - int (length ns) \<and> dom h' = dom h - set (addrs ns)"
proof (induction ns arbitrary: h el)
  case Nil
  then show ?case by (auto simp: clear_exec.simps)
next
  case (Cons x ns)
  from Cons.prems obtain n where x: "pHeadExecData el = fst x" "fst x \<noteq> NULL"
    "h (fst x) = Some (Node (snd x) n)" "lseg h n ns NULL" by (auto simp: lseg_Cons)
  let ?el = "el\<lparr>nExecSize := nExecSize el - 1, pHeadExecData := n\<rparr>"
  have "fst x \<notin> set (addrs ns)" using lseg_distinct [OF Cons.prems] by simp
  then have "lseg (h(fst x := None)) (pHeadExecData ?el) ns NULL" using x(4) by simp
  from Cons.IH [OF this] obtain h' el' where ih: "clear_exec (h(fst x := None)) ?el = Some (Inr (h', el'))"
    "nExecSize el' = nExecSize ?el - int (length ns)"
    "dom h' = dom (h(fst x := None)) - set (addrs ns)" by blast
  then have "clear_exec h el = Some (Inr (h', el'))" using x by (simp add: clear_exec.simps [of h])
  then show ?case using ih(2,3) by auto
qed

lemma ClearExecutionList_ok:
  assumes ok: "exec_linked s es"
  shows "\<exists>s'. ClearExecutionList s = Some (Inr s') \<and> exec_ok s' []
     \<and> s' = s\<lparr>eheap := eheap s', gExecList := gExecList s'\<rparr>"
proof -
  from clear_exec_ok [of "eheap s" "gExecList s" es] ok obtain h' el' where
    "clear_exec (eheap s) (gExecList s) = Some (Inr (h', el'))" "nExecSize el' = 0" "dom h' = {}"
    by (auto simp: exec_linked_def)
  then show ?thesis by (simp add: ClearExecutionList_def exec_ok_def exec_linked_def)
qed

lemma InitExecutionList_ok: "dom (eheap s) = {} \<Longrightarrow> exec_ok (InitExecutionList s) []"
  by (simp add: InitExecutionList_def exec_ok_def exec_linked_def)

section \<open>When a task is due\<close>

text \<open>A task of the every-hour list that today's weekday selects.\<close>

definition runs_today :: "tm \<Rightarrow> stTask \<Rightarrow> bool" where
  "runs_today pTime task \<longleftrightarrow> ePCity task = SCH_SEC_MIN_HOUR
     \<and> (eWeekDay task = tm_wday pTime \<or> eWeekDay task = SCH_ALL_DAYS)"

lemma unat_3600 [simp]: "unat (3600 :: UI32) = 3600" "unat (86400 :: UI32) = 86400"
  by simp_all

lemma short_node:
  "runs_today pTime task \<Longrightarrow> 0 < unat (ui32Interval task) \<Longrightarrow> unat (ui32Interval task) \<le> 3600 \<Longrightarrow>
   every_hour_node pTime e task k = Some (ui32Interval task, 3600 div ui32Interval task)"
  by (simp add: every_hour_node_def runs_today_def Let_def word_less_nat_alt word_le_nat_alt)

lemma unat_mult_bound:
  fixes d :: UI32
  assumes "unat d * Suc j \<le> 3600"
  shows "unat (d * (of_nat j + 1)) = unat d * Suc j"
proof (cases "d = 0")
  case False
  then have "0 < unat d" by (simp add: unat_gt_0)
  then have "Suc j \<le> 3600" using assms by (metis One_nat_def Suc_leI le_trans mult.commute mult_le_mono2 nat_mult_1_right)
  then have "unat (of_nat (Suc j) :: UI32) = Suc j" by (simp add: unat_of_nat del: of_nat_Suc)
  moreover have "unat (d * of_nat (Suc j)) = unat d * unat (of_nat (Suc j) :: UI32)"
    by (subst unat_mult_lem [THEN iffD1]) (use assms calculation in simp_all)
  ultimately show ?thesis by (simp add: add.commute)
qed simp

text \<open>The end of the hour in seconds, in the 16 bits of the variable.\<close>

lemma unat_end_hour:
  assumes "tm_ok t"
  shows "unat (end_hour_sec t) = (3600 * (nat (tm_hour t) + 1)) mod 65536"
proof -
  have h: "0 \<le> tm_hour t" "tm_hour t \<le> 23" using assms by (simp_all add: tm_ok_def)
  have "end_hour_sec t = of_int (tm_hour t * 3600 + 3600)" by (simp add: end_hour_sec_def)
  also have "tm_hour t * 3600 + 3600 = int (3600 * (nat (tm_hour t) + 1))" using h by simp
  finally have "end_hour_sec t = of_nat (3600 * (nat (tm_hour t) + 1))" by (simp only: of_int_of_nat_eq)
  then have "unat (end_hour_sec t) = (3600 * (nat (tm_hour t) + 1)) mod 2 ^ LENGTH(16)"
    by (simp only: unat_of_nat)
  then show ?thesis by simp
qed

text \<open>The offset of the code for a task longer than an hour, over natural numbers.\<close>

lemma long_node:
  assumes t: "runs_today pTime task" "3600 < unat (ui32Interval task)" "unat (ui32Interval task) \<le> 86400"
  shows "every_hour_node pTime e task k =
    (let r = unat e mod unat (ui32Interval task) in
     if r < 3600 then Some (if r = 0 then 3600 else of_nat r, 1) else Some (ui32Interval task, k))"
proof -
  let ?m = "(ucast e :: UI32) mod ui32Interval task"
  have "unat e < 2 ^ 32" using unsigned_less [of e, where 'a = nat] by simp
  then have "unat (ucast e :: UI32) = unat e" by (simp add: unsigned_ucast_eq take_bit_nat_eq_self)
  then have m: "unat ?m = unat e mod unat (ui32Interval task)" by (simp add: unat_mod)
  have "?m < 3600 \<longleftrightarrow> unat ?m < 3600" "?m = 0 \<longleftrightarrow> unat ?m = 0" "?m = of_nat (unat ?m)"
    by (simp_all add: word_less_nat_alt unat_eq_zero)
  then show ?thesis unfolding m using t
    by (simp add: every_hour_node_def runs_today_def Let_def word_less_nat_alt word_le_nat_alt)
qed

text \<open>A multiple of \<open>d\<close> in the hour that ends at \<open>e\<close> exists exactly when the remainder is small.\<close>

lemma multiple_in_hour:
  fixes d e :: nat
  assumes "3600 < d" "3600 \<le> e"
  shows "(\<exists>m. e - 3600 < m * d \<and> m * d \<le> e) \<longleftrightarrow> e mod d < 3600"
proof
  assume "\<exists>m. e - 3600 < m * d \<and> m * d \<le> e"
  then obtain m where m: "e - 3600 < m * d" "m * d \<le> e" by blast
  then have "e - m * d < d" using assms by simp
  then have "e mod d = e - m * d" using m(2) by (metis le_add_diff_inverse mod_less mod_mult_self3)
  then show "e mod d < 3600" using m by simp
next
  assume r: "e mod d < 3600"
  have "e = (e div d) * d + e mod d" by simp
  then have "e - 3600 < (e div d) * d \<and> (e div d) * d \<le> e" using r assms(2) by linarith
  then show "\<exists>m. e - 3600 < m * d \<and> m * d \<le> e" by blast
qed

definition seconds_of :: "stExecuteTask \<Rightarrow> addr \<times> addr \<times> nat" where
  "seconds_of x = (xfp x, xvpArg x, unat (xInterval x))"

text \<open>
  The tasks of the every-hour list as the code takes them: those whose interval of more than a day
  ends the whole function, those that are to run in the hour, the second of their first run and
  the number of runs, and the number of runs of the last task of a list that was to run.
\<close>

definition too_long :: "tm \<Rightarrow> stTask \<Rightarrow> bool" where
  "too_long t task \<longleftrightarrow> runs_today t task \<and> 86400 < unat (ui32Interval task)"

definition to_run :: "tm \<Rightarrow> stTask \<Rightarrow> bool" where
  "to_run t task \<longleftrightarrow> runs_today t task \<and> (let d = unat (ui32Interval task) in
     0 < d \<and> d \<le> 3600 \<or> 3600 < d \<and> d \<le> 86400 \<and> unat (end_hour_sec t) mod d < 3600)"

definition first_run :: "tm \<Rightarrow> stTask \<Rightarrow> nat" where
  "first_run t task = (let d = unat (ui32Interval task); r = unat (end_hour_sec t) mod d in
     if d \<le> 3600 then d else if r = 0 then 3600 else r)"

definition run_count :: "stTask \<Rightarrow> nat" where
  "run_count task = (let d = unat (ui32Interval task) in if d \<le> 3600 then 3600 div d else 1)"

definition last_count_from :: "tm \<Rightarrow> nat \<Rightarrow> stTask list \<Rightarrow> nat" where
  "last_count_from t k ts = (case rev (filter (to_run t) ts) of [] \<Rightarrow> k | x # _ \<Rightarrow> run_count x)"

definition last_count :: "tm \<Rightarrow> stTask list \<Rightarrow> nat" where
  "last_count t ts = last_count_from t 0 ts"

definition task_entries :: "tm \<Rightarrow> nat \<Rightarrow> stTask \<Rightarrow> (addr \<times> addr \<times> nat) list" where
  "task_entries t k task = map (\<lambda>c. (fp task, vpArg task, c))
     (if to_run t task then map (\<lambda>j. first_run t task * (j + 1)) [0..<run_count task]
      else map (\<lambda>j. unat (ui32Interval task * (of_nat j + 1))) [0..<k])"

fun plan_entries :: "tm \<Rightarrow> nat \<Rightarrow> stTask list \<Rightarrow> (addr \<times> addr \<times> nat) list" where
  "plan_entries t k [] = []"
| "plan_entries t k (x # ts) = (if too_long t x then []
     else task_entries t k x @ plan_entries t (if to_run t x then run_count x else k) ts)"

lemma takeWhile_all_iff: "length (takeWhile P xs) < length xs \<longleftrightarrow> \<not> (\<forall>x\<in>set xs. P x)"
  by (induction xs) auto

lemma last_count_Cons:
  "last_count_from t k (x # ts) = last_count_from t (if to_run t x then run_count x else k) ts"
  by (simp add: last_count_from_def split: list.split)

lemma last_count_Nil [simp]: "last_count_from t k [] = k"
  by (simp add: last_count_from_def)

lemma plan_entries_nth:
  "plan_entries t k ts = (let us = takeWhile (Not \<circ> too_long t) ts in
     concat (map (\<lambda>i. task_entries t (last_count_from t k (take i us)) (us ! i)) [0..<length us]))"
proof (induction ts arbitrary: k)
  case (Cons x ts)
  then show ?case
    by (simp add: Let_def upt_conv_Cons map_Suc_upt [symmetric] o_def last_count_Cons del: upt_Suc map_Suc_upt)
qed simp

lemma to_run_node:
  assumes "to_run t x"
  shows "\<exists>i. every_hour_node t (end_hour_sec t) x k = Some (i, of_nat (run_count x))
    \<and> map (\<lambda>j. unat (i * (of_nat j + 1))) [0..<run_count x] = map (\<lambda>j. first_run t x * (j + 1)) [0..<run_count x]
    \<and> run_count x < 2 ^ 32"
proof (cases "unat (ui32Interval x) \<le> 3600")
  case True
  let ?d = "ui32Interval x"
  have r: "runs_today t x" "0 < unat ?d" using assms by (auto simp: to_run_def Let_def)
  have n: "run_count x = 3600 div unat ?d" "first_run t x = unat ?d" using True by (simp_all add: run_count_def first_run_def)
  have "unat (?d * (of_nat j + 1)) = unat ?d * Suc j" if "j < 3600 div unat ?d" for j
  proof (rule unat_mult_bound)
    have "Suc j \<le> 3600 div unat ?d" using that by simp
    then show "unat ?d * Suc j \<le> 3600" using r(2) by (simp add: less_eq_div_iff_mult_less_eq mult.commute)
  qed
  moreover have "3600 div ?d = of_nat (3600 div unat ?d)"
    using word_arith_nat_div [of 3600 ?d] by (simp only: unat_3600)
  moreover have "3600 div unat ?d < 2 ^ 32" by (rule le_less_trans [OF div_le_dividend]) simp
  ultimately show ?thesis using short_node [OF r True, of "end_hour_sec t" k] n by simp
next
  case False
  let ?r = "unat (end_hour_sec t) mod unat (ui32Interval x)"
  have r: "runs_today t x" "3600 < unat (ui32Interval x)" "unat (ui32Interval x) \<le> 86400" "?r < 3600"
    using assms False by (auto simp: to_run_def Let_def)
  have "unat (if ?r = 0 then 3600 else of_nat ?r :: UI32) = first_run t x"
    using r(2,4) by (simp add: first_run_def unat_of_nat Let_def)
  then show ?thesis using long_node [OF r(1-3), of "end_hour_sec t" k] r(2,4)
    by (auto simp: run_count_def Let_def)
qed

lemma not_to_run_node:
  assumes "\<not> to_run t x" and "\<not> too_long t x"
  shows "every_hour_node t (end_hour_sec t) x k = Some (ui32Interval x, k)"
proof (cases "runs_today t x \<and> 3600 < unat (ui32Interval x)")
  case True
  then show ?thesis using assms long_node [of t x "end_hour_sec t" k]
    by (auto simp: to_run_def too_long_def Let_def)
next
  case False
  then show ?thesis using assms
    by (auto simp: every_hour_node_def to_run_def too_long_def runs_today_def Let_def word_less_nat_alt word_le_nat_alt)
qed

lemma too_long_node: "too_long t x \<Longrightarrow> every_hour_node t e x k = None"
  by (auto simp: every_hour_node_def too_long_def runs_today_def Let_def word_less_nat_alt word_le_nat_alt)

lemma every_hour_plan_entries:
  "map seconds_of (fst (every_hour_plan t (end_hour_sec t) k ts)) = plan_entries t (unat k) ts
   \<and> (snd (every_hour_plan t (end_hour_sec t) k ts) \<longleftrightarrow> (\<forall>x\<in>set ts. \<not> too_long t x))"
proof (induction ts arbitrary: k)
  case (Cons x ts)
  consider "too_long t x" | "to_run t x" "\<not> too_long t x" | "\<not> to_run t x" "\<not> too_long t x" by blast
  then show ?case
  proof cases
    case 1
    then show ?thesis by (simp add: too_long_node)
  next
    case 2
    then obtain i where i: "every_hour_node t (end_hour_sec t) x k = Some (i, of_nat (run_count x))"
      "map (\<lambda>j. unat (i * (of_nat j + 1))) [0..<run_count x] = map (\<lambda>j. first_run t x * (j + 1)) [0..<run_count x]"
      "unat (of_nat (run_count x) :: UI32) = run_count x"
      using to_run_node [OF 2(1), of k] by (auto simp: unat_of_nat)
    then show ?thesis using Cons.IH [of "of_nat (run_count x)"] 2
      by (simp add: task_entries_def seconds_of_def exec_of_def comp_def)
  next
    case 3
    then show ?thesis using Cons.IH [of k] not_to_run_node [OF 3, of k]
      by (simp add: task_entries_def seconds_of_def exec_of_def comp_def)
  qed
qed simp

section \<open>Properties\<close>

definition half_hourly :: stTask where
  "half_hourly = (task_at SCH_PERIODIC SCH_SEC_MIN_HOUR 0 2007)\<lparr>ui32Interval := 1800\<rparr>"

lemma half_hourly_simps [simp]:
  "ui32Interval half_hourly = 1800" "task_home half_hourly = 24" "fp half_hourly = 100"
  "vpArg half_hourly = 200" "runs_today (at_clock h m x) half_hourly"
  by (simp_all add: half_hourly_def task_at_def task_home_def runs_today_def at_clock_def)

lemma at_clock_simps [simp]: "tm_hour (at_clock h m x) = h" "tm_min (at_clock h m x) = m" "tm_sec (at_clock h m x) = x"
  by (simp_all add: at_clock_def)

lemma at_clock_ok: "0 \<le> h \<Longrightarrow> h \<le> 23 \<Longrightarrow> 0 \<le> m \<Longrightarrow> m \<le> 59 \<Longrightarrow> 0 \<le> x \<Longrightarrow> x \<le> 59 \<Longrightarrow> tm_ok (at_clock h m x)"
  by (simp add: tm_ok_def at_clock_def)

lemma one_task_exec_ok [simp]: "exec_ok (one_task t) []"
  by (simp add: exec_ok_def exec_linked_def one_task_def InitMasterTable_def no_sched_def Let_def)


lemma add_wednesday:
  "\<exists>s'. SCH_AddTask bump (at_clock 4 0 0) (half_hourly\<lparr>eWeekDay := 3\<rparr>) (one_task half_hourly) = Inr (2, s')
     \<and> master_ok s' (no_tasks[24 := [(1, half_hourly), (2, half_hourly\<lparr>eWeekDay := 3\<rparr>)]]) \<and> exec_ok s' []"
proof -
  let ?w = "half_hourly\<lparr>eWeekDay := 3\<rparr>"
  have ok: "master_ok (one_task half_hourly) (no_tasks[24 := [(1, half_hourly)]])"
    using one_task_master [of half_hourly] by simp
  have home: "task_home ?w = 24" "\<not> rejected (at_clock 4 0 0) ?w"
    by (simp_all add: task_home_def half_hourly_def task_at_def rejected_def ValidateTask_def)
  have new: "bump (mheap (one_task half_hourly)) = 2"
    by (simp add: bump_def one_task_def Let_def)
  then obtain s' where s': "SCH_AddTask bump (at_clock 4 0 0) ?w (one_task half_hourly) = Inr (2, s')"
    "master_ok s' (no_tasks[24 := [(1, half_hourly), (2, ?w)]])"
    "s' = (one_task half_hourly)\<lparr>mheap := mheap s', gSchMasterTable := gSchMasterTable s', gbTaskChanged := True\<rparr>"
    using SCH_AddTask_ok [OF ok bump_alloc_ok home(2)] home(1) by (auto simp: insert_task_def)
  have "exec_ok s' []" by (subst s'(3)) (use one_task_exec_ok [of half_hourly] in \<open>simp add: exec_ok_def exec_linked_def\<close>)
  then show ?thesis using s'(1,2) by blast
qed


text \<open>A task with an interval d of more than an hour is due in an hour that contains a multiple of d
  (counted from midnight). Before 18 o'clock the code selects it in exactly these hours, but the
  second it is run at is the distance of that multiple from the end of the hour, not from its
  start. In the other hours it is still added as often as the task before it in the list.\<close>

theorem long_task_mirrored:
  assumes "runs_today t task" and "3600 < unat (ui32Interval task)" and "unat (ui32Interval task) \<le> 86400"
    and "tm_ok t" and "tm_hour t < 18"
  defines "h \<equiv> 3600 * nat (tm_hour t)" and "d \<equiv> unat (ui32Interval task)"
  shows "if \<exists>m. h < m * d \<and> m * d \<le> h + 3600
     then \<exists>i m. every_hour_node t (end_hour_sec t) task k = Some (i, 1) \<and> h < m * d
            \<and> 0 < unat i \<and> unat i \<le> 3600 \<and> m * d + unat i mod 3600 = h + 3600
     else every_hour_node t (end_hour_sec t) task k = Some (ui32Interval task, k)"
proof -
  have "nat (tm_hour t) < 18" using assms(4,5) by (auto simp: tm_ok_def)
  then have e: "unat (end_hour_sec t) = h + 3600" using unat_end_hour [OF assms(4)] by (simp add: h_def)
  let ?r = "(h + 3600) mod d"
  have sel: "(\<exists>m. h < m * d \<and> m * d \<le> h + 3600) \<longleftrightarrow> ?r < 3600"
    using multiple_in_hour [of d "h + 3600"] assms(2) by (simp add: d_def)
  note node = long_node [OF assms(1-3), of "end_hour_sec t" k, unfolded e, folded d_def]
  show ?thesis
  proof (cases "?r < 3600")
    case True
    let ?i = "if ?r = 0 then 3600 else of_nat ?r :: UI32"
    have i: "unat ?i = (if ?r = 0 then 3600 else ?r)" using True by (simp add: unat_of_nat)
    have div: "(h + 3600) div d * d + ?r = h + 3600" by simp
    then have "h < (h + 3600) div d * d" using True by linarith
    moreover have "(h + 3600) div d * d + unat ?i mod 3600 = h + 3600"
      using i div True by (cases "?r = 0") simp_all
    moreover have "0 < unat ?i" "unat ?i \<le> 3600" using i True by (cases "?r = 0"; simp)+
    moreover have "every_hour_node t (end_hour_sec t) task k = Some (?i, 1)"
      using node True by (simp add: Let_def)
    ultimately show ?thesis using True sel by metis
  next
    case False
    then have "\<not> (\<exists>m. h < m * d \<and> m * d \<le> h + 3600)" using sel by blast
    with False node show ?thesis by (simp only: if_False Let_def)
  qed
qed

theorem long_task_mirrored_witness:
  "every_hour_node (at_clock 1 0 0) (end_hour_sec (at_clock 1 0 0)) (half_hourly\<lparr>ui32Interval := 5400\<rparr>) 0
     = Some (1800, 1)
   \<and> (\<exists>i m. every_hour_node (at_clock 1 0 0) (end_hour_sec (at_clock 1 0 0)) (half_hourly\<lparr>ui32Interval := 7000\<rparr>) 0
     = Some (i, 1) \<and> m * 7000 + unat i mod 3600 = 7200)"
proof -
  have r: "runs_today (at_clock 1 0 0) (half_hourly\<lparr>ui32Interval := d\<rparr>)" for d
    using half_hourly_simps(5) [of 1 0 0] by (simp add: runs_today_def)
  have ex: "\<exists>m. 3600 < m * 7000 \<and> m * 7000 \<le> (7200::nat)" by (rule exI [of _ 1]) simp
  show ?thesis
    using long_task_mirrored [OF r [of 7000] _ _ at_clock_ok [of 1 0 0], of 0] ex
      long_node [OF r [of 5400], of "end_hour_sec (at_clock 1 0 0)" 0]
    by (auto simp: end_hour_sec_def)
qed

text \<open>The end of the hour is kept in 16 bits, which wrap from 18 o'clock on: between 18 and 19 o'clock every
  task of the every-hour list with an interval of more than an hour is run, at second 2864,
  whatever its interval.\<close>

theorem long_task_at_18:
  assumes "runs_today t task" and "3600 < unat (ui32Interval task)" and "unat (ui32Interval task) \<le> 86400"
    and "tm_ok t" and "tm_hour t = 18"
  shows "every_hour_node t (end_hour_sec t) task k = Some (2864, 1)"
  using long_node [OF assms(1-3), of "end_hour_sec t" k] unat_end_hour [OF assms(4)] assms(2,5)
  by simp

theorem long_task_at_18_witness:
  "every_hour_node (at_clock 18 0 0) (end_hour_sec (at_clock 18 0 0)) (half_hourly\<lparr>ui32Interval := 5000\<rparr>) 0
     = Some (2864, 1)"
  using half_hourly_simps(5) [of 18 0 0]
  by (intro long_task_at_18) (auto simp: runs_today_def tm_ok_def at_clock_def)

text \<open>The number of executions is not reset between the tasks of the every-hour list: a task whose weekday
  is not today's is run as often as the task before it.\<close>

theorem other_weekday_runs:
  assumes "runs_today t a" and "0 < unat (ui32Interval a)" and "unat (ui32Interval a) \<le> 3600"
    and "\<not> runs_today t b"
  shows "\<exists>xs. fst (every_hour_plan t e k [a, b]) = xs
    @ map (\<lambda>j. exec_of b (ui32Interval b * (of_nat j + 1))) [0..<3600 div unat (ui32Interval a)]"
proof -
  have b: "every_hour_node t e b n = Some (ui32Interval b, n)" for n
    using assms(4) by (auto simp: every_hour_node_def runs_today_def Let_def)
  have n: "unat (3600 div ui32Interval a) = 3600 div unat (ui32Interval a)" by (simp add: unat_div)
  show ?thesis by (simp add: short_node [OF assms(1-3)] b n)
qed

theorem other_weekday_runs_witness:
  "\<exists>xs. fst (every_hour_plan (at_clock 4 0 0) 0 0 [half_hourly, half_hourly\<lparr>eWeekDay := 3\<rparr>])
     = xs @ [exec_of (half_hourly\<lparr>eWeekDay := 3\<rparr>) 1800, exec_of (half_hourly\<lparr>eWeekDay := 3\<rparr>) 3600]"
proof -
  have "\<not> runs_today (at_clock 4 0 0) (half_hourly\<lparr>eWeekDay := 3\<rparr>)"
    by (simp add: runs_today_def at_clock_def)
  from other_weekday_runs [OF half_hourly_simps(5) _ _ this, of 0 0] show ?thesis
    by (auto simp: upt_rec)
qed

text \<open>C24: Sorting the list of the hour returns and leaves the entries, none lost, added or changed, linked in the
  order of the second they are due at, entries of the same second in the order they had; the
  temporary head is freed.\<close>

theorem SortExecutionList_sorts:
  assumes "exec_linked s es" and "alloc_ok calloc" and "mem_suffices calloc"
  shows "\<exists>s' es'. SortExecutionList calloc s = Some (Inr s') \<and> exec_linked s' es' \<and> mset es' = mset es
     \<and> sorted (map (\<lambda>n. xInterval (snd n)) es')
     \<and> (\<forall>i. filter (\<lambda>n. xInterval (snd n) = i) es' = filter (\<lambda>n. xInterval (snd n) = i) es)"
proof -
  obtain s' where s': "SortExecutionList calloc s = Some (Inr s')"
    "exec_linked s' (sort_key (on_dat xInterval) es)"
    using SortExecutionList_sorted [OF assms] by blast
  have k: "on_dat xInterval = (\<lambda>n. xInterval (snd n))" by (simp add: on_dat_def fun_eq_iff)
  show ?thesis
    by (rule exI [of _ s'], rule exI [of _ "sort_key (\<lambda>n. xInterval (snd n)) es"])
      (use s' [unfolded k] in \<open>simp add: sort_key_stable\<close>)
qed

text \<open>A list of two entries, due at the seconds i and j.\<close>

definition two_entries :: "UI32 \<Rightarrow> UI32 \<Rightarrow> (addr \<times> stExecuteTask) list" where
  "two_entries i j = [(1, \<lparr>xfp = 100, xvpArg = 200, xInterval = i\<rparr>), (2, \<lparr>xfp = 101, xvpArg = 201, xInterval = j\<rparr>)]"

definition with_two_entries :: "UI32 \<Rightarrow> UI32 \<Rightarrow> sched" where
  "with_two_entries i j = (InitMasterTable no_sched)
     \<lparr>eheap := [1 \<mapsto> Node \<lparr>xfp = 100, xvpArg = 200, xInterval = i\<rparr> 2,
                2 \<mapsto> Node \<lparr>xfp = 101, xvpArg = 201, xInterval = j\<rparr> NULL],
      gExecList := \<lparr>pHeadExecData = 1, pTailExecData = 2, nExecSize = 2\<rparr>\<rparr>"

lemma with_two_entries_linked [simp]: "exec_linked (with_two_entries i j) (two_entries i j)"
  by (auto simp: exec_linked_def lseg_Cons two_entries_def with_two_entries_def)

theorem SortExecutionList_sorts_witness:
  "\<exists>s' es'. SortExecutionList bump (with_two_entries 1800 60) = Some (Inr s') \<and> exec_linked s' es'
     \<and> mset es' = mset (two_entries 1800 60) \<and> sorted (map (\<lambda>n. xInterval (snd n)) es')"
  using SortExecutionList_sorts [OF with_two_entries_linked [of 1800 60] bump_alloc_ok bump_mem_suffices] by blast

end
