(* ===== verification/SchedLoop.thy ===== *)
theory SchedLoop
  imports SchedExec SchedStore "HOL-Library.Sublist"
begin

text \<open>
  The scheduler thread (\<^verbatim>\<open>Scheduler\<close> of \<^verbatim>\<open>src/Common/NASCenter_Scheduler.c\<close>): the loop that runs
  the tasks of the current hour and one turn of the endless loop around it, with start and
  stop. What the thread reads from outside is an input of each turn: the clock, and whether
  another thread has set one of the two flags meanwhile (other threads only ever set them).
  What it does to the outside is a list of actions.
\<close>

section \<open>Inputs and actions\<close>

datatype sch_act =
    AcLock              \<comment> \<open>\<^verbatim>\<open>pthread_mutex_lock\<close> of the list's mutex\<close>
  | AcUnlock
  | AcSleep UI32
  | AcExec addr addr    \<comment> \<open>a callback and its argument\<close>

text \<open>One turn of the execution loop: the two clock readings, the flags set by other threads.\<close>

record exec_obs =
  oNow :: tm
  oNow2 :: tm
  oStop :: bool
  oChanged :: bool

datatype flow = Go | Break

text \<open>Seconds since the start of the hour.\<close>

definition secs_of :: "tm \<Rightarrow> UI32" where
  "secs_of pCurrTime = of_int (tm_min pCurrTime * NO_SECS_IN_MIN + tm_sec pCurrTime)"

section \<open>The execution loop\<close>

text \<open>Freeing the head of the list, four times in the code.\<close>

definition pop_exec :: "sched \<Rightarrow> sched res" where
  "pop_exec s =
     (let el = gExecList s in
      rbind (deref (eheap s) (pHeadExecData el)) (\<lambda>nd.
      rbind (free_node (eheap s) (pHeadExecData el)) (\<lambda>h.
        Inr (s\<lparr>eheap := h,
               gExecList := el\<lparr>nExecSize := nExecSize el - 1, pHeadExecData := nxt nd\<rparr>\<rparr>))))"

text \<open>The last branch of the loop body: sleeping till the next task. \<open>x\<close> is the head of the list.\<close>

definition exec_wait ::
  "exec_obs \<Rightarrow> stExecuteTask \<Rightarrow> bool \<Rightarrow> sched \<Rightarrow> (sch_act list \<times> flow \<times> bool \<times> sched) res" where
  "exec_wait ob x bHourlySchedule s =
    (let ui32Seconds = secs_of (oNow2 ob);
         ui32SleepTime = xInterval x - ui32Seconds;
         after = (\<lambda>acts hourly s'.
           let s'' = s'\<lparr>gbTaskChanged := gbTaskChanged s' \<or> oChanged ob\<rparr> in
           if gbTaskChanged s'' then Inr (AcUnlock # acts, Break, hourly, s'')
           else Inr (AcUnlock # acts @ [AcLock], Go, hourly, s''))
     in if ui32SleepTime = 6 \<and> ui32Seconds = 3600 - 6
        then after [AcSleep (ui32SleepTime - 1)] bHourlySchedule s
        else if ui32SleepTime < 6 \<and> ui32Seconds > 3600 - 6
        then after [AcSleep (ui32SleepTime - 1)] bHourlySchedule s
        else if ui32SleepTime = 1 \<and> ui32Seconds > 3600 - 6
        then rbind (pop_exec s) (\<lambda>s'.
               if nExecSize (gExecList s') = 0
               then Inr ([AcUnlock, AcExec (xfp x) (xvpArg x), AcSleep 1], Break, True, s')
               else after [AcExec (xfp x) (xvpArg x)] True s')
        else after [AcSleep (if ui32SleepTime < 6 then ui32SleepTime else 6)] bHourlySchedule s)"

text \<open>One turn of the loop over the list, whose head is not NULL.\<close>

definition exec_iter ::
  "exec_obs \<Rightarrow> bool \<Rightarrow> sched \<Rightarrow> (sch_act list \<times> flow \<times> bool \<times> sched) res" where
  "exec_iter ob bHourlySchedule s0 =
    (let s = s0\<lparr>gbStopScheduler := gbStopScheduler s0 \<or> oStop ob\<rparr>;
         ui32Seconds = secs_of (oNow ob)
     in if gbStopScheduler s then Inr ([AcUnlock], Break, bHourlySchedule, s)
        else rbind (deref (eheap s) (pHeadExecData (gExecList s))) (\<lambda>nd.
          let x = dat nd in
          if ui32Seconds > xInterval x
          then rbind (pop_exec s) (\<lambda>s'. Inr ([], Go, bHourlySchedule, s'))
          else if ui32Seconds = xInterval x
          then rbind (pop_exec s) (\<lambda>s'. Inr ([AcExec (xfp x) (xvpArg x)], Go, bHourlySchedule, s'))
          else if ui32Seconds = 3600 - 1 \<and> xInterval x = 3600
          then rbind (pop_exec s) (\<lambda>s'.
                 if nExecSize (gExecList s') = 0
                 then Inr ([AcExec (xfp x) (xvpArg x), AcSleep 1], Break, True, s')
                 else Inr ([AcExec (xfp x) (xvpArg x)], Go, True, s'))
          else exec_wait ob x bHourlySchedule s))"

text \<open>The loop, from its k-th turn, with the actions done so far.\<close>

partial_function (option) exec_loop ::
  "(nat \<Rightarrow> exec_obs) \<Rightarrow> nat \<Rightarrow> bool \<Rightarrow> sched \<Rightarrow> sch_act list
     \<Rightarrow> (sch_act list \<times> bool \<times> sched) run" where
  "exec_loop obs k hourly s acts =
    (if pHeadExecData (gExecList s) = NULL then Some (Inr (acts, hourly, s))
     else case exec_iter (obs k) hourly s of
       Inl e \<Rightarrow> Some (Inl e)
     | Inr (as, fl, hourly', s') \<Rightarrow>
         if fl = Break then Some (Inr (acts @ as, hourly', s'))
         else exec_loop obs (Suc k) hourly' s' (acts @ as))"

section \<open>The thread\<close>

text \<open>What one turn of the endless loop reads: flags, clock readings and allocators.\<close>

record turn_env =
  eStop :: bool                      \<comment> \<open>\<^verbatim>\<open>gbStopScheduler\<close> set before the first test\<close>
  eChanged1 :: bool                  \<comment> \<open>\<^verbatim>\<open>gbTaskChanged\<close> set before its first test\<close>
  eChanged2 :: bool                  \<comment> \<open>and during the sleep after it\<close>
  eNow :: tm
  eClean :: "nat \<Rightarrow> tm"              \<comment> \<open>the readings of \<^verbatim>\<open>SCH_AutoCleanTask\<close>\<close>
  eBuild :: tm                       \<comment> \<open>the reading of \<^verbatim>\<open>BuildExecutionList\<close>\<close>
  eMalloc :: "stExecuteTask allocator"
  eCalloc :: "stExecuteTask allocator"
  eObs :: "nat \<Rightarrow> exec_obs"

text \<open>The local variables that live across turns.\<close>

record thread =
  bHourlySchedule :: bool
  ui32SleepTime :: UI32

datatype turn_end = Again thread | Stopped

text \<open>From \<^verbatim>\<open>SCH_AutoCleanTask\<close> to the end of the turn: a new list is built, sorted and run.\<close>

definition run_hour :: "turn_env \<Rightarrow> sched \<Rightarrow> (sch_act list \<times> bool \<times> sched) run" where
  "run_hour ev s =
    obind (if tm_hour (eNow ev) = 0 \<and> secs_of (eNow ev) \<le> 6 then SCH_AutoCleanTask (eClean ev) s
           else Some (Inr s)) (\<lambda>s.
    obind (ClearExecutionList s) (\<lambda>s.
    obind (BuildExecutionList (eMalloc ev) (eBuild ev) (InitExecutionList s)) (\<lambda>s.
    obind (SortExecutionList (eCalloc ev) (s\<lparr>gbTaskChanged := False\<rparr>)) (\<lambda>s.
      if pHeadExecData (gExecList s) = NULL
      then Some (Inr ([AcLock, AcUnlock, AcSleep 6], False, s))
      else obind (exec_loop (eObs ev) 0 False s [AcLock]) (\<lambda>(acts, hourly, s).
             Some (Inr (acts @ [AcUnlock], hourly, s)))))))"

definition Scheduler_turn :: "turn_env \<Rightarrow> thread \<Rightarrow> sched \<Rightarrow> (sch_act list \<times> turn_end \<times> sched) run" where
  "Scheduler_turn ev th s0 =
    (let s = s0\<lparr>gbStopScheduler := gbStopScheduler s0 \<or> eStop ev\<rparr> in
     if gbStopScheduler s
     then obind (ClearExecutionList (s\<lparr>gbStopScheduler := False\<rparr>)) (\<lambda>s.
          obind (ClearMasterTable s) (\<lambda>s. Some (Inr ([], Stopped, s))))
     else
       let ui32Seconds = secs_of (eNow ev);
           s1 = s\<lparr>gbTaskChanged := gbTaskChanged s \<or> eChanged1 ev\<rparr>;
           idle = \<not> bHourlySchedule th \<and> \<not> gbTaskChanged s1;
           at_end = 3600 - ui32Seconds \<le> 6;
           acts = (if idle \<and> at_end then [AcSleep (3600 - ui32Seconds)] else []);
           th1 = (if idle then if at_end then \<lparr>bHourlySchedule = True, ui32SleepTime = 3600 - ui32Seconds\<rparr>
                               else th\<lparr>ui32SleepTime := 6\<rparr>
                  else th);
           s2 = s1\<lparr>gbTaskChanged := gbTaskChanged s1 \<or> eChanged2 ev\<rparr>
       in if \<not> gbTaskChanged s2 \<and> \<not> bHourlySchedule th1
          then Some (Inr (acts @ [AcSleep (ui32SleepTime th1)], Again th1, s2))
          else obind (run_hour ev s2) (\<lambda>(acts', hourly, s').
                 Some (Inr (acts @ acts', Again (th1\<lparr>bHourlySchedule := hourly\<rparr>), s'))))"

definition SCH_StartScheduler :: "sched \<Rightarrow> sched" where
  "SCH_StartScheduler s =
     (InitExecutionList (InitMasterTable s))\<lparr>gbStopScheduler := False, gbTaskChanged := False\<rparr>"

text \<open>Setting the flag; the join with the thread is the caller's wait for \<^const>\<open>Stopped\<close>.\<close>

definition SCH_StopScheduler :: "sched \<Rightarrow> sched" where
  "SCH_StopScheduler s = s\<lparr>gbStopScheduler := True\<rparr>"

section \<open>One turn of the execution loop\<close>

lemma pop_exec_ok:
  assumes "exec_linked s (x # es)"
  shows "\<exists>s'. pop_exec s = Inr s' \<and> exec_linked s' es
     \<and> s' = s\<lparr>eheap := eheap s', gExecList := gExecList s'\<rparr>"
proof -
  let ?el = "gExecList s"
  from assms obtain n where x: "pHeadExecData ?el = fst x" "fst x \<noteq> NULL" "eheap s (fst x) = Some (Node (snd x) n)"
    "lseg (eheap s) n es NULL" "nExecSize ?el = int (length es) + 1" "dom (eheap s) = set (addrs (x # es))"
    by (auto simp: exec_linked_def lseg_Cons)
  have "lseg (eheap s) (pHeadExecData ?el) (x # es) NULL" using assms by (simp add: exec_linked_def)
  then have "fst x \<notin> set (addrs es)" using lseg_distinct by fastforce
  then have "exec_linked (s\<lparr>eheap := (eheap s)(fst x := None),
       gExecList := ?el\<lparr>nExecSize := nExecSize ?el - 1, pHeadExecData := n\<rparr>\<rparr>) es"
    using x by (auto simp: exec_linked_def)
  then show ?thesis using x(1-3) by (simp add: pop_exec_def Let_def)
qed

text \<open>The third branch after the clock is read again can never be taken: the second covers it.\<close>

lemma exec_wait_no_exec:
  "exec_wait ob x hourly s = Inr (as, fl, hourly', s') \<Longrightarrow>
     (\<forall>f a. AcExec f a \<notin> set as) \<and> hourly' = hourly
     \<and> s' = s\<lparr>gbTaskChanged := gbTaskChanged s \<or> oChanged ob\<rparr>
     \<and> (fl = Break \<longleftrightarrow> gbTaskChanged s') \<and> as \<noteq> [] \<and> hd as = AcUnlock
     \<and> (if fl = Break then AcLock \<notin> set as else last as = AcLock)"
  by (auto simp: exec_wait_def Let_def word_less_def split: if_splits)

lemma exec_wait_total: "\<exists>as fl hourly' s'. exec_wait ob x hourly s = Inr (as, fl, hourly', s')"
  by (auto simp: exec_wait_def Let_def word_less_def)

text \<open>The callbacks a list of actions runs, and the callback of a list entry.\<close>

fun execs :: "sch_act list \<Rightarrow> (addr \<times> addr) list" where
  "execs [] = []"
| "execs (AcExec f a # as) = (f, a) # execs as"
| "execs (_ # as) = execs as"

lemma execs_append [simp]: "execs (as @ bs) = execs as @ execs bs"
  by (induction as rule: execs.induct) auto

lemma execs_none: "(\<forall>f a. AcExec f a \<notin> set as) \<Longrightarrow> execs as = []"
  by (induction as rule: execs.induct) auto

definition callback :: "addr \<times> stExecuteTask \<Rightarrow> addr \<times> addr" where
  "callback n = (xfp (snd n), xvpArg (snd n))"

text \<open>The second of the hour at which an entry is run: its own, or 3599 for an entry of 3600.\<close>

definition on_time :: "tm \<Rightarrow> addr \<times> stExecuteTask \<Rightarrow> bool" where
  "on_time t n \<longleftrightarrow> secs_of t = xInterval (snd n) \<or> secs_of t = 3599 \<and> xInterval (snd n) = 3600"

definition same_table :: "sched \<Rightarrow> sched \<Rightarrow> bool" where
  "same_table s s' \<longleftrightarrow> mheap s' = mheap s \<and> gSchMasterTable s' = gSchMasterTable s"

lemma same_table_trans: "same_table s s1 \<Longrightarrow> same_table s1 s2 \<Longrightarrow> same_table s s2"
  by (simp add: same_table_def)

lemma same_table_master_ok: "same_table s s' \<Longrightarrow> master_ok s' xss = master_ok s xss"
  by (simp add: same_table_def master_ok_def)

lemma exec_iter_ok:
  fixes ob :: exec_obs
  assumes ok: "exec_linked s (x # es)"
  defines "stop \<equiv> gbStopScheduler s \<or> oStop ob"
  shows "\<exists>as fl hourly' s'. exec_iter ob hourly s = Inr (as, fl, hourly', s') \<and> same_table s s'
     \<and> (if \<not> stop \<and> (secs_of (oNow ob) \<ge> xInterval (snd x) \<or> on_time (oNow ob) x)
        then exec_linked s' es else exec_linked s' (x # es))
     \<and> execs as = (if \<not> stop \<and> on_time (oNow ob) x then [callback x] else [])"
proof -
  let ?s = "s\<lparr>gbStopScheduler := stop\<rparr>"
  have lnk: "exec_linked ?s (x # es)" using ok by (simp add: exec_linked_def)
  have d: "deref (eheap ?s) (pHeadExecData (gExecList ?s)) = Inr (Node (snd x) (first_addr es NULL))"
  proof -
    from ok obtain n where "pHeadExecData (gExecList s) = fst x" "fst x \<noteq> NULL"
      "eheap s (fst x) = Some (Node (snd x) n)" "lseg (eheap s) n es NULL"
      by (auto simp: exec_linked_def lseg_Cons)
    then show ?thesis using lseg_first_addr by fastforce
  qed
  obtain s' where s': "pop_exec ?s = Inr s'" "exec_linked s' es"
    "s' = ?s\<lparr>eheap := eheap s', gExecList := gExecList s'\<rparr>" using pop_exec_ok [OF lnk] by blast
  have tab: "same_table s s'" "same_table s ?s" by (subst s'(3)) (simp_all add: same_table_def)
  obtain as fl hourly' s2 where w: "exec_wait ob (snd x) hourly ?s = Inr (as, fl, hourly', s2)"
    using exec_wait_total by blast
  note wait = exec_wait_no_exec [OF w]
  have w2: "exec_linked s2 (x # es)" "same_table s s2" "execs as = []"
    using wait lnk tab(2) by (simp_all add: exec_linked_def same_table_def execs_none)
  show ?thesis
  proof (cases stop)
    case True
    then show ?thesis using lnk tab(2) by (simp add: exec_iter_def Let_def stop_def)
  next
    case False
    then have r: "exec_iter ob hourly s = (if secs_of (oNow ob) > xInterval (snd x) then Inr ([], Go, hourly, s')
        else if secs_of (oNow ob) = xInterval (snd x) then Inr ([AcExec (xfp (snd x)) (xvpArg (snd x))], Go, hourly, s')
        else if secs_of (oNow ob) = 3599 \<and> xInterval (snd x) = 3600
        then (if nExecSize (gExecList s') = 0
              then Inr ([AcExec (xfp (snd x)) (xvpArg (snd x)), AcSleep 1], Break, True, s')
              else Inr ([AcExec (xfp (snd x)) (xvpArg (snd x))], Go, True, s'))
        else Inr (as, fl, hourly', s2))"
      using d s'(1) w by (simp add: exec_iter_def Let_def stop_def)
    consider (late) "secs_of (oNow ob) > xInterval (snd x)" | (now) "secs_of (oNow ob) = xInterval (snd x)"
      | (full) "secs_of (oNow ob) = 3599" "xInterval (snd x) = 3600"
      | (wait) "secs_of (oNow ob) < xInterval (snd x)" "\<not> (secs_of (oNow ob) = 3599 \<and> xInterval (snd x) = 3600)"
      by (metis linorder_less_linear)
    then show ?thesis
    proof cases
      case late
      then have "\<not> on_time (oNow ob) x" by (auto simp: on_time_def)
      then show ?thesis using r late False s'(2) tab(1) by auto
    next
      case now
      then have "on_time (oNow ob) x" by (simp add: on_time_def)
      then show ?thesis using r now False s'(2) tab(1) by (simp add: callback_def)
    next
      case full
      then have "on_time (oNow ob) x" by (simp add: on_time_def)
      then show ?thesis using r full False s'(2) tab(1)
        by (cases "nExecSize (gExecList s') = 0") (auto simp: callback_def)
    next
      case wait
      then have "\<not> on_time (oNow ob) x" "\<not> xInterval (snd x) \<le> secs_of (oNow ob)" by (auto simp: on_time_def)
      then show ?thesis using r wait False w2 by auto
    qed
  qed
qed

section \<open>The whole loop\<close>

text \<open>
  What a run of the loop over the list \<open>es\<close> has done when it returns: a first part of the list
  is gone, and the callbacks run are those of some of its entries, in list order, each once.
\<close>

definition loop_post ::
  "(addr \<times> stExecuteTask) list \<Rightarrow> sched \<Rightarrow> sch_act list \<Rightarrow> (sch_act list \<times> bool \<times> sched) res \<Rightarrow> bool" where
  "loop_post es s acts r \<longleftrightarrow> (\<exists>as hourly' s' es1 es2. r = Inr (acts @ as, hourly', s')
     \<and> es = es1 @ es2 \<and> exec_linked s' es2 \<and> same_table s s'
     \<and> subseq (execs as) (map callback es1))"

lemma loop_post_done: "exec_linked s' es \<Longrightarrow> same_table s s' \<Longrightarrow> execs as = []
    \<Longrightarrow> loop_post es s acts (Inr (acts @ as, hourly', s'))"
  unfolding loop_post_def
  by (rule exI [of _ as], rule exI, rule exI, rule exI [of _ "[]"], rule exI [of _ es]) simp

lemma loop_post_step:
  assumes "same_table s s1" and "loop_post es1 s1 (acts @ as) r"
    and "es = es1 \<and> execs as = [] \<or> es = x # es1 \<and> (execs as = [] \<or> execs as = [callback x])"
  shows "loop_post es s acts r"
proof -
  from assms(2) obtain bs hourly' s' e1 e2 where p: "r = Inr ((acts @ as) @ bs, hourly', s')"
    "es1 = e1 @ e2" "exec_linked s' e2" "same_table s1 s'" "subseq (execs bs) (map callback e1)"
    unfolding loop_post_def by blast
  have "\<exists>e. es = e @ e2 \<and> subseq (execs (as @ bs)) (map callback e)"
    using assms(3)
  proof
    assume "es = es1 \<and> execs as = []"
    then show ?thesis using p(2,5) by auto
  next
    assume "es = x # es1 \<and> (execs as = [] \<or> execs as = [callback x])"
    then show ?thesis using p(2,5) by (intro exI [of _ "x # e1"]) auto
  qed
  then obtain e where e: "es = e @ e2" "subseq (execs (as @ bs)) (map callback e)" by blast
  have "r = Inr (acts @ (as @ bs), hourly', s')" using p(1) by simp
  with e p(3) same_table_trans [OF assms(1) p(4)] show ?thesis unfolding loop_post_def by blast
qed

lemma exec_iter_step:
  assumes "exec_linked s (x # es)"
  shows "\<exists>as fl hourly' s' es'. exec_iter ob hourly s = Inr (as, fl, hourly', s') \<and> same_table s s'
     \<and> exec_linked s' es' \<and> (es' = x # es \<and> execs as = [] \<or> es' = es \<and> (execs as = [] \<or> execs as = [callback x]))
     \<and> (\<not> gbStopScheduler s \<and> \<not> oStop ob \<and> secs_of (oNow ob) \<ge> xInterval (snd x) \<longrightarrow> es' = es)"
proof -
  obtain as fl hourly' s' where r: "exec_iter ob hourly s = Inr (as, fl, hourly', s')" "same_table s s'"
    "if \<not> (gbStopScheduler s \<or> oStop ob) \<and> (secs_of (oNow ob) \<ge> xInterval (snd x) \<or> on_time (oNow ob) x)
        then exec_linked s' es else exec_linked s' (x # es)"
    "execs as = (if \<not> (gbStopScheduler s \<or> oStop ob) \<and> on_time (oNow ob) x then [callback x] else [])"
    using exec_iter_ok [OF assms, of ob hourly] by blast
  then show ?thesis
    by (intro exI [of _ as] exI [of _ fl] exI [of _ hourly'] exI [of _ s']
        exI [of _ "if \<not> (gbStopScheduler s \<or> oStop ob) \<and>
          (secs_of (oNow ob) \<ge> xInterval (snd x) \<or> on_time (oNow ob) x) then es else x # es"]) auto
qed

lemma exec_loop_post:
  assumes "exec_loop obs k hourly s acts = Some r"
  shows "\<forall>es. exec_linked s es \<longrightarrow> loop_post es s acts r"
proof (rule exec_loop.raw_induct [where P = "\<lambda>obs k hourly s acts r. \<forall>es. exec_linked s es
     \<longrightarrow> loop_post es s acts r", OF _ assms], intro allI impI)
  fix loop obs k hourly s acts r es
  assume IH: "\<And>obs k hourly s acts r. loop obs k hourly s acts = Some r \<Longrightarrow>
      \<forall>es. exec_linked s es \<longrightarrow> loop_post es s acts r"
    and eq: "(if pHeadExecData (gExecList s) = NULL then Some (Inr (acts, hourly, s))
     else case exec_iter (obs k) hourly s of
       Inl e \<Rightarrow> Some (Inl e)
     | Inr (as, fl, hourly', s') \<Rightarrow>
         if fl = Break then Some (Inr (acts @ as, hourly', s'))
         else loop obs (Suc k) hourly' s' (acts @ as)) = Some r"
    and ok: "exec_linked s es"
  show "loop_post es s acts r"
  proof (cases es)
    case Nil
    then have "pHeadExecData (gExecList s) = NULL" using ok by (simp add: exec_linked_def)
    then have "r = Inr (acts @ [], hourly, s)" using eq by simp
    then show ?thesis using ok loop_post_done [of s es s "[]"] by (simp add: same_table_def)
  next
    case (Cons x ms)
    then have hd: "pHeadExecData (gExecList s) \<noteq> NULL" using ok by (auto simp: exec_linked_def lseg_Cons)
    from exec_iter_step [of s x ms "obs k" hourly] ok Cons obtain as fl hourly' s' es' where it:
      "exec_iter (obs k) hourly s = Inr (as, fl, hourly', s')" "same_table s s'" "exec_linked s' es'"
      "es' = x # ms \<and> execs as = [] \<or> es' = ms \<and> (execs as = [] \<or> execs as = [callback x])" by blast
    have step: "loop_post es' s' (acts @ as) q \<Longrightarrow> loop_post es s acts q" for q
      using loop_post_step [OF it(2), of es' acts as q es x] it(4) Cons by blast
    show ?thesis
    proof (cases "fl = Break")
      case True
      then have "r = Inr ((acts @ as) @ [], hourly', s')" using eq hd it(1) by simp
      then show ?thesis using step loop_post_done [OF it(3), of s' "[]" "acts @ as" hourly']
        by (simp add: same_table_def)
    next
      case False
      then have "loop obs (Suc k) hourly' s' (acts @ as) = Some r" using eq hd it(1) by simp
      then show ?thesis using IH it(3) step by blast
    qed
  qed
qed

text \<open>
  The loop returns when, from some turn on, the clock has reached every entry of the list.
\<close>

lemma exec_loop_total:
  assumes "\<And>j n. K \<le> j \<Longrightarrow> n \<in> set es \<Longrightarrow> xInterval (snd n) \<le> secs_of (oNow (obs j))"
    and "exec_linked s es"
  shows "\<exists>r. exec_loop obs k hourly s acts = Some r"
  using assms
proof (induction "K - k + length es" arbitrary: k hourly s acts es rule: less_induct)
  case less
  show ?case
  proof (cases es)
    case Nil
    then show ?thesis using less.prems(2) by (simp add: exec_loop.simps exec_linked_def)
  next
    case (Cons x ms)
    then have hd: "pHeadExecData (gExecList s) \<noteq> NULL"
      using less.prems(2) by (auto simp: exec_linked_def lseg_Cons)
    from exec_iter_step [of s x ms "obs k" hourly] less.prems(2) Cons obtain as fl hourly' s' es' where it:
      "exec_iter (obs k) hourly s = Inr (as, fl, hourly', s')" "exec_linked s' es'"
      "es' = x # ms \<or> es' = ms"
      "\<not> gbStopScheduler s \<and> \<not> oStop (obs k) \<and> secs_of (oNow (obs k)) \<ge> xInterval (snd x) \<longrightarrow> es' = ms"
      by blast
    show ?thesis
    proof (cases "fl = Break")
      case True
      then show ?thesis using hd it(1) by (simp add: exec_loop.simps [of obs k hourly s])
    next
      case False
      have ns: "\<not> gbStopScheduler s \<and> \<not> oStop (obs k)"
        using it(1) False by (auto simp: exec_iter_def Let_def)
      have "K - Suc k + length es' < K - k + length es"
      proof (cases "k < K")
        case True
        then show ?thesis using it(3) Cons by auto
      next
        case False
        then have "es' = ms" using it(4) ns less.prems(1) [of k x] Cons by simp
        then show ?thesis using Cons False by simp
      qed
      moreover have "set es' \<subseteq> set es" using it(3) Cons by auto
      ultimately have "\<exists>r. exec_loop obs (Suc k) hourly' s' (acts @ as) = Some r"
        using less.hyps less.prems(1) it(2) by blast
      then show ?thesis using hd it(1) False by (simp add: exec_loop.simps [of obs k hourly s])
    qed
  qed
qed

section \<open>One turn of the thread\<close>

text \<open>The invariant of the thread: the table and the list of the hour are well formed.\<close>

definition sched_inv :: "sched \<Rightarrow> bool" where
  "sched_inv s \<longleftrightarrow> master_inv s \<and> (\<exists>es. exec_linked s es)"

text \<open>Allocators as documented, enough memory, and a clock within its ranges.\<close>

definition env_ok :: "turn_env \<Rightarrow> bool" where
  "env_ok ev \<longleftrightarrow> tm_ok (eBuild ev) \<and> alloc_ok (eMalloc ev) \<and> mem_suffices (eMalloc ev)
     \<and> alloc_ok (eCalloc ev) \<and> mem_suffices (eCalloc ev)"

lemma flags_master_ok [simp]:
  "master_ok (s\<lparr>gbStopScheduler := b\<rparr>) xss = master_ok s xss"
  "master_ok (s\<lparr>gbTaskChanged := b\<rparr>) xss = master_ok s xss"
  "master_ok (s\<lparr>eheap := h, gExecList := l\<rparr>) xss = master_ok s xss"
  "master_ok (s\<lparr>gExecList := l\<rparr>) xss = master_ok s xss"
  by (simp_all add: master_ok_def)

lemma flags_exec_linked [simp]:
  "exec_linked (s\<lparr>gbStopScheduler := b\<rparr>) es = exec_linked s es"
  "exec_linked (s\<lparr>gbTaskChanged := b\<rparr>) es = exec_linked s es"
  "exec_linked (s\<lparr>mheap := h, gSchMasterTable := t\<rparr>) es = exec_linked s es"
  by (simp_all add: exec_linked_def)

lemma flags_sched_inv [simp]:
  "sched_inv (s\<lparr>gbStopScheduler := b\<rparr>) = sched_inv s" "sched_inv (s\<lparr>gbTaskChanged := b\<rparr>) = sched_inv s"
  by (simp_all add: sched_inv_def master_inv_def)

lemma exec_cong_master: "s' = s\<lparr>eheap := eheap s', gExecList := gExecList s'\<rparr> \<Longrightarrow> master_ok s' xss = master_ok s xss"
  by (metis flags_master_ok(3))

lemma master_cong_exec: "s' = s\<lparr>mheap := mheap s', gSchMasterTable := gSchMasterTable s'\<rparr> \<Longrightarrow>
   exec_linked s' es = exec_linked s es"
  by (metis flags_exec_linked(3))

text \<open>Building and sorting: the list the loop runs is the sorted plan of the hour.\<close>

lemma build_and_sort:
  assumes ok: "master_ok s xss" and ex: "exec_linked s es" and ev: "env_ok ev"
  shows "\<exists>s' ns. obind (ClearExecutionList s) (\<lambda>s.
      obind (BuildExecutionList (eMalloc ev) (eBuild ev) (InitExecutionList s)) (\<lambda>s.
        SortExecutionList (eCalloc ev) (s\<lparr>gbTaskChanged := False\<rparr>))) = Some (Inr s')
    \<and> master_ok s' xss \<and> exec_linked s' ns \<and> map snd ns = sort_key xInterval
        (exec_plan (eBuild ev) (map snd (xss ! EVERY_HOUR_TASK)) (map snd (xss ! nat (tm_hour (eBuild ev)))))"
proof -
  let ?plan = "exec_plan (eBuild ev) (map snd (xss ! EVERY_HOUR_TASK)) (map snd (xss ! nat (tm_hour (eBuild ev))))"
  have e: "tm_ok (eBuild ev)" "alloc_ok (eMalloc ev)" "mem_suffices (eMalloc ev)"
    "alloc_ok (eCalloc ev)" "mem_suffices (eCalloc ev)" using ev by (simp_all add: env_ok_def)
  from ClearExecutionList_ok [OF ex] obtain s1 where s1: "ClearExecutionList s = Some (Inr s1)"
    "exec_ok s1 []" "master_ok s1 xss" using ok exec_cong_master by blast
  have "exec_ok (InitExecutionList s1) []"
    using s1(2) by (intro InitExecutionList_ok) (simp add: exec_ok_def exec_linked_def)
  moreover have "master_ok (InitExecutionList s1) xss" using s1(3) by (simp add: InitExecutionList_def)
  ultimately obtain s2 where s2: "BuildExecutionList (eMalloc ev) (eBuild ev) (InitExecutionList s1) = Some (Inr s2)"
    "exec_extends (InitExecutionList s1) [] ?plan s2" "master_ok (InitExecutionList s1) xss"
    using BuildExecutionList_plan e(1-3) by blast
  from s2(2) obtain ns where ns: "exec_linked s2 ns" "map snd ns = ?plan"
    by (auto simp: exec_extends_def exec_ok_def)
  have ok2: "master_ok s2 xss" using s2(2,3) exec_cong_master unfolding exec_extends_def by blast
  have "exec_linked (s2\<lparr>gbTaskChanged := False\<rparr>) ns" using ns(1) by simp
  from SortExecutionList_sorted [OF this e(4,5)] obtain s3 where s3:
    "SortExecutionList (eCalloc ev) (s2\<lparr>gbTaskChanged := False\<rparr>) = Some (Inr s3)"
    "exec_linked s3 (sort_key (on_dat xInterval) ns)" "mheap s3 = mheap s2" "gSchMasterTable s3 = gSchMasterTable s2"
    by (metis sched.select_convs(1,2) sched.surjective sched.update_convs(3,5,6))
  have "master_ok s3 xss" using ok2 s3(3,4) by (simp add: master_ok_def)
  then show ?thesis using s1(1) s2(1) s3(1,2) ns(2)
    by (auto simp: map_snd_sort intro!: exI [of _ "sort_key (on_dat xInterval) ns"])
qed

text \<open>A turn that runs the hour: no fault, and callbacks in the order of the sorted plan.\<close>

definition plan_of :: "turn_env \<Rightarrow> (addr \<times> stTask) list list \<Rightarrow> (addr \<times> addr) list" where
  "plan_of ev xss = map (\<lambda>x. (xfp x, xvpArg x)) (sort_key xInterval
     (exec_plan (eBuild ev) (map snd (xss ! EVERY_HOUR_TASK)) (map snd (xss ! nat (tm_hour (eBuild ev))))))"

definition midnight :: "turn_env \<Rightarrow> bool" where
  "midnight ev \<longleftrightarrow> tm_hour (eNow ev) = 0 \<and> secs_of (eNow ev) \<le> 6"

lemma obind_assoc: "obind (obind m f) g = obind m (\<lambda>x. obind (f x) g)"
  by (auto simp: obind_def split: option.splits sum.splits)

lemma run_list_post:
  assumes ok: "master_ok s xss" "exec_linked s ns" and r: "(if pHeadExecData (gExecList s) = NULL
      then Some (Inr ([AcLock, AcUnlock, AcSleep 6], False, s))
      else obind (exec_loop obs 0 False s [AcLock]) (\<lambda>(acts, hourly, s).
             Some (Inr (acts @ [AcUnlock], hourly, s)))) = Some r"
  shows "\<exists>acts hourly s' ns'. r = Inr (acts, hourly, s') \<and> master_ok s' xss \<and> exec_linked s' ns'
     \<and> subseq (execs acts) (map callback ns)"
proof (cases "pHeadExecData (gExecList s) = NULL")
  case True
  then show ?thesis using r ok by auto
next
  case False
  then obtain q where q: "exec_loop obs 0 False s [AcLock] = Some q"
    using r by (cases "exec_loop obs 0 False s [AcLock]") auto
  from exec_loop_post [OF q] ok(2) obtain as hourly' s' es1 es2 where p: "q = Inr ([AcLock] @ as, hourly', s')"
    "ns = es1 @ es2" "exec_linked s' es2" "same_table s s'" "subseq (execs as) (map callback es1)"
    unfolding loop_post_def by blast
  have "subseq (execs as) (map callback ns)" using p(2,5) by (simp add: subseq_rev_drop_many)
  then show ?thesis using False r q p(1,3) same_table_master_ok [OF p(4)] ok(1) by auto
qed

lemma run_hour_post:
  assumes ok: "master_ok s xss" and ex: "exec_linked s es" and ev: "env_ok ev" and r: "run_hour ev s = Some r"
  defines "yss \<equiv> (if midnight ev then keep_tasks xss else xss)"
  shows "\<exists>acts hourly s' ns'. r = Inr (acts, hourly, s') \<and> master_ok s' yss \<and> exec_linked s' ns'
     \<and> subseq (execs acts) (plan_of ev yss)"
proof -
  let ?clean = "if midnight ev then SCH_AutoCleanTask (eClean ev) s else Some (Inr s)"
  have rr: "obind ?clean (\<lambda>s. obind (obind (ClearExecutionList s) (\<lambda>s.
      obind (BuildExecutionList (eMalloc ev) (eBuild ev) (InitExecutionList s)) (\<lambda>s.
        SortExecutionList (eCalloc ev) (s\<lparr>gbTaskChanged := False\<rparr>)))) (\<lambda>s.
      if pHeadExecData (gExecList s) = NULL
      then Some (Inr ([AcLock, AcUnlock, AcSleep 6], False, s))
      else obind (exec_loop (eObs ev) 0 False s [AcLock]) (\<lambda>(acts, hourly, s).
             Some (Inr (acts @ [AcUnlock], hourly, s))))) = Some r"
    using r unfolding run_hour_def midnight_def obind_assoc .
  obtain s1 where s1: "?clean = Some (Inr s1)" "master_ok s1 yss" "exec_linked s1 es"
  proof (cases "midnight ev")
    case True
    then obtain q where q: "SCH_AutoCleanTask (eClean ev) s = Some q"
      using rr by (cases "SCH_AutoCleanTask (eClean ev) s") auto
    from SCH_AutoCleanTask_post [OF ok q] show ?thesis
      using True that q ex master_cong_exec unfolding yss_def by auto
  next
    case False
    then show ?thesis using that ok ex by (simp add: yss_def)
  qed
  from build_and_sort [OF s1(2,3) ev] obtain s2 ns where s2: "obind (ClearExecutionList s1) (\<lambda>s.
      obind (BuildExecutionList (eMalloc ev) (eBuild ev) (InitExecutionList s)) (\<lambda>s.
        SortExecutionList (eCalloc ev) (s\<lparr>gbTaskChanged := False\<rparr>))) = Some (Inr s2)"
    "master_ok s2 yss" "exec_linked s2 ns" "map snd ns = sort_key xInterval
        (exec_plan (eBuild ev) (map snd (yss ! EVERY_HOUR_TASK)) (map snd (yss ! nat (tm_hour (eBuild ev)))))"
    by blast
  have "map callback ns = plan_of ev yss"
    unfolding plan_of_def s2(4) [symmetric] by (simp add: callback_def)
  then show ?thesis using run_list_post [OF s2(2,3), of "eObs ev" r] rr s1(1) s2(1) by simp
qed

lemma Scheduler_turn_post:
  assumes inv: "sched_inv s" and ev: "env_ok ev" and r: "Scheduler_turn ev th s = Some r"
  shows "\<exists>acts e s'. r = Inr (acts, e, s') \<and> sched_inv s'
     \<and> (e = Stopped \<longrightarrow> dom (mheap s') = {} \<and> dom (eheap s') = {} \<and> \<not> gbStopScheduler s')"
proof -
  obtain xss es where ok: "master_ok s xss" "exec_linked s es"
    using inv by (auto simp: sched_inv_def master_inv_def)
  show ?thesis
  proof (cases "gbStopScheduler s \<or> eStop ev")
    case True
    let ?s = "s\<lparr>gbStopScheduler := False\<rparr>"
    have "exec_linked ?s es" using ok(2) by simp
    from ClearExecutionList_ok [OF this] obtain s1 where s1: "ClearExecutionList ?s = Some (Inr s1)"
      "exec_ok s1 []" "s1 = ?s\<lparr>eheap := eheap s1, gExecList := gExecList s1\<rparr>" by blast
    then have "master_ok s1 xss" "\<not> gbStopScheduler s1" using ok(1) exec_cong_master [OF s1(3)]
      by (simp, metis s1(3) sched.select_convs(4) sched.surjective sched.update_convs(4,5,6))
    from ClearMasterTable_ok [OF this(1)] obtain s2 where s2: "ClearMasterTable s1 = Some (Inr s2)"
      "master_ok s2 no_tasks" "dom (mheap s2) = {}"
      "s2 = s1\<lparr>mheap := mheap s2, gSchMasterTable := gSchMasterTable s2\<rparr>" by blast
    have "exec_linked s2 []" using s1(2) master_cong_exec [OF s2(4)] by (simp add: exec_ok_def)
    moreover have "gbStopScheduler s2 = gbStopScheduler s1"
      by (subst s2(4)) simp
    moreover have "r = Inr ([], Stopped, s2)"
      using r True s1(1) s2(1) by (simp add: Scheduler_turn_def Let_def)
    ultimately show ?thesis using s2(2,3) \<open>\<not> gbStopScheduler s1\<close>
      by (auto simp: sched_inv_def master_inv_def exec_linked_def)
  next
    case False
    let ?s2 = "s\<lparr>gbStopScheduler := False,
        gbTaskChanged := (gbTaskChanged s \<or> eChanged1 ev) \<or> eChanged2 ev\<rparr>"
    have inv2: "sched_inv ?s2" using inv by simp
    have ok2: "master_ok ?s2 xss" "exec_linked ?s2 es" using ok by simp_all
    let ?idle = "\<not> bHourlySchedule th \<and> \<not> (gbTaskChanged s \<or> eChanged1 ev)"
    let ?left = "3600 - secs_of (eNow ev)"
    let ?acts = "if ?idle \<and> ?left \<le> 6 then [AcSleep ?left] else []"
    let ?th = "if ?idle then if ?left \<le> 6 then \<lparr>bHourlySchedule = True, ui32SleepTime = ?left\<rparr>
        else th\<lparr>ui32SleepTime := 6\<rparr> else th"
    let ?go = "\<not> gbTaskChanged ?s2 \<and> \<not> bHourlySchedule ?th"
    have "Scheduler_turn ev th s =
        (if ?go then Some (Inr (?acts @ [AcSleep (ui32SleepTime ?th)], Again ?th, ?s2))
         else obind (run_hour ev ?s2) (\<lambda>(acts', hourly, s').
                 Some (Inr (?acts @ acts', Again (?th\<lparr>bHourlySchedule := hourly\<rparr>), s'))))"
      using False unfolding Scheduler_turn_def Let_def by simp
    then obtain acts th1 go where t: "Scheduler_turn ev th s =
        (if go then Some (Inr (acts @ [AcSleep (ui32SleepTime th1)], Again th1, ?s2))
         else obind (run_hour ev ?s2) (\<lambda>(acts', hourly, s').
                 Some (Inr (acts @ acts', Again (th1\<lparr>bHourlySchedule := hourly\<rparr>), s'))))" by blast
    show ?thesis
    proof (cases go)
      case True
      then show ?thesis using r t inv2 by auto
    next
      case nogo: False
      obtain q where q: "run_hour ev ?s2 = Some q" using r t nogo by (cases "run_hour ev ?s2") auto
      from run_hour_post [OF ok2 ev q] obtain acts' hourly s' ns' where p: "q = Inr (acts', hourly, s')"
        "master_ok s' (if midnight ev then keep_tasks xss else xss)" "exec_linked s' ns'" by blast
      then have "sched_inv s'" unfolding sched_inv_def master_inv_def by blast
      then show ?thesis using r t nogo q p(1) by auto
    qed
  qed
qed

section \<open>The running system\<close>

text \<open>
  The states that can be reached from a started scheduler by the public operations of other
  threads and the turns of the scheduler thread. A turn is one step, in which other threads touch
  only what \<open>turn_env\<close> leaves open. The code does not enforce this: \<^verbatim>\<open>BuildExecutionList\<close> walks the
  master table without its mutex, and the last property of this theory shows what a deletion in
  that moment does.
\<close>

inductive sys_reach :: "sched \<Rightarrow> bool" where
  reach_start: "dom (mheap s) = {} \<Longrightarrow> dom (eheap s) = {} \<Longrightarrow> sys_reach (SCH_StartScheduler s)"
| reach_op: "sys_reach s \<Longrightarrow> sch_step s e s' \<Longrightarrow> sys_reach s'"
| reach_stop: "sys_reach s \<Longrightarrow> sys_reach (SCH_StopScheduler s)"
| reach_turn: "sys_reach s \<Longrightarrow> env_ok ev \<Longrightarrow> Scheduler_turn ev th s = Some (Inr (acts, e, s')) \<Longrightarrow> sys_reach s'"

lemma add_to_slot_exec:
  "add_to_slot malloc i t s = Inr (j, s') \<Longrightarrow> eheap s' = eheap s \<and> gExecList s' = gExecList s"
  by (auto simp: add_to_slot_def Let_def rbind_eq_Inr split: if_splits)

lemma SCH_AddTask_exec:
  "SCH_AddTask malloc now t s = Inr (j, s') \<Longrightarrow> eheap s' = eheap s \<and> gExecList s' = gExecList s"
  using add_to_slot_exec by (auto simp: SCH_AddTask_def split: if_splits)

lemma SCH_DeleteTask_exec:
  "SCH_DeleteTask i s = Some (Inr (e, s')) \<Longrightarrow> eheap s' = eheap s \<and> gExecList s' = gExecList s"
  by (auto simp: SCH_DeleteTask_def obind_eq_Some_Inr)

lemma SCH_ModifyTask_exec:
  "SCH_ModifyTask malloc now i t s = Some (Inr (j, s')) \<Longrightarrow> eheap s' = eheap s \<and> gExecList s' = gExecList s"
  unfolding SCH_ModifyTask_def obind_eq_Some_Inr lift_res_def
  using SCH_DeleteTask_exec SCH_AddTask_exec by (fastforce split: if_splits)

lemma sch_step_exec: "sch_step s e s' \<Longrightarrow> eheap s' = eheap s \<and> gExecList s' = gExecList s"
proof (induction rule: sch_step.induct)
  case (st_clean clk s s')
  then show ?case by (auto simp: SCH_AutoCleanTask_def obind_eq_Some_Inr)
next
  case (st_clear s s')
  then show ?case by (auto simp: ClearMasterTable_def obind_eq_Some_Inr)
qed (use SCH_AddTask_exec SCH_DeleteTask_exec SCH_ModifyTask_exec in auto)

lemma start_inv:
  assumes "dom (mheap s) = {}" "dom (eheap s) = {}"
  shows "sched_inv (SCH_StartScheduler s)"
proof -
  have "master_ok (InitMasterTable s) no_tasks" using InitMasterTable_ok [OF assms(1)] .
  moreover have "same_table (InitMasterTable s) (SCH_StartScheduler s)"
    by (simp add: same_table_def SCH_StartScheduler_def InitExecutionList_def)
  ultimately have "master_ok (SCH_StartScheduler s) no_tasks" using same_table_master_ok by blast
  moreover have "exec_linked (SCH_StartScheduler s) []"
    using assms(2) by (simp add: SCH_StartScheduler_def exec_linked_def InitExecutionList_def InitMasterTable_def)
  ultimately show ?thesis by (auto simp: sched_inv_def master_inv_def)
qed

lemma sys_reach_inv: "sys_reach s \<Longrightarrow> sched_inv s"
proof (induction rule: sys_reach.induct)
  case (reach_start s)
  then show ?case by (rule start_inv)
next
  case (reach_op s e s')
  from sch_step_refines [OF reach_op.hyps(2)] reach_op.IH have "master_inv s'" by (simp add: sched_inv_def)
  moreover have "exec_linked s' es = exec_linked s es" for es
    using sch_step_exec [OF reach_op.hyps(2)] by (simp add: exec_linked_def)
  ultimately show ?case using reach_op.IH by (simp add: sched_inv_def)
next
  case (reach_stop s)
  then show ?case by (simp add: SCH_StopScheduler_def)
next
  case (reach_turn s ev th acts e s')
  from Scheduler_turn_post [OF reach_turn.IH reach_turn.hyps(2,3)] show ?case by auto
qed

section \<open>Properties\<close>

definition calm :: turn_env where
  "calm = \<lparr>eStop = False, eChanged1 = False, eChanged2 = True, eNow = at_clock 3 0 0, eClean = (\<lambda>_. at_clock 3 0 0),
     eBuild = at_clock 3 0 0, eMalloc = bump, eCalloc = bump,
     eObs = (\<lambda>_. \<lparr>oNow = at_clock 3 30 0, oNow2 = at_clock 3 30 0, oStop = False, oChanged = False\<rparr>)\<rparr>"

lemma calm_ok [simp]: "env_ok calm"
  by (simp add: env_ok_def calm_def at_clock_ok)

lemma started_reach [simp]: "sys_reach (SCH_StartScheduler no_sched)"
  by (rule reach_start) (simp_all add: no_sched_def)

text \<open>
  The operations of the other threads do not fault on a well-formed table, unless the start hour
  of a task is outside the table.
\<close>

lemma SCH_AddTask_no_fault:
  assumes "master_inv s" "alloc_ok malloc" "task_home t \<le> 24"
  shows "SCH_AddTask malloc now t s \<noteq> Inl e"
proof -
  have "add_admits_task (malloc, now) t s \<or> add_refuses_task (malloc, now) t s"
    using assms(2,3) by (auto simp: add_admits_task_def add_refuses_task_def)
  then show ?thesis using ms.add_admits [OF assms(1)] ms.add_refuses [OF assms(1)] by fastforce
qed

lemma SCH_ModifyTask_no_fault:
  assumes "master_inv s" "alloc_ok malloc" "task_home t \<le> 24"
  shows "SCH_ModifyTask malloc now i t s \<noteq> Some (Inl e)"
proof -
  obtain s1 where d: "SCH_DeleteTask i s =
      Some (Inr (if tasks s i = None then NASC_FAILURE else NASC_SUCCESS, s1))" "master_inv s1"
    using ms.del_law [OF assms(1)] by blast
  then show ?thesis using SCH_AddTask_no_fault [OF d(2) assms(2,3)]
    by (cases "SCH_AddTask malloc now t s1") (auto simp: SCH_ModifyTask_def lift_res_def)
qed

text \<open>C1: In every state that a started scheduler reaches, whatever tasks other threads add, change or delete and
  whatever the clock reads, the 25 task lists and the list of the hour are well formed (linked
  without cycles or sharing, sizes right, nothing leaked or dangling). In such a state no turn of the
  scheduler thread that returns has dereferenced a bad pointer or left an array, deleting and reading
  a task never fault, and adding and modifying do not for a task whose start hour is at most 24
  (\<open>SCH_AddTask_out_of_bounds_iff\<close> says when they do). Three conditions belong to it: malloc and
  calloc succeed in the turns (the sorting writes through the result of calloc untested), the
  operations that led to the state did not fault, and the other threads call them between two turns
  and not while a turn builds its list, which the code does not enforce (\<open>build_races_with_delete\<close>
  shows the fault).\<close>

theorem scheduler_memory_safe:
  assumes "sys_reach s"
  shows "sched_inv s
    \<and> (\<forall>ev th e. env_ok ev \<longrightarrow> Scheduler_turn ev th s \<noteq> Some (Inl e))
    \<and> (\<forall>i e. SCH_DeleteTask i s \<noteq> Some (Inl e) \<and> SCH_GetTask i s \<noteq> Some (Inl e))
    \<and> (\<forall>malloc now i t e. alloc_ok malloc \<and> task_home t \<le> 24 \<longrightarrow>
         SCH_AddTask malloc now t s \<noteq> Inl e \<and> SCH_ModifyTask malloc now i t s \<noteq> Some (Inl e))"
proof -
  have inv: "sched_inv s" "master_inv s" using sys_reach_inv [OF assms] by (simp_all add: sched_inv_def)
  have "Scheduler_turn ev th s \<noteq> Some (Inl e)" if "env_ok ev" for ev th e
    using Scheduler_turn_post [OF inv(1) that] by fastforce
  moreover have "SCH_DeleteTask i s \<noteq> Some (Inl e) \<and> SCH_GetTask i s \<noteq> Some (Inl e)" for i e
    using ms.del_law [OF inv(2), of i] ms.get_law [OF inv(2), of i] by auto
  ultimately show ?thesis
    using inv SCH_AddTask_no_fault SCH_ModifyTask_no_fault by blast
qed

theorem scheduler_memory_safe_witness:
  "\<forall>th e now i. Scheduler_turn calm th (SCH_StartScheduler no_sched) \<noteq> Some (Inl e)
     \<and> SCH_DeleteTask i (SCH_StartScheduler no_sched) \<noteq> Some (Inl e)
     \<and> SCH_AddTask bump now daily_task (SCH_StartScheduler no_sched) \<noteq> Inl e"
proof -
  have "task_home daily_task \<le> 24" by simp
  with scheduler_memory_safe [OF started_reach] calm_ok bump_alloc_ok show ?thesis by blast
qed

text \<open>C4: The callbacks run in one hour are a subsequence of the plan of the hour sorted by due second: the
  scheduler never runs a callback that is not planned, never runs an entry twice and never runs
  two entries out of order. The table itself is changed only by the cleaning at midnight.\<close>

theorem dispatch_follows_plan:
  assumes "master_ok s xss" and "exec_linked s es" and "env_ok ev" and "run_hour ev s = Some r"
  shows "\<exists>acts hourly s'. r = Inr (acts, hourly, s')
    \<and> subseq (execs acts) (plan_of ev (if midnight ev then keep_tasks xss else xss))
    \<and> master_ok s' (if midnight ev then keep_tasks xss else xss)"
  using run_hour_post [OF assms] by blast

lemma calm_run: "\<exists>r. run_hour calm (one_task daily_task) = Some r"
proof -
  let ?s = "one_task daily_task" and ?xss = "no_tasks[3 := [(1, daily_task)]]"
  have ok: "master_ok ?s ?xss" using one_task_master [of daily_task] by simp
  have ex: "exec_linked ?s []" using one_task_exec_ok by (rule exec_ok_linked)
  from build_and_sort [OF ok ex calm_ok] obtain s' ns where s': "obind (ClearExecutionList ?s) (\<lambda>s.
      obind (BuildExecutionList (eMalloc calm) (eBuild calm) (InitExecutionList s)) (\<lambda>s.
        SortExecutionList (eCalloc calm) (s\<lparr>gbTaskChanged := False\<rparr>))) = Some (Inr s')"
    "exec_linked s' ns" "map snd ns = sort_key xInterval
        (exec_plan (eBuild calm) (map snd (?xss ! EVERY_HOUR_TASK)) (map snd (?xss ! nat (tm_hour (eBuild calm)))))"
    by blast
  have "\<forall>x\<in>set (map snd ns). xInterval x = 1800"
    unfolding s'(3) by (simp add: exec_plan_def calm_def hour_plan_def exec_of_def start_offset_def daily_task_def task_at_def)
  then have "xInterval (snd n) \<le> secs_of (oNow (eObs calm j))" if "n \<in> set ns" for j n
    using that by (simp add: calm_def secs_of_def)
  then have "\<exists>q. exec_loop (eObs calm) 0 False s' [AcLock] = Some q"
    by (intro exec_loop_total [OF _ s'(2)])
  then obtain q where q: "exec_loop (eObs calm) 0 False s' [AcLock] = Some q" by blast
  have "\<not> midnight calm" by (simp add: midnight_def calm_def)
  then have "run_hour calm ?s = obind (Some (Inr s')) (\<lambda>s.
      if pHeadExecData (gExecList s) = NULL
      then Some (Inr ([AcLock, AcUnlock, AcSleep 6], False, s))
      else obind (exec_loop (eObs calm) 0 False s [AcLock]) (\<lambda>(acts, hourly, s).
             Some (Inr (acts @ [AcUnlock], hourly, s))))"
    unfolding run_hour_def midnight_def [symmetric] s'(1) [symmetric] obind_assoc by simp
  then show ?thesis using q by (cases q) (auto simp: obind_def)
qed

theorem dispatch_follows_plan_witness:
  "\<exists>acts hourly s'. run_hour calm (one_task daily_task) = Some (Inr (acts, hourly, s'))
     \<and> subseq (execs acts) [(100, 200)]"
proof -
  have ok: "master_ok (one_task daily_task) (no_tasks[3 := [(1, daily_task)]])"
    using one_task_master [of daily_task] by simp
  obtain r where r: "run_hour calm (one_task daily_task) = Some r" using calm_run by blast
  have "\<not> midnight calm" by (simp add: midnight_def calm_def)
  moreover have "plan_of calm (no_tasks[3 := [(1, daily_task)]]) = [(100, 200)]"
    by (simp add: plan_of_def exec_plan_def calm_def hour_plan_def exec_of_def daily_task_def task_at_def
        due_this_hour_def at_clock_def)
  ultimately show ?thesis
    using dispatch_follows_plan [OF ok exec_ok_linked [OF one_task_exec_ok] calm_ok r] r by auto
qed

text \<open>C12: One turn of the loop over the list: the entry at the head is run exactly when the clock shows its
  second of the hour (an entry of second 3600 at 3599), it is taken off the list then and also,
  without being run, when its second has passed, and it stays when its second is still to come or
  the scheduler is being stopped.\<close>

theorem exec_iter_on_time:
  assumes "exec_linked s (x # es)"
  shows "\<exists>as fl hourly' s'. exec_iter ob hourly s = Inr (as, fl, hourly', s')
    \<and> (if gbStopScheduler s \<or> oStop ob then execs as = [] \<and> fl = Break \<and> exec_linked s' (x # es)
       else if on_time (oNow ob) x then execs as = [callback x] \<and> exec_linked s' es
       else if xInterval (snd x) < secs_of (oNow ob) then execs as = [] \<and> exec_linked s' es
       else execs as = [] \<and> exec_linked s' (x # es))"
proof -
  from exec_iter_ok [OF assms, of ob hourly] obtain as fl hourly' s' where
    i: "exec_iter ob hourly s = Inr (as, fl, hourly', s')"
    "if \<not> (gbStopScheduler s \<or> oStop ob) \<and> (secs_of (oNow ob) \<ge> xInterval (snd x) \<or> on_time (oNow ob) x)
        then exec_linked s' es else exec_linked s' (x # es)"
    "execs as = (if \<not> (gbStopScheduler s \<or> oStop ob) \<and> on_time (oNow ob) x then [callback x] else [])"
    by blast
  have "fl = Break" if "gbStopScheduler s \<or> oStop ob"
    using i(1) that by (auto simp: exec_iter_def Let_def)
  moreover have "secs_of (oNow ob) = xInterval (snd x) \<Longrightarrow> on_time (oNow ob) x" by (simp add: on_time_def)
  ultimately show ?thesis using i by (auto simp: le_less split: if_splits)
qed

theorem exec_iter_on_time_witness:
  "\<exists>as fl hourly' s'. exec_iter (eObs calm 0) False (with_two_entries 1800 2000) = Inr (as, fl, hourly', s')
     \<and> execs as = [(100, 200)]"
proof -
  obtain x y where xy: "two_entries 1800 2000 = [x, y]" "snd x = \<lparr>xfp = 100, xvpArg = 200, xInterval = 1800\<rparr>"
    by (simp add: two_entries_def)
  have "exec_linked (with_two_entries 1800 2000) [x, y]" using with_two_entries_linked xy(1) by metis
  from exec_iter_on_time [OF this, of "eObs calm 0" False] xy(2) show ?thesis
    by (auto simp: on_time_def callback_def calm_def secs_of_def with_two_entries_def InitMasterTable_def no_sched_def)
qed

text \<open>The loop over the list of the hour returns, without a fault, as soon as the clock stays behind the second
  of every entry: no combination of flags, clock readings and list entries makes it run for ever
  inside the hour. Entries it leaves are the tail of the list, still linked.\<close>

theorem exec_loop_returns:
  assumes "exec_linked s es"
    and "\<And>j n. K \<le> j \<Longrightarrow> n \<in> set es \<Longrightarrow> xInterval (snd n) \<le> secs_of (oNow (obs j))"
  shows "\<exists>as hourly' s' es1 es2. exec_loop obs 0 hourly s acts = Some (Inr (acts @ as, hourly', s'))
    \<and> es = es1 @ es2 \<and> exec_linked s' es2 \<and> subseq (execs as) (map callback es1)"
proof -
  have "\<exists>r. exec_loop obs 0 hourly s acts = Some r"
    by (rule exec_loop_total [OF _ assms(1)]) (rule assms(2))
  then obtain r where r: "exec_loop obs 0 hourly s acts = Some r" by blast
  from exec_loop_post [OF r] assms(1) r show ?thesis unfolding loop_post_def by blast
qed

theorem exec_loop_returns_witness:
  "\<exists>as hourly' s'. exec_loop (eObs calm) 0 False (with_two_entries 60 1800) [] = Some (Inr (as, hourly', s'))"
proof -
  have t: "\<And>j n. (0::nat) \<le> j \<Longrightarrow> n \<in> set (two_entries 60 1800) \<Longrightarrow> xInterval (snd n) \<le> secs_of (oNow (eObs calm j))"
    by (auto simp: two_entries_def calm_def secs_of_def)
  have "\<exists>as hourly' s' es1 es2. exec_loop (eObs calm) 0 False (with_two_entries 60 1800) []
      = Some (Inr ([] @ as, hourly', s')) \<and> two_entries 60 1800 = es1 @ es2 \<and> exec_linked s' es2
      \<and> subseq (execs as) (map callback es1)"
    by (rule exec_loop_returns [OF with_two_entries_linked]) (rule t)
  then show ?thesis by auto
qed

text \<open>When the scheduler is stopped while it runs the list of an hour, the loop unlocks the mutex of the list
  before it breaks, and the code after the loop unlocks it a second time.\<close>

theorem stop_unlocks_twice:
  assumes "master_ok s xss" and "exec_linked s es" and "env_ok ev" and "\<not> midnight ev"
    and "plan_of ev xss \<noteq> []" and "oStop (eObs ev 0)"
  shows "\<exists>s'. run_hour ev s = Some (Inr ([AcLock, AcUnlock, AcUnlock], False, s')) \<and> gbStopScheduler s'"
proof -
  from build_and_sort [OF assms(1-3)] obtain s' ns where s': "obind (ClearExecutionList s) (\<lambda>s.
      obind (BuildExecutionList (eMalloc ev) (eBuild ev) (InitExecutionList s)) (\<lambda>s.
        SortExecutionList (eCalloc ev) (s\<lparr>gbTaskChanged := False\<rparr>))) = Some (Inr s')"
    "exec_linked s' ns" "map snd ns = sort_key xInterval
        (exec_plan (eBuild ev) (map snd (xss ! EVERY_HOUR_TASK)) (map snd (xss ! nat (tm_hour (eBuild ev)))))"
    by blast
  have "map callback ns = plan_of ev xss"
    unfolding plan_of_def s'(3) [symmetric] by (simp add: callback_def)
  then have "ns \<noteq> []" using assms(5) by auto
  then have p: "pHeadExecData (gExecList s') \<noteq> NULL"
    using s'(2) lseg_empty_iff unfolding exec_linked_def by blast
  have "run_hour ev s = obind (Some (Inr s')) (\<lambda>s.
      if pHeadExecData (gExecList s) = NULL
      then Some (Inr ([AcLock, AcUnlock, AcSleep 6], False, s))
      else obind (exec_loop (eObs ev) 0 False s [AcLock]) (\<lambda>(acts, hourly, s).
             Some (Inr (acts @ [AcUnlock], hourly, s))))"
    using assms(4) unfolding run_hour_def midnight_def [symmetric] s'(1) [symmetric] obind_assoc by simp
  also have "\<dots> = Some (Inr ([AcLock, AcUnlock, AcUnlock], False, s'\<lparr>gbStopScheduler := True\<rparr>))"
    using p assms(6) by (simp add: exec_loop.simps [of "eObs ev" 0] exec_iter_def Let_def)
  finally show ?thesis by auto
qed

theorem stop_unlocks_twice_witness:
  "\<exists>s'. run_hour (calm\<lparr>eObs := \<lambda>_. \<lparr>oNow = at_clock 3 0 0, oNow2 = at_clock 3 0 0, oStop = True, oChanged = False\<rparr>\<rparr>)
     (one_task daily_task) = Some (Inr ([AcLock, AcUnlock, AcUnlock], False, s'))"
proof -
  let ?ev = "calm\<lparr>eObs := \<lambda>_. \<lparr>oNow = at_clock 3 0 0, oNow2 = at_clock 3 0 0, oStop = True, oChanged = False\<rparr>\<rparr>"
  have ok: "master_ok (one_task daily_task) (no_tasks[3 := [(1, daily_task)]])"
    using one_task_master [of daily_task] by simp
  have ev: "env_ok ?ev" using calm_ok by (simp add: env_ok_def)
  have "\<not> midnight ?ev" by (simp add: midnight_def calm_def)
  moreover have "plan_of ?ev (no_tasks[3 := [(1, daily_task)]]) \<noteq> []"
    by (simp add: plan_of_def exec_plan_def calm_def hour_plan_def daily_task_def task_at_def
        due_this_hour_def at_clock_def)
  ultimately show ?thesis
    using stop_unlocks_twice [OF ok exec_ok_linked [OF one_task_exec_ok] ev] by auto
qed

text \<open>Near the end of the hour (after second 3594) the thread sleeps one second less than the time to the next
  entry. When the second reading of the clock has just reached the entry that time is 0, and the
  unsigned subtraction makes it 4294967295 seconds, with the mutex of the list released.\<close>

theorem end_of_hour_sleep_wraps:
  assumes "xInterval x = secs_of (oNow2 ob)" and "3594 < secs_of (oNow2 ob)"
  shows "\<exists>as fl s'. exec_wait ob x hourly s = Inr (AcUnlock # AcSleep 4294967295 # as, fl, hourly, s')"
  using assms by (auto simp: exec_wait_def Let_def)

theorem end_of_hour_sleep_wraps_witness:
  "\<exists>as fl s'. exec_wait \<lparr>oNow = at_clock 3 59 57, oNow2 = at_clock 3 59 58, oStop = False, oChanged = False\<rparr>
     \<lparr>xfp = 100, xvpArg = 200, xInterval = 3598\<rparr> False no_sched
     = Inr (AcUnlock # AcSleep 4294967295 # as, fl, False, s')"
  by (rule end_of_hour_sleep_wraps) (simp_all add: secs_of_def)

text \<open>Stopping: the turn of the thread after the stop flag is set always returns, ends the thread, and
  frees every task and every entry.\<close>

theorem stop_frees_everything:
  assumes "sched_inv s"
  shows "\<exists>s'. Scheduler_turn ev th (SCH_StopScheduler s) = Some (Inr ([], Stopped, s'))
    \<and> mheap s' = Map.empty \<and> eheap s' = Map.empty \<and> \<not> gbStopScheduler s' \<and> sched_inv s'"
proof -
  let ?s = "s\<lparr>gbStopScheduler := False\<rparr>"
  obtain xss es where ok: "master_ok s xss" "exec_linked s es"
    using assms by (auto simp: sched_inv_def master_inv_def)
  then have "exec_linked ?s es" by simp
  from ClearExecutionList_ok [OF this] obtain s1 where s1: "ClearExecutionList ?s = Some (Inr s1)"
    "exec_ok s1 []" "s1 = ?s\<lparr>eheap := eheap s1, gExecList := gExecList s1\<rparr>" by blast
  have "master_ok s1 xss" using ok(1) exec_cong_master [OF s1(3)] by simp
  from ClearMasterTable_ok [OF this] obtain s2 where s2: "ClearMasterTable s1 = Some (Inr s2)"
    "master_ok s2 no_tasks" "dom (mheap s2) = {}"
    "s2 = s1\<lparr>mheap := mheap s2, gSchMasterTable := gSchMasterTable s2\<rparr>" by blast
  have "Scheduler_turn ev th (SCH_StopScheduler s) = Some (Inr ([], Stopped, s2))"
    using s1(1) s2(1) by (simp add: Scheduler_turn_def SCH_StopScheduler_def Let_def)
  moreover have "exec_linked s2 []" using s1(2) master_cong_exec [OF s2(4)] by (simp add: exec_ok_def)
  moreover have "\<not> gbStopScheduler s1" by (subst s1(3)) simp
  then have "\<not> gbStopScheduler s2" by (subst s2(4)) simp
  ultimately show ?thesis using s2(2,3)
    by (auto simp: sched_inv_def master_inv_def exec_linked_def)
qed

theorem stop_frees_everything_witness:
  "\<exists>s'. Scheduler_turn calm \<lparr>bHourlySchedule = False, ui32SleepTime = 0\<rparr> (SCH_StopScheduler (SCH_StartScheduler no_sched))
     = Some (Inr ([], Stopped, s')) \<and> mheap s' = Map.empty"
  using stop_frees_everything [OF sys_reach_inv [OF started_reach]] by blast

text \<open>BuildExecutionList walks the master table without holding its mutex: when another thread deletes the task
  whose node the walk has just reached, the walk dereferences freed memory.\<close>

theorem build_races_with_delete:
  assumes "master_inv s" and "tasks s (int a) \<noteq> None" and "SCH_DeleteTask (int a) s = Some (Inr (e, s'))"
  shows "e = NASC_SUCCESS \<and> hour_walk malloc now a s' = Some (Inl (BadPtr a))
    \<and> every_hour_walk malloc now h a k s' = Some (Inl (BadPtr a))"
proof -
  from SCH_DeleteTask_law [OF assms(1), of "int a"] assms(2,3)
  have "e = NASC_SUCCESS" "tasks s' = (tasks s)(int a := None)" by auto
  moreover have "0 < a" using assms(2) by (cases "a = 0") (simp_all add: tasks_def)
  ultimately have "mheap s' a = None" by (auto simp: tasks_def fun_eq_iff dest: spec [of _ "int a"])
  then show ?thesis using \<open>e = NASC_SUCCESS\<close> \<open>0 < a\<close>
    by (simp add: hour_walk.simps every_hour_walk.simps)
qed

theorem build_races_with_delete_witness:
  "\<exists>s'. SCH_DeleteTask 1 (one_task daily_task) = Some (Inr (NASC_SUCCESS, s'))
     \<and> hour_walk bump (at_clock 3 0 0) 1 s' = Some (Inl (BadPtr 1))"
proof -
  obtain s' where d: "SCH_DeleteTask 1 (one_task daily_task) = Some (Inr (NASC_SUCCESS, s'))"
    using SCH_DeleteTask_law [OF one_task_inv, of daily_task 1] by auto
  then show ?thesis
    using build_races_with_delete [OF one_task_inv, of daily_task 1 NASC_SUCCESS s' bump "at_clock 3 0 0" 0 0] by simp
qed

end
