(* ===== verification/RtcCollect.thy ===== *)
theory RtcCollect
  imports SchedTypes ListSort "HOL-Library.Signed_Division"
begin

unbundle bit_operations_syntax

text \<open>
  The collector of \<^verbatim>\<open>src/Group1/RTCM/src/collectDataTable.c\<close>: from the active rows of the table
  it forms a linked list of (delay, row index) nodes for the next interval, sorts it, and an
  alarm handler takes the nodes off one delay at a time. \<^verbatim>\<open>int\<close>, \<^verbatim>\<open>long\<close> and \<^verbatim>\<open>unsigned long\<close>
  have 32 bits; a signed one is the same word read by \<^const>\<open>sint\<close>. The rows of the net-snmp
  container are a list, in the container's order; \<^verbatim>\<open>mktime\<close> is an argument.
\<close>

section \<open>Data\<close>

type_synonym SI32 = "32 word"

abbreviation (input) RTC_MAX_LIST_NODES :: int where "RTC_MAX_LIST_NODES \<equiv> 5000"
abbreviation (input) INIT_INTERVAL :: SI32 where "INIT_INTERVAL \<equiv> 3600"
abbreviation (input) RTC_IDLE_TIME :: SI32 where "RTC_IDLE_TIME \<equiv> 60"

definition CONVERT_TO_SEC :: "UI32 \<Rightarrow> UI32" where
  "CONVERT_TO_SEC x = x div 100"

record RTC_List =
  interval :: SI32
  index :: UI32

record collectDataTable_context =
  collectDataIndex :: UI32
  collectDataStartDate :: "nat \<Rightarrow> 8 word"
  collectDataEndDate :: "nat \<Rightarrow> 8 word"
  collectDataMonStartTime :: UI32
  collectDataMonEndTime :: UI32
  collectDataMonFrequent :: SI32
  collectDataTueStartTime :: UI32
  collectDataTueEndTime :: UI32
  collectDataTueFrequent :: SI32
  collectDataWedStartTime :: UI32
  collectDataWedEndTime :: UI32
  collectDataWedFrequent :: SI32
  collectDataThuStartTime :: UI32
  collectDataThuEndTime :: UI32
  collectDataThuFrequent :: SI32
  collectDataFriStartTime :: UI32
  collectDataFriEndTime :: UI32
  collectDataFriFrequent :: SI32
  collectDataSatStartTime :: UI32
  collectDataSatEndTime :: UI32
  collectDataSatFrequent :: SI32
  collectDataSunStartTime :: UI32
  collectDataSunEndTime :: UI32
  collectDataSunFrequent :: SI32
  collectDataStatus :: SI32

text \<open>One reading of the clock: \<^verbatim>\<open>gettimeofday\<close>, and \<^verbatim>\<open>localtime\<close> of it.\<close>

record reading =
  tv_sec :: int
  ltime :: tm

text \<open>The globals of the collector. Alarm handles are the numbers net-snmp returns.\<close>

record rtc =
  rheap :: "RTC_List heap"
  gpstHeadList :: addr
  giContextChanged :: bool
  guiRTCReg1 :: UI32
  guiRTCReg2 :: UI32
  guiRTCReg3 :: UI32

datatype rtc_handler = H_callback | H_Collect_Store addr

datatype rtc_act =
    AlarmRegister SI32 rtc_handler
  | AlarmUnregister UI32
  | RetrieveLog UI32

section \<open>Rows and time\<close>

text \<open>\<^verbatim>\<open>RS_IS_ACTIVE\<close>: the row status 1 of RFC 2579.\<close>

definition RS_IS_ACTIVE :: "SI32 \<Rightarrow> bool" where
  "RS_IS_ACTIVE s \<longleftrightarrow> s = 1"

definition RTC_Find_Current_Day :: "reading \<Rightarrow> int" where
  "RTC_Find_Current_Day rd = tm_wday (ltime rd)"

definition RTC_Get_Current_Time :: "reading \<Rightarrow> UI32" where
  "RTC_Get_Current_Time rd =
     of_int (tm_hour (ltime rd) * 3600 + tm_min (ltime rd) * 60 + tm_sec (ltime rd))"

text \<open>The three output variables keep their values on an invalid day.\<close>

definition RTC_Get_Time_Frequency ::
  "int \<Rightarrow> collectDataTable_context \<Rightarrow> UI32 \<times> UI32 \<times> SI32 \<Rightarrow> UI32 \<times> UI32 \<times> SI32" where
  "RTC_Get_Time_Frequency iToday pstCtx old =
    (if iToday = 0 then (CONVERT_TO_SEC (collectDataSunStartTime pstCtx),
                         CONVERT_TO_SEC (collectDataSunEndTime pstCtx), collectDataSunFrequent pstCtx)
     else if iToday = 1 then (CONVERT_TO_SEC (collectDataMonStartTime pstCtx),
                         CONVERT_TO_SEC (collectDataMonEndTime pstCtx), collectDataMonFrequent pstCtx)
     else if iToday = 2 then (CONVERT_TO_SEC (collectDataTueStartTime pstCtx),
                         CONVERT_TO_SEC (collectDataTueEndTime pstCtx), collectDataTueFrequent pstCtx)
     else if iToday = 3 then (CONVERT_TO_SEC (collectDataWedStartTime pstCtx),
                         CONVERT_TO_SEC (collectDataWedEndTime pstCtx), collectDataWedFrequent pstCtx)
     else if iToday = 4 then (CONVERT_TO_SEC (collectDataThuStartTime pstCtx),
                         CONVERT_TO_SEC (collectDataThuEndTime pstCtx), collectDataThuFrequent pstCtx)
     else if iToday = 5 then (CONVERT_TO_SEC (collectDataFriStartTime pstCtx),
                         CONVERT_TO_SEC (collectDataFriEndTime pstCtx), collectDataFriFrequent pstCtx)
     else if iToday = 6 then (CONVERT_TO_SEC (collectDataSatStartTime pstCtx),
                         CONVERT_TO_SEC (collectDataSatEndTime pstCtx), collectDataSatFrequent pstCtx)
     else old)"

text \<open>
  The first byte of the year is a signed char, the others are masked. The function always
  returns 0; the value is what \<^verbatim>\<open>mktime\<close> gives.
\<close>

definition RTC_Convert_Date_To_Long :: "(tm \<Rightarrow> int) \<Rightarrow> (nat \<Rightarrow> 8 word) \<Rightarrow> int \<times> int" where
  "RTC_Convert_Date_To_Long mktime pcDate =
    (let iYear = push_bit 8 (sint (pcDate 0)) OR uint (pcDate 1) in
     (0, mktime \<lparr>tm_sec = uint (pcDate 6), tm_min = uint (pcDate 5), tm_hour = uint (pcDate 4),
                 tm_mday = uint (pcDate 3), tm_mon = uint (pcDate 2) - 1, tm_year = iYear - 1900,
                 tm_wday = 0\<rparr>))"

definition RTC_Within_Period :: "(tm \<Rightarrow> int) \<Rightarrow> reading \<Rightarrow> collectDataTable_context \<Rightarrow> int" where
  "RTC_Within_Period mktime rd pstCtx =
    (let (iErr, ulSDate) = RTC_Convert_Date_To_Long mktime (collectDataStartDate pstCtx) in
     if iErr \<noteq> 0 then 1
     else let (iErr, ulEDate) = RTC_Convert_Date_To_Long mktime (collectDataEndDate pstCtx) in
       if iErr \<noteq> 0 then 1
       else if ulEDate < ulSDate then 1
       else if tv_sec rd \<ge> ulSDate \<and> tv_sec rd \<le> ulEDate then 0 else 1)"

text \<open>The delay to the next scheduled second; the same four lines in two functions.\<close>

definition init_delay :: "UI32 \<Rightarrow> UI32 \<Rightarrow> SI32 \<Rightarrow> SI32" where
  "init_delay ulCTime ulSTime iFreq =
    (let iInitDelay = iFreq - (ulCTime - ulSTime) mod iFreq in
     if iInitDelay = iFreq then 1 else iInitDelay)"

section \<open>The length of the interval\<close>

text \<open>Signed division of C.\<close>

definition idiv :: "SI32 \<Rightarrow> SI32 \<Rightarrow> SI32" where
  "idiv a b = of_int (sint a sdiv sint b)"

datatype calc_next = NextRow SI32 | RestartWith SI32

text \<open>
  The body of the loop for one row: how many clock readings were used, the output variables
  of \<^verbatim>\<open>RTC_Get_Time_Frequency\<close>, and either the node count so far or the halved interval with
  which the loop starts over.
\<close>

definition calc_row ::
  "(tm \<Rightarrow> int) \<Rightarrow> (nat \<Rightarrow> reading) \<Rightarrow> int \<Rightarrow> nat \<Rightarrow> collectDataTable_context \<Rightarrow> SI32 \<Rightarrow> SI32
     \<Rightarrow> UI32 \<times> UI32 \<times> SI32 \<Rightarrow> nat \<times> (UI32 \<times> UI32 \<times> SI32) \<times> calc_next" where
  "calc_row mktime clk iToday k pstCtx iCnt iInterval old =
    (if \<not> RS_IS_ACTIVE (collectDataStatus pstCtx) then (k, old, NextRow iCnt)
     else if RTC_Within_Period mktime (clk k) pstCtx \<noteq> 0 then (Suc k, old, NextRow iCnt)
     else let sef = RTC_Get_Time_Frequency iToday pstCtx old; (pulSTime, pulETime, iFreq) = sef in
       if iFreq = 0 then (Suc k, sef, NextRow iCnt)
       else let ulCTime = RTC_Get_Current_Time (clk (Suc k)); k' = Suc (Suc k);
                iInitDelay = init_delay ulCTime pulSTime iFreq in
         if ulCTime > pulSTime \<and> ulCTime < pulETime
         then let ulASTime = iInitDelay + ulCTime in
           if ulASTime > pulETime then (k', sef, NextRow iCnt)
           else let iCnt = iCnt + 1;
                    iCnt = (if pulETime > iInterval + ulASTime
                            then iCnt + idiv iInterval iFreq
                            else iCnt + (pulETime - ulASTime) div iFreq) in
             if sint iCnt > RTC_MAX_LIST_NODES \<and> iInterval \<noteq> 1
             then (k', sef, RestartWith (idiv iInterval 2))
             else (k', sef, NextRow iCnt)
         else (k', sef, NextRow iCnt))"

partial_function (option) calc_loop ::
  "(tm \<Rightarrow> int) \<Rightarrow> (nat \<Rightarrow> reading) \<Rightarrow> int \<Rightarrow> collectDataTable_context list \<Rightarrow> nat
     \<Rightarrow> collectDataTable_context list \<Rightarrow> SI32 \<Rightarrow> SI32 \<Rightarrow> UI32 \<times> UI32 \<times> SI32 \<Rightarrow> (nat \<times> SI32) option" where
  "calc_loop mktime clk iToday container k rows iCnt iInterval old =
    (case rows of
       [] \<Rightarrow> Some (k, iInterval)
     | pstCtx # rest \<Rightarrow>
         (case calc_row mktime clk iToday k pstCtx iCnt iInterval old of
            (k', sef, nx) \<Rightarrow>
              (case nx of
                 NextRow iCnt' \<Rightarrow> calc_loop mktime clk iToday container k' rest iCnt' iInterval sef
               | RestartWith i \<Rightarrow> calc_loop mktime clk iToday container k' container 0 i sef)))"

declare calc_loop.simps [code]

definition RTC_Calc_Num_Nodes_Interval ::
  "(tm \<Rightarrow> int) \<Rightarrow> (nat \<Rightarrow> reading) \<Rightarrow> collectDataTable_context list \<Rightarrow> nat \<Rightarrow> (nat \<times> SI32) option" where
  "RTC_Calc_Num_Nodes_Interval mktime clk container k =
     calc_loop mktime clk (RTC_Find_Current_Day (clk k)) container (Suc k) container 0 INIT_INTERVAL (0, 0, 0)"

section \<open>The list of the interval\<close>

definition set_dat :: "'a heap \<Rightarrow> addr \<Rightarrow> 'a \<Rightarrow> 'a heap res" where
  "set_dat h a d = rbind (deref h a) (\<lambda>nd. Inr (h(a \<mapsto> Node d (nxt nd))))"

definition zero_node :: "RTC_List" where
  "zero_node = \<lparr>interval = 0, index = 0\<rparr>"

definition end_node :: "RTC_List" where
  "end_node = \<lparr>interval = 2147483647, index = 65537\<rparr>"

text \<open>\<^verbatim>\<open>p->next = calloc(...); p = p->next\<close>, without a test for NULL.\<close>

definition alloc_next :: "RTC_List allocator \<Rightarrow> RTC_List heap \<Rightarrow> addr \<Rightarrow> (RTC_List heap \<times> addr) res" where
  "alloc_next calloc h p =
    (let q = calloc h;
         h' = (if q = NULL then h else h(q \<mapsto> Node zero_node NULL)) in
     rbind (set_next h' p q) (\<lambda>h''. Inr (h'', q)))"

text \<open>The for loop of \<^verbatim>\<open>RTC_Add_Intervals_To_List\<close>, \<open>n\<close> turns.\<close>

fun add_delays ::
  "RTC_List allocator \<Rightarrow> UI32 \<Rightarrow> SI32 \<Rightarrow> nat \<Rightarrow> RTC_List heap \<Rightarrow> addr \<Rightarrow> SI32 \<Rightarrow> SI32
     \<Rightarrow> (RTC_List heap \<times> addr \<times> SI32) res" where
  "add_delays calloc idx iFreq 0 h pstList len iDelay = Inr (h, pstList, len)"
| "add_delays calloc idx iFreq (Suc n) h pstList len iDelay =
     rbind (alloc_next calloc h pstList) (\<lambda>(h1, q).
     rbind (set_dat h1 q \<lparr>interval = iDelay, index = idx\<rparr>) (\<lambda>h2.
       add_delays calloc idx iFreq n h2 q (len + 1) (iDelay + iFreq)))"

text \<open>How many further nodes a row gets.\<close>

definition more_nodes :: "UI32 \<Rightarrow> UI32 \<Rightarrow> SI32 \<Rightarrow> SI32 \<Rightarrow> UI32 \<Rightarrow> SI32" where
  "more_nodes ulCTime ulETime iFreq iInterval ulASTime =
    (let iCnt = (if ulETime > iInterval + ulASTime then idiv iInterval iFreq
                 else (ulETime - ulCTime) div iFreq) in
     if sint iCnt > 0 then iCnt - 1 else iCnt)"

definition RTC_Add_Intervals_To_List ::
  "RTC_List allocator \<Rightarrow> (nat \<Rightarrow> reading) \<Rightarrow> nat \<Rightarrow> collectDataTable_context \<Rightarrow> addr \<Rightarrow> SI32 \<Rightarrow> SI32
     \<Rightarrow> RTC_List heap \<Rightarrow> (nat \<times> RTC_List heap \<times> SI32) res" where
  "RTC_Add_Intervals_To_List calloc clk k pstCtx pstList iInterval len h =
    (let (ulSTime, ulETime, iFreq) =
           RTC_Get_Time_Frequency (RTC_Find_Current_Day (clk k)) pstCtx (0, 0, 0) in
     if iFreq = 0 then Inr (Suc k, h, len)
     else let ulCTime = RTC_Get_Current_Time (clk (Suc k));
              iInitDelay = init_delay ulCTime ulSTime iFreq;
              ulASTime = iInitDelay + ulCTime;
              iCnt = more_nodes ulCTime ulETime iFreq iInterval ulASTime in
       rbind (set_dat h pstList \<lparr>interval = iInitDelay, index = collectDataIndex pstCtx\<rparr>) (\<lambda>h1.
       rbind (add_delays calloc (collectDataIndex pstCtx) iFreq (nat (sint iCnt)) h1 pstList
                (len + 1) (iFreq + iInitDelay)) (\<lambda>(h2, p, len').
       rbind (alloc_next calloc h2 p) (\<lambda>(h3, q).
       rbind (set_dat h3 q end_node) (\<lambda>h4. Inr (Suc (Suc k), h4, len'))))))"

partial_function (option) to_end :: "RTC_List heap \<Rightarrow> addr \<Rightarrow> addr run" where
  "to_end h p = (case deref h p of
       Inl e \<Rightarrow> Some (Inl e)
     | Inr nd \<Rightarrow> if nxt nd \<noteq> NULL then to_end h (nxt nd) else Some (Inr p))"

fun form_loop ::
  "RTC_List allocator \<Rightarrow> (tm \<Rightarrow> int) \<Rightarrow> (nat \<Rightarrow> reading) \<Rightarrow> int \<Rightarrow> SI32 \<Rightarrow> collectDataTable_context list
     \<Rightarrow> nat \<Rightarrow> UI32 \<times> UI32 \<times> SI32 \<Rightarrow> addr \<Rightarrow> SI32 \<Rightarrow> RTC_List heap \<Rightarrow> (RTC_List heap \<times> SI32) run" where
  "form_loop calloc mktime clk iToday iInterval [] k old pstList len h = Some (Inr (h, len))"
| "form_loop calloc mktime clk iToday iInterval (pstCtx # rest) k old pstList len h =
     (if \<not> RS_IS_ACTIVE (collectDataStatus pstCtx)
      then form_loop calloc mktime clk iToday iInterval rest k old pstList len h
      else if RTC_Within_Period mktime (clk k) pstCtx \<noteq> 0
      then form_loop calloc mktime clk iToday iInterval rest (Suc k) old pstList len h
      else let sef = RTC_Get_Time_Frequency iToday pstCtx old; (pulSTime, pulETime, _) = sef;
               ulCTime = RTC_Get_Current_Time (clk (Suc k)) in
        if ulCTime > pulSTime \<and> ulCTime < pulETime
        then obind (lift_res (RTC_Add_Intervals_To_List calloc clk (Suc (Suc k)) pstCtx pstList iInterval len h))
               (\<lambda>(k', h', len').
             obind (to_end h' pstList) (\<lambda>p.
               form_loop calloc mktime clk iToday iInterval rest k' sef p len' h'))
        else form_loop calloc mktime clk iToday iInterval rest (Suc (Suc k)) sef pstList len h)"

definition Form_Linked_List ::
  "RTC_List allocator \<Rightarrow> (tm \<Rightarrow> int) \<Rightarrow> (nat \<Rightarrow> reading) \<Rightarrow> collectDataTable_context list
     \<Rightarrow> addr \<Rightarrow> RTC_List heap \<Rightarrow> (RTC_List heap \<times> SI32) run" where
  "Form_Linked_List calloc mktime clk container pstList h =
     (case RTC_Calc_Num_Nodes_Interval mktime clk container 1 of
        None \<Rightarrow> None
      | Some (k, iInterval) \<Rightarrow>
          form_loop calloc mktime clk (RTC_Find_Current_Day (clk 0)) iInterval container k (0, 0, 0)
            pstList 0 h)"

definition Sort_Linked_List :: "RTC_List heap \<Rightarrow> addr \<Rightarrow> RTC_List heap run" where
  "Sort_Linked_List h pstStart =
     obind (sort_outer (\<lambda>n. sint (interval n)) h pstStart NULL) (\<lambda>(h', _). Some (Inr h'))"

section \<open>The callbacks\<close>

partial_function (option) free_list :: "RTC_List heap \<Rightarrow> addr \<Rightarrow> RTC_List heap run" where
  "free_list h p = (case deref h p of
       Inl e \<Rightarrow> Some (Inl e)
     | Inr nd \<Rightarrow> (case free_node h p of
           Inl e \<Rightarrow> Some (Inl e)
         | Inr h' \<Rightarrow> if nxt nd \<noteq> NULL then free_list h' (nxt nd) else Some (Inr h')))"

text \<open>
  \<open>env\<close> is what one run of the callback reads: the clock, the rows, and the handle a
  registration returns.
\<close>

record rtc_env =
  rClk :: "nat \<Rightarrow> reading"
  rMktime :: "tm \<Rightarrow> int"
  rRows :: "collectDataTable_context list"
  rCalloc :: "RTC_List allocator"
  rHandle :: UI32

text \<open>The first part of the callback: the alarms that are still pending.\<close>

definition unregister_all :: "rtc \<Rightarrow> rtc_act list" where
  "unregister_all st = (if guiRTCReg1 st \<noteq> 0 then [AlarmUnregister (guiRTCReg1 st)] else [])
     @ (if guiRTCReg2 st \<noteq> 0 then [AlarmUnregister (guiRTCReg2 st)] else [])
     @ (if guiRTCReg3 st \<noteq> 0 then [AlarmUnregister (guiRTCReg3 st)] else [])"

definition RTC_callback :: "rtc_env \<Rightarrow> rtc \<Rightarrow> (rtc_act list \<times> rtc) run" where
  "RTC_callback env st =
    (let acts = unregister_all st;
         st1 = st\<lparr>guiRTCReg1 := 0, guiRTCReg2 := 0, guiRTCReg3 := 0\<rparr> in
     obind (if gpstHeadList st1 \<noteq> NULL then free_list (rheap st1) (gpstHeadList st1)
            else Some (Inr (rheap st1))) (\<lambda>h0.
     let stHead = rCalloc env h0;
         h1 = (if stHead = NULL then h0 else h0(stHead \<mapsto> Node zero_node NULL)) in
     obind (Form_Linked_List (rCalloc env) (rMktime env) (rClk env) (rRows env) stHead h1) (\<lambda>(h2, iLength).
       if iLength = 0
       then lift_res (rbind (free_node h2 stHead) (\<lambda>h3.
              Inr (acts @ [AlarmRegister RTC_IDLE_TIME H_callback],
                   st1\<lparr>rheap := h3, gpstHeadList := NULL, guiRTCReg1 := rHandle env\<rparr>)))
       else let stNewHead = rCalloc env h2 in
         if stNewHead = NULL then Some (Inl (BadPtr NULL))
         else obind (Sort_Linked_List (h2(stNewHead \<mapsto> Node zero_node stHead)) stNewHead) (\<lambda>h4.
           lift_res (rbind (deref h4 stNewHead) (\<lambda>nd.
             rbind (free_node h4 stNewHead) (\<lambda>h5.
             rbind (deref h5 (nxt nd)) (\<lambda>first.
               Inr (acts @ [AlarmRegister (interval (dat first)) (H_Collect_Store (nxt nd))],
                    st1\<lparr>rheap := h5, gpstHeadList := nxt nd, guiRTCReg2 := rHandle env\<rparr>)))))))))"

text \<open>The loop of \<^verbatim>\<open>RTC_Collect_Store_Variables\<close>: the nodes due now.\<close>

partial_function (option) collect_due ::
  "RTC_List heap \<Rightarrow> addr \<Rightarrow> addr \<Rightarrow> rtc_act list \<Rightarrow> (RTC_List heap \<times> addr \<times> addr \<times> rtc_act list) run" where
  "collect_due h hdl pstList acts = (case deref h pstList of
       Inl e \<Rightarrow> Some (Inl e)
     | Inr nd \<Rightarrow>
         if nxt nd = NULL then Some (Inr (h, hdl, pstList, acts))
         else (case deref h (nxt nd) of
             Inl e \<Rightarrow> Some (Inl e)
           | Inr nd' \<Rightarrow>
               if interval (dat nd) = interval (dat nd')
               then (case free_node h pstList of
                       Inl e \<Rightarrow> Some (Inl e)
                     | Inr h' \<Rightarrow> collect_due h' (nxt nd) (nxt nd) (acts @ [RetrieveLog (index (dat nd))]))
               else Some (Inr (h, hdl, pstList, acts @ [RetrieveLog (index (dat nd))]))))"

definition RTC_Collect_Store_Variables ::
  "rtc_env \<Rightarrow> UI32 \<Rightarrow> addr \<Rightarrow> rtc \<Rightarrow> (rtc_act list \<times> rtc) run" where
  "RTC_Collect_Store_Variables env uiReg pClientArg st0 =
    (let st = (if uiReg = guiRTCReg2 st0 then st0\<lparr>guiRTCReg2 := 0\<rparr>
               else if uiReg = guiRTCReg3 st0 then st0\<lparr>guiRTCReg3 := 0\<rparr> else st0) in
     obind (collect_due (rheap st) (gpstHeadList st) pClientArg []) (\<lambda>(h, hdl, pstList, acts).
     obind (lift_res (rbind (deref h pstList) (\<lambda>nd.
              if nxt nd = NULL then Inr (nd, None)
              else rbind (deref h (nxt nd)) (\<lambda>nd'. Inr (nd, Some nd'))))) (\<lambda>(nd, next).
       case next of
         Some nd' \<Rightarrow>
           if nxt nd' \<noteq> NULL
           then obind (lift_res (free_node h pstList)) (\<lambda>h'.
             let seconds = interval (dat nd') - interval (dat nd);
                 st1 = st\<lparr>rheap := h', gpstHeadList := nxt nd\<rparr> in
             if \<not> giContextChanged st1
             then Some (Inr (acts @ [AlarmRegister seconds (H_Collect_Store (nxt nd))],
                             st1\<lparr>guiRTCReg3 := rHandle env\<rparr>))
             else obind (RTC_callback env (st1\<lparr>giContextChanged := False\<rparr>)) (\<lambda>(acts', st').
                    Some (Inr (acts @ acts', st'))))
           else obind (lift_res (rbind (free_node h pstList) (\<lambda>h1. free_node h1 (nxt nd)))) (\<lambda>h2.
                obind (RTC_callback env (st\<lparr>rheap := h2, gpstHeadList := NULL\<rparr>)) (\<lambda>(acts', st').
                  Some (Inr (acts @ acts', st'))))
       | None \<Rightarrow>
           obind (lift_res (free_node h pstList)) (\<lambda>h1.
           obind (RTC_callback env (st\<lparr>rheap := h1, gpstHeadList := NULL\<rparr>)) (\<lambda>(acts', st').
             Some (Inr (acts @ acts', st')))))))"

section \<open>The interval is found\<close>

lemma sint_of_int_range: "- (2 ^ 31) \<le> i \<Longrightarrow> i < 2 ^ 31 \<Longrightarrow> sint (of_int i :: SI32) = i"
  by (simp add: signed_of_int signed_take_bit_int_eq_self)

lemma half_interval:
  assumes "1 \<le> sint i" "i \<noteq> 1"
  shows "1 \<le> sint (idiv i 2)" and "sint (idiv i 2) < sint i"
proof -
  have "i = 1" if "sint i = 1"
  proof (rule signed_word_eqI)
    show "sint i = sint (1 :: SI32)" unfolding that by simp
  qed
  then have i: "2 \<le> sint i" using assms by linarith
  have "sint i < 2 ^ 31" using sint_lt [of i] by simp
  then have "sint (of_int (sint i div 2) :: SI32) = sint i div 2"
    using i by (intro sint_of_int_range) linarith+
  moreover have "sint i sdiv sint (2 :: SI32) = sint i div 2"
    using i by (simp add: signed_divide_int_def)
  ultimately have "sint (idiv i 2) = sint i div 2" by (simp add: idiv_def)
  then show "1 \<le> sint (idiv i 2)" "sint (idiv i 2) < sint i" using i by linarith+
qed

lemma calc_row_restart:
  "calc_row mktime clk d k r c i old = (k', sef, RestartWith j) \<Longrightarrow> i \<noteq> 1 \<and> j = idiv i 2"
  apply (cases "RTC_Get_Time_Frequency d r old" rule: prod_cases3)
  apply (simp only: calc_row_def Let_def prod.case)
  apply (simp only: split: if_split_asm)
  apply (simp_all only: prod.inject calc_next.distinct calc_next.inject simp_thms)
  done

lemma calc_loop_total:
  "1 \<le> sint i \<Longrightarrow> \<exists>k' i'. calc_loop mktime clk d container k rows c i old = Some (k', i')
     \<and> 1 \<le> sint i' \<and> sint i' \<le> sint i"
proof (induction "nat (sint i)" arbitrary: k rows c i old rule: less_induct)
  case less
  note prems = less.prems and hyps = less.hyps
  show ?case
  proof (induction rows arbitrary: k c old)
    case Nil
    then show ?case using prems by (simp add: calc_loop.simps)
  next
    case (Cons r rows)
    obtain k' sef nx where r: "calc_row mktime clk d k r c i old = (k', sef, nx)"
      by (cases "calc_row mktime clk d k r c i old") auto
    show ?case
    proof (cases nx)
      case (NextRow c')
      then show ?thesis using Cons.IH r by (simp add: calc_loop.simps [of mktime clk d container k "r # rows"])
    next
      case (RestartWith j)
      then have j: "1 \<le> sint j" "sint j < sint i"
        using calc_row_restart [of mktime clk d k r c i old k' sef j] r half_interval prems by auto
      then have "nat (sint j) < nat (sint i)" by simp
      from hyps [OF this j(1), of k' container 0 sef] obtain k2 i2 where
        "calc_loop mktime clk d container k' container 0 j sef = Some (k2, i2)" "1 \<le> sint i2" "sint i2 \<le> sint j"
        by blast
      then show ?thesis using r RestartWith j(2)
        by (simp add: calc_loop.simps [of mktime clk d container k "r # rows"])
    qed
  qed
qed

lemma RTC_Calc_total:
  "\<exists>k' i. RTC_Calc_Num_Nodes_Interval mktime clk container k = Some (k', i) \<and> 1 \<le> sint i \<and> sint i \<le> 3600"
  using calc_loop_total [of INIT_INTERVAL] by (fastforce simp: RTC_Calc_Num_Nodes_Interval_def)

section \<open>Building the list\<close>

text \<open>The heap holds exactly the list \<open>ns\<close> from \<open>p\<close>.\<close>

definition rlist :: "RTC_List heap \<Rightarrow> addr \<Rightarrow> (addr \<times> RTC_List) list \<Rightarrow> bool" where
  "rlist h p ns \<longleftrightarrow> lseg h p ns NULL \<and> dom h = set (addrs ns)"

lemma set_dat_ok:
  assumes "rlist h p0 (ns @ [(p, d)])"
  shows "\<exists>h'. set_dat h p d' = Inr h' \<and> rlist h' p0 (ns @ [(p, d')])"
proof -
  have dist: "p \<notin> set (addrs ns)" using assms lseg_distinct unfolding rlist_def by fastforce
  from assms have p: "h p = Some (Node d NULL)" "p \<noteq> NULL" "lseg h p0 ns p"
    by (auto simp: rlist_def lseg_append lseg_Cons)
  have "lseg (h(p \<mapsto> Node d' NULL)) p0 (ns @ [(p, d')]) NULL"
    using p dist by (auto simp: lseg_append lseg_Cons)
  moreover have "dom (h(p \<mapsto> Node d' NULL)) = set (addrs (ns @ [(p, d')]))"
    using assms by (auto simp: rlist_def)
  ultimately show ?thesis using p by (simp add: set_dat_def rlist_def)
qed

lemma alloc_next_ok:
  assumes ok: "rlist h p0 (ns @ [(p, d)])" and m: "alloc_ok calloc" "mem_suffices calloc"
  shows "\<exists>h' q. alloc_next calloc h p = Inr (h', q) \<and> rlist h' p0 (ns @ [(p, d), (q, zero_node)])"
proof -
  let ?q = "calloc h" and ?ns = "ns @ [(p, d)]"
  have seg: "lseg h p0 ?ns NULL" and live: "dom h = set (addrs ?ns)" using ok by (auto simp: rlist_def)
  have q: "?q \<noteq> NULL" using m(2) live by (simp add: mem_suffices_def)
  have new: "?q \<notin> set (addrs ?ns)" using alloc_okD [OF m(1) q] live by (metis domIff)
  have "p0 \<noteq> NULL" using seg lseg_empty_iff by blast
  from lseg_append_node [OF seg this q new, of zero_node] obtain h' where
    "set_next (h(?q \<mapsto> Node zero_node NULL)) p ?q = Inr h'" "lseg h' p0 (?ns @ [(?q, zero_node)]) NULL"
    "dom h' = insert ?q (dom h)" by auto
  then show ?thesis using q live by (auto simp: alloc_next_def Let_def rlist_def)
qed

lemma add_delays_ok:
  assumes m: "alloc_ok calloc" "mem_suffices calloc"
  shows "rlist h p0 (ns @ [(p, d)]) \<Longrightarrow> \<exists>h' ms q d'. add_delays calloc idx f n h p len dl = Inr (h', q, len + of_nat n)
     \<and> rlist h' p0 (ns @ ms @ [(q, d')])
     \<and> map snd (ms @ [(q, d')]) = d # map (\<lambda>j. \<lparr>interval = dl + of_nat j * f, index = idx\<rparr>) [0..<n]
     \<and> first_addr ms q = p"
proof (induction n arbitrary: h ns p d len dl)
  case 0
  then show ?case by (intro exI [of _ h] exI [of _ "[]"] exI [of _ p] exI [of _ d]) simp
next
  case (Suc n)
  from alloc_next_ok [OF Suc.prems m] obtain h1 q1 where a: "alloc_next calloc h p = Inr (h1, q1)"
    "rlist h1 p0 ((ns @ [(p, d)]) @ [(q1, zero_node)])" by auto
  let ?d = "\<lparr>interval = dl, index = idx\<rparr>"
  from set_dat_ok [OF a(2), of ?d] obtain h2 where b: "set_dat h1 q1 ?d = Inr h2"
    "rlist h2 p0 ((ns @ [(p, d)]) @ [(q1, ?d)])" by auto
  from Suc.IH [OF b(2), of "len + 1" "dl + f"] obtain h' ms q d' where ih:
    "add_delays calloc idx f n h2 q1 (len + 1) (dl + f) = Inr (h', q, len + 1 + of_nat n)"
    "rlist h' p0 ((ns @ [(p, d)]) @ ms @ [(q, d')])"
    "map snd (ms @ [(q, d')]) = ?d # map (\<lambda>j. \<lparr>interval = dl + f + of_nat j * f, index = idx\<rparr>) [0..<n]" by (elim exE conjE) (rule that)
  have "map (\<lambda>j. \<lparr>interval = dl + of_nat j * f, index = idx\<rparr>) [0..<Suc n]
      = ?d # map (\<lambda>j. \<lparr>interval = dl + f + of_nat j * f, index = idx\<rparr>) [0..<n]"
    by (simp add: upt_conv_Cons map_Suc_upt [symmetric] o_def algebra_simps del: upt_Suc map_Suc_upt)
  then show ?case using a(1) b(1) ih
    by (intro exI [of _ h'] exI [of _ "(p, d) # ms"] exI [of _ q] exI [of _ d']) (simp add: algebra_simps)
qed

text \<open>The nodes of one row, from one reading of the clock on: the first delay, then one per period.\<close>

definition row_nodes :: "(nat \<Rightarrow> reading) \<Rightarrow> nat \<Rightarrow> collectDataTable_context \<Rightarrow> SI32 \<Rightarrow> RTC_List list" where
  "row_nodes clk k pstCtx iInterval =
    (let (ulSTime, ulETime, iFreq) =
           RTC_Get_Time_Frequency (RTC_Find_Current_Day (clk k)) pstCtx (0, 0, 0);
         ulCTime = RTC_Get_Current_Time (clk (Suc k));
         d = init_delay ulCTime ulSTime iFreq in
     if iFreq = 0 then []
     else map (\<lambda>j. \<lparr>interval = d + of_nat j * iFreq, index = collectDataIndex pstCtx\<rparr>)
            [0..<Suc (nat (sint (more_nodes ulCTime ulETime iFreq iInterval (d + ulCTime))))])"

definition row_reads :: "(nat \<Rightarrow> reading) \<Rightarrow> nat \<Rightarrow> collectDataTable_context \<Rightarrow> nat" where
  "row_reads clk k pstCtx =
    (if snd (snd (RTC_Get_Time_Frequency (RTC_Find_Current_Day (clk k)) pstCtx (0, 0, 0))) = 0
     then Suc k else Suc (Suc k))"

lemma RTC_Add_ok:
  assumes ok: "rlist h p0 (ns @ [(p, d)])" and m: "alloc_ok calloc" "mem_suffices calloc"
    and xs: "xs = row_nodes clk k row iv"
  shows "\<exists>h' ms q d'. RTC_Add_Intervals_To_List calloc clk k row p iv len h =
       Inr (row_reads clk k row, h', len + of_nat (length xs))
     \<and> rlist h' p0 (ns @ ms @ [(q, d')]) \<and> map snd ms = xs
     \<and> d' = (if xs = [] then d else end_node) \<and> first_addr ms q = p"
proof -
  obtain s e f where sef: "RTC_Get_Time_Frequency (RTC_Find_Current_Day (clk k)) row (0, 0, 0) = (s, e, f)"
    using prod_cases3 by blast
  show ?thesis
  proof (cases "f = 0")
    case True
    then have "xs = []" using sef by (simp add: xs row_nodes_def)
    then show ?thesis using True sef ok
      by (intro exI [of _ h] exI [of _ "[]"] exI [of _ p] exI [of _ d])
        (simp add: RTC_Add_Intervals_To_List_def row_reads_def)
  next
    case False
    let ?c = "RTC_Get_Current_Time (clk (Suc k))"
    let ?i = "init_delay ?c s f"
    let ?n = "nat (sint (more_nodes ?c e f iv (?i + ?c)))"
    let ?d = "\<lambda>j. \<lparr>interval = ?i + of_nat j * f, index = collectDataIndex row\<rparr>"
    have xsd: "xs = map ?d [0..<Suc ?n]" using sef False by (simp add: xs row_nodes_def Let_def del: upt_Suc)
    from set_dat_ok [OF ok, of "?d 0"] obtain h1 where h1: "set_dat h p (?d 0) = Inr h1"
      "rlist h1 p0 (ns @ [(p, ?d 0)])" by auto
    from add_delays_ok [OF m h1(2), of "collectDataIndex row" f ?n "len + 1" "f + ?i"]
    obtain h2 ms q d2 where h2: "add_delays calloc (collectDataIndex row) f ?n h1 p (len + 1) (f + ?i)
        = Inr (h2, q, len + 1 + of_nat ?n)" "rlist h2 p0 ((ns @ ms) @ [(q, d2)])"
      "map snd (ms @ [(q, d2)]) = ?d 0 # map (\<lambda>j. \<lparr>interval = f + ?i + of_nat j * f, index = collectDataIndex row\<rparr>) [0..<?n]"
      "first_addr ms q = p" by auto
    have nodes: "map snd (ms @ [(q, d2)]) = xs"
      unfolding h2(3) xsd by (simp add: upt_conv_Cons map_Suc_upt [symmetric] o_def algebra_simps del: upt_Suc map_Suc_upt)
    from alloc_next_ok [OF h2(2) m] obtain h3 z where h3: "alloc_next calloc h2 q = Inr (h3, z)"
      "rlist h3 p0 ((ns @ ms @ [(q, d2)]) @ [(z, zero_node)])" by auto
    from set_dat_ok [OF h3(2), of end_node] obtain h4 where h4: "set_dat h3 z end_node = Inr h4"
      "rlist h4 p0 (ns @ (ms @ [(q, d2)]) @ [(z, end_node)])" by auto
    have "RTC_Add_Intervals_To_List calloc clk k row p iv len h =
       Inr (row_reads clk k row, h4, len + of_nat (length xs))"
      using sef False h1(1) h2(1) h3(1) h4(1) xsd
      by (simp add: RTC_Add_Intervals_To_List_def Let_def row_reads_def)
    moreover have "xs \<noteq> []" using xsd by simp
    moreover have "first_addr (ms @ [(q, d2)]) z = p" using h2(4) by (cases ms) auto
    ultimately show ?thesis using h4(2) nodes by metis
  qed
qed

lemma to_end_ok: "lseg h p (ns @ [(q, d)]) NULL \<Longrightarrow> to_end h p = Some (Inr q)"
proof (induction ns arbitrary: p)
  case Nil
  then show ?case by (auto simp: lseg_Cons to_end.simps)
next
  case (Cons x ns)
  then obtain n where x: "p = fst x" "p \<noteq> NULL" "h p = Some (Node (snd x) n)" "lseg h n (ns @ [(q, d)]) NULL"
    by (auto simp: lseg_Cons)
  have "n \<noteq> NULL" using x(4) lseg_empty_iff by blast
  then show ?case using x Cons.IH [OF x(4)] by (simp add: to_end.simps [of h "fst x"])
qed

text \<open>The nodes of all rows, with the conditions of the loop.\<close>

fun form_nodes ::
  "(tm \<Rightarrow> int) \<Rightarrow> (nat \<Rightarrow> reading) \<Rightarrow> int \<Rightarrow> SI32 \<Rightarrow> collectDataTable_context list
     \<Rightarrow> nat \<Rightarrow> UI32 \<times> UI32 \<times> SI32 \<Rightarrow> RTC_List list" where
  "form_nodes mktime clk iToday iInterval [] k old = []"
| "form_nodes mktime clk iToday iInterval (pstCtx # rest) k old =
     (if \<not> RS_IS_ACTIVE (collectDataStatus pstCtx)
      then form_nodes mktime clk iToday iInterval rest k old
      else if RTC_Within_Period mktime (clk k) pstCtx \<noteq> 0
      then form_nodes mktime clk iToday iInterval rest (Suc k) old
      else let sef = RTC_Get_Time_Frequency iToday pstCtx old;
               ulCTime = RTC_Get_Current_Time (clk (Suc k)) in
        if ulCTime > fst sef \<and> ulCTime < fst (snd sef)
        then row_nodes clk (Suc (Suc k)) pstCtx iInterval
               @ form_nodes mktime clk iToday iInterval rest (row_reads clk (Suc (Suc k)) pstCtx) sef
        else form_nodes mktime clk iToday iInterval rest (Suc (Suc k)) sef)"

lemma form_loop_ok:
  assumes m: "alloc_ok calloc" "mem_suffices calloc"
  shows "rlist h p0 (ns @ [(p, d)]) \<Longrightarrow> \<exists>h' ms q d'.
     form_loop calloc mktime clk day iv rows k old p len h =
       Some (Inr (h', len + of_nat (length (form_nodes mktime clk day iv rows k old))))
     \<and> rlist h' p0 (ns @ ms @ [(q, d')]) \<and> map snd ms = form_nodes mktime clk day iv rows k old
     \<and> d' = (if ms = [] then d else end_node)"
proof (induction rows arbitrary: k old p len h ns d)
  case Nil
  then show ?case by (intro exI [of _ h] exI [of _ "[]"] exI [of _ p] exI [of _ d]) simp
next
  case (Cons r rows)
  obtain s e f where sef: "RTC_Get_Time_Frequency day r old = (s, e, f)" using prod_cases3 by blast
  let ?c = "RTC_Get_Current_Time (clk (Suc k))"
  show ?case
  proof (cases "RS_IS_ACTIVE (collectDataStatus r) \<and> RTC_Within_Period mktime (clk k) r = 0
      \<and> s < ?c \<and> ?c < e")
    case False
    then have "\<exists>k2 old2. form_loop calloc mktime clk day iv (r # rows) k old p len h
          = form_loop calloc mktime clk day iv rows k2 old2 p len h
        \<and> form_nodes mktime clk day iv (r # rows) k old = form_nodes mktime clk day iv rows k2 old2"
    proof -
      consider "\<not> RS_IS_ACTIVE (collectDataStatus r)"
        | "RS_IS_ACTIVE (collectDataStatus r)" "RTC_Within_Period mktime (clk k) r \<noteq> 0"
        | "RS_IS_ACTIVE (collectDataStatus r)" "RTC_Within_Period mktime (clk k) r = 0" "\<not> (s < ?c \<and> ?c < e)"
        using False by blast
      then show ?thesis
      proof cases
        case 1
        then show ?thesis by (intro exI [of _ k] exI [of _ old]) simp
      next
        case 2
        then show ?thesis by (intro exI [of _ "Suc k"] exI [of _ old]) simp
      next
        case 3
        have "form_loop calloc mktime clk day iv (r # rows) k old p len h
            = form_loop calloc mktime clk day iv rows (Suc (Suc k)) (s, e, f) p len h"
          using 3 sef by (auto simp: Let_def)
        moreover have "form_nodes mktime clk day iv (r # rows) k old
            = form_nodes mktime clk day iv rows (Suc (Suc k)) (s, e, f)" using 3 sef by (auto simp: Let_def)
        ultimately show ?thesis by blast
      qed
    qed
    then obtain k2 old2 where "form_loop calloc mktime clk day iv (r # rows) k old p len h
          = form_loop calloc mktime clk day iv rows k2 old2 p len h"
        "form_nodes mktime clk day iv (r # rows) k old = form_nodes mktime clk day iv rows k2 old2" by blast
    then show ?thesis using Cons.IH [OF Cons.prems, of k2 old2 len] by (simp only:)
  next
    case True
    let ?xs = "row_nodes clk (Suc (Suc k)) r iv"
    from RTC_Add_ok [OF Cons.prems m refl, of clk "Suc (Suc k)" r iv len] obtain h1 ms1 q1 d1 where a:
      "RTC_Add_Intervals_To_List calloc clk (Suc (Suc k)) r p iv len h =
         Inr (row_reads clk (Suc (Suc k)) r, h1, len + of_nat (length ?xs))"
      "rlist h1 p0 ((ns @ ms1) @ [(q1, d1)])" "map snd ms1 = ?xs" "d1 = (if ?xs = [] then d else end_node)"
      "first_addr ms1 q1 = p" by auto
    from a(2) obtain n where "lseg h1 n (ms1 @ [(q1, d1)]) NULL"
      unfolding rlist_def by (auto simp: lseg_append)
    moreover from this have "n = p" using lseg_first_addr a(5) by (cases ms1) (fastforce simp: lseg_Cons)+
    ultimately have te: "to_end h1 p = Some (Inr q1)" using to_end_ok by blast
    from Cons.IH [OF a(2), of "row_reads clk (Suc (Suc k)) r" "(s, e, f)" "len + of_nat (length ?xs)"]
    obtain h' ms q d' where ih:
      "form_loop calloc mktime clk day iv rows (row_reads clk (Suc (Suc k)) r) (s, e, f) q1 (len + of_nat (length ?xs)) h1 =
         Some (Inr (h', len + of_nat (length ?xs) + of_nat (length
           (form_nodes mktime clk day iv rows (row_reads clk (Suc (Suc k)) r) (s, e, f)))))"
      "rlist h' p0 ((ns @ ms1) @ ms @ [(q, d')])"
      "map snd ms = form_nodes mktime clk day iv rows (row_reads clk (Suc (Suc k)) r) (s, e, f)"
      "d' = (if ms = [] then d1 else end_node)" by blast
    have "d' = (if ms1 @ ms = [] then d else end_node)" using ih(4) a(3,4) by auto
    then show ?thesis using True sef a(1,3) te ih(1-3)
      by (intro exI [of _ h'] exI [of _ "ms1 @ ms"] exI [of _ q] exI [of _ d'])
        (simp add: lift_res_def add.assoc)
  qed
qed

section \<open>The callback\<close>

lemma free_list_ok:
  "lseg h p ns NULL \<Longrightarrow> ns \<noteq> [] \<Longrightarrow>
   \<exists>h'. free_list h p = Some (Inr h') \<and> dom h' = dom h - set (addrs ns)"
proof (induction ns arbitrary: h p)
  case Nil
  then show ?case by simp
next
  case (Cons x ns)
  from Cons.prems(1) obtain n where x: "p = fst x" "fst x \<noteq> NULL" "h (fst x) = Some (Node (snd x) n)"
    "lseg h n ns NULL" by (auto simp: lseg_Cons)
  have "fst x \<notin> set (addrs ns)" using lseg_distinct [OF Cons.prems(1)] by simp
  then have seg: "lseg (h(fst x := None)) n ns NULL" using x(4) by simp
  show ?case
  proof (cases "ns = []")
    case True
    then have "n = NULL" using x(4) by simp
    then show ?thesis using True x by (simp add: free_list.simps [of h])
  next
    case False
    then have "n \<noteq> NULL" using seg lseg_empty_iff by blast
    moreover obtain h' where "free_list (h(fst x := None)) n = Some (Inr h')"
      "dom h' = dom (h(fst x := None)) - set (addrs ns)" using Cons.IH [OF seg False] by blast
    ultimately show ?thesis using x by (auto simp: free_list.simps [of h])
  qed
qed

abbreviation delay_key :: "RTC_List \<Rightarrow> int" where
  "delay_key n \<equiv> sint (interval n)"

lemma sort_key_snoc:
  assumes "\<And>x. x \<in> set xs \<Longrightarrow> f x \<le> f z"
  shows "sort_key f (xs @ [z]) = sort_key f xs @ [z]"
proof (rule sym, rule sorted_stable_eq)
  show "stable_eq f (sort_key f xs @ [z]) (xs @ [z])" by (rule stable_eq_append [OF sort_key_stable_eq])
  show "sorted (map f (sort_key f xs @ [z]))" using assms by (simp add: sorted_append)
qed

lemma end_node_max: "delay_key n \<le> delay_key end_node"
proof -
  have "sint (interval n) < 2 ^ 31" using sint_lt [of "interval n"] by simp
  then show ?thesis by (simp add: end_node_def)
qed

lemma sort_nodes:
  assumes "map snd ns = nodes @ [end_node]"
  shows "map snd (sort_key (on_dat delay_key) ns) = sort_key delay_key nodes @ [end_node]"
  unfolding map_snd_sort assms using end_node_max by (rule sort_key_snoc)

text \<open>Sorting behind a dummy head of interval 0, and taking it off again.\<close>

lemma sort_behind_dummy:
  assumes ok: "rlist h p ns" and pos: "\<And>n. n \<in> set ns \<Longrightarrow> 0 \<le> delay_key (snd n)"
    and a: "a \<noteq> NULL" "a \<notin> set (addrs ns)"
  shows "\<exists>h' n. Sort_Linked_List (h(a \<mapsto> Node zero_node p)) a = Some (Inr h')
     \<and> deref h' a = Inr (Node zero_node n) \<and> free_node h' a = Inr (h'(a := None))
     \<and> rlist (h'(a := None)) n (sort_key (on_dat delay_key) ns)"
proof -
  let ?h = "h(a \<mapsto> Node zero_node p)" and ?xs = "sort_key (on_dat delay_key) ns"
  have seg: "lseg ?h a ((a, zero_node) # ns) NULL" using ok a by (simp add: lseg_Cons rlist_def)
  from sort_outer_correct [OF seg, of delay_key] obtain h' start where srt:
    "sort_outer delay_key ?h a NULL = Some (Inr (h', start))"
    "lseg h' start (sort_key (on_dat delay_key) ((a, zero_node) # ns)) NULL"
    "\<forall>b. b \<notin> set (addrs ((a, zero_node) # ns)) \<longrightarrow> h' b = ?h b" by blast
  have "\<forall>x\<in>set ?xs. on_dat delay_key (a, zero_node) \<le> on_dat delay_key x"
    using pos by (auto simp: on_dat_def zero_node_def)
  then have "sort_key (on_dat delay_key) ((a, zero_node) # ns) = (a, zero_node) # ?xs"
    by (simp add: insort_is_Cons)
  with srt(2) obtain n where st: "start = a" "h' a = Some (Node zero_node n)" "lseg h' n ?xs NULL"
    by (auto simp: lseg_Cons)
  have seg2: "lseg (h'(a := None)) n ?xs NULL" using st(3) a(2) by simp
  have "dom (h'(a := None)) = set (addrs ?xs)"
  proof (intro equalityI subsetI)
    fix b assume b: "b \<in> dom (h'(a := None))"
    then have "b \<noteq> a" "h' b \<noteq> None" by (auto split: if_splits)
    then have "b \<in> set (addrs ns)"
      using srt(3) ok by (metis domIff fst_conv fun_upd_other list.simps(9) rlist_def set_ConsD)
    then show "b \<in> set (addrs ?xs)" by simp
  next
    fix b assume "b \<in> set (addrs ?xs)"
    then show "b \<in> dom (h'(a := None))" using lseg_set_dom [OF seg2] by blast
  qed
  then show ?thesis using seg2 st srt(1) a(1) by (simp add: Sort_Linked_List_def rlist_def)
qed

text \<open>The nodes one run of the callback puts in the list, in the order of the rows.\<close>

definition callback_nodes :: "rtc_env \<Rightarrow> RTC_List list" where
  "callback_nodes env =
    (case RTC_Calc_Num_Nodes_Interval (rMktime env) (rClk env) (rRows env) 1 of
       None \<Rightarrow> []
     | Some (k, iInterval) \<Rightarrow> form_nodes (rMktime env) (rClk env) (RTC_Find_Current_Day (rClk env 0))
         iInterval (rRows env) k (0, 0, 0))"

definition rtc_env_ok :: "rtc_env \<Rightarrow> bool" where
  "rtc_env_ok env \<longleftrightarrow> alloc_ok (rCalloc env) \<and> mem_suffices (rCalloc env)
     \<and> length (callback_nodes env) < 2 ^ 32 \<and> (\<forall>n\<in>set (callback_nodes env). 0 < delay_key n)"

lemma Form_Linked_List_ok:
  assumes ok: "rlist h p [(p, zero_node)]" and env: "rtc_env_ok env"
  shows "\<exists>h' ms q d'. Form_Linked_List (rCalloc env) (rMktime env) (rClk env) (rRows env) p h
       = Some (Inr (h', of_nat (length (callback_nodes env))))
     \<and> rlist h' p (ms @ [(q, d')]) \<and> map snd ms = callback_nodes env
     \<and> d' = (if ms = [] then zero_node else end_node)"
proof -
  obtain k iv where c: "RTC_Calc_Num_Nodes_Interval (rMktime env) (rClk env) (rRows env) 1 = Some (k, iv)"
    using RTC_Calc_total by blast
  let ?day = "RTC_Find_Current_Day (rClk env 0)"
  have n: "callback_nodes env = form_nodes (rMktime env) (rClk env) ?day iv (rRows env) k (0, 0, 0)"
    by (simp only: callback_nodes_def c option.case prod.case)
  have f: "Form_Linked_List (rCalloc env) (rMktime env) (rClk env) (rRows env) p h
      = form_loop (rCalloc env) (rMktime env) (rClk env) ?day iv (rRows env) k (0, 0, 0) p 0 h"
    by (simp only: Form_Linked_List_def c option.case prod.case)
  have "rlist h p ([] @ [(p, zero_node)])" using ok by simp
  from form_loop_ok [OF _ _ this, of "rCalloc env" "rMktime env" "rClk env" ?day iv "rRows env" k "(0, 0, 0)" 0] env
  show ?thesis unfolding n f by (simp add: rtc_env_ok_def)
qed

lemma callback_clears:
  assumes "rlist (rheap st) (gpstHeadList st) old"
  shows "\<exists>h0. (if gpstHeadList st \<noteq> NULL then free_list (rheap st) (gpstHeadList st)
       else Some (Inr (rheap st))) = Some (Inr h0) \<and> dom h0 = {}"
proof (cases "gpstHeadList st = NULL")
  case True
  then have "old = []" using assms by (simp add: rlist_def)
  then show ?thesis using True assms by (simp add: rlist_def)
next
  case False
  then have "old \<noteq> []" using assms by (auto simp: rlist_def)
  then show ?thesis using False free_list_ok [of "rheap st" "gpstHeadList st" old] assms
    by (auto simp: rlist_def)
qed

lemma RTC_callback_ok:
  assumes ok: "rlist (rheap st) (gpstHeadList st) old" and env: "rtc_env_ok env"
  defines "nodes \<equiv> callback_nodes env"
  shows "\<exists>st' ns d. RTC_callback env st = Some (Inr (unregister_all st @
       [if nodes = [] then AlarmRegister RTC_IDLE_TIME H_callback
        else AlarmRegister d (H_Collect_Store (gpstHeadList st'))], st'))
     \<and> rlist (rheap st') (gpstHeadList st') ns
     \<and> map snd ns = (if nodes = [] then [] else sort_key delay_key nodes @ [end_node])
     \<and> (nodes \<noteq> [] \<longrightarrow> d = interval (snd (hd ns)))
     \<and> giContextChanged st' = giContextChanged st"
proof -
  let ?m = "rCalloc env"
  let ?st1 = "st\<lparr>guiRTCReg1 := 0, guiRTCReg2 := 0, guiRTCReg3 := 0\<rparr>"
  have m: "alloc_ok ?m" "mem_suffices ?m" and len: "length nodes < 2 ^ 32"
    and pos: "\<And>n. n \<in> set nodes \<Longrightarrow> 0 < delay_key n"
    using env by (simp_all add: rtc_env_ok_def nodes_def)
  obtain h0 where h0: "(if gpstHeadList st \<noteq> NULL then free_list (rheap st) (gpstHeadList st)
       else Some (Inr (rheap st))) = Some (Inr h0)" "dom h0 = {}" using callback_clears [OF ok] by blast
  let ?p = "?m h0"
  have p: "?p \<noteq> NULL" using m(2) h0(2) by (simp add: mem_suffices_def)
  have "rlist (h0(?p \<mapsto> Node zero_node NULL)) ?p [(?p, zero_node)]"
    using p h0(2) by (simp add: rlist_def lseg_Cons)
  from Form_Linked_List_ok [OF this env] obtain h2 ms q d' where f:
    "Form_Linked_List ?m (rMktime env) (rClk env) (rRows env) ?p (h0(?p \<mapsto> Node zero_node NULL))
       = Some (Inr (h2, of_nat (length nodes)))" "rlist h2 ?p (ms @ [(q, d')])"
    "map snd ms = nodes" "d' = (if ms = [] then zero_node else end_node)" unfolding nodes_def by blast
  have zero: "(of_nat (length nodes) :: SI32) = 0 \<longleftrightarrow> nodes = []"
  proof -
    have "unat (of_nat (length nodes) :: SI32) = length nodes" using len by (simp add: unat_of_nat)
    then show ?thesis using unat_eq_zero [of "of_nat (length nodes) :: SI32"] by simp
  qed
  have start: "RTC_callback env st = (if (of_nat (length nodes) :: SI32) = 0
       then lift_res (rbind (free_node h2 ?p) (\<lambda>h3.
              Inr (unregister_all st @ [AlarmRegister RTC_IDLE_TIME H_callback],
                   ?st1\<lparr>rheap := h3, gpstHeadList := NULL, guiRTCReg1 := rHandle env\<rparr>)))
       else if ?m h2 = NULL then Some (Inl (BadPtr NULL))
         else obind (Sort_Linked_List (h2(?m h2 \<mapsto> Node zero_node ?p)) (?m h2)) (\<lambda>h4.
           lift_res (rbind (deref h4 (?m h2)) (\<lambda>nd.
             rbind (free_node h4 (?m h2)) (\<lambda>h5.
             rbind (deref h5 (nxt nd)) (\<lambda>first.
               Inr (unregister_all st @ [AlarmRegister (interval (dat first)) (H_Collect_Store (nxt nd))],
                    ?st1\<lparr>rheap := h5, gpstHeadList := nxt nd, guiRTCReg2 := rHandle env\<rparr>)))))))"
  proof -
    have g: "gpstHeadList ?st1 = gpstHeadList st" "rheap ?st1 = rheap st" by simp_all
    have p': "(if ?p = NULL then h0 else h0(?p \<mapsto> Node zero_node NULL)) = h0(?p \<mapsto> Node zero_node NULL)"
      using p by simp
    show ?thesis unfolding RTC_callback_def Let_def g h0(1) obind_simps p' f(1) prod.case by (rule refl)
  qed
  show ?thesis
  proof (cases "nodes = []")
    case True
    then have "ms = []" using f(3) by simp
    with f(2) have q: "q = ?p" "h2 ?p = Some (Node d' NULL)" "dom h2 = {?p}" by (auto simp: rlist_def lseg_Cons)
    let ?st' = "?st1\<lparr>rheap := h2(?p := None), gpstHeadList := NULL, guiRTCReg1 := rHandle env\<rparr>"
    have "RTC_callback env st = Some (Inr (unregister_all st @ [AlarmRegister RTC_IDLE_TIME H_callback], ?st'))"
      unfolding start using True p q(2) by (simp add: lift_res_def)
    moreover have "rlist (rheap ?st') (gpstHeadList ?st') []" using q(3) by (simp add: rlist_def)
    ultimately show ?thesis using True by (intro exI [of _ ?st'] exI [of _ "[]"]) simp
  next
    case False
    then have ms: "ms \<noteq> []" using f(3) by auto
    let ?ns = "ms @ [(q, d')]" and ?a = "?m h2"
    have nn: "map snd ?ns = nodes @ [end_node]" using f(3,4) ms by simp
    have a: "?a \<noteq> NULL" using m(2) f(2) by (simp add: mem_suffices_def rlist_def)
    have new: "?a \<notin> set (addrs ?ns)" using alloc_okD [OF m(1) a] f(2) unfolding rlist_def by (metis domIff)
    have "0 \<le> delay_key (snd n)" if "n \<in> set ?ns" for n
    proof -
      have "snd n \<in> set (nodes @ [end_node])" unfolding nn [symmetric] using that by auto
      then show ?thesis using pos by (auto simp: end_node_def intro: less_imp_le)
    qed
    from sort_behind_dummy [OF f(2) this a new] obtain h' n where srt:
      "Sort_Linked_List (h2(?a \<mapsto> Node zero_node ?p)) ?a = Some (Inr h')"
      "deref h' ?a = Inr (Node zero_node n)" "free_node h' ?a = Inr (h'(?a := None))"
      "rlist (h'(?a := None)) n (sort_key (on_dat delay_key) ?ns)" by blast
    let ?xs = "sort_key (on_dat delay_key) ?ns"
    have xs: "map snd ?xs = sort_key delay_key nodes @ [end_node]" using sort_nodes [OF nn] .
    then obtain x xs' where x: "?xs = x # xs'" by (cases ?xs) auto
    have "lseg (h'(?a := None)) n (x # xs') NULL" using srt(4) unfolding rlist_def x by blast
    then obtain n' where "n \<noteq> NULL" "(h'(?a := None)) n = Some (Node (snd x) n')"
      unfolding lseg_Cons by blast
    then have first: "deref (h'(?a := None)) n = Inr (Node (snd x) n')" by (rule deref_Some)
    let ?st' = "?st1\<lparr>rheap := h'(?a := None), gpstHeadList := n, guiRTCReg2 := rHandle env\<rparr>"
    have "RTC_callback env st = Some (Inr (unregister_all st @
        [AlarmRegister (interval (snd x)) (H_Collect_Store n)], ?st'))"
      unfolding start using False zero a srt(1-3) first by (simp add: lift_res_def)
    moreover have "interval (snd x) = interval (snd (hd ?xs))" using x by simp
    ultimately show ?thesis using False srt(4) xs
      by (intro exI [of _ ?st'] exI [of _ ?xs] exI [of _ "interval (snd x)"]) simp
  qed
qed

section \<open>Collecting\<close>

abbreviation retrieve_all :: "(addr \<times> RTC_List) list \<Rightarrow> rtc_act list" where
  "retrieve_all \<equiv> map (\<lambda>n. RetrieveLog (index (snd n)))"

lemma collect_due_ok:
  "rlist h p (bs @ c # x # ys) \<Longrightarrow> \<forall>b\<in>set bs. interval (snd b) = interval (snd c) \<Longrightarrow>
   interval (snd x) \<noteq> interval (snd c) \<Longrightarrow>
   \<exists>h' hdl'. collect_due h hdl p acts = Some (Inr (h', hdl', fst c, acts @ retrieve_all (bs @ [c])))
     \<and> rlist h' (fst c) (c # x # ys)"
proof (induction bs arbitrary: h hdl p acts)
  case Nil
  have "lseg h p (c # x # ys) NULL" using Nil.prems(1) by (simp add: rlist_def)
  then obtain n where n: "p = fst c" "p \<noteq> NULL" "h p = Some (Node (snd c) n)" "lseg h n (x # ys) NULL"
    unfolding lseg_Cons by blast
  from n(4) obtain m where m: "n = fst x" "n \<noteq> NULL" "h n = Some (Node (snd x) m)"
    unfolding lseg_Cons by blast
  have "collect_due h hdl p acts = Some (Inr (h, hdl, fst c, acts @ [RetrieveLog (index (snd c))]))"
    using n(1-3) m Nil.prems(3) by (simp add: collect_due.simps [of h hdl "fst c"])
  then show ?case using Nil.prems(1) n(1) by simp
next
  case (Cons b bs)
  have seg: "lseg h p (b # (bs @ c # x # ys)) NULL" using Cons.prems(1) by (simp add: rlist_def)
  then obtain n where b: "p = fst b" "p \<noteq> NULL" "h p = Some (Node (snd b) n)"
    "lseg h n (bs @ c # x # ys) NULL" unfolding lseg_Cons by blast
  have dist: "fst b \<notin> set (addrs (bs @ c # x # ys))" using lseg_distinct [OF seg] by simp
  obtain y zs where y: "bs @ c # x # ys = y # zs" "interval (snd y) = interval (snd c)"
    using Cons.prems(2) by (cases bs) auto
  from b(4) obtain m where d: "n \<noteq> NULL" "h n = Some (Node (snd y) m)" unfolding y(1) lseg_Cons by blast
  have "dom (h(fst b := None)) = set (addrs (bs @ c # x # ys))"
    using Cons.prems(1) dist by (auto simp: rlist_def)
  then have rl: "rlist (h(fst b := None)) n (bs @ c # x # ys)" using b(4) dist by (simp add: rlist_def)
  have "\<forall>b\<in>set bs. interval (snd b) = interval (snd c)" using Cons.prems(2) by simp
  from Cons.IH [OF rl this Cons.prems(3), of n "acts @ [RetrieveLog (index (snd b))]"] obtain h' hdl' where
    "collect_due (h(fst b := None)) n n (acts @ [RetrieveLog (index (snd b))])
       = Some (Inr (h', hdl', fst c, (acts @ [RetrieveLog (index (snd b))]) @ retrieve_all (bs @ [c])))"
    "rlist h' (fst c) (c # x # ys)" by blast
  then show ?case using b(1-3) d y(2) Cons.prems(2) by (simp add: collect_due.simps [of h hdl "fst b"])
qed

lemma rlist_tail:
  assumes "rlist h p (c # xs)"
  shows "\<exists>n. deref h p = Inr (Node (snd c) n) \<and> free_node h p = Inr (h(p := None))
     \<and> rlist (h(p := None)) n xs \<and> n = first_addr xs NULL"
proof -
  from assms obtain n where c: "p = fst c" "p \<noteq> NULL" "h p = Some (Node (snd c) n)" "lseg h n xs NULL"
    by (auto simp: rlist_def lseg_Cons)
  have "fst c \<notin> set (addrs xs)" using assms lseg_distinct unfolding rlist_def by fastforce
  then have "rlist (h(p := None)) n xs" using c assms by (auto simp: rlist_def)
  then show ?thesis using c lseg_first_addr [OF c(4)] by simp
qed

text \<open>A run of the handler in the middle of the list, and at its end.\<close>

abbreviation clear_reg :: "UI32 \<Rightarrow> rtc \<Rightarrow> rtc" where
  "clear_reg u st \<equiv> (if u = guiRTCReg2 st then st\<lparr>guiRTCReg2 := 0\<rparr>
     else if u = guiRTCReg3 st then st\<lparr>guiRTCReg3 := 0\<rparr> else st)"

lemma RTC_Collect_step:
  assumes ok: "rlist (rheap st) p (bs @ c # x # y # ys)"
    and same: "\<forall>b\<in>set bs. interval (snd b) = interval (snd c)" "interval (snd x) \<noteq> interval (snd c)"
    and ch: "\<not> giContextChanged st"
  shows "\<exists>st'. RTC_Collect_Store_Variables env u p st = Some (Inr (retrieve_all (bs @ [c]) @
       [AlarmRegister (interval (snd x) - interval (snd c)) (H_Collect_Store (fst x))], st'))
     \<and> rlist (rheap st') (fst x) (x # y # ys) \<and> gpstHeadList st' = fst x \<and> \<not> giContextChanged st'"
proof -
  let ?st = "clear_reg u st"
  have g: "rheap ?st = rheap st" "giContextChanged ?st = giContextChanged st" by simp_all
  from collect_due_ok [OF ok same, of "gpstHeadList ?st" "[]"] obtain h hdl where d:
    "collect_due (rheap st) (gpstHeadList ?st) p [] = Some (Inr (h, hdl, fst c, retrieve_all (bs @ [c])))"
    "rlist h (fst c) (c # x # y # ys)" by auto
  from rlist_tail [OF d(2)] obtain n where n: "deref h (fst c) = Inr (Node (snd c) n)"
    "free_node h (fst c) = Inr (h(fst c := None))" "rlist (h(fst c := None)) n (x # y # ys)" "n = fst x" by auto
  obtain m where m: "n \<noteq> NULL" "deref h n = Inr (Node (snd x) m)" "m \<noteq> NULL"
    using d(2) n(4) by (auto simp: rlist_def lseg_Cons)
  show ?thesis
    unfolding RTC_Collect_Store_Variables_def Let_def g d(1) obind_simps prod.case
    using n m ch by (simp add: lift_res_def)
qed

lemma RTC_Collect_last:
  assumes ok: "rlist (rheap st) p (bs @ [c, x])"
    and same: "\<forall>b\<in>set bs. interval (snd b) = interval (snd c)" "interval (snd x) \<noteq> interval (snd c)"
  shows "\<exists>h. dom h = {} \<and> RTC_Collect_Store_Variables env u p st =
     obind (RTC_callback env ((clear_reg u st)\<lparr>rheap := h, gpstHeadList := NULL\<rparr>)) (\<lambda>(acts', st').
       Some (Inr (retrieve_all (bs @ [c]) @ acts', st')))"
proof -
  let ?st = "clear_reg u st"
  have g: "rheap ?st = rheap st" by simp
  from collect_due_ok [OF _ same, of "rheap st" p "[]" "gpstHeadList ?st" "[]"] ok obtain h hdl where d:
    "collect_due (rheap st) (gpstHeadList ?st) p [] = Some (Inr (h, hdl, fst c, retrieve_all (bs @ [c])))"
    "rlist h (fst c) (c # [x])" by auto
  from rlist_tail [OF d(2)] obtain n where n: "deref h (fst c) = Inr (Node (snd c) n)"
    "free_node h (fst c) = Inr (h(fst c := None))" "rlist (h(fst c := None)) n [x]" "n = fst x" by auto
  from rlist_tail [OF n(3)] have m: "free_node (h(fst c := None)) n = Inr ((h(fst c := None))(n := None))"
    "dom ((h(fst c := None))(n := None)) = {}" by (auto simp: rlist_def)
  have x: "n \<noteq> NULL" "deref h n = Inr (Node (snd x) NULL)"
    using d(2) n(4) by (auto simp: rlist_def lseg_Cons)
  have "RTC_Collect_Store_Variables env u p st =
     obind (RTC_callback env (?st\<lparr>rheap := (h(fst c := None))(n := None), gpstHeadList := NULL\<rparr>)) (\<lambda>(acts', st').
       Some (Inr (retrieve_all (bs @ [c]) @ acts', st')))"
    unfolding RTC_Collect_Store_Variables_def Let_def g d(1) obind_simps prod.case
    using n m x by (simp add: lift_res_def)
  then show ?thesis using m(2) by blast
qed

text \<open>
  A run of alarms through one list: \<open>t\<close> is the time since the callback, the log the pairs of time
  and row retrieved.
\<close>

inductive collect_run ::
  "rtc_env \<Rightarrow> rtc \<Rightarrow> addr \<Rightarrow> SI32 \<Rightarrow> (SI32 \<times> UI32) list \<Rightarrow> rtc \<Rightarrow> addr \<Rightarrow> SI32 \<Rightarrow> bool" for env where
  run_here: "collect_run env st p t [] st p t"
| run_alarm: "RTC_Collect_Store_Variables env u p st =
      Some (Inr (map RetrieveLog is @ [AlarmRegister d (H_Collect_Store q)], st1)) \<Longrightarrow>
    collect_run env st1 q (t + d) log st' p' t' \<Longrightarrow>
    collect_run env st p t (map (\<lambda>i. (t, i)) is @ log) st' p' t'"

abbreviation due_log :: "(addr \<times> RTC_List) list \<Rightarrow> (SI32 \<times> UI32) list" where
  "due_log \<equiv> map (\<lambda>n. (interval (snd n), index (snd n)))"

text \<open>Every node is retrieved at its own delay, up to the last group before the end node.\<close>

lemma sorted_split_block:
  assumes "xs \<noteq> []"
  shows "\<exists>bs c ys. xs = bs @ c # ys \<and> (\<forall>b\<in>set bs. f b = f c)
     \<and> (ys = [] \<or> f (hd ys) \<noteq> f c)"
  using assms
proof (induction xs)
  case (Cons x xs)
  show ?case
  proof (cases "xs = [] \<or> f (hd xs) \<noteq> f x")
    case True
    then show ?thesis by (intro exI [of _ "[]"] exI [of _ x] exI [of _ xs]) simp
  next
    case False
    then obtain bs c ys where r: "xs = bs @ c # ys" "\<forall>b\<in>set bs. f b = f c" "ys = [] \<or> f (hd ys) \<noteq> f c"
      using Cons.IH by blast
    have "f x = f c" using False r(1,2) by (cases bs) auto
    then show ?thesis using r by (intro exI [of _ "x # bs"] exI [of _ c] exI [of _ ys]) simp
  qed
qed simp

lemma collect_run_all:
  assumes "rlist (rheap st) p (ns @ [z])" "ns \<noteq> []" "\<not> giContextChanged st"
    and "interval (snd (hd ns)) = t" "\<And>n. n \<in> set ns \<Longrightarrow> interval (snd n) \<noteq> interval (snd z)"
    and "sorted (map (\<lambda>n. delay_key (snd n)) ns)"
  shows "\<exists>pre bs c st'. ns = pre @ bs @ [c] \<and> (\<forall>b\<in>set bs. interval (snd b) = interval (snd c))
     \<and> (\<forall>n\<in>set pre. interval (snd n) \<noteq> interval (snd c))
     \<and> collect_run env st p t (due_log pre) st' (fst (hd (bs @ [c]))) (interval (snd c))
     \<and> rlist (rheap st') (fst (hd (bs @ [c]))) (bs @ [c, z]) \<and> \<not> giContextChanged st'"
  using assms
proof (induction "length ns" arbitrary: ns st p t rule: less_induct)
  case less
  obtain bs c ys where b: "ns = bs @ c # ys" "\<forall>b\<in>set bs. interval (snd b) = interval (snd c)"
    "ys = [] \<or> interval (snd (hd ys)) \<noteq> interval (snd c)"
    using sorted_split_block [OF less.prems(2), of "\<lambda>n. interval (snd n)"] by blast
  have t: "t = interval (snd c)" using less.prems(4) b(1,2) by (cases bs) auto
  have p: "p = fst (hd (bs @ [c]))" using less.prems(1) b(1) by (cases bs) (auto simp: rlist_def lseg_Cons)
  show ?case
  proof (cases ys)
    case Nil
    then show ?thesis using b less.prems(1,3) t p run_here [of env st p t]
      by (intro exI [of _ "[]"] exI [of _ bs] exI [of _ c] exI [of _ st]) simp
  next
    case (Cons x xs)
    obtain y ys' where y: "xs @ [z] = y # ys'" by (cases xs) auto
    have ok: "rlist (rheap st) p (bs @ c # x # y # ys')" using less.prems(1) b(1) Cons y by simp
    have "interval (snd x) \<noteq> interval (snd c)" using b(3) Cons by simp
    from RTC_Collect_step [OF ok b(2) this less.prems(3), of env 0] obtain st1 where st1:
      "RTC_Collect_Store_Variables env 0 p st = Some (Inr (retrieve_all (bs @ [c]) @
         [AlarmRegister (interval (snd x) - interval (snd c)) (H_Collect_Store (fst x))], st1))"
      "rlist (rheap st1) (fst x) (ys @ [z])" "\<not> giContextChanged st1" using Cons y by auto
    have "length ys < length ns" "ys \<noteq> []" "interval (snd (hd ys)) = interval (snd x)"
      "\<And>n. n \<in> set ys \<Longrightarrow> interval (snd n) \<noteq> interval (snd z)"
      "sorted (map (\<lambda>n. delay_key (snd n)) ys)"
      using b(1) Cons less.prems(5,6) by (auto simp: sorted_append)
    from less.hyps [OF this(1) st1(2) this(2) st1(3) this(3,4,5)] obtain pre bs' c' st' where ih:
      "ys = pre @ bs' @ [c']" "\<forall>b\<in>set bs'. interval (snd b) = interval (snd c')"
      "\<forall>n\<in>set pre. interval (snd n) \<noteq> interval (snd c')"
      "collect_run env st1 (fst x) (interval (snd x)) (due_log pre) st' (fst (hd (bs' @ [c']))) (interval (snd c'))"
      "rlist (rheap st') (fst (hd (bs' @ [c']))) (bs' @ [c', z])" "\<not> giContextChanged st'" by blast
    let ?is = "map (\<lambda>n. index (snd n)) (bs @ [c])"
    have run: "RTC_Collect_Store_Variables env 0 p st = Some (Inr (map RetrieveLog ?is @
         [AlarmRegister (interval (snd x) - interval (snd c)) (H_Collect_Store (fst x))], st1))"
      using st1(1) by simp
    have "t + (interval (snd x) - interval (snd c)) = interval (snd x)" using t by simp
    with ih(4) have "collect_run env st1 (fst x) (t + (interval (snd x) - interval (snd c))) (due_log pre) st'
        (fst (hd (bs' @ [c']))) (interval (snd c'))" by (simp only:)
    note run_alarm [OF run this]
    moreover have "map (\<lambda>i. (t, i)) ?is @ due_log pre = due_log (bs @ c # pre)" using b(2) t by auto
    ultimately have "collect_run env st p t (due_log (bs @ c # pre)) st'
        (fst (hd (bs' @ [c']))) (interval (snd c'))" by (simp only:)
    moreover have "delay_key (snd c) < delay_key (snd c')"
    proof -
      have "c' \<in> set ys" using ih(1) by simp
      moreover have "\<forall>n\<in>set ys. delay_key (snd x) \<le> delay_key (snd n)" "delay_key (snd c) \<le> delay_key (snd x)"
        using less.prems(6) b(1) Cons by (auto simp: sorted_append)
      ultimately have "delay_key (snd c) \<le> delay_key (snd x)" "delay_key (snd x) \<le> delay_key (snd c')" by auto
      moreover have "delay_key (snd c) \<noteq> delay_key (snd x)" using b(3) Cons by (auto dest!: signed_word_eqI [THEN sym])
      ultimately show ?thesis by linarith
    qed
    then have "\<forall>n\<in>set (bs @ c # pre). interval (snd n) \<noteq> interval (snd c')" using b(2) ih(3) by auto
    ultimately show ?thesis using b(1) ih by (intro exI [of _ "bs @ c # pre"] exI [of _ bs'] exI [of _ c'] exI [of _ st']) simp
  qed
qed

section \<open>Delays over natural numbers\<close>

lemma unat_init_delay:
  assumes "s \<le> c" and "0 < f"
  shows "unat (init_delay c s f) =
    (if (unat c - unat s) mod unat f = 0 then 1 else unat f - (unat c - unat s) mod unat f)"
proof -
  let ?r = "(c - s) mod f"
  have f: "0 < unat f" using assms(2) by (simp add: word_less_nat_alt)
  have r: "unat ?r = (unat c - unat s) mod unat f"
    using unat_sub [OF assms(1)] by (simp add: unat_mod)
  have lt: "unat ?r < unat f" unfolding r using f by simp
  then have le: "?r \<le> f" by (simp add: word_le_nat_alt)
  have d: "unat (f - ?r) = unat f - unat ?r" using unat_sub [OF le] .
  have "f - ?r = f \<longleftrightarrow> ?r = 0" by (simp add: diff_eq_eq)
  also have "\<dots> \<longleftrightarrow> unat ?r = 0" by (simp add: unat_eq_zero)
  finally have "init_delay c s f = (if unat ?r = 0 then 1 else f - ?r)"
    by (simp add: init_delay_def Let_def)
  then show ?thesis using d r by simp
qed

lemma sdiv_nat: "sint (a :: SI32) = int m \<Longrightarrow> sint b = int n \<Longrightarrow> 0 < n \<Longrightarrow> sint (idiv a b) = int (m div n)"
proof -
  assume a: "sint a = int m" and b: "sint b = int n" and n: "0 < n"
  have "m div n \<le> m" by simp
  moreover have "int m < 2 ^ 31" using sint_lt [of a] a by simp
  ultimately have "int (m div n) < 2 ^ 31" by linarith
  then have "sint (of_int (int (m div n)) :: SI32) = int (m div n)" by (intro sint_of_int_range) simp_all
  moreover have "sint a sdiv sint b = int (m div n)"
    using a b n by (cases "m = 0") (auto simp: signed_divide_int_def zdiv_int)
  ultimately show ?thesis by (simp add: idiv_def)
qed

lemma sint_unat: "unat (w :: SI32) < 2 ^ 31 \<Longrightarrow> sint w = int (unat w)"
proof -
  assume "unat w < 2 ^ 31"
  then have "uint w < 2 ^ 31" by (simp add: uint_nat del: of_nat_unat)
  moreover have "- (2 ^ 31) \<le> uint w" by (rule order_trans [OF _ uint_ge_0]) simp
  ultimately have "signed_take_bit 31 (uint w) = uint w" by (intro signed_take_bit_int_eq_self)
  then show ?thesis by (simp add: sint_uint)
qed

text \<open>The number of further nodes, when nothing wraps.\<close>

lemma more_nodes_nat:
  assumes "unat c + unat f + unat i < 2 ^ 31" and "unat e < 2 ^ 31" and "c \<le> e" and "0 < unat f"
    and "unat d \<le> unat f"
  shows "nat (sint (more_nodes c e f i (d + c))) =
    (if unat e > unat i + (unat d + unat c) then unat i div unat f else (unat e - unat c) div unat f) - 1"
proof -
  have dc: "unat (d + c) = unat d + unat c" using assms(1,5) by (intro unat_add_lem [THEN iffD1]) simp
  have idc: "unat (i + (d + c)) = unat i + (unat d + unat c)"
    using assms(1,5) dc by (subst unat_add_lem [THEN iffD1]) simp_all
  let ?n = "if unat e > unat i + (unat d + unat c) then idiv i f else (e - c) div f"
  let ?m = "if unat e > unat i + (unat d + unat c) then unat i div unat f else (unat e - unat c) div unat f"
  have fi: "sint f = int (unat f)" "sint i = int (unat i)" using assms(1) by (intro sint_unat; linarith)+
  have "unat ((e - c) div f) = (unat e - unat c) div unat f"
    using unat_sub [OF assms(3)] by (simp add: unat_div)
  moreover have "(unat e - unat c) div unat f \<le> unat e" by (meson diff_le_self div_le_dividend le_trans)
  ultimately have "sint ((e - c) div f) = int ((unat e - unat c) div unat f)"
    using assms(2) sint_unat [of "(e - c) div f"] by simp
  then have n: "sint ?n = int ?m" using sdiv_nat [OF fi(2,1) assms(4)] by simp
  have lt: "int ?m < 2 ^ 31" using sint_lt [of ?n] n by simp
  have "more_nodes c e f i (d + c) = (if sint ?n > 0 then ?n - 1 else ?n)"
    by (simp add: more_nodes_def Let_def word_less_nat_alt idc)
  moreover have "sint (?n - 1) = int (?m - 1)" if "sint ?n > 0"
  proof -
    have "?n - 1 = of_int (sint ?n - 1)" by simp
    also have "sint ?n - 1 = int (?m - 1)" using n that by linarith
    finally have "?n - 1 = of_int (int (?m - 1))" .
    moreover have "int (?m - 1) < 2 ^ 31" using lt by linarith
    ultimately show ?thesis using sint_of_int_range [of "int (?m - 1)"] by simp
  qed
  ultimately show ?thesis using n by (auto split: if_splits)
qed

text \<open>The delays of the nodes of one row, over natural numbers.\<close>

lemma row_delays:
  assumes sef: "RTC_Get_Time_Frequency (RTC_Find_Current_Day (clk k)) row (0, 0, 0) = (s, e, f)"
    and c: "RTC_Get_Current_Time (clk (Suc k)) = c" "s \<le> c" "c \<le> e" "0 < f"
    and bound: "unat c + unat f + unat i < 2 ^ 31" "unat e < 2 ^ 31"
  defines "d \<equiv> unat (init_delay c s f)"
    and "n \<equiv> (if unat e > unat i + (unat (init_delay c s f) + unat c) then unat i div unat f
              else (unat e - unat c) div unat f)"
  shows "map (\<lambda>x. (unat (interval x), index x)) (row_nodes clk k row i)
    = map (\<lambda>j. (d + j * unat f, collectDataIndex row)) [0..<Suc (n - 1)]"
    and "0 < d" and "d \<le> unat f"
    and "\<And>j. j < Suc (n - 1) \<Longrightarrow> j = 0 \<or> unat c + (d + j * unat f) \<le> unat e"
proof -
  have f: "0 < unat f" using c(4) by (simp add: word_less_nat_alt)
  have d: "d = (if (unat c - unat s) mod unat f = 0 then 1 else unat f - (unat c - unat s) mod unat f)"
    unfolding d_def using unat_init_delay [OF c(2,4)] .
  then show d1: "0 < d" and df: "d \<le> unat f" using f by auto
  have fit: "unat c + (d + j * unat f) \<le> unat e \<and> d + j * unat f < 2 ^ 31" if j: "0 < j" "j < n" for j
  proof (cases "unat e > unat i + (d + unat c)")
    case True
    then have "Suc j \<le> unat i div unat f" using j by (simp add: n_def d_def)
    then have "Suc j * unat f \<le> unat i" using f by (simp add: less_eq_div_iff_mult_less_eq)
    then show ?thesis using True bound by simp
  next
    case False
    then have "Suc j \<le> (unat e - unat c) div unat f" using j by (simp add: n_def d_def)
    then have "Suc j * unat f \<le> unat e - unat c" using f by (simp add: less_eq_div_iff_mult_less_eq)
    then have "unat f + j * unat f \<le> unat e - unat c" by simp
    moreover have "unat c \<le> unat e" using c(3) by (simp add: word_le_nat_alt)
    ultimately have "unat c + (d + j * unat f) \<le> unat e" using df by linarith
    then show ?thesis using bound by linarith
  qed
  then show "\<And>j. j < Suc (n - 1) \<Longrightarrow> j = 0 \<or> unat c + (d + j * unat f) \<le> unat e" by force
  let ?w = "\<lambda>j. init_delay c s f + of_nat j * f"
  have w: "unat (?w j) = d + j * unat f" if "j < Suc (n - 1)" for j
  proof (cases "j = 0")
    case False
    then have lt: "d + j * unat f < 2 ^ 31" using fit [of j] that by simp
    have "?w j = of_nat (d + j * unat f)" by (simp add: d_def)
    then show ?thesis using lt by (simp add: unat_of_nat del: of_nat_add of_nat_mult)
  qed (simp add: d_def)
  have m: "nat (sint (more_nodes c e f i (init_delay c s f + c))) = n - 1"
    unfolding n_def using more_nodes_nat [OF bound c(3) f df [unfolded d_def]] by simp
  have rn: "row_nodes clk k row i = map (\<lambda>j. \<lparr>interval = ?w j, index = collectDataIndex row\<rparr>) [0..<Suc (n - 1)]"
    unfolding row_nodes_def Let_def sef prod.case c(1) using c(4) by (simp add: m)
  show "map (\<lambda>x. (unat (interval x), index x)) (row_nodes clk k row i)
    = map (\<lambda>j. (d + j * unat f, collectDataIndex row)) [0..<Suc (n - 1)]"
    unfolding rn using w by (auto simp del: upt_Suc)
qed

section \<open>Properties\<close>

definition quarter_row :: collectDataTable_context where
  "quarter_row = \<lparr>collectDataIndex = 7, collectDataStartDate = (\<lambda>_. 0), collectDataEndDate = (\<lambda>_. 0),
     collectDataMonStartTime = 0, collectDataMonEndTime = 0, collectDataMonFrequent = 0,
     collectDataTueStartTime = 0, collectDataTueEndTime = 0, collectDataTueFrequent = 0,
     collectDataWedStartTime = 0, collectDataWedEndTime = 0, collectDataWedFrequent = 0,
     collectDataThuStartTime = 0, collectDataThuEndTime = 360000, collectDataThuFrequent = 900,
     collectDataFriStartTime = 0, collectDataFriEndTime = 0, collectDataFriFrequent = 0,
     collectDataSatStartTime = 0, collectDataSatEndTime = 0, collectDataSatFrequent = 0,
     collectDataSunStartTime = 0, collectDataSunEndTime = 0, collectDataSunFrequent = 0,
     collectDataStatus = 1\<rparr>"

definition ten_past :: reading where
  "ten_past = \<lparr>tv_sec = 0, ltime = \<lparr>tm_sec = 0, tm_min = 10, tm_hour = 0, tm_mday = 5, tm_mon = 6,
     tm_year = 107, tm_wday = 4\<rparr>\<rparr>"

definition quarter_env :: "RTC_List allocator \<Rightarrow> rtc_env" where
  "quarter_env m = \<lparr>rClk = (\<lambda>_. ten_past), rMktime = (\<lambda>_. 0), rRows = [quarter_row], rCalloc = m, rHandle = 9\<rparr>"

definition idle_rtc :: rtc where
  "idle_rtc = \<lparr>rheap = Map.empty, gpstHeadList = NULL, giContextChanged = False, guiRTCReg1 = 3, guiRTCReg2 = 0, guiRTCReg3 = 0\<rparr>"

lemma quarter_interval:
  "RTC_Calc_Num_Nodes_Interval (\<lambda>_. 0) (\<lambda>_. ten_past) [quarter_row] 1 = Some (4, 3600)"
  by code_simp

lemma quarter_form: "form_nodes (\<lambda>_. 0) (\<lambda>_. ten_past) 4 3600 [quarter_row] 4 (0, 0, 0) =
  [\<lparr>interval = 300, index = 7\<rparr>, \<lparr>interval = 1200, index = 7\<rparr>, \<lparr>interval = 2100, index = 7\<rparr>]"
  by code_simp

lemma quarter_nodes: "callback_nodes (quarter_env m) =
  [\<lparr>interval = 300, index = 7\<rparr>, \<lparr>interval = 1200, index = 7\<rparr>, \<lparr>interval = 2100, index = 7\<rparr>]"
proof -
  have "RTC_Find_Current_Day ten_past = 4" by code_simp
  then show ?thesis using quarter_interval quarter_form by (simp add: callback_nodes_def quarter_env_def)
qed

lemma quarter_env_ok: "rtc_env_ok (quarter_env bump)"
  unfolding rtc_env_ok_def quarter_nodes by (simp add: quarter_env_def)

lemma idle_rlist: "rlist (rheap idle_rtc) (gpstHeadList idle_rtc) []"
  by (simp add: rlist_def idle_rtc_def)

text \<open>C28: The search for the length of the interval always ends, for every table and every reading of the clock:
  the interval is halved each time the nodes would be more than 5000, and it stays between 1 and
  3600 seconds, where the halving stops.\<close>

theorem RTC_Calc_terminates:
  "\<exists>k' i. RTC_Calc_Num_Nodes_Interval mktime clk container k = Some (k', i) \<and> 1 \<le> sint i \<and> sint i \<le> 3600"
  by (rule RTC_Calc_total)

text \<open>The first delay of a row brings the collection back to the schedule (start time plus multiples of the
  period) and is between 1 second and one period, except when the callback runs exactly on
  schedule: then the delay is 1 second and all readings of the row are one second late.\<close>

theorem init_delay_alignment:
  assumes "s \<le> c" and "0 < f"
  defines "d \<equiv> unat (init_delay c s f)"
  shows "1 \<le> d \<and> d \<le> unat f
    \<and> (unat c - unat s + d) mod unat f = (if unat f dvd unat c - unat s then 1 mod unat f else 0)"
proof -
  have f: "0 < unat f" using assms(2) by (simp add: word_less_nat_alt)
  let ?r = "(unat c - unat s) mod unat f"
  have d: "d = (if ?r = 0 then 1 else unat f - ?r)" unfolding d_def by (rule unat_init_delay [OF assms(1,2)])
  show ?thesis
  proof (cases "?r = 0")
    case True
    then show ?thesis using d f by (auto simp: dvd_eq_mod_eq_0 mod_Suc)
  next
    case False
    then have "1 \<le> d \<and> d \<le> unat f" using d f by (simp add: Suc_leI)
    moreover have "(unat c - unat s + d) mod unat f = (?r + d) mod unat f" by (simp add: mod_add_left_eq)
    moreover have "?r + d = unat f" using d False f by (simp add: less_imp_le)
    ultimately show ?thesis using False by (simp add: dvd_eq_mod_eq_0)
  qed
qed

theorem init_delay_alignment_witness:
  "unat (init_delay 600 0 900) = 300 \<and> (600 + unat (init_delay 600 0 900)) mod 900 = 0
   \<and> unat (init_delay 900 0 900) = 1"
  using init_delay_alignment [of 0 600 900] init_delay_alignment [of 0 900 900]
  by (simp add: init_delay_def)

text \<open>The readings planned for one row in an interval: the first at the first delay d, then one per period,
  all of them but possibly the first before the end time of the row, and the number of them is
  the number of periods in the interval or in the time left, at least one.\<close>

theorem row_readings_in_time:
  assumes "RTC_Get_Time_Frequency (RTC_Find_Current_Day (clk k)) row (0, 0, 0) = (s, e, f)"
    and "RTC_Get_Current_Time (clk (Suc k)) = c" and "s \<le> c" and "c \<le> e" and "0 < f"
    and "unat c + unat f + unat i < 2 ^ 31" and "unat e < 2 ^ 31"
  defines "d \<equiv> unat (init_delay c s f)"
    and "n \<equiv> (if unat e > unat i + (unat (init_delay c s f) + unat c) then unat i div unat f
              else (unat e - unat c) div unat f)"
  shows "map (\<lambda>x. (unat (interval x), index x)) (row_nodes clk k row i)
      = map (\<lambda>j. (d + j * unat f, collectDataIndex row)) [0..<max 1 n]
    \<and> (\<forall>j<max 1 n. j = 0 \<or> unat c + (d + j * unat f) \<le> unat e)"
proof -
  have n: "max 1 n = Suc (n - 1)" by simp
  show ?thesis unfolding n
    using row_delays(1,4) [OF assms(1-7)] unfolding d_def n_def by blast
qed

theorem row_readings_in_time_witness:
  "map (\<lambda>x. (unat (interval x), index x)) (row_nodes (\<lambda>_. ten_past) 0 quarter_row 3600)
      = [(300, 7), (1200, 7), (2100, 7)]"
proof -
  have 1: "RTC_Get_Time_Frequency (RTC_Find_Current_Day ten_past) quarter_row (0, 0, 0) = (0, 3600, 900)"
    by code_simp
  have 2: "RTC_Get_Current_Time ten_past = 600" by code_simp
  have d: "unat (init_delay 600 0 900) = 300" "collectDataIndex quarter_row = 7"
    by (simp_all add: init_delay_def quarter_row_def)
  have "map (\<lambda>x. (unat (interval x), index x)) (row_nodes (\<lambda>_. ten_past) 0 quarter_row 3600)
      = map (\<lambda>j. (unat (init_delay 600 0 900) + j * unat (900 :: SI32), collectDataIndex quarter_row))
          [0..<max 1 (if unat (3600 :: UI32) > unat (3600 :: SI32) + (unat (init_delay 600 0 900) + unat (600 :: UI32))
             then unat (3600 :: SI32) div unat (900 :: SI32) else (unat (3600 :: UI32) - unat (600 :: UI32)) div unat (900 :: SI32))]"
    using row_readings_in_time [OF 1 2, of 3600] by simp
  then show ?thesis unfolding d by (simp add: upt_rec)
qed



text \<open>C5: From a run of the callback on, the alarm handler takes the list down one delay at a time. As long as
  the table is not changed and each alarm runs at its time, every planned reading is made exactly when
  its delay has passed since the callback, in the order of the delays: all but those of the largest
  delay by the runs that leave the rest of the list, and those of the largest delay, first thing, by
  the run after them, which then calls the callback for the next interval. Memory for the nodes is
  assumed, delays that are positive, and none that is the mark of the end node.\<close>

theorem every_reading_on_time:
  assumes "rlist (rheap st) (gpstHeadList st) old" and "rtc_env_ok env" and "callback_nodes env \<noteq> []"
    and "\<not> giContextChanged st" and "\<forall>n\<in>set (callback_nodes env). interval n \<noteq> 2147483647"
  defines "planned \<equiv> map (\<lambda>n. (interval n, index n)) (sort_key (\<lambda>n. sint (interval n)) (callback_nodes env))"
  shows "\<exists>acts t p st1 st2 p2. let t2 = fst (last planned) in
     RTC_callback env st = Some (Inr (acts @ [AlarmRegister t (H_Collect_Store p)], st1))
   \<and> collect_run env st1 p t (filter (\<lambda>x. fst x \<noteq> t2) planned) st2 p2 t2
   \<and> planned = filter (\<lambda>x. fst x \<noteq> t2) planned @ filter (\<lambda>x. fst x = t2) planned
   \<and> (\<forall>env' u. rtc_env_ok env' \<longrightarrow> (\<exists>acts' st3. RTC_Collect_Store_Variables env' u p2 st2 =
        Some (Inr (map (\<lambda>x. RetrieveLog (snd x)) (filter (\<lambda>x. fst x = t2) planned) @ acts', st3))))"
proof -
  from RTC_callback_ok [OF assms(1,2)] assms(3) obtain st1 ns d where cb:
    "RTC_callback env st = Some (Inr (unregister_all st @ [AlarmRegister d (H_Collect_Store (gpstHeadList st1))], st1))"
    "rlist (rheap st1) (gpstHeadList st1) ns"
    "map snd ns = sort_key delay_key (callback_nodes env) @ [end_node]"
    "d = interval (snd (hd ns))" "giContextChanged st1 = giContextChanged st" by auto
  obtain ms z where ns: "ns = ms @ [z]" using cb(3) by (cases ns rule: rev_cases) auto
  have m: "map snd ms = sort_key delay_key (callback_nodes env)" "snd z = end_node"
    using cb(3) ns by auto
  have ne: "ms \<noteq> []" using m(1) assms(3) by (metis map_is_Nil_conv length_0_conv length_sort)
  have "set (map snd ms) = set (callback_nodes env)" unfolding m(1) by simp
  then have z: "interval (snd n) \<noteq> interval (snd z)" if "n \<in> set ms" for n
    using that assms(5) m(2) by (auto simp: end_node_def)
  have d: "interval (snd (hd ms)) = d" using cb(4) ns ne by simp
  have ok: "rlist (rheap st1) (gpstHeadList st1) (ms @ [z])" using cb(2) ns by simp
  have ch: "\<not> giContextChanged st1" using cb(5) assms(4) by simp
  have "sorted (map delay_key (map snd ms))" unfolding m(1) by simp
  then have so: "sorted (map (\<lambda>n. delay_key (snd n)) ms)" by (simp add: comp_def)
  from collect_run_all [OF ok ne ch d z so] obtain pre bs c st2 where run:
    "ms = pre @ bs @ [c]" "\<forall>b\<in>set bs. interval (snd b) = interval (snd c)"
    "\<forall>n\<in>set pre. interval (snd n) \<noteq> interval (snd c)"
    "collect_run env st1 (gpstHeadList st1) d (due_log pre) st2 (fst (hd (bs @ [c]))) (interval (snd c))"
    "rlist (rheap st2) (fst (hd (bs @ [c]))) (bs @ [c, z])" by blast
  have pl: "planned = due_log pre @ due_log (bs @ [c])" using run(1) unfolding planned_def m(1) [symmetric] by simp
  then have t2: "fst (last planned) = interval (snd c)" by simp
  have f: "filter (\<lambda>x. fst x \<noteq> interval (snd c)) planned = due_log pre"
      "filter (\<lambda>x. fst x = interval (snd c)) planned = due_log (bs @ [c])"
    using run(2,3) unfolding pl by (simp_all add: filter_empty_conv)
  have last: "\<exists>acts' st3. RTC_Collect_Store_Variables env' u (fst (hd (bs @ [c]))) st2 =
      Some (Inr (map (\<lambda>x. RetrieveLog (snd x)) (due_log (bs @ [c])) @ acts', st3))" if "rtc_env_ok env'" for env' u
  proof -
    have "interval (snd z) \<noteq> interval (snd c)" using z [of c] run(1) by simp
    from RTC_Collect_last [OF run(5,2) this, of env' u] obtain h where h: "dom h = {}"
      "RTC_Collect_Store_Variables env' u (fst (hd (bs @ [c]))) st2 =
         obind (RTC_callback env' ((clear_reg u st2)\<lparr>rheap := h, gpstHeadList := NULL\<rparr>)) (\<lambda>(acts', st').
           Some (Inr (retrieve_all (bs @ [c]) @ acts', st')))" by blast
    have "rlist (rheap ((clear_reg u st2)\<lparr>rheap := h, gpstHeadList := NULL\<rparr>))
        (gpstHeadList ((clear_reg u st2)\<lparr>rheap := h, gpstHeadList := NULL\<rparr>)) []" using h(1) by (simp add: rlist_def)
    from RTC_callback_ok [OF this that] show ?thesis unfolding h(2) by (auto simp: comp_def)
  qed
  show ?thesis unfolding Let_def t2 f using cb(1) run(4) pl last by blast
qed

theorem every_reading_on_time_witness:
  "\<exists>acts t p st1 st2 p2 acts' st3.
     RTC_callback (quarter_env bump) idle_rtc = Some (Inr (acts @ [AlarmRegister t (H_Collect_Store p)], st1))
   \<and> collect_run (quarter_env bump) st1 p t [(300, 7), (1200, 7)] st2 p2 2100
   \<and> RTC_Collect_Store_Variables (quarter_env bump) 0 p2 st2 = Some (Inr (RetrieveLog 7 # acts', st3))"
proof -
  have s: "map (\<lambda>n. (interval n, index n)) (sort_key (\<lambda>n. sint (interval n)) (callback_nodes (quarter_env bump)))
      = [(300, 7), (1200, 7), (2100, 7)]"
    unfolding quarter_nodes by simp
  have f: "fst (last [(300, 7), (1200, 7), (2100 :: SI32, 7 :: UI32)]) = 2100"
      "filter (\<lambda>x. fst x \<noteq> 2100) [(300, 7), (1200, 7), (2100 :: SI32, 7 :: UI32)] = [(300, 7), (1200, 7)]"
      "filter (\<lambda>x. fst x = 2100) [(300, 7), (1200, 7), (2100 :: SI32, 7 :: UI32)] = [(2100, 7)]" by simp_all
  have ne: "callback_nodes (quarter_env bump) \<noteq> []"
    "\<forall>n\<in>set (callback_nodes (quarter_env bump)). interval n \<noteq> 2147483647" unfolding quarter_nodes by simp_all
  have ch: "\<not> giContextChanged idle_rtc" by (simp add: idle_rtc_def)
  from every_reading_on_time [OF idle_rlist quarter_env_ok ne(1) ch ne(2), unfolded s Let_def f] quarter_env_ok
  show ?thesis by (simp only: list.map snd_conv append_Cons append_Nil) blast
qed

end
