(* ===== verification/Blowfish.thy ===== *)
theory Blowfish
  imports Prelude
begin

unbundle bit_operations_syntax

text \<open>
  The block cipher of the master agent (\<^verbatim>\<open>src/Group1/MasterAgent/src/blowfish.c\<close>) with its
  tables, its key schedule, and the two functions that encrypt and decrypt the messages between
  agent and manager. \<^verbatim>\<open>u32\<close> has 32 bits and the byte order is the little-endian one. Buffers
  are lists of bytes, and an access outside one is a fault.
\<close>

section \<open>Tables\<close>

type_synonym u32 = "32 word"


definition ks0 :: "32 word list" where
  "ks0 = [
     0xD1310BA6, 0x98DFB5AC, 0x2FFD72DB, 0xD01ADFB7, 0xB8E1AFED, 0x6A267E96, 0xBA7C9045,
     0xF12C7F99, 0x24A19947, 0xB3916CF7, 0x0801F2E2, 0x858EFC16, 0x636920D8, 0x71574E69,
     0xA458FEA3, 0xF4933D7E, 0x0D95748F, 0x728EB658, 0x718BCD58, 0x82154AEE, 0x7B54A41D,
     0xC25A59B5, 0x9C30D539, 0x2AF26013, 0xC5D1B023, 0x286085F0, 0xCA417918, 0xB8DB38EF,
     0x8E79DCB0, 0x603A180E, 0x6C9E0E8B, 0xB01E8A3E, 0xD71577C1, 0xBD314B27, 0x78AF2FDA,
     0x55605C60, 0xE65525F3, 0xAA55AB94, 0x57489862, 0x63E81440, 0x55CA396A, 0x2AAB10B6,
     0xB4CC5C34, 0x1141E8CE, 0xA15486AF, 0x7C72E993, 0xB3EE1411, 0x636FBC2A, 0x2BA9C55D,
     0x741831F6, 0xCE5C3E16, 0x9B87931E, 0xAFD6BA33, 0x6C24CF5C, 0x7A325381, 0x28958677,
     0x3B8F4898, 0x6B4BB9AF, 0xC4BFE81B, 0x66282193, 0x61D809CC, 0xFB21A991, 0x487CAC60,
     0x5DEC8032, 0xEF845D5D, 0xE98575B1, 0xDC262302, 0xEB651B88, 0x23893E81, 0xD396ACC5,
     0x0F6D6FF3, 0x83F44239, 0x2E0B4482, 0xA4842004, 0x69C8F04A, 0x9E1F9B5E, 0x21C66842,
     0xF6E96C9A, 0x670C9C61, 0xABD388F0, 0x6A51A0D2, 0xD8542F68, 0x960FA728, 0xAB5133A3,
     0x6EEF0B6C, 0x137A3BE4, 0xBA3BF050, 0x7EFB2A98, 0xA1F1651D, 0x39AF0176, 0x66CA593E,
     0x82430E88, 0x8CEE8619, 0x456F9FB4, 0x7D84A5C3, 0x3B8B5EBE, 0xE06F75D8, 0x85C12073,
     0x401A449F, 0x56C16AA6, 0x4ED3AA62, 0x363F7706, 0x1BFEDF72, 0x429B023D, 0x37D0D724,
     0xD00A1248, 0xDB0FEAD3, 0x49F1C09B, 0x075372C9, 0x80991B7B, 0x25D479D8, 0xF6E8DEF7,
     0xE3FE501A, 0xB6794C3B, 0x976CE0BD, 0x04C006BA, 0xC1A94FB6, 0x409F60C4, 0x5E5C9EC2,
     0x196A2463, 0x68FB6FAF, 0x3E6C53B5, 0x1339B2EB, 0x3B52EC6F, 0x6DFC511F, 0x9B30952C,
     0xCC814544, 0xAF5EBD09, 0xBEE3D004, 0xDE334AFD, 0x660F2807, 0x192E4BB3, 0xC0CBA857,
     0x45C8740F, 0xD20B5F39, 0xB9D3FBDB, 0x5579C0BD, 0x1A60320A, 0xD6A100C6, 0x402C7279,
     0x679F25FE, 0xFB1FA3CC, 0x8EA5E9F8, 0xDB3222F8, 0x3C7516DF, 0xFD616B15, 0x2F501EC8,
     0xAD0552AB, 0x323DB5FA, 0xFD238760, 0x53317B48, 0x3E00DF82, 0x9E5C57BB, 0xCA6F8CA0,
     0x1A87562E, 0xDF1769DB, 0xD542A8F6, 0x287EFFC3, 0xAC6732C6, 0x8C4F5573, 0x695B27B0,
     0xBBCA58C8, 0xE1FFA35D, 0xB8F011A0, 0x10FA3D98, 0xFD2183B8, 0x4AFCB56C, 0x2DD1D35B,
     0x9A53E479, 0xB6F84565, 0xD28E49BC, 0x4BFB9790, 0xE1DDF2DA, 0xA4CB7E33, 0x62FB1341,
     0xCEE4C6E8, 0xEF20CADA, 0x36774C01, 0xD07E9EFE, 0x2BF11FB4, 0x95DBDA4D, 0xAE909198,
     0xEAAD8E71, 0x6B93D5A0, 0xD08ED1D0, 0xAFC725E0, 0x8E3C5B2F, 0x8E7594B7, 0x8FF6E2FB,
     0xF2122B64, 0x8888B812, 0x900DF01C, 0x4FAD5EA0, 0x688FC31C, 0xD1CFF191, 0xB3A8C1AD,
     0x2F2F2218, 0xBE0E1777, 0xEA752DFE, 0x8B021FA1, 0xE5A0CC0F, 0xB56F74E8, 0x18ACF3D6,
     0xCE89E299, 0xB4A84FE0, 0xFD13E0B7, 0x7CC43B81, 0xD2ADA8D9, 0x165FA266, 0x80957705,
     0x93CC7314, 0x211A1477, 0xE6AD2065, 0x77B5FA86, 0xC75442F5, 0xFB9D35CF, 0xEBCDAF0C,
     0x7B3E89A0, 0xD6411BD3, 0xAE1E7E49, 0x00250E2D, 0x2071B35E, 0x226800BB, 0x57B8E0AF,
     0x2464369B, 0xF009B91E, 0x5563911D, 0x59DFA6AA, 0x78C14389, 0xD95A537F, 0x207D5BA2,
     0x02E5B9C5, 0x83260376, 0x6295CFA9, 0x11C81968, 0x4E734A41, 0xB3472DCA, 0x7B14A94A,
     0x1B510052, 0x9A532915, 0xD60F573F, 0xBC9BC6E4, 0x2B60A476, 0x81E67400, 0x08BA6FB5,
     0x571BE91F, 0xF296EC6B, 0x2A0DD915, 0xB6636521, 0xE7B9F9B6, 0xFF34052E, 0xC5855664,
     0x53B02D5D, 0xA99F8FA1, 0x08BA4799, 0x6E85076A]"

definition ks1 :: "32 word list" where
  "ks1 = [
     0x4B7A70E9, 0xB5B32944, 0xDB75092E, 0xC4192623, 0xAD6EA6B0, 0x49A7DF7D, 0x9CEE60B8,
     0x8FEDB266, 0xECAA8C71, 0x699A17FF, 0x5664526C, 0xC2B19EE1, 0x193602A5, 0x75094C29,
     0xA0591340, 0xE4183A3E, 0x3F54989A, 0x5B429D65, 0x6B8FE4D6, 0x99F73FD6, 0xA1D29C07,
     0xEFE830F5, 0x4D2D38E6, 0xF0255DC1, 0x4CDD2086, 0x8470EB26, 0x6382E9C6, 0x021ECC5E,
     0x09686B3F, 0x3EBAEFC9, 0x3C971814, 0x6B6A70A1, 0x687F3584, 0x52A0E286, 0xB79C5305,
     0xAA500737, 0x3E07841C, 0x7FDEAE5C, 0x8E7D44EC, 0x5716F2B8, 0xB03ADA37, 0xF0500C0D,
     0xF01C1F04, 0x0200B3FF, 0xAE0CF51A, 0x3CB574B2, 0x25837A58, 0xDC0921BD, 0xD19113F9,
     0x7CA92FF6, 0x94324773, 0x22F54701, 0x3AE5E581, 0x37C2DADC, 0xC8B57634, 0x9AF3DDA7,
     0xA9446146, 0x0FD0030E, 0xECC8C73E, 0xA4751E41, 0xE238CD99, 0x3BEA0E2F, 0x3280BBA1,
     0x183EB331, 0x4E548B38, 0x4F6DB908, 0x6F420D03, 0xF60A04BF, 0x2CB81290, 0x24977C79,
     0x5679B072, 0xBCAF89AF, 0xDE9A771F, 0xD9930810, 0xB38BAE12, 0xDCCF3F2E, 0x5512721F,
     0x2E6B7124, 0x501ADDE6, 0x9F84CD87, 0x7A584718, 0x7408DA17, 0xBC9F9ABC, 0xE94B7D8C,
     0xEC7AEC3A, 0xDB851DFA, 0x63094366, 0xC464C3D2, 0xEF1C1847, 0x3215D908, 0xDD433B37,
     0x24C2BA16, 0x12A14D43, 0x2A65C451, 0x50940002, 0x133AE4DD, 0x71DFF89E, 0x10314E55,
     0x81AC77D6, 0x5F11199B, 0x043556F1, 0xD7A3C76B, 0x3C11183B, 0x5924A509, 0xF28FE6ED,
     0x97F1FBFA, 0x9EBABF2C, 0x1E153C6E, 0x86E34570, 0xEAE96FB1, 0x860E5E0A, 0x5A3E2AB3,
     0x771FE71C, 0x4E3D06FA, 0x2965DCB9, 0x99E71D0F, 0x803E89D6, 0x5266C825, 0x2E4CC978,
     0x9C10B36A, 0xC6150EBA, 0x94E2EA78, 0xA5FC3C53, 0x1E0A2DF4, 0xF2F74EA7, 0x361D2B3D,
     0x1939260F, 0x19C27960, 0x5223A708, 0xF71312B6, 0xEBADFE6E, 0xEAC31F66, 0xE3BC4595,
     0xA67BC883, 0xB17F37D1, 0x018CFF28, 0xC332DDEF, 0xBE6C5AA5, 0x65582185, 0x68AB9802,
     0xEECEA50F, 0xDB2F953B, 0x2AEF7DAD, 0x5B6E2F84, 0x1521B628, 0x29076170, 0xECDD4775,
     0x619F1510, 0x13CCA830, 0xEB61BD96, 0x0334FE1E, 0xAA0363CF, 0xB5735C90, 0x4C70A239,
     0xD59E9E0B, 0xCBAADE14, 0xEECC86BC, 0x60622CA7, 0x9CAB5CAB, 0xB2F3846E, 0x648B1EAF,
     0x19BDF0CA, 0xA02369B9, 0x655ABB50, 0x40685A32, 0x3C2AB4B3, 0x319EE9D5, 0xC021B8F7,
     0x9B540B19, 0x875FA099, 0x95F7997E, 0x623D7DA8, 0xF837889A, 0x97E32D77, 0x11ED935F,
     0x16681281, 0x0E358829, 0xC7E61FD6, 0x96DEDFA1, 0x7858BA99, 0x57F584A5, 0x1B227263,
     0x9B83C3FF, 0x1AC24696, 0xCDB30AEB, 0x532E3054, 0x8FD948E4, 0x6DBC3128, 0x58EBF2EF,
     0x34C6FFEA, 0xFE28ED61, 0xEE7C3C73, 0x5D4A14D9, 0xE864B7E3, 0x42105D14, 0x203E13E0,
     0x45EEE2B6, 0xA3AAABEA, 0xDB6C4F15, 0xFACB4FD0, 0xC742F442, 0xEF6ABBB5, 0x654F3B1D,
     0x41CD2105, 0xD81E799E, 0x86854DC7, 0xE44B476A, 0x3D816250, 0xCF62A1F2, 0x5B8D2646,
     0xFC8883A0, 0xC1C7B6A3, 0x7F1524C3, 0x69CB7492, 0x47848A0B, 0x5692B285, 0x095BBF00,
     0xAD19489D, 0x1462B174, 0x23820E00, 0x58428D2A, 0x0C55F5EA, 0x1DADF43E, 0x233F7061,
     0x3372F092, 0x8D937E41, 0xD65FECF1, 0x6C223BDB, 0x7CDE3759, 0xCBEE7460, 0x4085F2A7,
     0xCE77326E, 0xA6078084, 0x19F8509E, 0xE8EFD855, 0x61D99735, 0xA969A7AA, 0xC50C06C2,
     0x5A04ABFC, 0x800BCADC, 0x9E447A2E, 0xC3453484, 0xFDD56705, 0x0E1E9EC9, 0xDB73DBD3,
     0x105588CD, 0x675FDA79, 0xE3674340, 0xC5C43465, 0x713E38D8, 0x3D28F89E, 0xF16DFF20,
     0x153E21E7, 0x8FB03D4A, 0xE6E39F2B, 0xDB83ADF7]"

definition ks2 :: "32 word list" where
  "ks2 = [
     0xE93D5A68, 0x948140F7, 0xF64C261C, 0x94692934, 0x411520F7, 0x7602D4F7, 0xBCF46B2E,
     0xD4A20068, 0xD4082471, 0x3320F46A, 0x43B7D4B7, 0x500061AF, 0x1E39F62E, 0x97244546,
     0x14214F74, 0xBF8B8840, 0x4D95FC1D, 0x96B591AF, 0x70F4DDD3, 0x66A02F45, 0xBFBC09EC,
     0x03BD9785, 0x7FAC6DD0, 0x31CB8504, 0x96EB27B3, 0x55FD3941, 0xDA2547E6, 0xABCA0A9A,
     0x28507825, 0x530429F4, 0x0A2C86DA, 0xE9B66DFB, 0x68DC1462, 0xD7486900, 0x680EC0A4,
     0x27A18DEE, 0x4F3FFEA2, 0xE887AD8C, 0xB58CE006, 0x7AF4D6B6, 0xAACE1E7C, 0xD3375FEC,
     0xCE78A399, 0x406B2A42, 0x20FE9E35, 0xD9F385B9, 0xEE39D7AB, 0x3B124E8B, 0x1DC9FAF7,
     0x4B6D1856, 0x26A36631, 0xEAE397B2, 0x3A6EFA74, 0xDD5B4332, 0x6841E7F7, 0xCA7820FB,
     0xFB0AF54E, 0xD8FEB397, 0x454056AC, 0xBA489527, 0x55533A3A, 0x20838D87, 0xFE6BA9B7,
     0xD096954B, 0x55A867BC, 0xA1159A58, 0xCCA92963, 0x99E1DB33, 0xA62A4A56, 0x3F3125F9,
     0x5EF47E1C, 0x9029317C, 0xFDF8E802, 0x04272F70, 0x80BB155C, 0x05282CE3, 0x95C11548,
     0xE4C66D22, 0x48C1133F, 0xC70F86DC, 0x07F9C9EE, 0x41041F0F, 0x404779A4, 0x5D886E17,
     0x325F51EB, 0xD59BC0D1, 0xF2BCC18F, 0x41113564, 0x257B7834, 0x602A9C60, 0xDFF8E8A3,
     0x1F636C1B, 0x0E12B4C2, 0x02E1329E, 0xAF664FD1, 0xCAD18115, 0x6B2395E0, 0x333E92E1,
     0x3B240B62, 0xEEBEB922, 0x85B2A20E, 0xE6BA0D99, 0xDE720C8C, 0x2DA2F728, 0xD0127845,
     0x95B794FD, 0x647D0862, 0xE7CCF5F0, 0x5449A36F, 0x877D48FA, 0xC39DFD27, 0xF33E8D1E,
     0x0A476341, 0x992EFF74, 0x3A6F6EAB, 0xF4F8FD37, 0xA812DC60, 0xA1EBDDF8, 0x991BE14C,
     0xDB6E6B0D, 0xC67B5510, 0x6D672C37, 0x2765D43B, 0xDCD0E804, 0xF1290DC7, 0xCC00FFA3,
     0xB5390F92, 0x690FED0B, 0x667B9FFB, 0xCEDB7D9C, 0xA091CF0B, 0xD9155EA3, 0xBB132F88,
     0x515BAD24, 0x7B9479BF, 0x763BD6EB, 0x37392EB3, 0xCC115979, 0x8026E297, 0xF42E312D,
     0x6842ADA7, 0xC66A2B3B, 0x12754CCC, 0x782EF11C, 0x6A124237, 0xB79251E7, 0x06A1BBE6,
     0x4BFB6350, 0x1A6B1018, 0x11CAEDFA, 0x3D25BDD8, 0xE2E1C3C9, 0x44421659, 0x0A121386,
     0xD90CEC6E, 0xD5ABEA2A, 0x64AF674E, 0xDA86A85F, 0xBEBFE988, 0x64E4C3FE, 0x9DBC8057,
     0xF0F7C086, 0x60787BF8, 0x6003604D, 0xD1FD8346, 0xF6381FB0, 0x7745AE04, 0xD736FCCC,
     0x83426B33, 0xF01EAB71, 0xB0804187, 0x3C005E5F, 0x77A057BE, 0xBDE8AE24, 0x55464299,
     0xBF582E61, 0x4E58F48F, 0xF2DDFDA2, 0xF474EF38, 0x8789BDC2, 0x5366F9C3, 0xC8B38E74,
     0xB475F255, 0x46FCD9B9, 0x7AEB2661, 0x8B1DDF84, 0x846A0E79, 0x915F95E2, 0x466E598E,
     0x20B45770, 0x8CD55591, 0xC902DE4C, 0xB90BACE1, 0xBB8205D0, 0x11A86248, 0x7574A99E,
     0xB77F19B6, 0xE0A9DC09, 0x662D09A1, 0xC4324633, 0xE85A1F02, 0x09F0BE8C, 0x4A99A025,
     0x1D6EFE10, 0x1AB93D1D, 0x0BA5A4DF, 0xA186F20F, 0x2868F169, 0xDCB7DA83, 0x573906FE,
     0xA1E2CE9B, 0x4FCD7F52, 0x50115E01, 0xA70683FA, 0xA002B5C4, 0x0DE6D027, 0x9AF88C27,
     0x773F8641, 0xC3604C06, 0x61A806B5, 0xF0177A28, 0xC0F586E0, 0x006058AA, 0x30DC7D62,
     0x11E69ED7, 0x2338EA63, 0x53C2DD94, 0xC2C21634, 0xBBCBEE56, 0x90BCB6DE, 0xEBFC7DA1,
     0xCE591D76, 0x6F05E409, 0x4B7C0188, 0x39720A3D, 0x7C927C24, 0x86E3725F, 0x724D9DB9,
     0x1AC15BB4, 0xD39EB8FC, 0xED545578, 0x08FCA5B5, 0xD83D7CD3, 0x4DAD0FC4, 0x1E50EF5E,
     0xB161E6F8, 0xA28514D9, 0x6C51133C, 0x6FD5C7E7, 0x56E14EC4, 0x362ABFCE, 0xDDC6C837,
     0xD79A3234, 0x92638212, 0x670EFA8E, 0x406000E0]"

definition ks3 :: "32 word list" where
  "ks3 = [
     0x3A39CE37, 0xD3FAF5CF, 0xABC27737, 0x5AC52D1B, 0x5CB0679E, 0x4FA33742, 0xD3822740,
     0x99BC9BBE, 0xD5118E9D, 0xBF0F7315, 0xD62D1C7E, 0xC700C47B, 0xB78C1B6B, 0x21A19045,
     0xB26EB1BE, 0x6A366EB4, 0x5748AB2F, 0xBC946E79, 0xC6A376D2, 0x6549C2C8, 0x530FF8EE,
     0x468DDE7D, 0xD5730A1D, 0x4CD04DC6, 0x2939BBDB, 0xA9BA4650, 0xAC9526E8, 0xBE5EE304,
     0xA1FAD5F0, 0x6A2D519A, 0x63EF8CE2, 0x9A86EE22, 0xC089C2B8, 0x43242EF6, 0xA51E03AA,
     0x9CF2D0A4, 0x83C061BA, 0x9BE96A4D, 0x8FE51550, 0xBA645BD6, 0x2826A2F9, 0xA73A3AE1,
     0x4BA99586, 0xEF5562E9, 0xC72FEFD3, 0xF752F7DA, 0x3F046F69, 0x77FA0A59, 0x80E4A915,
     0x87B08601, 0x9B09E6AD, 0x3B3EE593, 0xE990FD5A, 0x9E34D797, 0x2CF0B7D9, 0x022B8B51,
     0x96D5AC3A, 0x017DA67D, 0xD1CF3ED6, 0x7C7D2D28, 0x1F9F25CF, 0xADF2B89B, 0x5AD6B472,
     0x5A88F54C, 0xE029AC71, 0xE019A5E6, 0x47B0ACFD, 0xED93FA9B, 0xE8D3C48D, 0x283B57CC,
     0xF8D56629, 0x79132E28, 0x785F0191, 0xED756055, 0xF7960E44, 0xE3D35E8C, 0x15056DD4,
     0x88F46DBA, 0x03A16125, 0x0564F0BD, 0xC3EB9E15, 0x3C9057A2, 0x97271AEC, 0xA93A072A,
     0x1B3F6D9B, 0x1E6321F5, 0xF59C66FB, 0x26DCF319, 0x7533D928, 0xB155FDF5, 0x03563482,
     0x8ABA3CBB, 0x28517711, 0xC20AD9F8, 0xABCC5167, 0xCCAD925F, 0x4DE81751, 0x3830DC8E,
     0x379D5862, 0x9320F991, 0xEA7A90C2, 0xFB3E7BCE, 0x5121CE64, 0x774FBE32, 0xA8B6E37E,
     0xC3293D46, 0x48DE5369, 0x6413E680, 0xA2AE0810, 0xDD6DB224, 0x69852DFD, 0x09072166,
     0xB39A460A, 0x6445C0DD, 0x586CDECF, 0x1C20C8AE, 0x5BBEF7DD, 0x1B588D40, 0xCCD2017F,
     0x6BB4E3BB, 0xDDA26A7E, 0x3A59FF45, 0x3E350A44, 0xBCB4CDD5, 0x72EACEA8, 0xFA6484BB,
     0x8D6612AE, 0xBF3C6F47, 0xD29BE463, 0x542F5D9E, 0xAEC2771B, 0xF64E6370, 0x740E0D8D,
     0xE75B1357, 0xF8721671, 0xAF537D5D, 0x4040CB08, 0x4EB4E2CC, 0x34D2466A, 0x0115AF84,
     0xE1B00428, 0x95983A1D, 0x06B89FB4, 0xCE6EA048, 0x6F3F3B82, 0x3520AB82, 0x011A1D4B,
     0x277227F8, 0x611560B1, 0xE7933FDC, 0xBB3A792B, 0x344525BD, 0xA08839E1, 0x51CE794B,
     0x2F32C9B7, 0xA01FBAC9, 0xE01CC87E, 0xBCC7D1F6, 0xCF0111C3, 0xA1E8AAC7, 0x1A908749,
     0xD44FBD9A, 0xD0DADECB, 0xD50ADA38, 0x0339C32A, 0xC6913667, 0x8DF9317C, 0xE0B12B4F,
     0xF79E59B7, 0x43F5BB3A, 0xF2D519FF, 0x27D9459C, 0xBF97222C, 0x15E6FC2A, 0x0F91FC71,
     0x9B941525, 0xFAE59361, 0xCEB69CEB, 0xC2A86459, 0x12BAA8D1, 0xB6C1075E, 0xE3056A0C,
     0x10D25065, 0xCB03A442, 0xE0EC6E0E, 0x1698DB3B, 0x4C98A0BE, 0x3278E964, 0x9F1F9532,
     0xE0D392DF, 0xD3A0342B, 0x8971F21E, 0x1B0A7441, 0x4BA3348C, 0xC5BE7120, 0xC37632D8,
     0xDF359F8D, 0x9B992F2E, 0xE60B6F47, 0x0FE3F11D, 0xE54CDA54, 0x1EDAD891, 0xCE6279CF,
     0xCD3E7E6F, 0x1618B166, 0xFD2C1D05, 0x848FD2C5, 0xF6FB2299, 0xF523F357, 0xA6327623,
     0x93A83531, 0x56CCCD02, 0xACF08162, 0x5A75EBB5, 0x6E163697, 0x88D273CC, 0xDE966292,
     0x81B949D0, 0x4C50901B, 0x71C65614, 0xE6C6C7BD, 0x327A140A, 0x45E1D006, 0xC3F27B9A,
     0xC9AA53FD, 0x62A80F00, 0xBB25BFE2, 0x35BDD2F6, 0x71126905, 0xB2040222, 0xB6CBCF7C,
     0xCD769C2B, 0x53113EC0, 0x1640E3D3, 0x38ABBD60, 0x2547ADF0, 0xBA38209C, 0xF746CE76,
     0x77AFA1C5, 0x20756060, 0x85CBFE4E, 0x8AE88DD8, 0x7AAAF9B0, 0x4CF9AA7E, 0x1948C25C,
     0x02FB8A8C, 0x01C36AE4, 0xD6EBE1F9, 0x90D4F869, 0xA65CDEA0, 0x3F09252D, 0xC208E69F,
     0xB74E6132, 0xCE77E25B, 0x578FDFE3, 0x3AC372E6]"

definition ps :: "32 word list" where
  "ps = [
     0x243F6A88, 0x85A308D3, 0x13198A2E, 0x03707344, 0xA4093822, 0x299F31D0, 0x082EFA98,
     0xEC4E6C89, 0x452821E6, 0x38D01377, 0xBE5466CF, 0x34E90C6C, 0xC0AC29B7, 0xC97C50DD,
     0x3F84D5B5, 0xB5470917, 0x9216D5D9, 0x8979FB1B]"

section \<open>The cipher\<close>

abbreviation (input) BLOWFISH_ROUNDS :: nat where "BLOWFISH_ROUNDS \<equiv> 16"
abbreviation (input) MAX_MSG_SIZE :: nat where "MAX_MSG_SIZE \<equiv> 2048"

record BLOWFISH_context =
  s0 :: "u32 list"
  s1 :: "u32 list"
  s2 :: "u32 list"
  s3 :: "u32 list"
  p :: "u32 list"

text \<open>Byte \<open>n\<close> of a word in memory, least significant first.\<close>

definition byte_of :: "nat \<Rightarrow> u32 \<Rightarrow> nat" where
  "byte_of n x = unat (ucast (drop_bit (8 * n) x) :: byte)"

definition F :: "BLOWFISH_context \<Rightarrow> u32 \<Rightarrow> u32" where
  "F bc x = (((s0 bc ! byte_of 3 x + s1 bc ! byte_of 2 x) XOR (s2 bc ! byte_of 1 x))
             + s3 bc ! byte_of 0 x)"

definition R :: "BLOWFISH_context \<Rightarrow> nat \<Rightarrow> u32 \<times> u32 \<Rightarrow> u32 \<times> u32" where
  "R bc i lr = (let l = fst lr XOR p bc ! i in (l, snd lr XOR F bc l))"

definition do_encrypt :: "BLOWFISH_context \<Rightarrow> u32 \<times> u32 \<Rightarrow> u32 \<times> u32" where
  "do_encrypt bc ret =
    (let (xl, xr) = ret;
         (xl, xr) = R bc 0 (xl, xr);
         (xr, xl) = R bc 1 (xr, xl);
         (xl, xr) = R bc 2 (xl, xr);
         (xr, xl) = R bc 3 (xr, xl);
         (xl, xr) = R bc 4 (xl, xr);
         (xr, xl) = R bc 5 (xr, xl);
         (xl, xr) = R bc 6 (xl, xr);
         (xr, xl) = R bc 7 (xr, xl);
         (xl, xr) = R bc 8 (xl, xr);
         (xr, xl) = R bc 9 (xr, xl);
         (xl, xr) = R bc 10 (xl, xr);
         (xr, xl) = R bc 11 (xr, xl);
         (xl, xr) = R bc 12 (xl, xr);
         (xr, xl) = R bc 13 (xr, xl);
         (xl, xr) = R bc 14 (xl, xr);
         (xr, xl) = R bc 15 (xr, xl);
         xl = xl XOR p bc ! BLOWFISH_ROUNDS;
         xr = xr XOR p bc ! (BLOWFISH_ROUNDS + 1)
     in (xr, xl))"

definition decrypt :: "BLOWFISH_context \<Rightarrow> u32 \<times> u32 \<Rightarrow> u32 \<times> u32" where
  "decrypt bc ret =
    (let (xl, xr) = ret;
         (xl, xr) = R bc 17 (xl, xr);
         (xr, xl) = R bc 16 (xr, xl);
         (xl, xr) = R bc 15 (xl, xr);
         (xr, xl) = R bc 14 (xr, xl);
         (xl, xr) = R bc 13 (xl, xr);
         (xr, xl) = R bc 12 (xr, xl);
         (xl, xr) = R bc 11 (xl, xr);
         (xr, xl) = R bc 10 (xr, xl);
         (xl, xr) = R bc 9 (xl, xr);
         (xr, xl) = R bc 8 (xr, xl);
         (xl, xr) = R bc 7 (xl, xr);
         (xr, xl) = R bc 6 (xr, xl);
         (xl, xr) = R bc 5 (xl, xr);
         (xr, xl) = R bc 4 (xr, xl);
         (xl, xr) = R bc 3 (xl, xr);
         (xr, xl) = R bc 2 (xr, xl);
         xl = xl XOR p bc ! 1;
         xr = xr XOR p bc ! 0
     in (xr, xl))"

text \<open>Four bytes of a buffer as a word, and back.\<close>

definition join_bytes :: "byte \<Rightarrow> byte \<Rightarrow> byte \<Rightarrow> byte \<Rightarrow> u32" where
  "join_bytes a b c d =
     push_bit 24 (ucast a) OR push_bit 16 (ucast b) OR push_bit 8 (ucast c) OR ucast d"

definition join4 :: "byte list \<Rightarrow> nat \<Rightarrow> u32" where
  "join4 inbuf i = join_bytes (inbuf ! i) (inbuf ! (i + 1)) (inbuf ! (i + 2)) (inbuf ! (i + 3))"

definition split4 :: "u32 \<Rightarrow> byte list" where
  "split4 d = [ucast (drop_bit 24 d AND 0xff), ucast (drop_bit 16 d AND 0xff),
               ucast (drop_bit 8 d AND 0xff), ucast (d AND 0xff)]"

text \<open>A block at position \<open>i\<close> of one buffer written to position \<open>i\<close> of another.\<close>

definition crypt_block ::
  "(u32 \<times> u32 \<Rightarrow> u32 \<times> u32) \<Rightarrow> nat \<Rightarrow> byte list \<Rightarrow> byte list \<Rightarrow> byte list res" where
  "crypt_block f i outbuf inbuf =
    (if length inbuf < i + 8 \<or> length outbuf < i + 8 then Inl (OutOfBounds (int i))
     else let (d1, d2) = f (join4 inbuf i, join4 inbuf (i + 4)) in
       Inr (take i outbuf @ split4 d1 @ split4 d2 @ drop (i + 8) outbuf))"

definition encrypt_block :: "BLOWFISH_context \<Rightarrow> nat \<Rightarrow> byte list \<Rightarrow> byte list \<Rightarrow> byte list res" where
  "encrypt_block bc i outbuf inbuf = crypt_block (do_encrypt bc) i outbuf inbuf"

definition decrypt_block :: "BLOWFISH_context \<Rightarrow> nat \<Rightarrow> byte list \<Rightarrow> byte list \<Rightarrow> byte list res" where
  "decrypt_block bc i outbuf inbuf = crypt_block (decrypt bc) i outbuf inbuf"

section \<open>The key schedule\<close>

text \<open>The loop that mixes the key into the subkeys: \<open>n\<close> of them left, from index \<open>i\<close> on.\<close>

fun mix_key :: "byte list \<Rightarrow> nat \<Rightarrow> nat \<Rightarrow> nat \<Rightarrow> nat \<Rightarrow> u32 list \<Rightarrow> u32 list" where
  "mix_key key keylen j i 0 ks = ks"
| "mix_key key keylen j i (Suc n) ks =
     (let data = join_bytes (key ! j) (key ! ((j + 1) mod keylen)) (key ! ((j + 2) mod keylen))
                   (key ! ((j + 3) mod keylen)) in
      mix_key key keylen ((j + 4) mod keylen) (Suc i) n (ks[i := ks ! i XOR data]))"

text \<open>
  One of the five loops that replace a table by successive encryptions: \<open>upd\<close> stores the list
  back in the context, \<open>n\<close> pairs are left.
\<close>

fun fill_table ::
  "(BLOWFISH_context \<Rightarrow> u32 list) \<Rightarrow> (u32 list \<Rightarrow> BLOWFISH_context \<Rightarrow> BLOWFISH_context) \<Rightarrow> nat \<Rightarrow> nat
     \<Rightarrow> BLOWFISH_context \<times> u32 \<times> u32 \<Rightarrow> BLOWFISH_context \<times> u32 \<times> u32" where
  "fill_table tab upd i 0 st = st"
| "fill_table tab upd i (Suc n) (bc, datal, datar) =
     (let (datal', datar') = do_encrypt bc (datal, datar) in
      fill_table tab upd (i + 2) n (upd ((tab bc)[i := datal', i + 1 := datar']) bc, datal', datar'))"

definition bf_schedule :: "byte list \<Rightarrow> nat \<Rightarrow> BLOWFISH_context" where
  "bf_schedule key keylen =
    (let bc = \<lparr>s0 = ks0, s1 = ks1, s2 = ks2, s3 = ks3, p = mix_key key keylen 0 0 18 ps\<rparr>;
         st = fill_table p (\<lambda>t. p_update (\<lambda>_. t)) 0 9 (bc, 0, 0);
         st = fill_table s0 (\<lambda>t. s0_update (\<lambda>_. t)) 0 128 st;
         st = fill_table s1 (\<lambda>t. s1_update (\<lambda>_. t)) 0 128 st;
         st = fill_table s2 (\<lambda>t. s2_update (\<lambda>_. t)) 0 128 st;
         st = fill_table s3 (\<lambda>t. s3_update (\<lambda>_. t)) 0 128 st
     in fst st)"

text \<open>
  The two static variables of \<^verbatim>\<open>do_bf_setkey\<close>: whether the self test has run and whether it failed.
  The self test calls the function again with the first one already set.
\<close>

record bf_static =
  initialized :: bool
  selftest_failed :: bool

definition bf_setkey ::
  "(unit \<Rightarrow> bool) \<Rightarrow> byte list \<Rightarrow> nat \<Rightarrow> bf_static \<Rightarrow> (int \<times> BLOWFISH_context option \<times> bf_static) res" where
  "bf_setkey selftest key keylen st =
    (let st' = (if \<not> initialized st then \<lparr>initialized = True, selftest_failed = \<not> selftest ()\<rparr> else st) in
     if selftest_failed st' then Inr (-1, None, st')
     else if keylen = 0 then Inl DivByZero
     else if length key < keylen then Inl (OutOfBounds (int keylen))
     else Inr (0, Some (bf_schedule key keylen), st'))"

definition bytes_of :: "string \<Rightarrow> byte list" where
  "bytes_of cs = map (\<lambda>c. of_nat (of_char c)) cs"

text \<open>The self test: two keys, each with a known plain text and cipher text.\<close>

definition test_vector :: "byte list \<Rightarrow> nat \<Rightarrow> byte list \<Rightarrow> byte list \<Rightarrow> bool" where
  "test_vector key keylen plain cipher =
    (let bc = bf_schedule key keylen in
     case encrypt_block bc 0 (replicate 8 0) plain of
       Inl _ \<Rightarrow> False
     | Inr buffer \<Rightarrow> buffer = cipher \<and>
         (case decrypt_block bc 0 buffer buffer of Inl _ \<Rightarrow> False | Inr b \<Rightarrow> b = plain))"

definition selftest :: "unit \<Rightarrow> bool" where
  "selftest _ \<longleftrightarrow>
     test_vector (bytes_of ''abcdefghijklmnopqrstuvwxyz'') 26 (bytes_of ''BLOWFISH'')
       [0x32, 0x4E, 0xD0, 0xFE, 0xF4, 0x13, 0xA2, 0x03]
   \<and> test_vector [0x41, 0x79, 0x6E, 0xA0, 0x52, 0x61, 0x6E, 0xE4] 8
       [0xFE, 0xDC, 0xBA, 0x98, 0x76, 0x54, 0x32, 0x10]
       [0xE1, 0x13, 0xF4, 0x10, 0x2C, 0xFC, 0xCE, 0x43]"

section \<open>Messages\<close>

text \<open>\<^verbatim>\<open>strlen\<close>: the position of the first zero byte, a fault when the buffer has none.\<close>

definition c_strlen :: "byte list \<Rightarrow> nat res" where
  "c_strlen buf = (if 0 \<in> set buf then Inr (length (takeWhile (\<lambda>b. b \<noteq> 0) buf))
                   else Inl (OutOfBounds (int (length buf))))"

fun encrypt_loop :: "BLOWFISH_context \<Rightarrow> nat \<Rightarrow> nat \<Rightarrow> byte list \<Rightarrow> byte list \<Rightarrow> byte list res" where
  "encrypt_loop bctx i 0 outbuff inbuff = Inr outbuff"
| "encrypt_loop bctx i (Suc n) outbuff inbuff =
     rbind (encrypt_block bctx i outbuff inbuff) (\<lambda>outbuff'. encrypt_loop bctx (i + 8) n outbuff' inbuff)"

text \<open>
  The message is padded with zero bytes in place, at least one, to whole blocks. Returns the
  output buffer and the padded input buffer.
\<close>

definition NAS_Encrypt ::
  "BLOWFISH_context \<Rightarrow> byte list \<Rightarrow> byte list \<Rightarrow> (byte list \<times> byte list) res" where
  "NAS_Encrypt bctx outbuff inbuff =
    rbind (c_strlen inbuff) (\<lambda>size.
      let n = (size div 8) * 8 + 8 in
      if length inbuff < n then Inl (OutOfBounds (int (length inbuff)))
      else let inbuff' = take size inbuff @ replicate (n - size) 0 @ drop n inbuff in
        rbind (encrypt_loop bctx 0 (n div 8) outbuff inbuff') (\<lambda>outbuff'. Inr (outbuff', inbuff')))"

text \<open>The loop stops after the block whose last byte in the input, the cipher text, is zero.\<close>

function decrypt_loop :: "BLOWFISH_context \<Rightarrow> nat \<Rightarrow> byte list \<Rightarrow> byte list \<Rightarrow> byte list res" where
  "decrypt_loop bctx i outbuff inbuff =
    (if i < MAX_MSG_SIZE
     then rbind (decrypt_block bctx i outbuff inbuff) (\<lambda>outbuff'.
            if inbuff ! (i + 8 - 1) = 0 then Inr outbuff'
            else decrypt_loop bctx (i + 8) outbuff' inbuff)
     else Inr outbuff)"
  by pat_completeness auto

termination
  by (relation "measure (\<lambda>(bctx, i, outbuff, inbuff). MAX_MSG_SIZE - i)") auto

definition NAS_Decrypt :: "BLOWFISH_context \<Rightarrow> byte list \<Rightarrow> byte list \<Rightarrow> byte list res" where
  "NAS_Decrypt bctx outbuff inbuff = decrypt_loop bctx 0 outbuff inbuff"

declare decrypt_loop.simps [simp del]

section \<open>Decryption undoes encryption\<close>

text \<open>
  The rounds of both functions as one recursion over the list of subkeys, with the two halves
  swapped after each round.
\<close>

definition round_of :: "(u32 \<Rightarrow> u32) \<Rightarrow> u32 \<Rightarrow> u32 \<times> u32 \<Rightarrow> u32 \<times> u32" where
  "round_of f k lr = (snd lr XOR f (fst lr XOR k), fst lr XOR k)"

fun rounds :: "(u32 \<Rightarrow> u32) \<Rightarrow> u32 list \<Rightarrow> u32 \<times> u32 \<Rightarrow> u32 \<times> u32" where
  "rounds f [] lr = lr"
| "rounds f (k # ks) lr = rounds f ks (round_of f k lr)"

lemma rounds_append: "rounds f (ks @ ls) lr = rounds f ls (rounds f ks lr)"
  by (induction ks arbitrary: lr) auto

lemma R_round: "R bc i lr = prod.swap (round_of (F bc) (p bc ! i) lr)"
  by (simp add: R_def round_of_def Let_def)

lemma round_of_swap: "(case prod.swap z of (a, b) \<Rightarrow> g a b) = (case z of (b, a) \<Rightarrow> g a b)"
  by (cases z) simp

lemma do_encrypt_rounds:
  "do_encrypt bc lr = (let (l, r) = rounds (F bc) (map ((!) (p bc)) [0..<16]) lr
     in (r XOR p bc ! 17, l XOR p bc ! 16))"
proof -
  obtain a0 b0 where 0: "lr = (a0, b0)" by fastforce
  obtain a1 b1 where 1: "round_of (F bc) (p bc ! 0) (a0, b0) = (a1, b1)" by fastforce
  obtain a2 b2 where 2: "round_of (F bc) (p bc ! 1) (a1, b1) = (a2, b2)" by fastforce
  obtain a3 b3 where 3: "round_of (F bc) (p bc ! 2) (a2, b2) = (a3, b3)" by fastforce
  obtain a4 b4 where 4: "round_of (F bc) (p bc ! 3) (a3, b3) = (a4, b4)" by fastforce
  obtain a5 b5 where 5: "round_of (F bc) (p bc ! 4) (a4, b4) = (a5, b5)" by fastforce
  obtain a6 b6 where 6: "round_of (F bc) (p bc ! 5) (a5, b5) = (a6, b6)" by fastforce
  obtain a7 b7 where 7: "round_of (F bc) (p bc ! 6) (a6, b6) = (a7, b7)" by fastforce
  obtain a8 b8 where 8: "round_of (F bc) (p bc ! 7) (a7, b7) = (a8, b8)" by fastforce
  obtain a9 b9 where 9: "round_of (F bc) (p bc ! 8) (a8, b8) = (a9, b9)" by fastforce
  obtain a10 b10 where 10: "round_of (F bc) (p bc ! 9) (a9, b9) = (a10, b10)" by fastforce
  obtain a11 b11 where 11: "round_of (F bc) (p bc ! 10) (a10, b10) = (a11, b11)" by fastforce
  obtain a12 b12 where 12: "round_of (F bc) (p bc ! 11) (a11, b11) = (a12, b12)" by fastforce
  obtain a13 b13 where 13: "round_of (F bc) (p bc ! 12) (a12, b12) = (a13, b13)" by fastforce
  obtain a14 b14 where 14: "round_of (F bc) (p bc ! 13) (a13, b13) = (a14, b14)" by fastforce
  obtain a15 b15 where 15: "round_of (F bc) (p bc ! 14) (a14, b14) = (a15, b15)" by fastforce
  obtain a16 b16 where 16: "round_of (F bc) (p bc ! 15) (a15, b15) = (a16, b16)" by fastforce
  have upt: "[0..<16] = [0, 1, 2, 3, 4, 5, 6, 7, 8, 9, 10, 11, 12, 13, 14, 15]" by code_simp
  show ?thesis unfolding upt do_encrypt_def R_round
    by (simp add: 0 1 2 3 4 5 6 7 8 9 10 11 12 13 14 15 16)
qed

lemma decrypt_rounds:
  "decrypt bc lr = (let (l, r) = rounds (F bc) (map ((!) (p bc)) (rev [2..<18])) lr
     in (r XOR p bc ! 0, l XOR p bc ! 1))"
proof -
  obtain a0 b0 where 0: "lr = (a0, b0)" by fastforce
  obtain a1 b1 where 1: "round_of (F bc) (p bc ! 17) (a0, b0) = (a1, b1)" by fastforce
  obtain a2 b2 where 2: "round_of (F bc) (p bc ! 16) (a1, b1) = (a2, b2)" by fastforce
  obtain a3 b3 where 3: "round_of (F bc) (p bc ! 15) (a2, b2) = (a3, b3)" by fastforce
  obtain a4 b4 where 4: "round_of (F bc) (p bc ! 14) (a3, b3) = (a4, b4)" by fastforce
  obtain a5 b5 where 5: "round_of (F bc) (p bc ! 13) (a4, b4) = (a5, b5)" by fastforce
  obtain a6 b6 where 6: "round_of (F bc) (p bc ! 12) (a5, b5) = (a6, b6)" by fastforce
  obtain a7 b7 where 7: "round_of (F bc) (p bc ! 11) (a6, b6) = (a7, b7)" by fastforce
  obtain a8 b8 where 8: "round_of (F bc) (p bc ! 10) (a7, b7) = (a8, b8)" by fastforce
  obtain a9 b9 where 9: "round_of (F bc) (p bc ! 9) (a8, b8) = (a9, b9)" by fastforce
  obtain a10 b10 where 10: "round_of (F bc) (p bc ! 8) (a9, b9) = (a10, b10)" by fastforce
  obtain a11 b11 where 11: "round_of (F bc) (p bc ! 7) (a10, b10) = (a11, b11)" by fastforce
  obtain a12 b12 where 12: "round_of (F bc) (p bc ! 6) (a11, b11) = (a12, b12)" by fastforce
  obtain a13 b13 where 13: "round_of (F bc) (p bc ! 5) (a12, b12) = (a13, b13)" by fastforce
  obtain a14 b14 where 14: "round_of (F bc) (p bc ! 4) (a13, b13) = (a14, b14)" by fastforce
  obtain a15 b15 where 15: "round_of (F bc) (p bc ! 3) (a14, b14) = (a15, b15)" by fastforce
  obtain a16 b16 where 16: "round_of (F bc) (p bc ! 2) (a15, b15) = (a16, b16)" by fastforce
  have upt: "(rev [2..<18]) = [17, 16, 15, 14, 13, 12, 11, 10, 9, 8, 7, 6, 5, 4, 3, 2]" by code_simp
  show ?thesis unfolding upt decrypt_def R_round
    by (simp add: 0 1 2 3 4 5 6 7 8 9 10 11 12 13 14 15 16)
qed

text \<open>One round undone.\<close>

lemma round_undo:
  assumes "round_of f k0 (l0, r0) = (l, r)"
  shows "round_of f k (l XOR k XOR f r, r) = (l0 XOR k0 XOR f r0, r0)"
proof -
  have l: "l = r0 XOR f (l0 XOR k0)" and r: "r = l0 XOR k0" using assms by (auto simp: round_of_def)
  have "(l XOR k XOR f r) XOR k = r0" unfolding l r by (simp add: ac_simps)
  then show ?thesis by (simp add: round_of_def r xor.assoc)
qed

lemma rounds_undo:
  "rounds f ks (l0, r0) = (l, r) \<Longrightarrow>
   rounds f (rev (tl (ks @ [k]))) (l XOR k XOR f r, r) = (l0 XOR hd (ks @ [k]) XOR f r0, r0)"
proof (induction ks arbitrary: l0 r0)
  case (Cons a ks)
  obtain l1 r1 where 1: "round_of f a (l0, r0) = (l1, r1)" by fastforce
  then have ih: "rounds f (rev (tl (ks @ [k]))) (l XOR k XOR f r, r) = (l1 XOR hd (ks @ [k]) XOR f r1, r1)"
    using Cons by simp
  have "ks @ [k] = hd (ks @ [k]) # tl (ks @ [k])" by simp
  then have "rev (ks @ [k]) = rev (tl (ks @ [k])) @ [hd (ks @ [k])]" by (metis rev.simps(2))
  then have "rounds f (rev (ks @ [k])) (l XOR k XOR f r, r) = round_of f (hd (ks @ [k])) (l1 XOR hd (ks @ [k]) XOR f r1, r1)"
    by (simp only: rounds_append ih rounds.simps)
  also have "\<dots> = (l0 XOR a XOR f r0, r0)" using round_undo [OF 1] .
  finally show ?case by simp
qed simp

lemma decrypt_do_encrypt: "decrypt bc (do_encrypt bc (l0, r0)) = (l0, r0)"
proof -
  let ?p = "\<lambda>i. p bc ! i" and ?f = "F bc"
  obtain l1 r1 where 1: "round_of ?f (?p 0) (l0, r0) = (l1, r1)" by fastforce
  obtain l r where r: "rounds ?f (map ?p [1..<16]) (l1, r1) = (l, r)" by fastforce
  have upt: "[0..<16] = 0 # [1..<16]" "rev [2..<18] = 17 # rev (tl ([1..<16] @ [16]))" by code_simp+
  have enc: "do_encrypt bc (l0, r0) = (r XOR ?p 17, l XOR ?p 16)"
    unfolding do_encrypt_rounds upt using 1 r by simp
  have "rounds ?f (rev (tl (map ?p [1..<16] @ [?p 16]))) (l XOR ?p 16 XOR ?f r, r)
      = (l1 XOR hd (map ?p [1..<16] @ [?p 16]) XOR ?f r1, r1)" by (rule rounds_undo [OF r])
  moreover have "map ?p [1..<16] @ [?p 16] = map ?p ([1..<16] @ [16])" by simp
  moreover have "rev (tl (map ?p ([1..<16] @ [16]))) = map ?p (rev (tl ([1..<16] @ [16])))"
    by (simp only: map_tl [symmetric] rev_map)
  moreover have "hd (map ?p ([1..<16] @ [16])) = ?p 1" by (simp add: upt_rec)
  moreover have "round_of ?f (?p 17) (r XOR ?p 17, l XOR ?p 16) = (l XOR ?p 16 XOR ?f r, r)"
    by (simp add: round_of_def xor.assoc)
  ultimately have "rounds ?f (map ?p (rev [2..<18])) (r XOR ?p 17, l XOR ?p 16) = (l1 XOR ?p 1 XOR ?f r1, r1)"
    unfolding upt by (simp only: list.map rounds.simps)
  moreover have "l1 = r0 XOR ?f r1" "r1 = l0 XOR ?p 0" using 1 by (auto simp: round_of_def)
  ultimately show ?thesis unfolding decrypt_rounds enc by (simp add: ac_simps)
qed

section \<open>Blocks and messages\<close>

lemma split4_length [simp]: "length (split4 d) = 4"
  by (simp add: split4_def)

lemma and_ff: "(x :: u32) AND 0xff = take_bit 8 x"
  by (simp add: take_bit_eq_mask mask_eq_exp_minus_1)

lemma join_split: "join_bytes (split4 d ! 0) (split4 d ! 1) (split4 d ! 2) (split4 d ! 3) = d"
proof (rule bit_eqI)
  fix n assume "possible_bit TYPE(32 word) n"
  then have n: "n < 32" by simp
  show "bit (join_bytes (split4 d ! 0) (split4 d ! 1) (split4 d ! 2) (split4 d ! 3)) n = bit d n"
    unfolding and_ff join_bytes_def split4_def using n
    by (cases "n < 8"; cases "n < 16"; cases "n < 24") (auto simp: bit_simps)
qed

lemma split_join: "split4 (join_bytes a b c d) = [a, b, c, d]"
proof -
  let ?w = "join_bytes a b c d"
  note bits = join_bytes_def and_ff
  have "ucast (drop_bit 24 ?w AND 0xff) = a" unfolding bits
    by (rule bit_eqI) (auto simp: bit_simps dest: bit_imp_le_length)
  moreover have "ucast (drop_bit 16 ?w AND 0xff) = b" unfolding bits
    by (rule bit_eqI) (auto simp: bit_simps dest: bit_imp_le_length)
  moreover have "ucast (drop_bit 8 ?w AND 0xff) = c" unfolding bits
    by (rule bit_eqI) (auto simp: bit_simps dest: bit_imp_le_length)
  moreover have "ucast (?w AND 0xff) = d" unfolding bits
    by (rule bit_eqI) (auto simp: bit_simps dest: bit_imp_le_length)
  ultimately show ?thesis by (simp add: split4_def)
qed

text \<open>A block of eight bytes through the cipher.\<close>

definition crypt8 :: "(u32 \<times> u32 \<Rightarrow> u32 \<times> u32) \<Rightarrow> byte list \<Rightarrow> byte list" where
  "crypt8 f b = (let (d1, d2) = f (join4 b 0, join4 b 4) in split4 d1 @ split4 d2)"

lemma crypt8_length [simp]: "length (crypt8 f b) = 8"
  by (simp add: crypt8_def split: prod.split)

lemma join4_at:
  assumes "length b = 8" "k \<le> 4"
  shows "join4 (pre @ b @ post) (length pre + k) = join4 b k"
proof -
  have "(pre @ b @ post) ! (length pre + k + m) = b ! (k + m)" if "m < 4" for m
    using assms that by (simp add: nth_append)
  from this [of 0] this [of 1] this [of 2] this [of 3] show ?thesis by (simp add: join4_def add.assoc)
qed

lemma crypt_block_ok:
  assumes "length b = 8" "length old = 8" "length pre = i" "length pre' = i"
  shows "crypt_block f i (pre' @ old @ post') (pre @ b @ post) = Inr (pre' @ crypt8 f b @ post')"
  using join4_at [OF assms(1), of 0 pre post] join4_at [OF assms(1), of 4 pre post] assms
  by (simp add: crypt_block_def crypt8_def split: prod.split)

lemma join4_append:
  "length a = 4 \<Longrightarrow> join4 (a @ c) 0 = join_bytes (a ! 0) (a ! 1) (a ! 2) (a ! 3)"
  "length a = 4 \<Longrightarrow> length c = 4 \<Longrightarrow> join4 (a @ c) 4 = join_bytes (c ! 0) (c ! 1) (c ! 2) (c ! 3)"
  by (simp_all add: join4_def nth_append numeral_2_eq_2)

lemma list4: "length a = 4 \<Longrightarrow> a = [a ! 0, a ! 1, a ! 2, a ! 3]"
  by (rule nth_equalityI) (auto simp: less_Suc_eq numeral_eq_Suc)

lemma decrypt8_encrypt8:
  assumes "length b = 8"
  shows "crypt8 (decrypt bc) (crypt8 (do_encrypt bc) b) = b"
proof -
  obtain d1 d2 where e: "do_encrypt bc (join4 b 0, join4 b 4) = (d1, d2)" by fastforce
  then have "decrypt bc (d1, d2) = (join4 b 0, join4 b 4)" using decrypt_do_encrypt by metis
  moreover have "crypt8 (do_encrypt bc) b = split4 d1 @ split4 d2" by (simp add: crypt8_def e)
  moreover have "join4 (split4 d1 @ split4 d2) 0 = d1" "join4 (split4 d1 @ split4 d2) 4 = d2"
    by (simp_all only: join4_append split4_length join_split)
  ultimately have "crypt8 (decrypt bc) (crypt8 (do_encrypt bc) b) = split4 (join4 b 0) @ split4 (join4 b 4)"
    by (simp add: crypt8_def)
  moreover have "b = take 4 b @ drop 4 b" "length (take 4 b) = 4" "length (drop 4 b) = 4" using assms by auto
  ultimately show ?thesis by (metis join4_append split_join list4)
qed

lemma encrypt_loop_ok:
  "\<forall>b\<in>set bs. length b = 8 \<Longrightarrow> length old = 8 * length bs \<Longrightarrow> length pre = i \<Longrightarrow> length pre' = i \<Longrightarrow>
   encrypt_loop bc i (length bs) (pre' @ old @ post') (pre @ concat bs @ post)
     = Inr (pre' @ concat (map (crypt8 (do_encrypt bc)) bs) @ post')"
proof (induction bs arbitrary: i old pre pre')
  case (Cons b bs)
  let ?c = "crypt8 (do_encrypt bc) b"
  have old: "old = take 8 old @ drop 8 old" "length (take 8 old) = 8" using Cons.prems(2) by simp_all
  have e: "pre' @ old @ post' = pre' @ take 8 old @ (drop 8 old @ post')" by simp
  have "encrypt_block bc i (pre' @ old @ post') (pre @ b @ (concat bs @ post))
      = Inr (pre' @ ?c @ (drop 8 old @ post'))"
    unfolding encrypt_block_def e using Cons.prems old by (intro crypt_block_ok) simp_all
  moreover have "encrypt_loop bc (i + 8) (length bs) ((pre' @ ?c) @ drop 8 old @ post') ((pre @ b) @ concat bs @ post)
      = Inr ((pre' @ ?c) @ concat (map (crypt8 (do_encrypt bc)) bs) @ post')"
    using Cons.prems by (intro Cons.IH) simp_all
  ultimately show ?case by simp
qed simp

text \<open>
  The decryption loop works up to the first block that ends in a zero byte.
\<close>

lemma decrypt_loop_ok:
  "\<forall>b\<in>set bs. length b = 8 \<and> b ! 7 \<noteq> 0 \<Longrightarrow> length z = 8 \<Longrightarrow> z ! 7 = 0 \<Longrightarrow>
   i + 8 * length bs < MAX_MSG_SIZE \<Longrightarrow>
   length old = 8 * length bs + 8 \<Longrightarrow> length pre = i \<Longrightarrow> length pre' = i \<Longrightarrow>
   decrypt_loop bc i (pre' @ old @ post') (pre @ concat bs @ z @ post)
     = Inr (pre' @ concat (map (crypt8 (decrypt bc)) (bs @ [z])) @ post')"
proof (induction bs arbitrary: i old pre pre')
  case Nil
  then have "decrypt_block bc i (pre' @ old @ post') (pre @ z @ post) = Inr (pre' @ crypt8 (decrypt bc) z @ post')"
    unfolding decrypt_block_def by (intro crypt_block_ok) simp_all
  moreover have "(pre @ z @ post) ! (7 + i) = z ! 7" using Nil by (simp add: nth_append)
  ultimately show ?case using Nil by (simp add: decrypt_loop.simps [of bc i])
next
  case (Cons b bs)
  let ?c = "crypt8 (decrypt bc) b"
  have old: "old = take 8 old @ drop 8 old" "length (take 8 old) = 8" using Cons.prems(5) by simp_all
  have e: "pre' @ old @ post' = pre' @ take 8 old @ (drop 8 old @ post')" by simp
  have 1: "decrypt_block bc i (pre' @ old @ post') (pre @ b @ (concat bs @ z @ post))
      = Inr (pre' @ ?c @ (drop 8 old @ post'))"
    unfolding decrypt_block_def e using Cons.prems old by (intro crypt_block_ok) simp_all
  have 2: "decrypt_loop bc (i + 8) ((pre' @ ?c) @ drop 8 old @ post') ((pre @ b) @ concat bs @ z @ post)
      = Inr ((pre' @ ?c) @ concat (map (crypt8 (decrypt bc)) (bs @ [z])) @ post')"
    using Cons.prems by (intro Cons.IH) simp_all
  have 3: "(pre @ b @ (concat bs @ z @ post)) ! (7 + i) \<noteq> 0" "i < MAX_MSG_SIZE"
    using Cons.prems by (simp_all add: nth_append)
  show ?case using 1 2 3 by (simp add: decrypt_loop.simps [of bc i])
qed

text \<open>A buffer cut into blocks of eight bytes, and the padded message.\<close>

function chunks8 :: "byte list \<Rightarrow> byte list list" where
  "chunks8 xs = (if xs = [] then [] else take 8 xs # chunks8 (drop 8 xs))"
  by pat_completeness auto

termination
  by (relation "measure length") auto

declare chunks8.simps [simp del]

lemma chunks8_ok:
  "8 dvd length xs \<Longrightarrow> concat (chunks8 xs) = xs \<and> (\<forall>b\<in>set (chunks8 xs). length b = 8)
     \<and> length (chunks8 xs) = length xs div 8"
proof (induction xs rule: chunks8.induct)
  case (1 xs)
  show ?case
  proof (cases "xs = []")
    case True
    then show ?thesis by (simp add: chunks8.simps)
  next
    case False
    with 1(2) have len: "8 \<le> length xs" by (simp add: dvd_imp_le)
    then have "8 dvd length (drop 8 xs)" using 1(2) by simp
    from 1(1) [OF False this] have ih: "concat (chunks8 (drop 8 xs)) = drop 8 xs"
      "\<forall>b\<in>set (chunks8 (drop 8 xs)). length b = 8" "length (chunks8 (drop 8 xs)) = (length xs - 8) div 8" by simp_all
    have c: "chunks8 xs = take 8 xs # chunks8 (drop 8 xs)" using False by (simp add: chunks8.simps [of xs])
    have "length xs div 8 = Suc ((length xs - 8) div 8)" using len by (simp add: le_div_geq)
    then have "length (chunks8 xs) = length xs div 8" unfolding c list.size(4) ih(3) by linarith
    moreover have "concat (chunks8 xs) = xs" unfolding c concat.simps ih(1) by (rule append_take_drop_id)
    moreover have "length (take 8 xs) = 8" using len by simp
    then have "\<forall>b\<in>set (chunks8 xs). length b = 8" unfolding c using ih(2) by (metis set_ConsD)
    ultimately show ?thesis by blast
  qed
qed

lemma chunks8_concat: "\<forall>b\<in>set bs. length b = 8 \<Longrightarrow> chunks8 (concat bs) = bs"
proof (induction bs)
  case (Cons b bs)
  then have "b @ concat bs \<noteq> []" "take 8 (b @ concat bs) = b" "drop 8 (b @ concat bs) = concat bs" by auto
  then show ?case using Cons by (simp add: chunks8.simps [of "b @ concat bs"])
qed (simp add: chunks8.simps)

definition pad :: "byte list \<Rightarrow> byte list" where
  "pad msg = msg @ replicate (8 - length msg mod 8) 0"

definition cipher_blocks :: "BLOWFISH_context \<Rightarrow> byte list \<Rightarrow> byte list list" where
  "cipher_blocks bc msg = map (crypt8 (do_encrypt bc)) (chunks8 (pad msg))"

definition c_string :: "byte list \<Rightarrow> byte list" where
  "c_string buf = takeWhile (\<lambda>b. b \<noteq> 0) buf"

lemma length_pad: "length (pad msg) = length msg div 8 * 8 + 8"
proof -
  have "length msg mod 8 < 8" by simp
  then have "length msg + (8 - length msg mod 8) = length msg div 8 * 8 + 8"
    using div_mult_mod_eq [of "length msg" 8] by linarith
  then show ?thesis by (simp add: pad_def)
qed

lemma pad_chunks:
  "concat (chunks8 (pad msg)) = pad msg" "\<forall>b\<in>set (chunks8 (pad msg)). length b = 8"
  "8 * length (chunks8 (pad msg)) = length (pad msg)"
  using chunks8_ok [of "pad msg"] by (simp_all add: length_pad)

lemma c_strlen_ok: "0 \<notin> set msg \<Longrightarrow> c_strlen (msg @ 0 # rest) = Inr (length msg)"
proof -
  assume "0 \<notin> set msg"
  then have "takeWhile (\<lambda>b. b \<noteq> 0) (msg @ 0 # rest) = msg" by (subst takeWhile_append2) auto
  then show ?thesis by (simp add: c_strlen_def)
qed

lemma NAS_Encrypt_cipher:
  assumes msg: "0 \<notin> set msg" and room: "length (pad msg) \<le> length (msg @ 0 # rest)" "length (pad msg) \<le> length outb"
  shows "NAS_Encrypt bc outb (msg @ 0 # rest)
    = Inr (concat (cipher_blocks bc msg) @ drop (length (pad msg)) outb, pad msg @ drop (length (pad msg)) (msg @ 0 # rest))"
proof -
  let ?n = "length (pad msg)" and ?in = "msg @ 0 # rest"
  have n: "length msg div 8 * 8 + 8 = ?n" by (simp add: length_pad)
  have padded: "take (length msg) ?in @ replicate (?n - length msg) 0 @ drop ?n ?in = [] @ concat (chunks8 (pad msg)) @ drop ?n ?in"
    unfolding pad_chunks(1) by (simp add: pad_def)
  have outb: "outb = [] @ take ?n outb @ drop ?n outb" by simp
  have cnt: "?n div 8 = length (chunks8 (pad msg))" using pad_chunks(3) [of msg] by simp
  have "encrypt_loop bc 0 (length (chunks8 (pad msg))) ([] @ take ?n outb @ drop ?n outb)
      ([] @ concat (chunks8 (pad msg)) @ drop ?n ?in)
      = Inr ([] @ concat (map (crypt8 (do_encrypt bc)) (chunks8 (pad msg))) @ drop ?n outb)"
    using pad_chunks(2,3) [of msg] room by (intro encrypt_loop_ok) simp_all
  then have "encrypt_loop bc 0 (?n div 8) outb (take (length msg) ?in @ replicate (?n - length msg) 0 @ drop ?n ?in)
      = Inr (concat (cipher_blocks bc msg) @ drop ?n outb)"
    unfolding padded cnt cipher_blocks_def using outb by simp
  moreover have "take (length msg) ?in @ replicate (?n - length msg) 0 @ drop ?n ?in = pad msg @ drop ?n ?in"
    unfolding padded pad_chunks(1) by simp
  moreover have "\<not> length ?in < ?n" using room by simp
  ultimately show ?thesis unfolding NAS_Encrypt_def c_strlen_ok [OF msg] rbind_simps Let_def n by simp
qed

lemma cipher_blocks_length: "\<forall>b\<in>set (cipher_blocks bc msg). length b = 8"
  "length (cipher_blocks bc msg) = length (chunks8 (pad msg))"
  by (simp_all add: cipher_blocks_def)

lemma decrypt_cipher: "concat (map (crypt8 (decrypt bc)) (cipher_blocks bc msg)) = pad msg"
proof -
  have "map (crypt8 (decrypt bc)) (cipher_blocks bc msg) = chunks8 (pad msg)"
    unfolding cipher_blocks_def map_map using pad_chunks(2) decrypt8_encrypt8 by (intro map_idI) simp
  then show ?thesis using pad_chunks(1) by simp
qed

lemma c_string_pad: "0 \<notin> set msg \<Longrightarrow> c_string (pad msg @ rest) = msg"
proof -
  assume "0 \<notin> set msg"
  moreover obtain k where "8 - length msg mod 8 = Suc k" by (metis Suc_diff_Suc mod_less_divisor zero_less_numeral)
  ultimately show ?thesis unfolding c_string_def pad_def by (subst append_assoc, subst takeWhile_append2) auto
qed

section \<open>The cipher is a permutation\<close>

text \<open>Decryption is encryption with the subkeys in reverse order, so it is undone in the same way.\<close>

abbreviation rev_keys :: "BLOWFISH_context \<Rightarrow> BLOWFISH_context" where
  "rev_keys bc \<equiv> bc\<lparr>p := rev (take 18 (p bc))\<rparr>"

lemma F_rev_keys [simp]: "F (rev_keys bc) = F bc"
  by (rule ext) (simp add: F_def)

lemma decrypt_rev_keys:
  assumes "18 \<le> length (p bc)"
  shows "do_encrypt (rev_keys bc) = decrypt bc" and "decrypt (rev_keys bc) = do_encrypt bc"
proof -
  have n: "rev (take 18 (p bc)) ! i = p bc ! (17 - i)" if "i < 18" for i
    using assms that by (simp add: rev_nth)
  have "map (\<lambda>i. p bc ! (17 - i)) [0..<16] = map ((!) (p bc)) (rev [2..<18])"
    by (simp add: numeral_eq_Suc)
  moreover have "map ((!) (rev (take 18 (p bc)))) [0..<16] = map (\<lambda>i. p bc ! (17 - i)) [0..<16]"
    using n by simp
  ultimately show "do_encrypt (rev_keys bc) = decrypt bc"
    using n by (intro ext) (simp add: do_encrypt_rounds decrypt_rounds)
  have "map (\<lambda>i. p bc ! (17 - i)) (rev [2..<18]) = map ((!) (p bc)) [0..<16]"
    by (simp add: numeral_eq_Suc)
  moreover have "map ((!) (rev (take 18 (p bc)))) (rev [2..<18]) = map (\<lambda>i. p bc ! (17 - i)) (rev [2..<18])"
    using n by simp
  ultimately show "decrypt (rev_keys bc) = do_encrypt bc"
    using n by (intro ext) (simp add: do_encrypt_rounds decrypt_rounds)
qed

lemma do_encrypt_decrypt: "18 \<le> length (p bc) \<Longrightarrow> do_encrypt bc (decrypt bc lr) = lr"
  using decrypt_do_encrypt [of "rev_keys bc" "fst lr" "snd lr"] by (simp add: decrypt_rev_keys)

text \<open>The sizes of the five tables, which no step of the key schedule changes.\<close>

definition bf_sizes :: "BLOWFISH_context \<Rightarrow> bool" where
  "bf_sizes bc \<longleftrightarrow> length (p bc) = 18 \<and> length (s0 bc) = 256 \<and> length (s1 bc) = 256
     \<and> length (s2 bc) = 256 \<and> length (s3 bc) = 256"

lemma fill_table_sizes:
  assumes "\<And>bc i x j y. bf_sizes bc \<Longrightarrow> bf_sizes (upd ((tab bc)[i := x, j := y]) bc)"
  shows "bf_sizes (fst st) \<Longrightarrow> bf_sizes (fst (fill_table tab upd i n st))"
proof (induction n arbitrary: i st)
  case (Suc n)
  obtain bc l r where st: "st = (bc, l, r)" by (cases st)
  obtain l' r' where e: "do_encrypt bc (l, r) = (l', r')" by fastforce
  show ?case using Suc assms by (simp add: st e)
qed simp

lemma length_mix_key [simp]: "length (mix_key key keylen i j n ps') = length ps'"
  by (induction n arbitrary: i j ps') (simp_all add: Let_def)

lemma bf_schedule_sizes: "bf_sizes (bf_schedule key keylen)"
proof -
  have "length ps = 18" "length ks0 = 256" "length ks1 = 256" "length ks2 = 256" "length ks3 = 256"
    by (simp_all add: ps_def ks0_def ks1_def ks2_def ks3_def)
  then show ?thesis unfolding bf_schedule_def Let_def
    by (intro fill_table_sizes) (simp_all add: bf_sizes_def)
qed

section \<open>Properties\<close>

text \<open>A context whose tables are all zero: it only swaps the halves of a block.\<close>

definition zero_ctx :: BLOWFISH_context where
  "zero_ctx = \<lparr>s0 = replicate 256 0, s1 = replicate 256 0, s2 = replicate 256 0, s3 = replicate 256 0,
     p = replicate 18 0\<rparr>"

lemma byte_of_less: "byte_of n x < 256"
  using unsigned_less [of "ucast (drop_bit (8 * n) x) :: byte", where 'a = nat] by (simp add: byte_of_def)

lemma zero_R: "i < 18 \<Longrightarrow> R zero_ctx i lr = lr"
  by (simp add: R_def F_def zero_ctx_def byte_of_less Let_def)

lemma zero_encrypt: "do_encrypt zero_ctx (l, r) = (r, l)"
  by (simp add: do_encrypt_def zero_R) (simp add: zero_ctx_def)

lemma zero_blocks: "crypt8 (do_encrypt zero_ctx) b = (let (d1, d2) = (join4 b 0, join4 b 4) in split4 d2 @ split4 d1)"
  by (simp add: crypt8_def zero_encrypt)

definition twelve :: "byte list" where
  "twelve = [1, 2, 3, 4, 5, 6, 7, 8, 9, 10, 11, 12]"

definition ten :: "byte list" where
  "ten = [1, 2, 3, 4, 5, 6, 7, 8, 9, 10]"

lemma demo_blocks:
  "cipher_blocks zero_ctx twelve = [[5, 6, 7, 8, 1, 2, 3, 4], [0, 0, 0, 0, 9, 10, 11, 12]]"
  "cipher_blocks zero_ctx ten = [[5, 6, 7, 8, 1, 2, 3, 4]] @ [0, 0, 0, 0, 9, 10, 0, 0] # []"
  unfolding cipher_blocks_def zero_blocks by code_simp+

text \<open>C13: Every context that bf_setkey sets up, for whatever key, has 18 subkeys and four boxes of 256 entries,
  and with it the 16 rounds of encryption and of decryption are inverse to each other in both
  directions: the cipher is a permutation of the 64-bit blocks. The self test is not run again.\<close>

theorem bf_setkey_permutation:
  assumes "bf_setkey test key keylen st = Inr (rc, Some bc, st')"
  shows "bf_sizes bc \<and> decrypt bc (do_encrypt bc lr) = lr \<and> do_encrypt bc (decrypt bc lr) = lr
    \<and> rc = 0 \<and> initialized st' \<and> \<not> selftest_failed st'"
proof -
  have "bf_sizes bc" "rc = 0" "initialized st'" "\<not> selftest_failed st'"
    using assms bf_schedule_sizes by (auto simp: bf_setkey_def Let_def split: if_splits)
  then show ?thesis
    using decrypt_do_encrypt [of bc "fst lr" "snd lr"] do_encrypt_decrypt [of bc lr] by (simp add: bf_sizes_def)
qed

theorem bf_setkey_permutation_witness:
  "decrypt (bf_schedule [1, 2, 3] 3) (do_encrypt (bf_schedule [1, 2, 3] 3) (1, 2)) = (1, 2)"
proof -
  have "bf_setkey (\<lambda>_. True) [1, 2, 3] 3 \<lparr>initialized = False, selftest_failed = False\<rparr>
      = Inr (0, Some (bf_schedule [1, 2, 3] 3), \<lparr>initialized = True, selftest_failed = False\<rparr>)"
    by (simp add: bf_setkey_def Let_def)
  from bf_setkey_permutation [OF this, of "(1, 2)"] show ?thesis by blast
qed

text \<open>Encrypting a block of eight bytes in a buffer and decrypting the result gives the block back and
  leaves the rest of both buffers alone.\<close>

theorem block_round_trip:
  assumes "length b = 8" and "length old = 8" and "length pre = i" and "length pre' = i"
  shows "\<exists>c. encrypt_block bc i (pre' @ old @ post') (pre @ b @ post) = Inr (pre' @ c @ post') \<and> length c = 8
    \<and> decrypt_block bc i (pre @ old @ post) (pre' @ c @ post') = Inr (pre @ b @ post)"
proof -
  let ?c = "crypt8 (do_encrypt bc) b"
  have "encrypt_block bc i (pre' @ old @ post') (pre @ b @ post) = Inr (pre' @ ?c @ post')"
    unfolding encrypt_block_def by (rule crypt_block_ok [OF assms])
  moreover have "decrypt_block bc i (pre @ old @ post) (pre' @ ?c @ post') = Inr (pre @ crypt8 (decrypt bc) ?c @ post)"
    unfolding decrypt_block_def by (rule crypt_block_ok) (use assms in simp_all)
  ultimately show ?thesis using decrypt8_encrypt8 [OF assms(1)] by auto
qed

theorem block_round_trip_witness:
  "\<exists>c. encrypt_block zero_ctx 1 (9 # replicate 8 0 @ [9]) (7 # [1, 2, 3, 4, 5, 6, 7, 8] @ [7]) = Inr (9 # c @ [9])
    \<and> decrypt_block zero_ctx 1 (7 # replicate 8 0 @ [7]) (9 # c @ [9]) = Inr (7 # [1, 2, 3, 4, 5, 6, 7, 8] @ [7])"
  using block_round_trip [of "[1, 2, 3, 4, 5, 6, 7, 8]" "replicate 8 0" "[7]" 1 "[9]" zero_ctx "[9]" "[7]"]
  by auto

text \<open>C11: A message that NAS_Encrypt pads and encrypts comes back from NAS_Decrypt as the same C string, when a
  zero block follows the cipher text in its buffer, the buffers have room, and no block of the
  cipher text happens to end in a zero byte (decryption takes such a byte for the end).\<close>

theorem message_round_trip:
  assumes "0 \<notin> set msg" and "length (pad msg) \<le> length (msg @ 0 # rest)"
    and "length (pad msg) + 8 \<le> length outb" and "outb ! (length (pad msg) + 7) = 0"
    and "length (pad msg) + 8 \<le> length dst" and "length (pad msg) < MAX_MSG_SIZE"
    and "\<forall>c\<in>set (cipher_blocks bc msg). c ! 7 \<noteq> 0"
  shows "\<exists>cipher inb plain. NAS_Encrypt bc outb (msg @ 0 # rest) = Inr (cipher, inb)
    \<and> NAS_Decrypt bc dst cipher = Inr plain \<and> c_string plain = msg"
proof -
  let ?n = "length (pad msg)" and ?cs = "cipher_blocks bc msg"
  let ?z = "take 8 (drop ?n outb)" and ?post = "drop 8 (drop ?n outb)"
  have len: "?n = 8 * length ?cs" using pad_chunks(3) [of msg] cipher_blocks_length(2) [of bc msg] by simp
  have "NAS_Encrypt bc outb (msg @ 0 # rest) = Inr (concat ?cs @ drop ?n outb, pad msg @ drop ?n (msg @ 0 # rest))"
    using assms(3) by (intro NAS_Encrypt_cipher [OF assms(1,2)]) simp
  moreover have "concat ?cs @ drop ?n outb = [] @ concat ?cs @ ?z @ ?post"
    by (simp only: append_take_drop_id append_Nil)
  moreover have "dst = [] @ take (?n + 8) dst @ drop (?n + 8) dst" by simp
  moreover have "decrypt_loop bc 0 ([] @ take (?n + 8) dst @ drop (?n + 8) dst) ([] @ concat ?cs @ ?z @ ?post)
      = Inr ([] @ concat (map (crypt8 (decrypt bc)) (?cs @ [?z])) @ drop (?n + 8) dst)"
    using assms(3-7) cipher_blocks_length(1) [of bc msg] len by (intro decrypt_loop_ok) auto
  ultimately obtain inb where "NAS_Encrypt bc outb (msg @ 0 # rest) = Inr (concat ?cs @ drop ?n outb, inb)"
    "NAS_Decrypt bc dst (concat ?cs @ drop ?n outb)
       = Inr (pad msg @ crypt8 (decrypt bc) ?z @ drop (?n + 8) dst)"
    unfolding NAS_Decrypt_def by (simp add: decrypt_cipher)
  then show ?thesis using c_string_pad [OF assms(1)] by blast
qed

theorem message_round_trip_witness:
  "\<exists>cipher inb plain. NAS_Encrypt zero_ctx (replicate 24 0) (twelve @ 0 # [1, 1, 1]) = Inr (cipher, inb)
    \<and> NAS_Decrypt zero_ctx (replicate 24 1) cipher = Inr plain \<and> c_string plain = twelve"
proof -
  have 1: "0 \<notin> set twelve" "length (pad twelve) = 16" by code_simp+
  have 2: "\<forall>c\<in>set (cipher_blocks zero_ctx twelve). c ! 7 \<noteq> 0" unfolding demo_blocks by simp
  show ?thesis by (rule message_round_trip [OF 1(1) _ _ _ _ _ 2], unfold 1(2)) (simp_all add: twelve_def)
qed

text \<open>The other side of the same test: when a block of the cipher text ends in a zero byte, decryption stops
  after it and the rest of the message is lost.\<close>

theorem decryption_truncates:
  assumes "0 \<notin> set msg" and "length (pad msg) \<le> length (msg @ 0 # rest)" and "length (pad msg) \<le> length outb"
    and "length (pad msg) \<le> length dst" and "length (pad msg) < MAX_MSG_SIZE"
    and "cipher_blocks bc msg = bs @ z # cs" and "\<forall>c\<in>set bs. c ! 7 \<noteq> 0" and "z ! 7 = 0"
  shows "\<exists>cipher inb. NAS_Encrypt bc outb (msg @ 0 # rest) = Inr (cipher, inb)
    \<and> NAS_Decrypt bc dst cipher = Inr (take (8 * length bs + 8) (pad msg) @ drop (8 * length bs + 8) dst)"
proof -
  let ?n = "length (pad msg)" and ?k = "8 * length bs + 8"
  have l8: "\<forall>b\<in>set (bs @ z # cs). length b = 8" using cipher_blocks_length(1) [of bc msg] assms(6) by simp
  have len: "?n = 8 * length (bs @ z # cs)"
    using pad_chunks(3) [of msg] cipher_blocks_length(2) [of bc msg] assms(6) by simp
  have "NAS_Encrypt bc outb (msg @ 0 # rest)
      = Inr (concat (bs @ z # cs) @ drop ?n outb, pad msg @ drop ?n (msg @ 0 # rest))"
    using NAS_Encrypt_cipher [OF assms(1-3), of bc] assms(6) by simp
  moreover have "concat (bs @ z # cs) @ drop ?n outb = [] @ concat bs @ z @ (concat cs @ drop ?n outb)" by simp
  moreover have "dst = [] @ take ?k dst @ drop ?k dst" by simp
  moreover have "decrypt_loop bc 0 ([] @ take ?k dst @ drop ?k dst) ([] @ concat bs @ z @ (concat cs @ drop ?n outb))
      = Inr ([] @ concat (map (crypt8 (decrypt bc)) (bs @ [z])) @ drop ?k dst)"
    using assms(4,5,7,8) l8 len by (intro decrypt_loop_ok) auto
  moreover have "pad msg = concat (map (crypt8 (decrypt bc)) (bs @ [z])) @ concat (map (crypt8 (decrypt bc)) cs)"
    using decrypt_cipher [of bc msg] assms(6) by simp
  moreover have "length (concat (map (crypt8 (decrypt bc)) (bs @ [z]))) = ?k"
    by (simp add: length_concat comp_def sum_list_triv)
  ultimately show ?thesis unfolding NAS_Decrypt_def by (metis append_eq_conv_conj append_Nil)
qed

theorem decryption_truncates_witness:
  "\<exists>cipher inb. NAS_Encrypt zero_ctx (replicate 16 0) (ten @ 0 # replicate 5 1) = Inr (cipher, inb)
    \<and> NAS_Decrypt zero_ctx (replicate 16 1) cipher = Inr (take 16 (pad ten) @ [])"
proof -
  have 1: "0 \<notin> set ten" "length (pad ten) = 16" by code_simp+
  note 2 = demo_blocks(2)
  have 3: "\<forall>c\<in>set [[5, 6, 7, 8, 1, 2, 3, 4]]. c ! 7 \<noteq> (0 :: byte)" by simp
  have "\<exists>cipher inb. NAS_Encrypt zero_ctx (replicate 16 0) (ten @ 0 # replicate 5 1) = Inr (cipher, inb)
    \<and> NAS_Decrypt zero_ctx (replicate 16 1) cipher
      = Inr (take (8 * length [[5, 6, 7, 8, 1, 2, 3, 4 :: byte]] + 8) (pad ten)
          @ drop (8 * length [[5, 6, 7, 8, 1, 2, 3, 4 :: byte]] + 8) (replicate 16 1))"
    by (rule decryption_truncates [OF 1(1) _ _ _ _ 2 3], unfold 1(2)) (simp_all add: ten_def)
  then show ?thesis by simp
qed

end
