(* ===== verification/TableArray.thy ===== *)
theory TableArray
  imports Prelude "HOL-Library.List_Lexorder"
begin

text \<open>
  How an SNMP SET reaches a table of the agent (\<^verbatim>\<open>net-snmp-5.8\<close>, as it is built into the agent:
  \<^verbatim>\<open>agent/helpers/table_array.c\<close>, \<^verbatim>\<open>agent/snmp_agent.c\<close>, \<^verbatim>\<open>snmplib/check_varbind.c\<close>,
  \<^verbatim>\<open>snmplib/snmp-tc.c\<close>): the requests of a PDU are put in groups, one for each row, and every group
  goes through the phases RESERVE1, RESERVE2, ACTION and COMMIT, or FREE or UNDO when a phase has
  failed. The callbacks of a table are a record of functions; the locale \<open>row_table\<close> states what
  they owe to the helper, and its lemmas what the helper makes of it. The tables of the agent
  interpret it in their own theories. \<^verbatim>\<open>long\<close> has 32 bits.
\<close>

section \<open>Requests\<close>

text \<open>A fixed-size array of a row with its length field.\<close>

record octets =
  oBuf :: "byte list"
  oLen :: nat

definition octets_ok :: "nat \<Rightarrow> octets \<Rightarrow> bool" where
  "octets_ok n o' \<longleftrightarrow> length (oBuf o') = n \<and> oLen o' \<le> n"

definition empty_octets :: "nat \<Rightarrow> octets" where
  "empty_octets n = \<lparr>oBuf = replicate n 0, oLen = 0\<rparr>"

lemma empty_octets_ok [simp]: "octets_ok n (empty_octets n)"
  by (simp add: octets_ok_def empty_octets_def)

text \<open>
  A varbind of a request: its type, the length of its value, the bytes at \<^verbatim>\<open>val.string\<close> (or
  \<^verbatim>\<open>val.objid\<close>) and what reading the long at \<^verbatim>\<open>val.integer\<close> gives. The parser of the PDU leaves the
  pointer NULL for the types without contents (\<^verbatim>\<open>ASN_NULL\<close> and the three exceptions).
\<close>

record varbind =
  vtype :: int
  val_len :: nat
  val_bytes :: "byte list"
  val_integer :: long

definition no_value :: "varbind \<Rightarrow> bool" where
  "no_value var \<longleftrightarrow> vtype var \<in> {5, 128, 129, 130}"

definition read_long :: "varbind \<Rightarrow> long res" where
  "read_long var = (if no_value var then Inl (BadPtr NULL) else Inr (val_integer var))"

text \<open>A request with its place in the PDU, the column and row it names, and its error status.\<close>

record request =
  rindex :: nat
  colnum :: int
  index_oid :: "long list"
  requestvb :: varbind
  rstatus :: int

text \<open>The requests for one row.\<close>

record 'r request_group =
  rg_index :: "long list"
  rg_list :: "request list"
  rg_status :: int
  existing_row :: "'r option"
  undo_info :: "'r option"
  row_created :: bool
  row_deleted :: bool

text \<open>ASN.1 tags, SNMP errors and row states.\<close>

abbreviation (input) ASN_INTEGER :: int where "ASN_INTEGER \<equiv> 2"
abbreviation (input) ASN_OCTET_STR :: int where "ASN_OCTET_STR \<equiv> 4"
abbreviation (input) ASN_OBJECT_ID :: int where "ASN_OBJECT_ID \<equiv> 6"
abbreviation (input) ASN_IPADDRESS :: int where "ASN_IPADDRESS \<equiv> 64"
abbreviation (input) ASN_UNSIGNED :: int where "ASN_UNSIGNED \<equiv> 66"
abbreviation (input) SNMP_ERR_NOERROR :: int where "SNMP_ERR_NOERROR \<equiv> 0"
abbreviation (input) SNMP_ERR_NOSUCHNAME :: int where "SNMP_ERR_NOSUCHNAME \<equiv> 2"
abbreviation (input) SNMP_ERR_GENERR :: int where "SNMP_ERR_GENERR \<equiv> 5"
abbreviation (input) SNMP_ERR_WRONGTYPE :: int where "SNMP_ERR_WRONGTYPE \<equiv> 7"
abbreviation (input) SNMP_ERR_WRONGLENGTH :: int where "SNMP_ERR_WRONGLENGTH \<equiv> 8"
abbreviation (input) SNMP_ERR_WRONGVALUE :: int where "SNMP_ERR_WRONGVALUE \<equiv> 10"
abbreviation (input) SNMP_ERR_INCONSISTENTVALUE :: int where "SNMP_ERR_INCONSISTENTVALUE \<equiv> 12"
abbreviation (input) SNMP_ERR_RESOURCEUNAVAILABLE :: int where "SNMP_ERR_RESOURCEUNAVAILABLE \<equiv> 13"
abbreviation (input) SNMP_ERR_COMMITFAILED :: int where "SNMP_ERR_COMMITFAILED \<equiv> 14"
abbreviation (input) SNMP_ERR_UNDOFAILED :: int where "SNMP_ERR_UNDOFAILED \<equiv> 15"
abbreviation (input) RS_NONEXISTENT :: int where "RS_NONEXISTENT \<equiv> 0"
abbreviation (input) RS_ACTIVE :: int where "RS_ACTIVE \<equiv> 1"
abbreviation (input) RS_NOTINSERVICE :: int where "RS_NOTINSERVICE \<equiv> 2"
abbreviation (input) RS_NOTREADY :: int where "RS_NOTREADY \<equiv> 3"
abbreviation (input) RS_CREATEANDGO :: int where "RS_CREATEANDGO \<equiv> 4"
abbreviation (input) RS_CREATEANDWAIT :: int where "RS_CREATEANDWAIT \<equiv> 5"
abbreviation (input) RS_DESTROY :: int where "RS_DESTROY \<equiv> 6"

section \<open>Checks of a varbind\<close>

definition check_vb_type :: "varbind \<Rightarrow> int \<Rightarrow> int" where
  "check_vb_type var ty = (if vtype var \<noteq> ty then SNMP_ERR_WRONGTYPE else SNMP_ERR_NOERROR)"

definition check_vb_size :: "varbind \<Rightarrow> nat \<Rightarrow> int" where
  "check_vb_size var n = (if val_len var \<noteq> n then SNMP_ERR_WRONGLENGTH else SNMP_ERR_NOERROR)"

definition check_vb_type_and_size :: "varbind \<Rightarrow> int \<Rightarrow> nat \<Rightarrow> int" where
  "check_vb_type_and_size var ty n =
    (let rc = check_vb_type var ty in if rc \<noteq> 0 then rc else check_vb_size var n)"

definition check_vb_int_range :: "varbind \<Rightarrow> int \<Rightarrow> int \<Rightarrow> int" where
  "check_vb_int_range var low high =
    (let rc = check_vb_type_and_size var ASN_INTEGER 4 in
     if rc \<noteq> 0 then rc
     else if sint (val_integer var) < low \<or> sint (val_integer var) > high then SNMP_ERR_WRONGVALUE
     else SNMP_ERR_NOERROR)"

definition check_vb_rowstatus_value :: "varbind \<Rightarrow> int" where
  "check_vb_rowstatus_value var =
    (let rc = check_vb_type_and_size var ASN_INTEGER 4 in
     if rc \<noteq> 0 then rc
     else if sint (val_integer var) = RS_NOTREADY then SNMP_ERR_WRONGVALUE
     else check_vb_int_range var RS_NONEXISTENT RS_DESTROY)"

definition check_rowstatus_transition :: "int \<Rightarrow> int \<Rightarrow> int" where
  "check_rowstatus_transition oldValue newValue =
    (if newValue = RS_ACTIVE \<or> newValue = RS_NOTINSERVICE then
       (if oldValue = RS_NOTINSERVICE \<or> oldValue = RS_ACTIVE then SNMP_ERR_NOERROR else SNMP_ERR_INCONSISTENTVALUE)
     else if newValue = RS_NOTREADY then SNMP_ERR_WRONGVALUE
     else if newValue = RS_CREATEANDGO \<or> newValue = RS_CREATEANDWAIT then
       (if oldValue \<noteq> RS_NONEXISTENT then SNMP_ERR_INCONSISTENTVALUE else SNMP_ERR_NOERROR)
     else if newValue = RS_DESTROY then SNMP_ERR_NOERROR
     else SNMP_ERR_WRONGVALUE)"

definition check_vb_rowstatus :: "varbind \<Rightarrow> long \<Rightarrow> int" where
  "check_vb_rowstatus var old_value =
    (let rc = check_vb_rowstatus_value var in
     if rc \<noteq> 0 then rc else check_rowstatus_transition (sint old_value) (sint (val_integer var)))"

text \<open>\<^verbatim>\<open>_request_set_error\<close> in the modes of a SET other than RESERVE1.\<close>

definition request_set_error :: "int \<Rightarrow> request \<Rightarrow> request" where
  "request_set_error e r = r\<lparr>rstatus :=
     (if e \<in> {128, 129, 130} then SNMP_ERR_NOSUCHNAME else if e < 0 then SNMP_ERR_GENERR else e)\<rparr>"

text \<open>The error of the first request of a group's list, where the helper records its own errors.\<close>

definition group_set_error :: "int \<Rightarrow> 'r request_group \<Rightarrow> 'r request_group" where
  "group_set_error e g = (case rg_list g of [] \<Rightarrow> g | r # rs \<Rightarrow> g\<lparr>rg_list := request_set_error e r # rs\<rparr>)"

text \<open>
  The error of the check of a row's status goes to the last request of the list that sets the status
  (column \<open>col\<close>), which RESERVE2 has noted, or to the first of the list.
\<close>

primrec mark_first :: "(request \<Rightarrow> bool) \<Rightarrow> int \<Rightarrow> request list \<Rightarrow> request list" where
  "mark_first P e [] = []"
| "mark_first P e (r # rs) = (if P r then request_set_error e r # rs else r # mark_first P e rs)"

definition row_status_error :: "int \<Rightarrow> int \<Rightarrow> 'r request_group \<Rightarrow> 'r request_group" where
  "row_status_error col e g =
    (if \<exists>r\<in>set (rg_list g). colnum r = col
     then g\<lparr>rg_list := rev (mark_first (\<lambda>r. colnum r = col) e (rev (rg_list g)))\<rparr> else group_set_error e g)"

lemmas vb_check_defs = check_vb_type_and_size_def check_vb_type_def check_vb_size_def Let_def

section \<open>Arrays of a row\<close>

text \<open>\<^verbatim>\<open>memcpy\<close> of the value into an array and the assignment of the length.\<close>

definition store_bytes :: "varbind \<Rightarrow> octets \<Rightarrow> octets res" where
  "store_bytes var o' =
    (if val_len var > length (oBuf o') \<or> val_len var > length (val_bytes var)
     then Inl (OutOfBounds (int (val_len var)))
     else Inr \<lparr>oBuf = take (val_len var) (val_bytes var) @ drop (val_len var) (oBuf o'),
               oLen = val_len var\<rparr>)"

text \<open>The value given to \<^verbatim>\<open>snmp_set_var_typed_value\<close>: its type and a long or the bytes of a string.\<close>

datatype asn_value = AsnLong int long | AsnBytes int "byte list"

definition read_bytes :: "int \<Rightarrow> octets \<Rightarrow> asn_value res" where
  "read_bytes ty o' = (if oLen o' > length (oBuf o') then Inl (OutOfBounds (int (oLen o')))
                      else Inr (AsnBytes ty (take (oLen o') (oBuf o'))))"

text \<open>Copying an array between two rows keeps its visible part.\<close>

definition copy_bytes :: "octets \<Rightarrow> octets \<Rightarrow> octets res" where
  "copy_bytes d s = (if oLen s > length (oBuf s) \<or> oLen s > length (oBuf d)
     then Inl (OutOfBounds (int (oLen s)))
     else Inr \<lparr>oBuf = take (oLen s) (oBuf s) @ drop (oLen s) (oBuf d), oLen = oLen s\<rparr>)"

lemma store_bytes_ok: "octets_ok n o' \<Longrightarrow> store_bytes var o' = Inr b \<Longrightarrow> octets_ok n b"
  by (auto simp: store_bytes_def octets_ok_def split: if_splits)

lemma store_bytes_fault:
  "octets_ok n o' \<Longrightarrow> val_len var \<le> length (val_bytes var) \<Longrightarrow> (\<exists>e. store_bytes var o' = Inl e) \<longleftrightarrow> n < val_len var"
  by (auto simp: store_bytes_def octets_ok_def)

definition copied :: "octets \<Rightarrow> octets \<Rightarrow> octets" where
  "copied d s = \<lparr>oBuf = take (oLen s) (oBuf s) @ drop (oLen s) (oBuf d), oLen = oLen s\<rparr>"

lemma copy_bytes_ok:
  assumes "octets_ok n d" "octets_ok n s"
  shows "copy_bytes d s = Inr (copied d s)" and "octets_ok n (copied d s)"
    and "read_bytes ty (copied d s) = read_bytes ty s"
  using assms by (auto simp: copy_bytes_def copied_def octets_ok_def read_bytes_def)

section \<open>The state of a row\<close>

text \<open>
  \<^verbatim>\<open>netsnmp_table_array_check_row_status\<close> for a table whose \<^verbatim>\<open>can_activate\<close>, \<^verbatim>\<open>can_deactivate\<close> and
  \<^verbatim>\<open>can_delete\<close> answer as given: the error, what is left in \<^verbatim>\<open>*rs_new\<close> and whether the row is marked
  as deleted.
\<close>

record row_methods =
  can_activate :: bool
  can_deactivate :: bool
  can_delete :: bool

definition check_row_status :: "row_methods \<Rightarrow> long \<Rightarrow> long option \<Rightarrow> int \<times> long \<times> bool" where
  "check_row_status cb rs_new rs_old =
    (if rs_new = 4 \<or> rs_new = 1 then
       (if can_activate cb then (SNMP_ERR_NOERROR, 1, False) else (SNMP_ERR_INCONSISTENTVALUE, rs_new, False))
     else if rs_old = Some 1 \<and> \<not> can_deactivate cb then (SNMP_ERR_INCONSISTENTVALUE, rs_new, False)
     else if rs_new \<noteq> 6 then (SNMP_ERR_NOERROR, if can_activate cb then 2 else 3, False)
     else if \<not> can_delete cb then (SNMP_ERR_INCONSISTENTVALUE, rs_new, False)
     else (SNMP_ERR_NOERROR, rs_new, True))"

text \<open>Tables of the agent answer yes to each.\<close>

definition always :: row_methods where
  "always = \<lparr>can_activate = True, can_deactivate = True, can_delete = True\<rparr>"

lemma check_row_status_always:
  "check_row_status always rs old = (0, if rs = 4 \<or> rs = 1 then 1 else if rs = 6 then 6 else 2, rs = 6)"
  by (simp add: check_row_status_def always_def)

section \<open>Callbacks and containers\<close>

text \<open>
  What a table registers with the helper. \<open>row_index\<close> is the index at the start of a row; \<open>'w\<close> is what
  the callbacks change beside the row: files and other tables. FREE and UNDO have callbacks too,
  which do nothing in the tables of the agent; \<^verbatim>\<open>delete_row\<close> frees a row that is no longer in the
  container. \<open>insert_ok\<close> is whether there is memory for an insertion.
\<close>

record ('w, 'r) table_cb =
  row_index :: "'r \<Rightarrow> long list"
  create_row :: "long list \<Rightarrow> 'r option"
  duplicate_row :: "'r \<Rightarrow> 'r option res"
  set_reserve1 :: "'r request_group \<Rightarrow> 'r request_group res"
  set_reserve2 :: "'r request_group \<Rightarrow> 'r request_group"
  set_action :: "'w \<Rightarrow> 'r request_group \<Rightarrow> ('w \<times> 'r request_group) res"
  set_commit :: "'w \<Rightarrow> 'r list \<Rightarrow> ('w \<times> 'r list) res"
  row_copy :: "'r \<Rightarrow> 'r \<Rightarrow> (int \<times> 'r) res"
  insert_ok :: "long list \<Rightarrow> bool"

text \<open>The rows of the container in the order of their indexes.\<close>

definition cont_find :: "('w, 'r) table_cb \<Rightarrow> long list \<Rightarrow> 'r list \<Rightarrow> 'r option" where
  "cont_find cb i rs = find (\<lambda>r. row_index cb r = i) rs"

definition cont_insert :: "('w, 'r) table_cb \<Rightarrow> 'r \<Rightarrow> 'r list \<Rightarrow> 'r list" where
  "cont_insert cb r rs = insort_key (row_index cb) r rs"

definition cont_remove :: "('w, 'r) table_cb \<Rightarrow> long list \<Rightarrow> 'r list \<Rightarrow> 'r list" where
  "cont_remove cb i rs = filter (\<lambda>r. row_index cb r \<noteq> i) rs"

text \<open>A change through the pointer \<^verbatim>\<open>existing_row\<close>, which points to the row in the container unless it is new.\<close>

definition write_back :: "('w, 'r) table_cb \<Rightarrow> 'r request_group \<Rightarrow> 'r list \<Rightarrow> 'r list" where
  "write_back cb g rs = (if row_created g then rs else case existing_row g of None \<Rightarrow> rs
     | Some r' \<Rightarrow> map (\<lambda>r. if row_index cb r = rg_index g then r' else r) rs)"

section \<open>Groups\<close>

text \<open>
  \<open>ag_loose\<close> are the requests that are in no group: the ones with an error before, and the ones whose
  row could not be made. A further request for a row is put in front of the others. The
  structures of a group are taken to be allocated.
\<close>

record ('w, 'r) agent =
  ag_world :: 'w
  ag_rows :: "'r list"
  ag_groups :: "'r request_group list"
  ag_loose :: "request list"

definition new_group :: "request \<Rightarrow> 'r \<Rightarrow> bool \<Rightarrow> 'r request_group" where
  "new_group r row created = \<lparr>rg_index = index_oid r, rg_list = [r], rg_status = SNMP_ERR_NOERROR,
     existing_row = Some row, undo_info = None, row_created = created, row_deleted = False\<rparr>"

definition group_request :: "('w, 'r) table_cb \<Rightarrow> request \<Rightarrow> ('w, 'r) agent \<Rightarrow> ('w, 'r) agent" where
  "group_request cb r s =
    (if rstatus r \<noteq> 0 then s\<lparr>ag_loose := ag_loose s @ [r]\<rparr>
     else case find (\<lambda>g. rg_index g = index_oid r) (ag_groups s) of
       Some _ \<Rightarrow> s\<lparr>ag_groups := map (\<lambda>g. if rg_index g = index_oid r then g\<lparr>rg_list := r # rg_list g\<rparr> else g) (ag_groups s)\<rparr>
     | None \<Rightarrow> (case cont_find cb (index_oid r) (ag_rows s) of
         Some row \<Rightarrow> s\<lparr>ag_groups := insort_key rg_index (new_group r row False) (ag_groups s)\<rparr>
       | None \<Rightarrow> (case create_row cb (index_oid r) of
           None \<Rightarrow> s\<lparr>ag_loose := ag_loose s @ [request_set_error SNMP_ERR_GENERR r]\<rparr>
         | Some row \<Rightarrow> s\<lparr>ag_groups := insort_key rg_index (new_group r row True) (ag_groups s)\<rparr>)))"

definition group_requests :: "('w, 'r) table_cb \<Rightarrow> request list \<Rightarrow> ('w, 'r) agent \<Rightarrow> ('w, 'r) agent" where
  "group_requests cb rs s = fold (group_request cb) rs s"

section \<open>Phases\<close>

datatype set_mode = SET_BEGIN | RESERVE1 | RESERVE2 | ACTION | COMMIT | FREE | UNDO
  | FINISHED_SUCCESS | FINISHED_FAILURE

text \<open>
  The phases of one group. Freeing the copy of a row that could not be copied, in FREE and UNDO, is
  the read of a NULL pointer by \<^verbatim>\<open>delete_row\<close>. The result of copying a row back is not looked at.
\<close>

definition group_reserve1 :: "('w, 'r) table_cb \<Rightarrow> 'r request_group \<Rightarrow> 'r request_group res" where
  "group_reserve1 cb g =
    (if row_created g then set_reserve1 cb g
     else case existing_row g of
       None \<Rightarrow> Inr (group_set_error SNMP_ERR_RESOURCEUNAVAILABLE (g\<lparr>undo_info := None\<rparr>))
     | Some r \<Rightarrow> rbind (duplicate_row cb r) (\<lambda>u. let g = g\<lparr>undo_info := u\<rparr> in
         (case u of None \<Rightarrow> Inr (group_set_error SNMP_ERR_RESOURCEUNAVAILABLE g) | Some _ \<Rightarrow> set_reserve1 cb g)))"

definition group_commit ::
  "('w, 'r) table_cb \<Rightarrow> 'w \<Rightarrow> 'r list \<Rightarrow> 'r request_group \<Rightarrow> ('w \<times> 'r list \<times> 'r request_group) res" where
  "group_commit cb w rs g =
    (let fail = Inr (w, rs, group_set_error SNMP_ERR_COMMITFAILED g);
         go = (\<lambda>rs. rbind (set_commit cb w rs) (\<lambda>(w, rs). Inr (w, rs, g\<lparr>undo_info := None,
           existing_row := (if \<not> row_created g \<and> row_deleted g then None else existing_row g)\<rparr>))) in
     if \<not> row_created g then
       (if row_deleted g then
          (if cont_find cb (rg_index g) rs = None then fail else go (cont_remove cb (rg_index g) rs))
        else go rs)
     else if \<not> row_deleted g then
       (case existing_row g of None \<Rightarrow> Inl (BadPtr NULL)
        | Some r \<Rightarrow> if cont_find cb (rg_index g) rs \<noteq> None \<or> \<not> insert_ok cb (rg_index g) then fail
            else go (cont_insert cb r rs))
     else go rs)"

definition group_free :: "'r request_group \<Rightarrow> 'r request_group res" where
  "group_free g =
    (if row_created g then Inr (g\<lparr>existing_row := None\<rparr>)
     else case undo_info g of None \<Rightarrow> Inl (BadPtr NULL) | Some _ \<Rightarrow> Inr (g\<lparr>undo_info := None\<rparr>))"

definition group_undo :: "('w, 'r) table_cb \<Rightarrow> 'r list \<Rightarrow> 'r request_group \<Rightarrow> ('r list \<times> 'r request_group) res" where
  "group_undo cb rs g =
    (if row_created g then Inr (rs, g\<lparr>existing_row := None\<rparr>)
     else case (existing_row g, undo_info g) of
       (Some r, Some u) \<Rightarrow> rbind (row_copy cb r u) (\<lambda>(_, r'). let g = g\<lparr>existing_row := Some r', undo_info := None\<rparr> in
         Inr (write_back cb g rs, g))
     | _ \<Rightarrow> Inl (BadPtr NULL))"

definition process_set_group ::
  "('w, 'r) table_cb \<Rightarrow> set_mode \<Rightarrow> 'w \<Rightarrow> 'r list \<Rightarrow> 'r request_group \<Rightarrow> ('w \<times> 'r list \<times> 'r request_group) res" where
  "process_set_group cb m w rs g =
    (case m of
       RESERVE1 \<Rightarrow> rbind (group_reserve1 cb g) (\<lambda>g. Inr (w, rs, g))
     | RESERVE2 \<Rightarrow> Inr (w, rs, set_reserve2 cb g)
     | ACTION \<Rightarrow> rbind (set_action cb w g) (\<lambda>(w, g). Inr (w, write_back cb g rs, g))
     | COMMIT \<Rightarrow> group_commit cb w rs g
     | FREE \<Rightarrow> rbind (group_free g) (\<lambda>g. Inr (w, rs, g))
     | UNDO \<Rightarrow> rbind (group_undo cb rs g) (\<lambda>(rs, g). Inr (w, rs, g))
     | _ \<Rightarrow> Inr (w, rs, group_set_error SNMP_ERR_GENERR g))"

fun process_groups ::
  "('w, 'r) table_cb \<Rightarrow> set_mode \<Rightarrow> 'w \<Rightarrow> 'r list \<Rightarrow> 'r request_group list
     \<Rightarrow> ('w \<times> 'r list \<times> 'r request_group list) res" where
  "process_groups cb m w rs [] = Inr (w, rs, [])"
| "process_groups cb m w rs (g # gs) = rbind (process_set_group cb m w rs g) (\<lambda>(w, rs, g).
     rbind (process_groups cb m w rs gs) (\<lambda>(w, rs, gs). Inr (w, rs, g # gs)))"

definition process_set_requests :: "('w, 'r) table_cb \<Rightarrow> set_mode \<Rightarrow> ('w, 'r) agent \<Rightarrow> ('w, 'r) agent res" where
  "process_set_requests cb m s = rbind (process_groups cb m (ag_world s) (ag_rows s) (ag_groups s)) (\<lambda>(w, rs, gs).
     Inr (s\<lparr>ag_world := w, ag_rows := rs, ag_groups := gs\<rparr>))"

section \<open>The passes of a SET\<close>

text \<open>\<^verbatim>\<open>netsnmp_check_requests_status\<close>: the index and status of the answer so far, after a look at all requests.\<close>

definition note_status :: "int \<Rightarrow> request \<Rightarrow> nat \<times> int \<Rightarrow> nat \<times> int" where
  "note_status look_for r = (\<lambda>(i, st).
     if rstatus r \<noteq> SNMP_ERR_NOERROR \<and> (look_for = 0 \<or> rstatus r = look_for) \<and> (look_for \<noteq> 0 \<or> i = 0 \<or> rindex r < i)
     then (rindex r, rstatus r) else (i, st))"

definition all_requests :: "('w, 'r) agent \<Rightarrow> request list" where
  "all_requests s = sort_key rindex (concat (map rg_list (ag_groups s)) @ ag_loose s)"

definition check_requests_status :: "int \<Rightarrow> ('w, 'r) agent \<Rightarrow> nat \<times> int \<Rightarrow> nat \<times> int" where
  "check_requests_status look_for s = fold (note_status look_for) (all_requests s)"

text \<open>\<^verbatim>\<open>handle_var_requests\<close> for a SET on one table: the handler, then the errors it has marked.\<close>

definition handle_var_requests ::
  "('w, 'r) table_cb \<Rightarrow> set_mode \<Rightarrow> nat \<times> int \<Rightarrow> ('w, 'r) agent \<Rightarrow> ((nat \<times> int) \<times> ('w, 'r) agent) res" where
  "handle_var_requests cb m st s = rbind (process_set_requests cb m s) (\<lambda>s. Inr
    (check_requests_status (if m = COMMIT then SNMP_ERR_COMMITFAILED else if m = UNDO then SNMP_ERR_UNDOFAILED else 0) s st, s))"

text \<open>\<^verbatim>\<open>handle_set\<close>: the mode after a pass with a status.\<close>

fun next_mode :: "set_mode \<Rightarrow> int \<Rightarrow> set_mode" where
  "next_mode SET_BEGIN st = RESERVE1"
| "next_mode RESERVE1 st = (if st \<noteq> SNMP_ERR_NOERROR then FREE else RESERVE2)"
| "next_mode RESERVE2 st = (if st \<noteq> SNMP_ERR_NOERROR then FREE else ACTION)"
| "next_mode ACTION st = (if st \<noteq> SNMP_ERR_NOERROR then UNDO else COMMIT)"
| "next_mode COMMIT st = (if st \<noteq> SNMP_ERR_NOERROR then FINISHED_FAILURE else FINISHED_SUCCESS)"
| "next_mode UNDO st = FINISHED_FAILURE"
| "next_mode FREE st = FINISHED_FAILURE"
| "next_mode m st = m"

primrec mode_rank :: "set_mode \<Rightarrow> nat" where
  "mode_rank SET_BEGIN = 6"
| "mode_rank RESERVE1 = 5"
| "mode_rank RESERVE2 = 4"
| "mode_rank ACTION = 3"
| "mode_rank COMMIT = 1"
| "mode_rank FREE = 1"
| "mode_rank UNDO = 1"
| "mode_rank FINISHED_SUCCESS = 0"
| "mode_rank FINISHED_FAILURE = 0"

text \<open>The result is the status of the answer, whether the SET has succeeded, and the state.\<close>

function handle_set_loop ::
  "('w, 'r) table_cb \<Rightarrow> set_mode \<Rightarrow> nat \<times> int \<Rightarrow> ('w, 'r) agent \<Rightarrow> (int \<times> bool \<times> ('w, 'r) agent) res" where
  "handle_set_loop cb m st s =
    (let m' = next_mode m (snd st) in
     if m' = FINISHED_SUCCESS \<or> m' = FINISHED_FAILURE then Inr (snd st, m' = FINISHED_SUCCESS, s)
     else case handle_var_requests cb m' st s of Inl e \<Rightarrow> Inl e | Inr (st', s') \<Rightarrow> handle_set_loop cb m' st' s')"
  by auto

termination
proof (relation "measure (\<lambda>(_, m, _, _). mode_rank m)")
  fix cb :: "('w, 'r) table_cb" and m st s m' p st' s'
  assume "m' = next_mode m (snd st)" "\<not> (m' = FINISHED_SUCCESS \<or> m' = FINISHED_FAILURE)"
  then have "mode_rank m' < mode_rank m" by (cases m) (auto split: if_splits)
  then show "((cb, m', st', s'), cb, m, st, s) \<in> measure (\<lambda>(_, m, _, _). mode_rank m)" by simp
qed simp

text \<open>A whole SET: the requests of a PDU for one table.\<close>

definition set_pdu ::
  "('w, 'r) table_cb \<Rightarrow> 'w \<Rightarrow> 'r list \<Rightarrow> request list \<Rightarrow> (int \<times> bool \<times> ('w, 'r) agent) res" where
  "set_pdu cb w rs reqs = handle_set_loop cb SET_BEGIN (0, SNMP_ERR_NOERROR)
     (group_requests cb reqs \<lparr>ag_world = w, ag_rows = rs, ag_groups = [], ag_loose = []\<rparr>)"

section \<open>The passes as one case distinction\<close>

declare handle_set_loop.simps [simp del]

lemma handle_set_loop_step:
  assumes "handle_set_loop cb m st s = Inr x" and "next_mode m (snd st) = m'"
    and "m' \<noteq> FINISHED_SUCCESS" "m' \<noteq> FINISHED_FAILURE"
  obtains s' where "process_set_requests cb m' s = Inr s'"
    and "handle_set_loop cb m' (check_requests_status
      (if m' = COMMIT then SNMP_ERR_COMMITFAILED else if m' = UNDO then SNMP_ERR_UNDOFAILED else 0) s' st) s' = Inr x"
  using assms by (subst (asm) handle_set_loop.simps)
    (cases "process_set_requests cb m' s"; simp add: handle_var_requests_def Let_def)

lemma handle_set_loop_end:
  "handle_set_loop cb m st s = Inr x \<Longrightarrow> next_mode m (snd st) = m' \<Longrightarrow> m' = FINISHED_SUCCESS \<or> m' = FINISHED_FAILURE
   \<Longrightarrow> x = (snd st, m' = FINISHED_SUCCESS, s)"
  by (subst (asm) handle_set_loop.simps) simp

lemma note_status_0: "snd (fold (note_status k) rs p) = 0 \<Longrightarrow>
  fold (note_status k) rs p = p \<and> snd p = 0 \<and> (k = 0 \<longrightarrow> fst p = 0 \<longrightarrow> (\<forall>r\<in>set rs. rstatus r = 0))"
proof (induction rs arbitrary: p)
  case (Cons r rs)
  from Cons.prems have "snd (fold (note_status k) rs (note_status k r p)) = 0" by simp
  note f = Cons.IH [OF this]
  obtain i st where p: "p = (i, st)" by fastforce
  from f have "snd (note_status k r p) = 0" by blast
  then have n: "note_status k r p = p \<and> (k = 0 \<longrightarrow> i = 0 \<longrightarrow> rstatus r = 0)"
    unfolding p note_status_def by (simp split: if_splits)
  show ?case using f unfolding fold_Cons comp_apply conjunct1 [OF n] using n p by auto
qed simp

lemma note_status_none: "\<forall>r\<in>set rs. rstatus r = 0 \<Longrightarrow> fold (note_status k) rs p = p"
  by (induction rs arbitrary: p) (auto simp: note_status_def)

lemma check_status_0: "snd (check_requests_status k s p) = 0 \<Longrightarrow>
  check_requests_status k s p = p \<and> (k = 0 \<longrightarrow> fst p = 0 \<longrightarrow> (\<forall>r\<in>set (all_requests s). rstatus r = 0))"
  using note_status_0 [of k "all_requests s" p] by (simp add: check_requests_status_def)

text \<open>A SET that returns ends after FREE, after UNDO, after a COMMIT that failed, or with success.\<close>

lemma set_pdu_cases:
  assumes "set_pdu cb w rs reqs = Inr (st, fin, s)"
  obtains
    (free) s1 where "process_set_requests cb RESERVE1 (group_requests cb reqs \<lparr>ag_world = w, ag_rows = rs, ag_groups = [], ag_loose = []\<rparr>) = Inr s1"
      and "process_set_requests cb FREE s1 = Inr s" and "\<not> fin"
  | (free2) s1 s2 where "process_set_requests cb RESERVE1 (group_requests cb reqs \<lparr>ag_world = w, ag_rows = rs, ag_groups = [], ag_loose = []\<rparr>) = Inr s1"
      and "process_set_requests cb RESERVE2 s1 = Inr s2" and "process_set_requests cb FREE s2 = Inr s" and "\<not> fin"
  | (undo) s1 s2 s3 where "process_set_requests cb RESERVE1 (group_requests cb reqs \<lparr>ag_world = w, ag_rows = rs, ag_groups = [], ag_loose = []\<rparr>) = Inr s1"
      and "process_set_requests cb RESERVE2 s1 = Inr s2" and "process_set_requests cb ACTION s2 = Inr s3"
      and "process_set_requests cb UNDO s3 = Inr s" and "\<not> fin"
  | (commit) s1 s2 s3 where "process_set_requests cb RESERVE1 (group_requests cb reqs \<lparr>ag_world = w, ag_rows = rs, ag_groups = [], ag_loose = []\<rparr>) = Inr s1"
      and "process_set_requests cb RESERVE2 s1 = Inr s2" and "process_set_requests cb ACTION s2 = Inr s3"
      and "process_set_requests cb COMMIT s3 = Inr s" and "\<forall>r\<in>set (all_requests s3). rstatus r = 0"
      and "fin \<longleftrightarrow> snd (check_requests_status SNMP_ERR_COMMITFAILED s (0, 0)) = 0"
proof -
  let ?ck = "check_requests_status"
  from assms obtain s1 where s1: "process_set_requests cb RESERVE1 (group_requests cb reqs \<lparr>ag_world = w, ag_rows = rs, ag_groups = [], ag_loose = []\<rparr>) = Inr s1"
    and l1: "handle_set_loop cb RESERVE1 (?ck 0 s1 (0, 0)) s1 = Inr (st, fin, s)"
    unfolding set_pdu_def by (auto elim: handle_set_loop_step)
  show thesis
  proof (cases "snd (?ck 0 s1 (0, 0)) = 0")
    case False
    with l1 obtain s' where "process_set_requests cb FREE s1 = Inr s'"
      and e: "handle_set_loop cb FREE (?ck 0 s' (?ck 0 s1 (0, 0))) s' = Inr (st, fin, s)"
      by (auto elim: handle_set_loop_step)
    with s1 show thesis using free handle_set_loop_end [OF e] by simp
  next
    case True
    with l1 check_status_0 [of 0 s1 "(0, 0)"] obtain s2 where s2: "process_set_requests cb RESERVE2 s1 = Inr s2"
      and l2: "handle_set_loop cb RESERVE2 (?ck 0 s2 (0, 0)) s2 = Inr (st, fin, s)"
      by (auto elim: handle_set_loop_step)
    show thesis
    proof (cases "snd (?ck 0 s2 (0, 0)) = 0")
      case False
      with l2 obtain s' where "process_set_requests cb FREE s2 = Inr s'"
        and e: "handle_set_loop cb FREE (?ck 0 s' (?ck 0 s2 (0, 0))) s' = Inr (st, fin, s)"
        by (auto elim: handle_set_loop_step)
      with s1 s2 show thesis using free2 handle_set_loop_end [OF e] by simp
    next
      case True
      with l2 check_status_0 [of 0 s2 "(0, 0)"] obtain s3 where s3: "process_set_requests cb ACTION s2 = Inr s3"
        and l3: "handle_set_loop cb ACTION (?ck 0 s3 (0, 0)) s3 = Inr (st, fin, s)"
        by (auto elim: handle_set_loop_step)
      show thesis
      proof (cases "snd (?ck 0 s3 (0, 0)) = 0")
        case False
        with l3 obtain s' where "process_set_requests cb UNDO s3 = Inr s'"
          and e: "handle_set_loop cb UNDO (?ck 15 s' (?ck 0 s3 (0, 0))) s' = Inr (st, fin, s)"
          by (auto elim: handle_set_loop_step)
        with s1 s2 s3 show thesis using undo handle_set_loop_end [OF e] by simp
      next
        case True
        from check_status_0 [OF True] have z: "?ck 0 s3 (0, 0) = (0, 0)" "\<forall>r\<in>set (all_requests s3). rstatus r = 0" by auto
        with l3 obtain s' where s': "process_set_requests cb COMMIT s3 = Inr s'"
          and e: "handle_set_loop cb COMMIT (?ck 14 s' (0, 0)) s' = Inr (st, fin, s)"
          by (auto elim: handle_set_loop_step)
        from handle_set_loop_end [OF e] have "s' = s" "fin \<longleftrightarrow> snd (?ck 14 s (0, 0)) = 0"
          by (cases "snd (?ck 14 s' (0, 0)) = 0"; simp)+
        with s1 s2 s3 z(2) s' show thesis using commit by blast
      qed
    qed
  qed
qed

section \<open>Containers as maps\<close>

lemma cont_find_Some: "cont_find cb i rs = Some r \<Longrightarrow> r \<in> set rs \<and> row_index cb r = i"
  by (auto simp: cont_find_def find_Some_iff)

lemma cont_find_None: "cont_find cb i rs = None \<longleftrightarrow> i \<notin> row_index cb ` set rs"
  by (auto simp: cont_find_def find_None_iff)

lemma cont_find_member: "distinct (map (row_index cb) rs) \<Longrightarrow> r \<in> set rs \<Longrightarrow> cont_find cb (row_index cb r) rs = Some r"
  by (induction rs) (auto simp: cont_find_def image_iff)

lemma cont_find_insert: "cont_find cb i (cont_insert cb r rs)
  = (if row_index cb r = i \<and> cont_find cb i rs = None then Some r else cont_find cb i rs)"
  if "cont_find cb (row_index cb r) rs = None"
  using that by (induction rs) (auto simp: cont_insert_def cont_find_def split: if_splits)

lemma cont_find_remove: "cont_find cb i (cont_remove cb j rs) = (if i = j then None else cont_find cb i rs)"
  by (induction rs) (auto simp: cont_remove_def cont_find_def)

lemma distinct_map_insort: "distinct (map f (insort_key f x xs)) \<longleftrightarrow> f x \<notin> f ` set xs \<and> distinct (map f xs)"
  by (induction xs) (auto simp: set_insort_key)

section \<open>What a table owes to the helper\<close>

text \<open>
  \<open>row_ok\<close> is the well-formedness of a row and \<open>view\<close> what GET shows of it. The callbacks of the
  RESERVE phases only mark errors; ACTION writes the row of the group; the copy of a row and the row
  restored from it show what the row showed; COMMIT saves rows without changing what they show.
\<close>

locale row_table =
  fixes cb :: "('w, 'r) table_cb" and row_ok :: "'r \<Rightarrow> bool" and view :: "'r \<Rightarrow> 'v"
  assumes create: "create_row cb i = Some r \<Longrightarrow> row_ok r \<and> row_index cb r = i"
    and duplicate: "row_ok r \<Longrightarrow> duplicate_row cb r = Inr (Some u) \<Longrightarrow>
      row_ok u \<and> view u = view r \<and> row_index cb u = row_index cb r"
    and reserve1: "set_reserve1 cb g = Inr g' \<Longrightarrow> \<exists>rs st. g' = g\<lparr>rg_list := rs, rg_status := st\<rparr>"
    and reserve2: "\<exists>rs st. set_reserve2 cb g = g\<lparr>rg_list := rs, rg_status := st\<rparr>"
    and action: "existing_row g = Some r \<Longrightarrow> row_ok r \<Longrightarrow> set_action cb w g = Inr (w', g') \<Longrightarrow>
      \<exists>r' rs d. g' = g\<lparr>existing_row := Some r', rg_list := rs, row_deleted := d\<rparr>
        \<and> row_ok r' \<and> row_index cb r' = row_index cb r"
    and copy: "row_ok r \<Longrightarrow> row_ok u \<Longrightarrow> row_copy cb r u = Inr (e, r') \<Longrightarrow>
      row_ok r' \<and> view r' = view u \<and> row_index cb r' = row_index cb u"
    and commit: "set_commit cb w rs = Inr (w', rs') \<Longrightarrow>
      list_all2 (\<lambda>r r'. row_index cb r' = row_index cb r \<and> view r' = view r \<and> (row_ok r \<longrightarrow> row_ok r')) rs rs'"
begin

abbreviation index_of :: "'r \<Rightarrow> long list" where "index_of \<equiv> row_index cb"

definition sig :: "'r request_group \<Rightarrow> long list \<times> bool" where
  "sig g = (rg_index g, row_created g)"

definition touched :: "'r request_group list \<Rightarrow> long list set" where
  "touched gs = {i. (i, False) \<in> sig ` set gs}"

definition has_row :: "'r request_group \<Rightarrow> bool" where
  "has_row g \<longleftrightarrow> (\<exists>r. existing_row g = Some r \<and> row_ok r \<and> index_of r = rg_index g)"

definition armed :: "(long list \<Rightarrow> 'v) \<Rightarrow> 'r request_group \<Rightarrow> bool" where
  "armed V g \<longleftrightarrow> has_row g \<and> (\<not> row_created g \<longrightarrow>
     (\<forall>u. undo_info g = Some u \<longrightarrow> row_ok u \<and> index_of u = rg_index g \<and> view u = V (rg_index g)))"

lemma group_set_error_fields [simp]:
  "rg_index (group_set_error e g) = rg_index g" "existing_row (group_set_error e g) = existing_row g"
  "undo_info (group_set_error e g) = undo_info g" "row_created (group_set_error e g) = row_created g"
  "row_deleted (group_set_error e g) = row_deleted g"
  by (simp_all add: group_set_error_def split: list.split)

lemma reserve1_fields:
  "set_reserve1 cb g = Inr g' \<Longrightarrow> rg_index g' = rg_index g \<and> existing_row g' = existing_row g
    \<and> undo_info g' = undo_info g \<and> row_created g' = row_created g \<and> row_deleted g' = row_deleted g"
  by (drule reserve1) auto

lemma reserve_fields [simp]:
  "rg_index (set_reserve2 cb g) = rg_index g" "existing_row (set_reserve2 cb g) = existing_row g"
  "undo_info (set_reserve2 cb g) = undo_info g" "row_created (set_reserve2 cb g) = row_created g"
  "row_deleted (set_reserve2 cb g) = row_deleted g"
  using reserve2 [of g] by auto

lemma reserve1_phase:
  assumes "process_groups cb RESERVE1 w rs gs = Inr (w', rs', gs')"
    and "\<forall>g\<in>set gs. has_row g \<and> (\<forall>r. existing_row g = Some r \<longrightarrow> \<not> row_created g \<longrightarrow> view r = V (rg_index g))"
  shows "w' = w \<and> rs' = rs \<and> map sig gs' = map sig gs \<and> (\<forall>g\<in>set gs'. armed V g)
    \<and> map row_deleted gs' = map row_deleted gs"
  using assms
proof (induction gs arbitrary: w rs w' rs' gs')
  case (Cons g gs)
  from Cons.prems(1) obtain g1 gs1 where g1: "group_reserve1 cb g = Inr g1"
    and p: "process_groups cb RESERVE1 w rs gs = Inr (w', rs', gs1)" and gs': "gs' = g1 # gs1"
    by (auto simp: process_set_group_def rbind_eq_Inr)
  from Cons.prems(2) obtain r where r: "existing_row g = Some r" "row_ok r" "index_of r = rg_index g"
    "\<not> row_created g \<longrightarrow> view r = V (rg_index g)" by (auto simp: has_row_def)
  have "sig g1 = sig g \<and> armed V g1 \<and> row_deleted g1 = row_deleted g"
    using g1 r duplicate [OF r(2)]
    by (auto simp: group_reserve1_def rbind_eq_Inr Let_def sig_def armed_def has_row_def
        split: if_splits option.splits dest!: reserve1_fields)
  with Cons.IH [OF p] Cons.prems(2) gs' show ?case by simp
qed simp

lemma reserve2_phase:
  "process_groups cb RESERVE2 w rs gs = Inr (w', rs', gs') \<Longrightarrow> \<forall>g\<in>set gs. armed V g \<Longrightarrow>
   w' = w \<and> rs' = rs \<and> map sig gs' = map sig gs \<and> (\<forall>g\<in>set gs'. armed V g)
    \<and> map row_deleted gs' = map row_deleted gs"
  by (induction gs arbitrary: w rs w' rs' gs')
     (auto simp: process_set_group_def rbind_eq_Inr sig_def armed_def has_row_def)

lemma free_phase: "process_groups cb FREE w rs gs = Inr (w', rs', gs') \<Longrightarrow> w' = w \<and> rs' = rs"
  by (induction gs arbitrary: w rs w' rs' gs') (auto simp: process_set_group_def rbind_eq_Inr)

definition changes :: "long list set \<Rightarrow> 'r list \<Rightarrow> 'r list \<Rightarrow> bool" where
  "changes I = list_all2 (\<lambda>r r'. index_of r' = index_of r \<and> (index_of r \<notin> I \<longrightarrow> r' = r) \<and> (row_ok r \<longrightarrow> row_ok r'))"

lemma changes_refl: "changes I rs rs"
  by (simp add: changes_def list_all2_same)

lemma changes_trans: "changes I xs ys \<Longrightarrow> changes J ys zs \<Longrightarrow> I \<subseteq> K \<Longrightarrow> J \<subseteq> K \<Longrightarrow> changes K xs zs"
  unfolding changes_def by (erule (1) list_all2_trans [rotated]) (metis subsetD)

lemma write_back_changes:
  "has_row g \<Longrightarrow> touched [g] \<subseteq> I \<Longrightarrow> changes I rs (write_back cb g rs)"
proof (cases "row_created g")
  case False
  assume "has_row g" "touched [g] \<subseteq> I"
  then obtain r where "existing_row g = Some r" "row_ok r" "index_of r = rg_index g" "rg_index g \<in> I"
    using False by (auto simp: has_row_def touched_def sig_def)
  with False show ?thesis
    by (simp add: write_back_def changes_def list_all2_map2 list_all2_same)
qed (simp add: write_back_def changes_refl)

lemma touched_Cons: "touched (g # gs) = touched [g] \<union> touched gs"
  by (auto simp: touched_def)

lemma touched_cong: "map sig gs = map sig gs' \<Longrightarrow> touched gs = touched gs'"
  unfolding touched_def by (drule arg_cong [of _ _ set]) simp

lemma action_phase:
  assumes "process_groups cb ACTION w rs gs = Inr (w', rs', gs')" and "\<forall>g\<in>set gs. armed V g"
  shows "map sig gs' = map sig gs \<and> (\<forall>g\<in>set gs'. armed V g) \<and> changes (touched gs) rs rs'"
  using assms
proof (induction gs arbitrary: w rs w' rs' gs')
  case Nil
  then show ?case by (simp add: changes_refl)
next
  case (Cons g gs)
  from Cons.prems(1) obtain w1 g1 gs1 where g1: "set_action cb w g = Inr (w1, g1)"
    and p: "process_groups cb ACTION w1 (write_back cb g1 rs) gs = Inr (w', rs', gs1)" and gs': "gs' = g1 # gs1"
    by (auto simp: process_set_group_def rbind_eq_Inr)
  from Cons.prems(2) obtain r where r: "existing_row g = Some r" "row_ok r" "index_of r = rg_index g"
    by (auto simp: armed_def has_row_def)
  from action [OF r(1,2) g1] Cons.prems(2) r(3)
  have a: "sig g1 = sig g \<and> armed V g1" by (auto simp: sig_def armed_def has_row_def)
  then have "touched [g1] = touched [g]" "has_row g1" by (auto simp: touched_def armed_def)
  then have "changes (touched [g]) rs (write_back cb g1 rs)" using write_back_changes by blast
  moreover from Cons.IH [OF p] Cons.prems(2) have "changes (touched gs) (write_back cb g1 rs) rs'" by simp
  ultimately have "changes (touched (g # gs)) rs rs'" by (rule changes_trans) (subst touched_Cons, blast)+
  with a Cons.IH [OF p] Cons.prems(2) gs' show ?case by simp
qed

definition restored :: "(long list \<Rightarrow> 'v) \<Rightarrow> long list set \<Rightarrow> 'r list \<Rightarrow> 'r list \<Rightarrow> bool" where
  "restored V I = list_all2 (\<lambda>r r'. index_of r' = index_of r
     \<and> (if index_of r \<in> I then view r' = V (index_of r) else r' = r) \<and> (row_ok r \<longrightarrow> row_ok r'))"

lemma restored_trans: "restored V I xs ys \<Longrightarrow> restored V J ys zs \<Longrightarrow> restored V (I \<union> J) xs zs"
  unfolding restored_def by (erule (1) list_all2_trans [rotated]) (auto split: if_splits)

lemma write_back_restores:
  assumes "\<not> row_created g" "existing_row g = Some r" "row_ok r" "index_of r = rg_index g" "view r = V (rg_index g)"
  shows "restored V (touched [g]) rs (write_back cb g rs)"
proof -
  have "touched [g] = {rg_index g}" using assms(1) by (auto simp: touched_def sig_def)
  with assms show ?thesis by (simp add: write_back_def restored_def list_all2_map2 list_all2_same)
qed

lemma undo_phase:
  assumes "process_groups cb UNDO w rs gs = Inr (w', rs', gs')" and "\<forall>g\<in>set gs. armed V g"
  shows "w' = w \<and> restored V (touched gs) rs rs'"
  using assms
proof (induction gs arbitrary: w rs w' rs' gs')
  case Nil
  then show ?case by (simp add: touched_def restored_def list_all2_same)
next
  case (Cons g gs)
  from Cons.prems(1) obtain rs1 g1 gs1 where g1: "group_undo cb rs g = Inr (rs1, g1)"
    and p: "process_groups cb UNDO w rs1 gs = Inr (w', rs', gs1)"
    by (auto simp: process_set_group_def rbind_eq_Inr)
  have "restored V (touched [g]) rs rs1"
  proof (cases "row_created g")
    case True
    with g1 show ?thesis by (simp add: group_undo_def touched_def sig_def restored_def list_all2_same)
  next
    case False
    with g1 obtain r u e r' where r: "existing_row g = Some r" "undo_info g = Some u" "row_copy cb r u = Inr (e, r')"
      "rs1 = write_back cb (g\<lparr>existing_row := Some r', undo_info := None\<rparr>) rs"
      by (auto simp: group_undo_def rbind_eq_Inr Let_def split: option.splits)
    with Cons.prems(2) False have "row_ok r" "row_ok u" "index_of u = rg_index g" "view u = V (rg_index g)"
      by (auto simp: armed_def has_row_def)
    with copy [OF _ _ r(3)] have "restored V (touched [g\<lparr>existing_row := Some r', undo_info := None\<rparr>]) rs rs1"
      unfolding r(4) using False by (intro write_back_restores [where r = r']) simp_all
    then show ?thesis by (simp add: touched_def sig_def)
  qed
  with Cons.IH [OF p] Cons.prems(2) have "w' = w \<and> restored V (touched [g] \<union> touched gs) rs rs'"
    using restored_trans by simp
  then show ?case by (subst touched_Cons)
qed

text \<open>Grouping leaves the rows, and gives every row named in a request that is well-formed one group.\<close>

definition start_group :: "'r list \<Rightarrow> long list set \<Rightarrow> 'r request_group \<Rightarrow> bool" where
  "start_group rs I g \<longleftrightarrow> has_row g \<and> \<not> row_deleted g \<and> rg_index g \<in> I
     \<and> (if row_created g then rg_index g \<notin> index_of ` set rs else the (existing_row g) \<in> set rs)"

definition started :: "'r list \<Rightarrow> long list set \<Rightarrow> ('w, 'r) agent \<Rightarrow> bool" where
  "started rs I s \<longleftrightarrow> ag_rows s = rs \<and> distinct (map rg_index (ag_groups s)) \<and> (\<forall>g\<in>set (ag_groups s). start_group rs I g)"

lemma start_group_rg_list [simp]: "start_group rs I (g\<lparr>rg_list := l\<rparr>) = start_group rs I g"
  by (simp add: start_group_def has_row_def)

lemma start_group_mono: "start_group rs I g \<Longrightarrow> I \<subseteq> J \<Longrightarrow> start_group rs J g"
  by (auto simp: start_group_def)

lemma started_mono: "started rs I s \<Longrightarrow> I \<subseteq> J \<Longrightarrow> started rs J s"
  using start_group_mono by (auto simp: started_def)

lemma started_group_request:
  assumes "\<forall>r\<in>set rs. row_ok r" and "started rs I s"
  shows "started rs (insert (index_oid r) I) (group_request cb r s) \<and> ag_world (group_request cb r s) = ag_world s"
proof -
  have s: "started rs (insert (index_oid r) I) s" using started_mono [OF assms(2)] by blast
  show ?thesis
  proof (cases "rstatus r \<noteq> 0 \<or> find (\<lambda>g. rg_index g = index_oid r) (ag_groups s) \<noteq> None")
    case True
    let ?f = "\<lambda>g. if rg_index g = index_oid r then g\<lparr>rg_list := r # rg_list g\<rparr> else g"
    have "group_request cb r s = s\<lparr>ag_loose := ag_loose s @ [r]\<rparr> \<or> group_request cb r s = s\<lparr>ag_groups := map ?f (ag_groups s)\<rparr>"
      using True by (auto simp: group_request_def split: option.split)
    moreover have "started rs (insert (index_oid r) I) (s\<lparr>ag_groups := map ?f (ag_groups s)\<rparr>)"
      using s by (auto simp: started_def comp_def if_distrib cong: if_cong)
    ultimately show ?thesis using s by (auto simp: started_def)
  next
    case False
    then have n: "index_oid r \<notin> rg_index ` set (ag_groups s)" by (auto simp: find_None_iff)
    have new: "started rs (insert (index_oid r) I) (s\<lparr>ag_groups := insort_key rg_index (new_group r row c) (ag_groups s)\<rparr>)"
      if "row_ok row" "index_of row = index_oid r" "if c then index_oid r \<notin> index_of ` set rs else row \<in> set rs" for row c
    proof -
      have "start_group rs (insert (index_oid r) I) (new_group r row c)"
        using that by (simp add: start_group_def new_group_def has_row_def)
      moreover have "rg_index (new_group r row c) = index_oid r" by (simp add: new_group_def)
      ultimately show ?thesis using s n by (simp add: started_def distinct_map_insort set_insort_key)
    qed
    have rows: "ag_rows s = rs" using s by (simp add: started_def)
    show ?thesis
    proof (cases "cont_find cb (index_oid r) rs")
      case None
      show ?thesis
      proof (cases "create_row cb (index_oid r)")
        case (Some row)
        with None False rows have "group_request cb r s = s\<lparr>ag_groups := insort_key rg_index (new_group r row True) (ag_groups s)\<rparr>"
          by (auto simp: group_request_def)
        with create [OF Some] new [of row True] None show ?thesis by (simp add: cont_find_None)
      qed (use None False rows s in \<open>simp add: group_request_def started_def\<close>)
    next
      case (Some row)
      with False rows have "group_request cb r s = s\<lparr>ag_groups := insort_key rg_index (new_group r row False) (ag_groups s)\<rparr>"
        by (auto simp: group_request_def)
      with new [of row False] cont_find_Some [OF Some] assms(1) show ?thesis by simp
    qed
  qed
qed

lemma started_group_requests:
  "\<forall>r\<in>set rs. row_ok r \<Longrightarrow> started rs I s \<Longrightarrow>
   started rs (index_oid ` set reqs \<union> I) (group_requests cb reqs s) \<and> ag_world (group_requests cb reqs s) = ag_world s"
proof (induction reqs arbitrary: s I)
  case (Cons r reqs)
  from Cons.IH [OF Cons.prems(1) conjunct1 [OF started_group_request [OF Cons.prems, of r]]]
    started_group_request [OF Cons.prems, of r]
  show ?case by (simp add: group_requests_def)
qed (simp add: group_requests_def)

text \<open>What a table shows: the index and the view of each row, and the view of the row with an index.\<close>

definition shows_rows :: "'r list \<Rightarrow> (long list \<times> 'v) list" where
  "shows_rows rs = map (\<lambda>r. (index_of r, view r)) rs"

definition row_view :: "long list \<Rightarrow> 'r list \<Rightarrow> 'v option" where
  "row_view i rs = map_option view (cont_find cb i rs)"

lemma row_view_shows: "row_view i rs = map_of (shows_rows rs) i"
  by (induction rs) (auto simp: row_view_def shows_rows_def cont_find_def)

lemma index_shows: "map index_of rs = map fst (shows_rows rs)"
  by (simp add: shows_rows_def)

lemma commit_shows: "set_commit cb w rs = Inr (w', rs') \<Longrightarrow> shows_rows rs' = shows_rows rs"
  unfolding shows_rows_def by (drule commit, induction rule: list_all2_induct) auto

lemma commit_row_view: "set_commit cb w rs = Inr (w', rs') \<Longrightarrow> row_view i rs' = row_view i rs"
  by (simp add: row_view_shows commit_shows)

lemma commit_indexes: "set_commit cb w rs = Inr (w', rs') \<Longrightarrow> index_of ` set rs' = index_of ` set rs"
  by (metis commit_shows index_shows set_map)

lemma commit_keeps_rows: "set_commit cb w rs = Inr (w', rs') \<Longrightarrow>
  \<forall>r\<in>set rs. row_ok r \<and> P (index_of r) (view r) \<Longrightarrow> \<forall>r\<in>set rs'. row_ok r \<and> P (index_of r) (view r)"
  by (drule commit) (auto simp: list_all2_conv_all_nth all_set_conv_all_nth)

lemma group_commit_cases:
  assumes "group_commit cb w rs g = Inr (w', rs', g')" and "has_row g"
  obtains (failed) "rs' = rs" and "g' = group_set_error SNMP_ERR_COMMITFAILED g"
      and "if row_created g then \<not> row_deleted g \<and> (rg_index g \<in> index_of ` set rs \<or> \<not> insert_ok cb (rg_index g))
        else row_deleted g \<and> rg_index g \<notin> index_of ` set rs"
    | (same) "set_commit cb w rs = Inr (w', rs')" and "rg_list g' = rg_list g" and "row_created g = row_deleted g"
    | (removed) "set_commit cb w (cont_remove cb (rg_index g) rs) = Inr (w', rs')" and "rg_list g' = rg_list g"
      and "\<not> row_created g" and "row_deleted g"
    | (inserted) r where "set_commit cb w (cont_insert cb r rs) = Inr (w', rs')" and "rg_list g' = rg_list g"
      and "row_created g" and "\<not> row_deleted g" and "existing_row g = Some r" and "row_ok r"
      and "index_of r = rg_index g" and "cont_find cb (rg_index g) rs = None"
proof -
  from assms(2) obtain r where r: "existing_row g = Some r" "row_ok r" "index_of r = rg_index g"
    by (auto simp: has_row_def)
  show thesis
  proof (cases "row_created g"; cases "row_deleted g")
    assume c: "row_created g" "row_deleted g"
    with assms(1) show thesis using same by (auto simp: group_commit_def rbind_eq_Inr Let_def)
  next
    assume c: "row_created g" "\<not> row_deleted g"
    show thesis
    proof (cases "cont_find cb (rg_index g) rs = None \<and> insert_ok cb (rg_index g)")
      case True
      with assms(1) c r show thesis using inserted [of r] by (auto simp: group_commit_def rbind_eq_Inr Let_def)
    next
      case False
      with assms(1) c r show thesis using failed by (auto simp: group_commit_def Let_def cont_find_None split: if_splits)
    qed
  next
    assume c: "\<not> row_created g" "row_deleted g"
    show thesis
    proof (cases "cont_find cb (rg_index g) rs")
      case None
      with assms(1) c show thesis using failed by (auto simp: group_commit_def Let_def cont_find_None)
    next
      case (Some x)
      with assms(1) c show thesis using removed by (auto simp: group_commit_def rbind_eq_Inr Let_def)
    qed
  next
    assume c: "\<not> row_created g" "\<not> row_deleted g"
    with assms(1) show thesis using same by (auto simp: group_commit_def rbind_eq_Inr Let_def)
  qed
qed

lemma commit_others:
  "process_groups cb COMMIT w rs gs = Inr (w', rs', gs') \<Longrightarrow> \<forall>g\<in>set gs. has_row g \<Longrightarrow>
   i \<notin> rg_index ` set gs \<Longrightarrow> row_view i rs' = row_view i rs"
proof (induction gs arbitrary: w rs w' rs' gs')
  case (Cons g gs)
  from Cons.prems(1) obtain w1 rs1 g1 gs1 where g1: "group_commit cb w rs g = Inr (w1, rs1, g1)"
    and p: "process_groups cb COMMIT w1 rs1 gs = Inr (w', rs', gs1)"
    by (auto simp: process_set_group_def rbind_eq_Inr)
  from Cons.prems have "has_row g" "i \<noteq> rg_index g" by simp_all
  with g1 have "row_view i rs1 = row_view i rs"
    by (cases rule: group_commit_cases)
       (simp_all add: commit_row_view, simp_all add: row_view_def cont_find_remove cont_find_insert)
  with Cons.IH [OF p] Cons.prems show ?case by simp
qed simp

lemma commit_no_failure:
  "process_groups cb COMMIT w rs gs = Inr (w', rs', gs') \<Longrightarrow> \<forall>g\<in>set gs. has_row g \<Longrightarrow>
   \<forall>i. insert_ok cb i \<Longrightarrow> distinct (map rg_index gs) \<Longrightarrow>
   \<forall>g\<in>set gs. rg_index g \<in> index_of ` set rs \<longleftrightarrow> \<not> row_created g \<Longrightarrow> map rg_list gs' = map rg_list gs"
proof (induction gs arbitrary: w rs w' rs' gs')
  case (Cons g gs)
  from Cons.prems(1) obtain w1 rs1 g1 gs1 where g1: "group_commit cb w rs g = Inr (w1, rs1, g1)"
    and p: "process_groups cb COMMIT w1 rs1 gs = Inr (w', rs', gs1)" and gs': "gs' = g1 # gs1"
    by (auto simp: process_set_group_def rbind_eq_Inr)
  from Cons.prems(2) have h: "has_row g" by simp
  have "rg_list g1 = rg_list g \<and> (\<forall>j. j \<noteq> rg_index g \<longrightarrow> (j \<in> index_of ` set rs1 \<longleftrightarrow> j \<in> index_of ` set rs))"
    using g1 h Cons.prems(3,5)
    by (cases rule: group_commit_cases)
       (auto simp: commit_indexes cont_insert_def cont_remove_def set_insort_key split: if_splits)
  moreover have "\<forall>g'\<in>set gs. rg_index g' \<noteq> rg_index g" using Cons.prems(4) by simp (metis image_eqI)
  ultimately show ?case using Cons.IH [OF p] Cons.prems gs' by simp
qed simp

lemma process_set_requestsE:
  assumes "process_set_requests cb m s = Inr s'"
  obtains "process_groups cb m (ag_world s) (ag_rows s) (ag_groups s) = Inr (ag_world s', ag_rows s', ag_groups s')" and "ag_loose s' = ag_loose s"
  using assms by (auto simp: process_set_requests_def rbind_eq_Inr)

definition initial_view :: "'r list \<Rightarrow> long list \<Rightarrow> 'v" where
  "initial_view rs i = view (the (cont_find cb i rs))"

abbreviation table_ok :: "'r list \<Rightarrow> bool" where
  "table_ok rs \<equiv> distinct (map index_of rs) \<and> (\<forall>r\<in>set rs. row_ok r)"

text \<open>The state when all groups have passed RESERVE1, and when they have passed both.\<close>

definition reserved :: "'r list \<Rightarrow> request list \<Rightarrow> ('w, 'r) agent \<Rightarrow> bool" where
  "reserved rs reqs s \<longleftrightarrow> ag_rows s = rs \<and> distinct (map rg_index (ag_groups s)) \<and> (\<forall>g\<in>set (ag_groups s).
     armed (initial_view rs) g \<and> \<not> row_deleted g \<and> rg_index g \<in> index_oid ` set reqs
     \<and> (rg_index g \<in> index_of ` set rs \<longleftrightarrow> \<not> row_created g))"

lemma sig_transfer:
  assumes "map sig gs' = map sig gs"
  shows "map rg_index gs' = map rg_index gs"
    and "\<forall>g\<in>set gs. P (rg_index g) (row_created g) \<Longrightarrow> \<forall>g\<in>set gs'. P (rg_index g) (row_created g)"
    and "map row_deleted gs' = map row_deleted gs \<Longrightarrow> \<forall>g\<in>set gs. \<not> row_deleted g \<Longrightarrow> \<forall>g\<in>set gs'. \<not> row_deleted g"
proof -
  from assms have l: "length gs' = length gs" by (metis length_map)
  from assms l have n: "sig (gs' ! i) = sig (gs ! i)" if "i < length gs" for i using that by (metis nth_map)
  show "map rg_index gs' = map rg_index gs" using l n by (auto simp: list_eq_iff_nth_eq sig_def)
  show "\<forall>g\<in>set gs'. P (rg_index g) (row_created g)" if "\<forall>g\<in>set gs. P (rg_index g) (row_created g)"
    using that l n by (auto simp: all_set_conv_all_nth sig_def)
  show "\<forall>g\<in>set gs'. \<not> row_deleted g" if "map row_deleted gs' = map row_deleted gs" "\<forall>g\<in>set gs. \<not> row_deleted g"
    using that l by (auto simp: all_set_conv_all_nth list_eq_iff_nth_eq)
qed

lemma reserved_cong:
  assumes "reserved rs reqs s" and "ag_rows s' = rs" and "map sig (ag_groups s') = map sig (ag_groups s)"
    and "\<forall>g\<in>set (ag_groups s'). armed (initial_view rs) g" and "map row_deleted (ag_groups s') = map row_deleted (ag_groups s)"
  shows "reserved rs reqs s'"
proof -
  have "\<forall>g\<in>set (ag_groups s'). rg_index g \<in> index_oid ` set reqs \<and> (rg_index g \<in> index_of ` set rs \<longleftrightarrow> \<not> row_created g)"
    by (rule sig_transfer(2) [OF assms(3)]) (use assms(1) in \<open>simp add: reserved_def\<close>)
  moreover have "\<forall>g\<in>set (ag_groups s'). \<not> row_deleted g"
    by (rule sig_transfer(3) [OF assms(3,5)]) (use assms(1) in \<open>simp add: reserved_def\<close>)
  ultimately show ?thesis using assms sig_transfer(1) [OF assms(3)] by (simp add: reserved_def)
qed

lemma start_group_facts:
  assumes "table_ok rs" and "start_group rs I g"
  shows "has_row g \<and> (\<forall>r. existing_row g = Some r \<longrightarrow> \<not> row_created g \<longrightarrow> view r = initial_view rs (rg_index g))
    \<and> \<not> row_deleted g \<and> rg_index g \<in> I \<and> (rg_index g \<in> index_of ` set rs \<longleftrightarrow> \<not> row_created g)"
proof -
  from assms(2) obtain r where r: "existing_row g = Some r" "index_of r = rg_index g" "has_row g"
    by (auto simp: start_group_def has_row_def)
  show ?thesis
  proof (cases "row_created g")
    case False
    with assms r have "r \<in> set rs" by (simp add: start_group_def)
    moreover from this have "rg_index g \<in> index_of ` set rs" using r(2) by (metis imageI)
    ultimately show ?thesis using cont_find_member [of cb rs r] assms r False
      by (simp add: start_group_def initial_view_def)
  qed (use assms r in \<open>simp add: start_group_def\<close>)
qed

lemma reserve1_reserved:
  assumes ok: "table_ok rs"
    and p: "process_set_requests cb RESERVE1 (group_requests cb reqs \<lparr>ag_world = w, ag_rows = rs, ag_groups = [], ag_loose = []\<rparr>) = Inr s"
  shows "reserved rs reqs s \<and> ag_world s = w"
proof -
  let ?s0 = "group_requests cb reqs \<lparr>ag_world = w, ag_rows = rs, ag_groups = [], ag_loose = []\<rparr>"
  have st: "started rs (index_oid ` set reqs) ?s0 \<and> ag_world ?s0 = w"
    using started_group_requests [of rs "{}" "\<lparr>ag_world = w, ag_rows = rs, ag_groups = [], ag_loose = []\<rparr>" reqs] ok
    by (simp add: started_def)
  have g: "has_row g \<and> (\<forall>r. existing_row g = Some r \<longrightarrow> \<not> row_created g \<longrightarrow> view r = initial_view rs (rg_index g))"
    "\<not> row_deleted g" "rg_index g \<in> index_oid ` set reqs" "rg_index g \<in> index_of ` set rs \<longleftrightarrow> \<not> row_created g"
    if "g \<in> set (ag_groups ?s0)" for g
    using st that start_group_facts [OF ok, of "index_oid ` set reqs" g] by (auto simp: started_def)
  from p obtain "process_groups cb RESERVE1 (ag_world ?s0) (ag_rows ?s0) (ag_groups ?s0) = Inr (ag_world s, ag_rows s, ag_groups s)"
    by (rule process_set_requestsE)
  note r = reserve1_phase [OF this, of "initial_view rs"]
  have all: "\<forall>g\<in>set (ag_groups ?s0). has_row g \<and> (\<forall>r. existing_row g = Some r \<longrightarrow> \<not> row_created g \<longrightarrow> view r = initial_view rs (rg_index g))"
    using g(1) by blast
  note r = r [OF all]
  have "\<forall>g\<in>set (ag_groups s). rg_index g \<in> index_oid ` set reqs \<and> (rg_index g \<in> index_of ` set rs \<longleftrightarrow> \<not> row_created g)"
    by (rule sig_transfer(2) [of "ag_groups s" "ag_groups ?s0"]) (use r g(3,4) in \<open>blast+\<close>)
  moreover have "\<forall>g\<in>set (ag_groups s). \<not> row_deleted g"
    by (rule sig_transfer(3) [of "ag_groups s" "ag_groups ?s0"]) (use r g(2) in \<open>blast+\<close>)
  ultimately show ?thesis using r st sig_transfer(1) [of "ag_groups s" "ag_groups ?s0"] by (simp add: reserved_def started_def)
qed

lemma reserve2_reserved:
  assumes "reserved rs reqs s" and "process_set_requests cb RESERVE2 s = Inr s'"
  shows "reserved rs reqs s' \<and> ag_world s' = ag_world s"
proof -
  from assms(2) obtain "process_groups cb RESERVE2 (ag_world s) (ag_rows s) (ag_groups s) = Inr (ag_world s', ag_rows s', ag_groups s')"
    by (rule process_set_requestsE)
  from reserve2_phase [OF this, of "initial_view rs"] assms(1)
  have "ag_world s' = ag_world s \<and> ag_rows s' = rs \<and> map sig (ag_groups s') = map sig (ag_groups s)
    \<and> (\<forall>g\<in>set (ag_groups s'). armed (initial_view rs) g) \<and> map row_deleted (ag_groups s') = map row_deleted (ag_groups s)"
    by (auto simp: reserved_def)
  with reserved_cong [OF assms(1)] show ?thesis by blast
qed

lemma free_rows: "process_set_requests cb FREE s = Inr s' \<Longrightarrow> ag_rows s' = ag_rows s \<and> ag_world s' = ag_world s"
  by (elim process_set_requestsE) (drule free_phase, simp)

definition acted :: "'r list \<Rightarrow> request list \<Rightarrow> ('w, 'r) agent \<Rightarrow> bool" where
  "acted rs reqs s \<longleftrightarrow> changes (touched (ag_groups s)) rs (ag_rows s) \<and> distinct (map rg_index (ag_groups s))
     \<and> (\<forall>g\<in>set (ag_groups s). armed (initial_view rs) g \<and> rg_index g \<in> index_oid ` set reqs
          \<and> (rg_index g \<in> index_of ` set rs \<longleftrightarrow> \<not> row_created g))"

lemma action_acted:
  assumes "reserved rs reqs s" and "process_set_requests cb ACTION s = Inr s'"
  shows "acted rs reqs s'"
proof -
  from assms(2) obtain "process_groups cb ACTION (ag_world s) (ag_rows s) (ag_groups s) = Inr (ag_world s', ag_rows s', ag_groups s')"
    by (rule process_set_requestsE)
  from action_phase [OF this, of "initial_view rs"] assms(1)
  have a: "map sig (ag_groups s') = map sig (ag_groups s)" "\<forall>g\<in>set (ag_groups s'). armed (initial_view rs) g"
    "changes (touched (ag_groups s)) rs (ag_rows s')" by (simp_all add: reserved_def)
  have "\<forall>g\<in>set (ag_groups s'). rg_index g \<in> index_oid ` set reqs \<and> (rg_index g \<in> index_of ` set rs \<longleftrightarrow> \<not> row_created g)"
    by (rule sig_transfer(2) [OF a(1)]) (use assms(1) in \<open>simp add: reserved_def\<close>)
  then show ?thesis
    using a assms(1) sig_transfer(1) [OF a(1)] touched_cong [OF a(1)] by (simp add: acted_def reserved_def)
qed

lemma changes_index: "changes I rs rs' \<Longrightarrow> map index_of rs' = map index_of rs"
  unfolding changes_def by (induction rule: list_all2_induct) auto

lemma changes_row_view: "changes I rs rs' \<Longrightarrow> i \<notin> I \<Longrightarrow> row_view i rs' = row_view i rs"
  unfolding changes_def row_view_def cont_find_def by (induction rule: list_all2_induct) auto

lemma undo_shows:
  assumes ok: "table_ok rs" and a: "acted rs reqs s" and u: "process_set_requests cb UNDO s = Inr s'"
  shows "shows_rows (ag_rows s') = shows_rows rs"
proof -
  from u obtain "process_groups cb UNDO (ag_world s) (ag_rows s) (ag_groups s) = Inr (ag_world s', ag_rows s', ag_groups s')"
    by (rule process_set_requestsE)
  with a have r: "restored (initial_view rs) (touched (ag_groups s)) (ag_rows s) (ag_rows s')"
    using undo_phase by (simp add: acted_def)
  have c: "changes (touched (ag_groups s)) rs (ag_rows s)" using a by (simp add: acted_def)
  have v: "\<forall>r\<in>set rs. initial_view rs (index_of r) = view r"
    using ok cont_find_member [of cb rs] by (simp add: initial_view_def)
  from c r have "list_all2 (\<lambda>r r'. index_of r' = index_of r \<and> (if index_of r \<in> touched (ag_groups s)
      then view r' = initial_view rs (index_of r) else r' = r)) rs (ag_rows s')"
    unfolding changes_def restored_def by (rule list_all2_trans [rotated]) (auto split: if_splits)
  with v show ?thesis
    unfolding shows_rows_def by (auto simp: list_all2_conv_all_nth list_eq_iff_nth_eq all_set_conv_all_nth split: if_splits)
qed

text \<open>A SET that fails changes nothing a GET can show; a SET never changes a row it does not name.\<close>

theorem atomic:
  assumes ok: "table_ok rs" and mem: "\<forall>i. insert_ok cb i" and p: "set_pdu cb w rs reqs = Inr (st, False, s)"
  shows "shows_rows (ag_rows s) = shows_rows rs"
  using p
proof (cases rule: set_pdu_cases)
  case (free s1)
  with reserve1_reserved [OF ok free(1)] free_rows [OF free(2)] show ?thesis by (simp add: reserved_def)
next
  case (free2 s1 s2)
  with reserve2_reserved [OF conjunct1 [OF reserve1_reserved [OF ok free2(1)]] free2(2)] free_rows [OF free2(3)]
  show ?thesis by (simp add: reserved_def)
next
  case (undo s1 s2 s3)
  have "reserved rs reqs s2"
    using reserve2_reserved [OF conjunct1 [OF reserve1_reserved [OF ok undo(1)]] undo(2)] by blast
  from undo_shows [OF ok action_acted [OF this undo(3)] undo(4)] show ?thesis .
next
  case (commit s1 s2 s3)
  have "reserved rs reqs s2"
    using reserve2_reserved [OF conjunct1 [OF reserve1_reserved [OF ok commit(1)]] commit(2)] by blast
  note a = action_acted [OF this commit(3)]
  from commit(4) have g: "process_groups cb COMMIT (ag_world s3) (ag_rows s3) (ag_groups s3) = Inr (ag_world s, ag_rows s, ag_groups s)"
    and l: "ag_loose s = ag_loose s3" by (auto elim: process_set_requestsE)
  have "index_of ` set (ag_rows s3) = index_of ` set rs"
    using changes_index [of _ rs "ag_rows s3"] a unfolding acted_def by (metis set_map)
  with a mem have "map rg_list (ag_groups s) = map rg_list (ag_groups s3)"
    by (intro commit_no_failure [OF g]) (simp_all add: acted_def armed_def)
  with l have "all_requests s = all_requests s3" by (simp add: all_requests_def)
  with commit(5) have "\<forall>r\<in>set (all_requests s). rstatus r = 0" by simp
  then have "fold (note_status k) (all_requests s) (0, 0) = (0, 0)" for k by (rule note_status_none)
  with commit(6) show ?thesis by (simp add: check_requests_status_def)
qed

theorem others_kept:
  assumes ok: "table_ok rs" and p: "set_pdu cb w rs reqs = Inr (st, fin, s)" and i: "i \<notin> index_oid ` set reqs"
  shows "row_view i (ag_rows s) = row_view i rs"
  using p
proof (cases rule: set_pdu_cases)
  case (free s1)
  with reserve1_reserved [OF ok free(1)] free_rows [OF free(2)] show ?thesis by (simp add: reserved_def)
next
  case (free2 s1 s2)
  with reserve2_reserved [OF conjunct1 [OF reserve1_reserved [OF ok free2(1)]] free2(2)] free_rows [OF free2(3)]
  show ?thesis by (simp add: reserved_def)
next
  case (undo s1 s2 s3)
  have "reserved rs reqs s2"
    using reserve2_reserved [OF conjunct1 [OF reserve1_reserved [OF ok undo(1)]] undo(2)] by blast
  from undo_shows [OF ok action_acted [OF this undo(3)] undo(4)] show ?thesis by (simp add: row_view_shows)
next
  case (commit s1 s2 s3)
  have "reserved rs reqs s2"
    using reserve2_reserved [OF conjunct1 [OF reserve1_reserved [OF ok commit(1)]] commit(2)] by blast
  note a = action_acted [OF this commit(3)]
  from commit(4) obtain g: "process_groups cb COMMIT (ag_world s3) (ag_rows s3) (ag_groups s3) = Inr (ag_world s, ag_rows s, ag_groups s)"
    by (rule process_set_requestsE)
  have n: "i \<notin> rg_index ` set (ag_groups s3)" using a i by (auto simp: acted_def)
  have "row_view i (ag_rows s) = row_view i (ag_rows s3)"
    using a n by (intro commit_others [OF g]) (simp_all add: acted_def armed_def)
  also have "\<dots> = row_view i rs"
  proof -
    have "i \<notin> touched (ag_groups s3)" using n by (auto simp: touched_def sig_def)
    moreover have "changes (touched (ag_groups s3)) rs (ag_rows s3)" using a by (simp add: acted_def)
    ultimately show ?thesis using changes_row_view by blast
  qed
  finally show ?thesis .
qed

lemma undo_ok:
  assumes ok: "table_ok rs" and a: "acted rs reqs s" and u: "process_set_requests cb UNDO s = Inr s'"
  shows "table_ok (ag_rows s')"
proof -
  from u obtain "process_groups cb UNDO (ag_world s) (ag_rows s) (ag_groups s) = Inr (ag_world s', ag_rows s', ag_groups s')"
    by (rule process_set_requestsE)
  with a have r: "restored (initial_view rs) (touched (ag_groups s)) (ag_rows s) (ag_rows s')"
    using undo_phase by (simp add: acted_def)
  have c: "changes (touched (ag_groups s)) rs (ag_rows s)" using a by (simp add: acted_def)
  from c r have "list_all2 (\<lambda>r r'. row_ok r \<longrightarrow> row_ok r') rs (ag_rows s')"
    unfolding changes_def restored_def by (rule list_all2_trans [rotated]) auto
  then have "\<forall>r\<in>set (ag_rows s'). row_ok r" using ok by (auto simp: list_all2_conv_all_nth all_set_conv_all_nth)
  moreover have "map index_of (ag_rows s') = map index_of rs"
    using undo_shows [OF assms] by (simp add: index_shows)
  ultimately show ?thesis using ok by simp
qed

text \<open>\<open>good\<close> holds of every row at rest: ACTION leaves it so, or marks the row as deleted.\<close>

definition doomed :: "'r request_group list \<Rightarrow> long list set" where
  "doomed gs = rg_index ` {g \<in> set gs. \<not> row_created g \<and> row_deleted g}"

definition settled :: "('v \<Rightarrow> bool) \<Rightarrow> long list set \<Rightarrow> 'r list \<Rightarrow> bool" where
  "settled P D rs \<longleftrightarrow> distinct (map index_of rs) \<and> (\<forall>r\<in>set rs. row_ok r \<and> (P (view r) \<or> index_of r \<in> D))"

lemma settled_commit: "set_commit cb w rs = Inr (w', rs') \<Longrightarrow> settled P D rs \<Longrightarrow> settled P D rs'"
  using commit_keeps_rows [of w rs w' rs' "\<lambda>i v. P v \<or> i \<in> D"] commit_shows [of w rs w' rs']
  by (simp add: settled_def index_shows)

lemma commit_settles:
  "process_groups cb COMMIT w rs gs = Inr (w', rs', gs') \<Longrightarrow>
   \<forall>g\<in>set gs. has_row g \<and> (row_created g \<longrightarrow> \<not> row_deleted g \<longrightarrow> P (view (the (existing_row g)))) \<Longrightarrow>
   settled P (doomed gs) rs \<Longrightarrow> settled P {} rs'"
proof (induction gs arbitrary: w rs w' rs' gs')
  case Nil
  then show ?case by (simp add: doomed_def)
next
  case (Cons g gs)
  from Cons.prems(1) obtain w1 rs1 g1 gs1 where g1: "group_commit cb w rs g = Inr (w1, rs1, g1)"
    and p: "process_groups cb COMMIT w1 rs1 gs = Inr (w', rs', gs1)"
    by (auto simp: process_set_group_def rbind_eq_Inr)
  from Cons.prems(2) have h: "has_row g" by simp
  have d: "doomed (g # gs) = (if \<not> row_created g \<and> row_deleted g then insert (rg_index g) (doomed gs) else doomed gs)"
    by (auto simp: doomed_def)
  have "settled P (doomed gs) rs1"
    using g1 h
  proof (cases rule: group_commit_cases)
    case failed
    then have "doomed (g # gs) = doomed gs \<or> (\<forall>r\<in>set rs. index_of r \<noteq> rg_index g) \<and> doomed (g # gs) = insert (rg_index g) (doomed gs)"
      using d failed(3) by (metis imageI)
    then show ?thesis using Cons.prems(3) failed(1) by (auto simp: settled_def)
  next
    case same
    then show ?thesis using Cons.prems(3) d settled_commit by (auto split: if_splits)
  next
    case removed
    have "settled P (doomed gs) (cont_remove cb (rg_index g) rs)"
      using Cons.prems(3) d removed(3,4) by (auto simp: settled_def cont_remove_def distinct_map_filter)
    with removed(1) show ?thesis by (rule settled_commit)
  next
    case (inserted r)
    have "settled P (doomed gs) (cont_insert cb r rs)"
      using Cons.prems(2,3) d inserted(3-8)
      by (auto simp: settled_def cont_insert_def distinct_map_insort set_insort_key cont_find_None)
    with inserted(1) show ?thesis by (rule settled_commit)
  qed
  with Cons.IH [OF p] Cons.prems(2) show ?case by simp
qed

end

locale governed_table = row_table cb row_ok view
  for cb :: "('w, 'r) table_cb" and row_ok :: "'r \<Rightarrow> bool" and view :: "'r \<Rightarrow> 'v" +
  fixes good :: "'v \<Rightarrow> bool"
  assumes action_good: "existing_row g = Some r \<Longrightarrow> row_ok r \<Longrightarrow> set_action cb w g = Inr (w', g') \<Longrightarrow>
    \<not> row_deleted g' \<Longrightarrow> good (view (the (existing_row g')))"
begin

lemma action_settles:
  "process_groups cb ACTION w rs gs = Inr (w', rs', gs') \<Longrightarrow> \<forall>g\<in>set gs. has_row g \<Longrightarrow> settled good D rs \<Longrightarrow>
   settled good (D \<union> doomed gs') rs'
   \<and> (\<forall>g\<in>set gs'. row_created g \<longrightarrow> \<not> row_deleted g \<longrightarrow> good (view (the (existing_row g))))"
proof (induction gs arbitrary: w rs w' rs' gs' D)
  case Nil
  then show ?case by (simp add: doomed_def)
next
  case (Cons g gs)
  from Cons.prems(1) obtain w1 g1 gs1 where g1: "set_action cb w g = Inr (w1, g1)"
    and p: "process_groups cb ACTION w1 (write_back cb g1 rs) gs = Inr (w', rs', gs1)" and gs': "gs' = g1 # gs1"
    by (auto simp: process_set_group_def rbind_eq_Inr)
  from Cons.prems(2) obtain r where r: "existing_row g = Some r" "row_ok r" "index_of r = rg_index g"
    by (auto simp: has_row_def)
  from action [OF r(1,2) g1] r(3) obtain r' where r': "existing_row g1 = Some r'" "row_ok r'" "index_of r' = rg_index g1"
    by auto
  have gd: "\<not> row_deleted g1 \<Longrightarrow> good (view r')" using action_good [OF r(1,2) g1] r'(1) by simp
  have "map index_of (write_back cb g1 rs) = map index_of rs"
    using r' by (auto simp: write_back_def)
  then have "settled good (D \<union> doomed [g1]) (write_back cb g1 rs)"
    using Cons.prems(3) r' gd by (auto simp: settled_def write_back_def doomed_def split: if_splits)
  from Cons.IH [OF p _ this] Cons.prems(2)
  have "settled good (D \<union> (doomed [g1] \<union> doomed gs1)) rs'"
    and "\<forall>g\<in>set gs1. row_created g \<longrightarrow> \<not> row_deleted g \<longrightarrow> good (view (the (existing_row g)))"
    by (simp_all add: Un_assoc)
  moreover have "doomed gs' = doomed [g1] \<union> doomed gs1" unfolding gs' by (auto simp: doomed_def)
  ultimately show ?case using gs' r'(1) gd by simp
qed

text \<open>Every SET, failed or not, leaves a well-formed table of good rows.\<close>

theorem stays_good:
  assumes ok: "table_ok rs" and good: "\<forall>r\<in>set rs. good (view r)" and p: "set_pdu cb w rs reqs = Inr (st, fin, s)"
  shows "table_ok (ag_rows s) \<and> (\<forall>r\<in>set (ag_rows s). good (view r))"
  using p
proof (cases rule: set_pdu_cases)
  case (free s1)
  with reserve1_reserved [OF ok free(1)] free_rows [OF free(2)] ok good show ?thesis by (simp add: reserved_def)
next
  case (free2 s1 s2)
  with reserve2_reserved [OF conjunct1 [OF reserve1_reserved [OF ok free2(1)]] free2(2)] free_rows [OF free2(3)] ok good
  show ?thesis by (simp add: reserved_def)
next
  case (undo s1 s2 s3)
  have "reserved rs reqs s2"
    using reserve2_reserved [OF conjunct1 [OF reserve1_reserved [OF ok undo(1)]] undo(2)] by blast
  note a = action_acted [OF this undo(3)]
  have "snd ` set (shows_rows (ag_rows s)) = snd ` set (shows_rows rs)" using undo_shows [OF ok a undo(4)] by simp
  then have "view ` set (ag_rows s) = view ` set rs" by (simp add: shows_rows_def image_image)
  with undo_ok [OF ok a undo(4)] good show ?thesis by (metis imageE imageI)
next
  case (commit s1 s2 s3)
  have r2: "reserved rs reqs s2"
    using reserve2_reserved [OF conjunct1 [OF reserve1_reserved [OF ok commit(1)]] commit(2)] by blast
  from commit(3) obtain p3: "process_groups cb ACTION (ag_world s2) (ag_rows s2) (ag_groups s2) = Inr (ag_world s3, ag_rows s3, ag_groups s3)"
    by (rule process_set_requestsE)
  have "settled good {} (ag_rows s2)" using r2 ok good by (simp add: settled_def reserved_def)
  from action_settles [OF p3 _ this] r2
  have st: "settled good (doomed (ag_groups s3)) (ag_rows s3)"
    "\<forall>g\<in>set (ag_groups s3). row_created g \<longrightarrow> \<not> row_deleted g \<longrightarrow> good (view (the (existing_row g)))"
    by (simp_all add: reserved_def armed_def)
  from commit(4) obtain g: "process_groups cb COMMIT (ag_world s3) (ag_rows s3) (ag_groups s3) = Inr (ag_world s, ag_rows s, ag_groups s)"
    by (rule process_set_requestsE)
  have "settled good {} (ag_rows s)"
    by (rule commit_settles [OF g _ st(1)]) (use action_acted [OF r2 commit(3)] st(2) in \<open>simp add: acted_def armed_def\<close>)
  then show ?thesis by (simp add: settled_def)
qed

end

end
