(* ===== verification/RbmTable.thy ===== *)
theory RbmTable
  imports TableArray
begin

text \<open>
  The policy table of the rule-based monitor (\<^verbatim>\<open>src/Group1/RBM/src/monitorPolicyTable.c\<close>): the row
  structure, the phases of an SNMP SET on it (RESERVE1, RESERVE2, ACTION, COMMIT), GET, copying a
  row, and saving and loading the table. Rows are records with the fields of the C struct, a
  byte array and its length being one field. \<^verbatim>\<open>long\<close> has 32 bits and \<^verbatim>\<open>MAX_OID_LEN\<close> is 128. The
  callbacks of the table interpret the locale of the SET helper (\<open>TableArray\<close>).
\<close>

section \<open>Rows\<close>

record monitorPolicyTable_context =
  index_oids :: "long list"
  monitorPolicyIndex :: long
  monitorPolicyID :: long
  monitorPolicyName :: octets
  monitorPolicyDescription :: octets
  monitorPolicyContructor :: octets
  monitorPolicyCreateDate :: octets
  monitorPolicyVariable1 :: octets
  monitorPolicyExpression1 :: long
  monitorPolicyValue1 :: long
  monitorPolicyOperation1 :: long
  monitorPolicyVariable2 :: octets
  monitorPolicyExpression2 :: long
  monitorPolicyValue2 :: long
  monitorPolicyOperation2 :: long
  monitorPolicyVariable3 :: octets
  monitorPolicyExpression3 :: long
  monitorPolicyValue3 :: long
  monitorPolicyOperation3 :: long
  monitorPolicyVariable4 :: octets
  monitorPolicyExpression4 :: long
  monitorPolicyValue4 :: long
  monitorPolicyOperation4 :: long
  monitorPolicyVariable5 :: octets
  monitorPolicyExpression5 :: long
  monitorPolicyValue5 :: long
  monitorPolicyLevel :: long
  monitorPolicySMS :: long
  monitorPolicyPopup :: long
  monitorPolicyEmail :: long
  monitorPolicyPSTN :: long
  monitorPolicyCommand :: octets
  monitorPolicyScript :: octets
  monitorPolicyAlertMessage :: octets
  monitorPolicyStatus :: long
  idx :: long

text \<open>
  The arrays have the sizes of the struct, an \<^verbatim>\<open>oid\<close> having four bytes, and no length exceeds its
  array.
\<close>

definition row_ok :: "monitorPolicyTable_context \<Rightarrow> bool" where
  "row_ok r \<longleftrightarrow> octets_ok 255 (monitorPolicyName r) \<and> octets_ok 255 (monitorPolicyDescription r)
   \<and> octets_ok 255 (monitorPolicyContructor r) \<and> octets_ok 128 (monitorPolicyCreateDate r)
   \<and> octets_ok 512 (monitorPolicyVariable1 r) \<and> octets_ok 512 (monitorPolicyVariable2 r)
   \<and> octets_ok 512 (monitorPolicyVariable3 r) \<and> octets_ok 512 (monitorPolicyVariable4 r)
   \<and> octets_ok 512 (monitorPolicyVariable5 r) \<and> octets_ok 255 (monitorPolicyCommand r)
   \<and> octets_ok 255 (monitorPolicyScript r) \<and> octets_ok 255 (monitorPolicyAlertMessage r)"

text \<open>The range of an expression code.\<close>

abbreviation (input) RBM_EXPR_MIN :: int where "RBM_EXPR_MIN \<equiv> 0"
abbreviation (input) RBM_EXPR_MAX :: int where "RBM_EXPR_MAX \<equiv> 5"

text \<open>Column numbers.\<close>

abbreviation (input) COLUMN_MONITORPOLICYINDEX :: int where "COLUMN_MONITORPOLICYINDEX \<equiv> 1"
abbreviation (input) COLUMN_MONITORPOLICYID :: int where "COLUMN_MONITORPOLICYID \<equiv> 2"
abbreviation (input) COLUMN_MONITORPOLICYNAME :: int where "COLUMN_MONITORPOLICYNAME \<equiv> 3"
abbreviation (input) COLUMN_MONITORPOLICYDESCRIPTION :: int where "COLUMN_MONITORPOLICYDESCRIPTION \<equiv> 4"
abbreviation (input) COLUMN_MONITORPOLICYCONTRUCTOR :: int where "COLUMN_MONITORPOLICYCONTRUCTOR \<equiv> 5"
abbreviation (input) COLUMN_MONITORPOLICYCREATEDATE :: int where "COLUMN_MONITORPOLICYCREATEDATE \<equiv> 6"
abbreviation (input) COLUMN_MONITORPOLICYVARIABLE1 :: int where "COLUMN_MONITORPOLICYVARIABLE1 \<equiv> 7"
abbreviation (input) COLUMN_MONITORPOLICYEXPRESSION1 :: int where "COLUMN_MONITORPOLICYEXPRESSION1 \<equiv> 8"
abbreviation (input) COLUMN_MONITORPOLICYVALUE1 :: int where "COLUMN_MONITORPOLICYVALUE1 \<equiv> 9"
abbreviation (input) COLUMN_MONITORPOLICYOPERATION1 :: int where "COLUMN_MONITORPOLICYOPERATION1 \<equiv> 10"
abbreviation (input) COLUMN_MONITORPOLICYVARIABLE2 :: int where "COLUMN_MONITORPOLICYVARIABLE2 \<equiv> 11"
abbreviation (input) COLUMN_MONITORPOLICYEXPRESSION2 :: int where "COLUMN_MONITORPOLICYEXPRESSION2 \<equiv> 12"
abbreviation (input) COLUMN_MONITORPOLICYVALUE2 :: int where "COLUMN_MONITORPOLICYVALUE2 \<equiv> 13"
abbreviation (input) COLUMN_MONITORPOLICYOPERATION2 :: int where "COLUMN_MONITORPOLICYOPERATION2 \<equiv> 14"
abbreviation (input) COLUMN_MONITORPOLICYVARIABLE3 :: int where "COLUMN_MONITORPOLICYVARIABLE3 \<equiv> 15"
abbreviation (input) COLUMN_MONITORPOLICYEXPRESSION3 :: int where "COLUMN_MONITORPOLICYEXPRESSION3 \<equiv> 16"
abbreviation (input) COLUMN_MONITORPOLICYVALUE3 :: int where "COLUMN_MONITORPOLICYVALUE3 \<equiv> 17"
abbreviation (input) COLUMN_MONITORPOLICYOPERATION3 :: int where "COLUMN_MONITORPOLICYOPERATION3 \<equiv> 18"
abbreviation (input) COLUMN_MONITORPOLICYVARIABLE4 :: int where "COLUMN_MONITORPOLICYVARIABLE4 \<equiv> 19"
abbreviation (input) COLUMN_MONITORPOLICYEXPRESSION4 :: int where "COLUMN_MONITORPOLICYEXPRESSION4 \<equiv> 20"
abbreviation (input) COLUMN_MONITORPOLICYVALUE4 :: int where "COLUMN_MONITORPOLICYVALUE4 \<equiv> 21"
abbreviation (input) COLUMN_MONITORPOLICYOPERATION4 :: int where "COLUMN_MONITORPOLICYOPERATION4 \<equiv> 22"
abbreviation (input) COLUMN_MONITORPOLICYVARIABLE5 :: int where "COLUMN_MONITORPOLICYVARIABLE5 \<equiv> 23"
abbreviation (input) COLUMN_MONITORPOLICYEXPRESSION5 :: int where "COLUMN_MONITORPOLICYEXPRESSION5 \<equiv> 24"
abbreviation (input) COLUMN_MONITORPOLICYVALUE5 :: int where "COLUMN_MONITORPOLICYVALUE5 \<equiv> 25"
abbreviation (input) COLUMN_MONITORPOLICYLEVEL :: int where "COLUMN_MONITORPOLICYLEVEL \<equiv> 26"
abbreviation (input) COLUMN_MONITORPOLICYSMS :: int where "COLUMN_MONITORPOLICYSMS \<equiv> 27"
abbreviation (input) COLUMN_MONITORPOLICYPOPUP :: int where "COLUMN_MONITORPOLICYPOPUP \<equiv> 28"
abbreviation (input) COLUMN_MONITORPOLICYEMAIL :: int where "COLUMN_MONITORPOLICYEMAIL \<equiv> 29"
abbreviation (input) COLUMN_MONITORPOLICYPSTN :: int where "COLUMN_MONITORPOLICYPSTN \<equiv> 30"
abbreviation (input) COLUMN_MONITORPOLICYCOMMAND :: int where "COLUMN_MONITORPOLICYCOMMAND \<equiv> 31"
abbreviation (input) COLUMN_MONITORPOLICYSCRIPT :: int where "COLUMN_MONITORPOLICYSCRIPT \<equiv> 32"
abbreviation (input) COLUMN_MONITORPOLICYALERTMESSAGE :: int where "COLUMN_MONITORPOLICYALERTMESSAGE \<equiv> 33"
abbreviation (input) COLUMN_MONITORPOLICYSTATUS :: int where "COLUMN_MONITORPOLICYSTATUS \<equiv> 34"

section \<open>RESERVE1\<close>

text \<open>
  The check of one column, in the three groups of columns of the switch. The length a string is
  checked against is its own, and the value of an expression is read whatever its type.
\<close>

definition expr_check :: "varbind \<Rightarrow> int res" where
  "expr_check var = rbind (read_long var) (\<lambda>v.
     Inr (if sint v < RBM_EXPR_MIN \<or> sint v > RBM_EXPR_MAX
      then SNMP_ERR_WRONGVALUE else check_vb_type_and_size var ASN_INTEGER 4))"

definition reserve1_identity :: "varbind \<Rightarrow> int \<Rightarrow> int option" where
  "reserve1_identity var col =
    (if col = COLUMN_MONITORPOLICYID then Some (check_vb_type_and_size var ASN_UNSIGNED 4)
     else if col = COLUMN_MONITORPOLICYNAME then Some (check_vb_type_and_size var ASN_OCTET_STR (val_len var))
     else if col = COLUMN_MONITORPOLICYDESCRIPTION then Some (check_vb_type_and_size var ASN_OCTET_STR (val_len var))
     else if col = COLUMN_MONITORPOLICYCONTRUCTOR then Some (check_vb_type_and_size var ASN_OCTET_STR (val_len var))
     else if col = COLUMN_MONITORPOLICYCREATEDATE then Some (check_vb_type_and_size var ASN_OCTET_STR (val_len var))
     else None)"

definition reserve1_condition :: "varbind \<Rightarrow> int \<Rightarrow> int res option" where
  "reserve1_condition var col =
    (if col = COLUMN_MONITORPOLICYVARIABLE1 then Some (Inr (check_vb_type_and_size var ASN_OBJECT_ID (val_len var)))
     else if col = COLUMN_MONITORPOLICYEXPRESSION1 then Some (expr_check var)
     else if col = COLUMN_MONITORPOLICYVALUE1 then Some (Inr (check_vb_type_and_size var ASN_INTEGER 4))
     else if col = COLUMN_MONITORPOLICYOPERATION1 then Some (Inr (check_vb_type_and_size var ASN_INTEGER 4))
     else if col = COLUMN_MONITORPOLICYVARIABLE2 then Some (Inr (check_vb_type_and_size var ASN_OBJECT_ID (val_len var)))
     else if col = COLUMN_MONITORPOLICYEXPRESSION2 then Some (expr_check var)
     else if col = COLUMN_MONITORPOLICYVALUE2 then Some (Inr (check_vb_type_and_size var ASN_INTEGER 4))
     else if col = COLUMN_MONITORPOLICYOPERATION2 then Some (Inr (check_vb_type_and_size var ASN_INTEGER 4))
     else if col = COLUMN_MONITORPOLICYVARIABLE3 then Some (Inr (check_vb_type_and_size var ASN_OBJECT_ID (val_len var)))
     else if col = COLUMN_MONITORPOLICYEXPRESSION3 then Some (expr_check var)
     else if col = COLUMN_MONITORPOLICYVALUE3 then Some (Inr (check_vb_type_and_size var ASN_INTEGER 4))
     else if col = COLUMN_MONITORPOLICYOPERATION3 then Some (Inr (check_vb_type_and_size var ASN_INTEGER 4))
     else if col = COLUMN_MONITORPOLICYVARIABLE4 then Some (Inr (check_vb_type_and_size var ASN_OBJECT_ID (val_len var)))
     else if col = COLUMN_MONITORPOLICYEXPRESSION4 then Some (expr_check var)
     else if col = COLUMN_MONITORPOLICYVALUE4 then Some (Inr (check_vb_type_and_size var ASN_INTEGER 4))
     else if col = COLUMN_MONITORPOLICYOPERATION4 then Some (Inr (check_vb_type_and_size var ASN_INTEGER 4))
     else if col = COLUMN_MONITORPOLICYVARIABLE5 then Some (Inr (check_vb_type_and_size var ASN_OBJECT_ID (val_len var)))
     else if col = COLUMN_MONITORPOLICYEXPRESSION5 then Some (expr_check var)
     else if col = COLUMN_MONITORPOLICYVALUE5 then Some (Inr (check_vb_type_and_size var ASN_INTEGER 4))
     else None)"

definition reserve1_alert :: "varbind \<Rightarrow> int \<Rightarrow> int option" where
  "reserve1_alert var col =
    (if col = COLUMN_MONITORPOLICYLEVEL then Some (check_vb_type_and_size var ASN_INTEGER 4)
     else if col = COLUMN_MONITORPOLICYSMS then Some (check_vb_type_and_size var ASN_INTEGER 4)
     else if col = COLUMN_MONITORPOLICYPOPUP then Some (check_vb_type_and_size var ASN_INTEGER 4)
     else if col = COLUMN_MONITORPOLICYEMAIL then Some (check_vb_type_and_size var ASN_INTEGER 4)
     else if col = COLUMN_MONITORPOLICYPSTN then Some (check_vb_type_and_size var ASN_INTEGER 4)
     else if col = COLUMN_MONITORPOLICYCOMMAND then Some (check_vb_type_and_size var ASN_OCTET_STR (val_len var))
     else if col = COLUMN_MONITORPOLICYSCRIPT then Some (check_vb_type_and_size var ASN_OCTET_STR (val_len var))
     else if col = COLUMN_MONITORPOLICYALERTMESSAGE then Some (check_vb_type_and_size var ASN_OCTET_STR (val_len var))
     else if col = COLUMN_MONITORPOLICYSTATUS then Some (check_vb_type_and_size var ASN_INTEGER 4)
     else None)"

definition reserve1_rc :: "varbind \<Rightarrow> int \<Rightarrow> int res" where
  "reserve1_rc var col =
    (case reserve1_identity var col of Some rc \<Rightarrow> Inr rc
     | None \<Rightarrow> (case reserve1_condition var col of Some rc \<Rightarrow> rc
     | None \<Rightarrow> (case reserve1_alert var col of Some rc \<Rightarrow> Inr rc
     | None \<Rightarrow> Inr SNMP_ERR_GENERR)))"

text \<open>The loop: each request may get an error, and the group the worst status so far.\<close>

fun reserve1_loop :: "request list \<Rightarrow> int \<Rightarrow> (request list \<times> int) res" where
  "reserve1_loop [] st = Inr ([], st)"
| "reserve1_loop (r # rs) st = rbind (reserve1_rc (requestvb r) (colnum r)) (\<lambda>rc.
     let r' = (if rc \<noteq> 0 then request_set_error rc r else r) in
     rbind (reserve1_loop rs (max st (rstatus r'))) (\<lambda>(rs', st'). Inr (r' # rs', st')))"

definition monitorPolicyTable_set_reserve1 ::
  "monitorPolicyTable_context request_group \<Rightarrow> monitorPolicyTable_context request_group res" where
  "monitorPolicyTable_set_reserve1 rg = rbind (reserve1_loop (rg_list rg) (rg_status rg)) (\<lambda>(rs, st).
     Inr (rg\<lparr>rg_list := rs, rg_status := st\<rparr>))"

section \<open>RESERVE2\<close>

text \<open>
  Only the row status is checked, against the status of the old row or 0. An unknown column
  passes: the assertion is compiled out.
\<close>

definition reserve2_rc :: "monitorPolicyTable_context option \<Rightarrow> varbind \<Rightarrow> int \<Rightarrow> int" where
  "reserve2_rc undo_ctx var col =
    (if col = COLUMN_MONITORPOLICYSTATUS
     then check_vb_rowstatus var (case undo_ctx of Some u \<Rightarrow> monitorPolicyStatus u | None \<Rightarrow> 0)
     else SNMP_ERR_NOERROR)"

definition monitorPolicyTable_set_reserve2 :: "monitorPolicyTable_context request_group \<Rightarrow> monitorPolicyTable_context request_group" where
  "monitorPolicyTable_set_reserve2 rg =
     rg\<lparr>rg_list := map (\<lambda>r. let rc = reserve2_rc (undo_info rg) (requestvb r) (colnum r) in
        if rc \<noteq> 0 then request_set_error rc r else r) (rg_list rg)\<rparr>"

section \<open>ACTION\<close>

definition action_identity :: "varbind \<Rightarrow> int \<Rightarrow> monitorPolicyTable_context \<Rightarrow> monitorPolicyTable_context res option" where
  "action_identity var col row =
    (if col = COLUMN_MONITORPOLICYID then Some (Inr (row\<lparr>monitorPolicyID := val_integer var\<rparr>))
     else if col = COLUMN_MONITORPOLICYNAME then Some (rbind (store_bytes var (monitorPolicyName row)) (\<lambda>b. Inr (row\<lparr>monitorPolicyName := b\<rparr>)))
     else if col = COLUMN_MONITORPOLICYDESCRIPTION then Some (rbind (store_bytes var (monitorPolicyDescription row)) (\<lambda>b. Inr (row\<lparr>monitorPolicyDescription := b\<rparr>)))
     else if col = COLUMN_MONITORPOLICYCONTRUCTOR then Some (rbind (store_bytes var (monitorPolicyContructor row)) (\<lambda>b. Inr (row\<lparr>monitorPolicyContructor := b\<rparr>)))
     else if col = COLUMN_MONITORPOLICYCREATEDATE then Some (rbind (store_bytes var (monitorPolicyCreateDate row)) (\<lambda>b. Inr (row\<lparr>monitorPolicyCreateDate := b\<rparr>)))
     else None)"

definition action_condition :: "varbind \<Rightarrow> int \<Rightarrow> monitorPolicyTable_context \<Rightarrow> monitorPolicyTable_context res option" where
  "action_condition var col row =
    (if col = COLUMN_MONITORPOLICYVARIABLE1 then Some (rbind (store_bytes var (monitorPolicyVariable1 row)) (\<lambda>b. Inr (row\<lparr>monitorPolicyVariable1 := b\<rparr>)))
     else if col = COLUMN_MONITORPOLICYEXPRESSION1 then Some (Inr (row\<lparr>monitorPolicyExpression1 := val_integer var\<rparr>))
     else if col = COLUMN_MONITORPOLICYVALUE1 then Some (Inr (row\<lparr>monitorPolicyValue1 := val_integer var\<rparr>))
     else if col = COLUMN_MONITORPOLICYOPERATION1 then Some (Inr (row\<lparr>monitorPolicyOperation1 := val_integer var\<rparr>))
     else if col = COLUMN_MONITORPOLICYVARIABLE2 then Some (rbind (store_bytes var (monitorPolicyVariable2 row)) (\<lambda>b. Inr (row\<lparr>monitorPolicyVariable2 := b\<rparr>)))
     else if col = COLUMN_MONITORPOLICYEXPRESSION2 then Some (Inr (row\<lparr>monitorPolicyExpression2 := val_integer var\<rparr>))
     else if col = COLUMN_MONITORPOLICYVALUE2 then Some (Inr (row\<lparr>monitorPolicyValue2 := val_integer var\<rparr>))
     else if col = COLUMN_MONITORPOLICYOPERATION2 then Some (Inr (row\<lparr>monitorPolicyOperation2 := val_integer var\<rparr>))
     else if col = COLUMN_MONITORPOLICYVARIABLE3 then Some (rbind (store_bytes var (monitorPolicyVariable3 row)) (\<lambda>b. Inr (row\<lparr>monitorPolicyVariable3 := b\<rparr>)))
     else if col = COLUMN_MONITORPOLICYEXPRESSION3 then Some (Inr (row\<lparr>monitorPolicyExpression3 := val_integer var\<rparr>))
     else if col = COLUMN_MONITORPOLICYVALUE3 then Some (Inr (row\<lparr>monitorPolicyValue3 := val_integer var\<rparr>))
     else if col = COLUMN_MONITORPOLICYOPERATION3 then Some (Inr (row\<lparr>monitorPolicyOperation3 := val_integer var\<rparr>))
     else if col = COLUMN_MONITORPOLICYVARIABLE4 then Some (rbind (store_bytes var (monitorPolicyVariable4 row)) (\<lambda>b. Inr (row\<lparr>monitorPolicyVariable4 := b\<rparr>)))
     else if col = COLUMN_MONITORPOLICYEXPRESSION4 then Some (Inr (row\<lparr>monitorPolicyExpression4 := val_integer var\<rparr>))
     else if col = COLUMN_MONITORPOLICYVALUE4 then Some (Inr (row\<lparr>monitorPolicyValue4 := val_integer var\<rparr>))
     else if col = COLUMN_MONITORPOLICYOPERATION4 then Some (Inr (row\<lparr>monitorPolicyOperation4 := val_integer var\<rparr>))
     else if col = COLUMN_MONITORPOLICYVARIABLE5 then Some (rbind (store_bytes var (monitorPolicyVariable5 row)) (\<lambda>b. Inr (row\<lparr>monitorPolicyVariable5 := b\<rparr>)))
     else if col = COLUMN_MONITORPOLICYEXPRESSION5 then Some (Inr (row\<lparr>monitorPolicyExpression5 := val_integer var\<rparr>))
     else if col = COLUMN_MONITORPOLICYVALUE5 then Some (Inr (row\<lparr>monitorPolicyValue5 := val_integer var\<rparr>))
     else None)"

definition action_alert :: "varbind \<Rightarrow> int \<Rightarrow> monitorPolicyTable_context \<Rightarrow> monitorPolicyTable_context res option" where
  "action_alert var col row =
    (if col = COLUMN_MONITORPOLICYLEVEL then Some (Inr (row\<lparr>monitorPolicyLevel := val_integer var\<rparr>))
     else if col = COLUMN_MONITORPOLICYSMS then Some (Inr (row\<lparr>monitorPolicySMS := val_integer var\<rparr>))
     else if col = COLUMN_MONITORPOLICYPOPUP then Some (Inr (row\<lparr>monitorPolicyPopup := val_integer var\<rparr>))
     else if col = COLUMN_MONITORPOLICYEMAIL then Some (Inr (row\<lparr>monitorPolicyEmail := val_integer var\<rparr>))
     else if col = COLUMN_MONITORPOLICYPSTN then Some (Inr (row\<lparr>monitorPolicyPSTN := val_integer var\<rparr>))
     else if col = COLUMN_MONITORPOLICYCOMMAND then Some (rbind (store_bytes var (monitorPolicyCommand row)) (\<lambda>b. Inr (row\<lparr>monitorPolicyCommand := b\<rparr>)))
     else if col = COLUMN_MONITORPOLICYSCRIPT then Some (rbind (store_bytes var (monitorPolicyScript row)) (\<lambda>b. Inr (row\<lparr>monitorPolicyScript := b\<rparr>)))
     else if col = COLUMN_MONITORPOLICYALERTMESSAGE then Some (rbind (store_bytes var (monitorPolicyAlertMessage row)) (\<lambda>b. Inr (row\<lparr>monitorPolicyAlertMessage := b\<rparr>)))
     else if col = COLUMN_MONITORPOLICYSTATUS then Some (Inr (row\<lparr>monitorPolicyStatus := val_integer var\<rparr>))
     else None)"

definition action_col ::
  "varbind \<Rightarrow> int \<Rightarrow> monitorPolicyTable_context \<Rightarrow> monitorPolicyTable_context res" where
  "action_col var col row =
    (case action_identity var col row of Some r \<Rightarrow> r
     | None \<Rightarrow> (case action_condition var col row of Some r \<Rightarrow> r
     | None \<Rightarrow> (case action_alert var col row of Some r \<Rightarrow> r
     | None \<Rightarrow> Inr row)))"

fun action_loop :: "request list \<Rightarrow> monitorPolicyTable_context \<Rightarrow> monitorPolicyTable_context res" where
  "action_loop [] row = Inr row"
| "action_loop (r # rs) row = rbind (action_col (requestvb r) (colnum r) row) (action_loop rs)"

text \<open>Nothing keeps a row from being activated, deactivated or deleted.\<close>

definition monitorPolicyTable_can_activate :: bool where
  "monitorPolicyTable_can_activate = True"

definition monitorPolicyTable_can_deactivate :: bool where
  "monitorPolicyTable_can_deactivate = True"

definition monitorPolicyTable_can_delete :: bool where
  "monitorPolicyTable_can_delete = (if \<not> monitorPolicyTable_can_deactivate then False else True)"

definition policy_methods :: row_methods where
  "policy_methods = \<lparr>can_activate = monitorPolicyTable_can_activate,
     can_deactivate = monitorPolicyTable_can_deactivate, can_delete = monitorPolicyTable_can_delete\<rparr>"

lemma policy_methods_always [simp]: "policy_methods = always"
  by (simp add: policy_methods_def always_def monitorPolicyTable_can_activate_def
      monitorPolicyTable_can_deactivate_def monitorPolicyTable_can_delete_def)

text \<open>
  The row is written through \<^verbatim>\<open>row_ctx\<close> without a test, so a request without a row faults. Active
  rows may be modified (\<^verbatim>\<open>CAN_MODIFY_ACTIVE_ROW\<close> is defined). The check of the row's status replaces
  it by the state the row goes to.
\<close>

definition monitorPolicyTable_set_action ::
  "monitorPolicyTable_context request_group \<Rightarrow> monitorPolicyTable_context request_group res" where
  "monitorPolicyTable_set_action rg =
    (case existing_row rg of
       None \<Rightarrow> if rg_list rg = [] then Inr rg else Inl (BadPtr NULL)
     | Some row \<Rightarrow> rbind (action_loop (rg_list rg) row) (\<lambda>row'.
         let (row_err, rs_new, del) = check_row_status policy_methods (monitorPolicyStatus row')
               (map_option monitorPolicyStatus (undo_info rg));
             rg = rg\<lparr>existing_row := Some (row'\<lparr>monitorPolicyStatus := rs_new\<rparr>), row_deleted := row_deleted rg \<or> del\<rparr>
         in Inr (if row_err \<noteq> 0 then row_status_error COLUMN_MONITORPOLICYSTATUS row_err rg else rg)))"

section \<open>GET\<close>

definition get_identity :: "int \<Rightarrow> monitorPolicyTable_context \<Rightarrow> asn_value res option" where
  "get_identity col row =
    (if col = COLUMN_MONITORPOLICYINDEX then Some (Inr (AsnLong ASN_UNSIGNED (monitorPolicyIndex row)))
     else if col = COLUMN_MONITORPOLICYID then Some (Inr (AsnLong ASN_UNSIGNED (monitorPolicyID row)))
     else if col = COLUMN_MONITORPOLICYNAME then Some (read_bytes ASN_OCTET_STR (monitorPolicyName row))
     else if col = COLUMN_MONITORPOLICYDESCRIPTION then Some (read_bytes ASN_OCTET_STR (monitorPolicyDescription row))
     else if col = COLUMN_MONITORPOLICYCONTRUCTOR then Some (read_bytes ASN_OCTET_STR (monitorPolicyContructor row))
     else if col = COLUMN_MONITORPOLICYCREATEDATE then Some (read_bytes ASN_OCTET_STR (monitorPolicyCreateDate row))
     else None)"

definition get_condition :: "int \<Rightarrow> monitorPolicyTable_context \<Rightarrow> asn_value res option" where
  "get_condition col row =
    (if col = COLUMN_MONITORPOLICYVARIABLE1 then Some (read_bytes ASN_OBJECT_ID (monitorPolicyVariable1 row))
     else if col = COLUMN_MONITORPOLICYEXPRESSION1 then Some (Inr (AsnLong ASN_INTEGER (monitorPolicyExpression1 row)))
     else if col = COLUMN_MONITORPOLICYVALUE1 then Some (Inr (AsnLong ASN_INTEGER (monitorPolicyValue1 row)))
     else if col = COLUMN_MONITORPOLICYOPERATION1 then Some (Inr (AsnLong ASN_INTEGER (monitorPolicyOperation1 row)))
     else if col = COLUMN_MONITORPOLICYVARIABLE2 then Some (read_bytes ASN_OBJECT_ID (monitorPolicyVariable2 row))
     else if col = COLUMN_MONITORPOLICYEXPRESSION2 then Some (Inr (AsnLong ASN_INTEGER (monitorPolicyExpression2 row)))
     else if col = COLUMN_MONITORPOLICYVALUE2 then Some (Inr (AsnLong ASN_INTEGER (monitorPolicyValue2 row)))
     else if col = COLUMN_MONITORPOLICYOPERATION2 then Some (Inr (AsnLong ASN_INTEGER (monitorPolicyOperation2 row)))
     else if col = COLUMN_MONITORPOLICYVARIABLE3 then Some (read_bytes ASN_OBJECT_ID (monitorPolicyVariable3 row))
     else if col = COLUMN_MONITORPOLICYEXPRESSION3 then Some (Inr (AsnLong ASN_INTEGER (monitorPolicyExpression3 row)))
     else if col = COLUMN_MONITORPOLICYVALUE3 then Some (Inr (AsnLong ASN_INTEGER (monitorPolicyValue3 row)))
     else if col = COLUMN_MONITORPOLICYOPERATION3 then Some (Inr (AsnLong ASN_INTEGER (monitorPolicyOperation3 row)))
     else if col = COLUMN_MONITORPOLICYVARIABLE4 then Some (read_bytes ASN_OBJECT_ID (monitorPolicyVariable4 row))
     else if col = COLUMN_MONITORPOLICYEXPRESSION4 then Some (Inr (AsnLong ASN_INTEGER (monitorPolicyExpression4 row)))
     else if col = COLUMN_MONITORPOLICYVALUE4 then Some (Inr (AsnLong ASN_INTEGER (monitorPolicyValue4 row)))
     else if col = COLUMN_MONITORPOLICYOPERATION4 then Some (Inr (AsnLong ASN_INTEGER (monitorPolicyOperation4 row)))
     else if col = COLUMN_MONITORPOLICYVARIABLE5 then Some (read_bytes ASN_OBJECT_ID (monitorPolicyVariable5 row))
     else if col = COLUMN_MONITORPOLICYEXPRESSION5 then Some (Inr (AsnLong ASN_INTEGER (monitorPolicyExpression5 row)))
     else if col = COLUMN_MONITORPOLICYVALUE5 then Some (Inr (AsnLong ASN_INTEGER (monitorPolicyValue5 row)))
     else None)"

definition get_alert :: "int \<Rightarrow> monitorPolicyTable_context \<Rightarrow> asn_value res option" where
  "get_alert col row =
    (if col = COLUMN_MONITORPOLICYLEVEL then Some (Inr (AsnLong ASN_INTEGER (monitorPolicyLevel row)))
     else if col = COLUMN_MONITORPOLICYSMS then Some (Inr (AsnLong ASN_INTEGER (monitorPolicySMS row)))
     else if col = COLUMN_MONITORPOLICYPOPUP then Some (Inr (AsnLong ASN_INTEGER (monitorPolicyPopup row)))
     else if col = COLUMN_MONITORPOLICYEMAIL then Some (Inr (AsnLong ASN_INTEGER (monitorPolicyEmail row)))
     else if col = COLUMN_MONITORPOLICYPSTN then Some (Inr (AsnLong ASN_INTEGER (monitorPolicyPSTN row)))
     else if col = COLUMN_MONITORPOLICYCOMMAND then Some (read_bytes ASN_OCTET_STR (monitorPolicyCommand row))
     else if col = COLUMN_MONITORPOLICYSCRIPT then Some (read_bytes ASN_OCTET_STR (monitorPolicyScript row))
     else if col = COLUMN_MONITORPOLICYALERTMESSAGE then Some (read_bytes ASN_OCTET_STR (monitorPolicyAlertMessage row))
     else if col = COLUMN_MONITORPOLICYSTATUS then Some (Inr (AsnLong ASN_INTEGER (monitorPolicyStatus row)))
     else None)"

text \<open>\<^const>\<open>None\<close> is the error \<^verbatim>\<open>SNMP_ERR_GENERR\<close> for an unknown column.\<close>

definition monitorPolicyTable_get_value ::
  "int \<Rightarrow> monitorPolicyTable_context \<Rightarrow> asn_value res option" where
  "monitorPolicyTable_get_value col row =
    (case get_identity col row of Some v \<Rightarrow> Some v
     | None \<Rightarrow> (case get_condition col row of Some v \<Rightarrow> Some v
     | None \<Rightarrow> get_alert col row))"

section \<open>Copying a row\<close>

text \<open>\<open>clone_ok\<close> is whether \<^verbatim>\<open>snmp_clone_mem\<close> of the index succeeds; 1 is the failure code.\<close>

definition monitorPolicyTable_row_copy ::
  "bool \<Rightarrow> monitorPolicyTable_context \<Rightarrow> monitorPolicyTable_context
     \<Rightarrow> (int \<times> monitorPolicyTable_context) res" where
  "monitorPolicyTable_row_copy clone_ok dst src =
    (if \<not> clone_ok then Inr (1, dst\<lparr>index_oids := []\<rparr>)
     else
     let dst = dst\<lparr>index_oids := index_oids src, monitorPolicyIndex := monitorPolicyIndex src, monitorPolicyID := monitorPolicyID src\<rparr> in
     rbind (copy_bytes (monitorPolicyName dst) (monitorPolicyName src)) (\<lambda>b. let dst = dst\<lparr>monitorPolicyName := b\<rparr> in
     rbind (copy_bytes (monitorPolicyDescription dst) (monitorPolicyDescription src)) (\<lambda>b. let dst = dst\<lparr>monitorPolicyDescription := b\<rparr> in
     rbind (copy_bytes (monitorPolicyContructor dst) (monitorPolicyContructor src)) (\<lambda>b. let dst = dst\<lparr>monitorPolicyContructor := b\<rparr> in
     rbind (copy_bytes (monitorPolicyCreateDate dst) (monitorPolicyCreateDate src)) (\<lambda>b. let dst = dst\<lparr>monitorPolicyCreateDate := b\<rparr> in
     rbind (copy_bytes (monitorPolicyVariable1 dst) (monitorPolicyVariable1 src)) (\<lambda>b. let dst = dst\<lparr>monitorPolicyVariable1 := b\<rparr> in
     let dst = dst\<lparr>monitorPolicyExpression1 := monitorPolicyExpression1 src, monitorPolicyValue1 := monitorPolicyValue1 src, monitorPolicyOperation1 := monitorPolicyOperation1 src\<rparr> in
     rbind (copy_bytes (monitorPolicyVariable2 dst) (monitorPolicyVariable2 src)) (\<lambda>b. let dst = dst\<lparr>monitorPolicyVariable2 := b\<rparr> in
     let dst = dst\<lparr>monitorPolicyExpression2 := monitorPolicyExpression2 src, monitorPolicyValue2 := monitorPolicyValue2 src, monitorPolicyOperation2 := monitorPolicyOperation2 src\<rparr> in
     rbind (copy_bytes (monitorPolicyVariable3 dst) (monitorPolicyVariable3 src)) (\<lambda>b. let dst = dst\<lparr>monitorPolicyVariable3 := b\<rparr> in
     let dst = dst\<lparr>monitorPolicyExpression3 := monitorPolicyExpression3 src, monitorPolicyValue3 := monitorPolicyValue3 src, monitorPolicyOperation3 := monitorPolicyOperation3 src\<rparr> in
     rbind (copy_bytes (monitorPolicyVariable4 dst) (monitorPolicyVariable4 src)) (\<lambda>b. let dst = dst\<lparr>monitorPolicyVariable4 := b\<rparr> in
     let dst = dst\<lparr>monitorPolicyExpression4 := monitorPolicyExpression4 src, monitorPolicyValue4 := monitorPolicyValue4 src, monitorPolicyOperation4 := monitorPolicyOperation4 src\<rparr> in
     rbind (copy_bytes (monitorPolicyVariable5 dst) (monitorPolicyVariable5 src)) (\<lambda>b. let dst = dst\<lparr>monitorPolicyVariable5 := b\<rparr> in
     let dst = dst\<lparr>monitorPolicyExpression5 := monitorPolicyExpression5 src, monitorPolicyValue5 := monitorPolicyValue5 src, monitorPolicyLevel := monitorPolicyLevel src, monitorPolicySMS := monitorPolicySMS src, monitorPolicyPopup := monitorPolicyPopup src, monitorPolicyEmail := monitorPolicyEmail src, monitorPolicyPSTN := monitorPolicyPSTN src\<rparr> in
     rbind (copy_bytes (monitorPolicyCommand dst) (monitorPolicyCommand src)) (\<lambda>b. let dst = dst\<lparr>monitorPolicyCommand := b\<rparr> in
     rbind (copy_bytes (monitorPolicyScript dst) (monitorPolicyScript src)) (\<lambda>b. let dst = dst\<lparr>monitorPolicyScript := b\<rparr> in
     rbind (copy_bytes (monitorPolicyAlertMessage dst) (monitorPolicyAlertMessage src)) (\<lambda>b. let dst = dst\<lparr>monitorPolicyAlertMessage := b\<rparr> in
     let dst = dst\<lparr>monitorPolicyStatus := monitorPolicyStatus src\<rparr> in
     Inr (0, dst))))))))))))))"

section \<open>Creating and duplicating a row\<close>

text \<open>The row \<^verbatim>\<open>calloc\<close> gives.\<close>

definition zero_row :: monitorPolicyTable_context where
  "zero_row = \<lparr>index_oids = [], monitorPolicyIndex = 0, monitorPolicyID = 0, monitorPolicyName = empty_octets 255, monitorPolicyDescription =
     empty_octets 255, monitorPolicyContructor = empty_octets 255, monitorPolicyCreateDate =
     empty_octets 128, monitorPolicyVariable1 = empty_octets 512, monitorPolicyExpression1 = 0,
     monitorPolicyValue1 = 0, monitorPolicyOperation1 = 0, monitorPolicyVariable2 = empty_octets
     512, monitorPolicyExpression2 = 0, monitorPolicyValue2 = 0, monitorPolicyOperation2 = 0,
     monitorPolicyVariable3 = empty_octets 512, monitorPolicyExpression3 = 0, monitorPolicyValue3 =
     0, monitorPolicyOperation3 = 0, monitorPolicyVariable4 = empty_octets 512,
     monitorPolicyExpression4 = 0, monitorPolicyValue4 = 0, monitorPolicyOperation4 = 0,
     monitorPolicyVariable5 = empty_octets 512, monitorPolicyExpression5 = 0, monitorPolicyValue5 =
     0, monitorPolicyLevel = 0, monitorPolicySMS = 0, monitorPolicyPopup = 0, monitorPolicyEmail =
     0, monitorPolicyPSTN = 0, monitorPolicyCommand = empty_octets 255, monitorPolicyScript =
     empty_octets 255, monitorPolicyAlertMessage = empty_octets 255, monitorPolicyStatus = 0, idx = 0\<rparr>"

text \<open>
  The index of a row must be one number: \<^verbatim>\<open>parse_oid_indexes\<close> fails on any other. \<open>mem\<close> is whether
  memory suffices.
\<close>

definition monitorPolicyTable_extract_index ::
  "bool \<Rightarrow> monitorPolicyTable_context \<Rightarrow> long list \<Rightarrow> int \<times> monitorPolicyTable_context" where
  "monitorPolicyTable_extract_index mem ctx hdr =
    (if \<not> mem then (-1, ctx)
     else let ctx = ctx\<lparr>index_oids := hdr\<rparr> in
       case hdr of [i] \<Rightarrow> (SNMP_ERR_NOERROR, ctx\<lparr>monitorPolicyIndex := i\<rparr>) | _ \<Rightarrow> (SNMP_ERR_GENERR, ctx))"

definition monitorPolicyTable_create_row :: "bool \<Rightarrow> long list \<Rightarrow> monitorPolicyTable_context option" where
  "monitorPolicyTable_create_row mem hdr =
    (if \<not> mem then None
     else let (err, ctx) = monitorPolicyTable_extract_index mem zero_row hdr in if err \<noteq> 0 then None else Some ctx)"

definition monitorPolicyTable_duplicate_row ::
  "bool \<Rightarrow> monitorPolicyTable_context \<Rightarrow> monitorPolicyTable_context option res" where
  "monitorPolicyTable_duplicate_row mem row_ctx =
    (if \<not> mem then Inr None
     else rbind (monitorPolicyTable_row_copy mem zero_row row_ctx) (\<lambda>(err, dup).
       Inr (if err \<noteq> 0 then None else Some dup)))"

lemma zero_row_ok [simp]: "row_ok zero_row"
  by (simp add: row_ok_def octets_ok_def zero_row_def empty_octets_def)

section \<open>COMMIT and loading\<close>

text \<open>
  COMMIT writes all rows of the container to the file, each with the first number of its index
  in \<open>idx\<close>; \<open>ok k\<close> is whether the k-th \<^verbatim>\<open>fwrite\<close> succeeds. The file is opened first, which
  empties it. Returns the rows as they are afterwards and the file.
\<close>

definition set_idx :: "monitorPolicyTable_context \<Rightarrow> monitorPolicyTable_context res" where
  "set_idx ctx = (case index_oids ctx of [] \<Rightarrow> Inl (BadPtr NULL) | i # _ \<Rightarrow> Inr (ctx\<lparr>idx := i\<rparr>))"

fun commit_rows ::
  "(nat \<Rightarrow> bool) \<Rightarrow> nat \<Rightarrow> monitorPolicyTable_context list
     \<Rightarrow> (monitorPolicyTable_context list \<times> monitorPolicyTable_context list) res" where
  "commit_rows ok k [] = Inr ([], [])"
| "commit_rows ok k (ctx # rest) =
     rbind (set_idx ctx) (\<lambda>ctx'.
       if \<not> ok k then Inr (ctx' # rest, [])
       else rbind (commit_rows ok (Suc k) rest) (\<lambda>(rows, file). Inr (ctx' # rows, ctx' # file)))"

definition monitorPolicyTable_set_commit ::
  "bool \<Rightarrow> (nat \<Rightarrow> bool) \<Rightarrow> monitorPolicyTable_context list \<Rightarrow> monitorPolicyTable_context list
     \<Rightarrow> (monitorPolicyTable_context list \<times> monitorPolicyTable_context list) res" where
  "monitorPolicyTable_set_commit open_ok ok container file =
    (if \<not> open_ok then Inr (container, file) else commit_rows ok 0 container)"

text \<open>
  Loading: the index of a row is rebuilt from \<open>idx\<close> alone, as many numbers as the saved length
  says being read from that one variable (a longer index reads behind it). \<open>mem k\<close> is whether the
  index of the k-th row can be allocated.
\<close>

fun load_rows ::
  "(nat \<Rightarrow> bool) \<Rightarrow> nat \<Rightarrow> monitorPolicyTable_context list \<Rightarrow> monitorPolicyTable_context list res" where
  "load_rows mem k [] = Inr []"
| "load_rows mem k (r # rs) =
     (if length (index_oids r) > 1 then Inl (OutOfBounds (int (length (index_oids r))))
      else if \<not> mem k then Inr []
      else rbind (load_rows mem (Suc k) rs) (\<lambda>rows.
             Inr (r\<lparr>index_oids := take (length (index_oids r)) [idx r]\<rparr> # rows)))"

definition RBM_Load_Container_From_File ::
  "bool \<Rightarrow> (nat \<Rightarrow> bool) \<Rightarrow> monitorPolicyTable_context list \<Rightarrow> monitorPolicyTable_context list res" where
  "RBM_Load_Container_From_File open_ok mem file = (if \<not> open_ok then Inr [] else load_rows mem 0 file)"

section \<open>A row as a map of columns\<close>

lemmas get_defs = monitorPolicyTable_get_value_def get_identity_def get_condition_def get_alert_def
lemmas action_defs = action_col_def action_identity_def action_condition_def action_alert_def
lemmas reserve1_defs = reserve1_rc_def reserve1_identity_def reserve1_condition_def reserve1_alert_def

text \<open>The columns of strings and object ids, and the ASN.1 type of every column.\<close>

definition string_cols :: "int list" where
  "string_cols = [3, 4, 5, 6, 31, 32, 33]"

definition oid_cols :: "int list" where
  "oid_cols = [7, 11, 15, 19, 23]"

definition expr_cols :: "int list" where
  "expr_cols = [8, 12, 16, 20, 24]"

definition col_type :: "int \<Rightarrow> int" where
  "col_type col = (if col \<in> set string_cols then ASN_OCTET_STR else if col \<in> set oid_cols then ASN_OBJECT_ID
     else if col = COLUMN_MONITORPOLICYID then ASN_UNSIGNED else ASN_INTEGER)"

lemmas col_defs = string_cols_def oid_cols_def expr_cols_def col_type_def

definition written_value :: "int \<Rightarrow> varbind \<Rightarrow> asn_value" where
  "written_value col var =
    (if col \<in> set string_cols \<union> set oid_cols then AsnBytes (col_type col) (take (val_len var) (val_bytes var))
     else AsnLong (col_type col) (val_integer var))"

lemma writable_cases:
  assumes "2 \<le> col" "col \<le> (34 :: int)"
  shows "col \<in> {2, 3, 4, 5, 6, 7, 8, 9, 10, 11, 12, 13, 14, 15, 16, 17, 18, 19, 20, 21, 22, 23, 24, 25, 26,
    27, 28, 29, 30, 31, 32, 33, 34}"
proof -
  have "col \<in> {2..34}" using assms by simp
  also have "{2..34 :: int} = {2, 3, 4, 5, 6, 7, 8, 9, 10, 11, 12, 13, 14, 15, 16, 17, 18, 19, 20, 21, 22, 23,
    24, 25, 26, 27, 28, 29, 30, 31, 32, 33, 34}" by code_simp
  finally show ?thesis .
qed

lemma store_bytes_get:
  "store_bytes var o' = Inr b \<Longrightarrow> read_bytes ty b = Inr (AsnBytes ty (take (val_len var) (val_bytes var)))"
  by (auto simp: store_bytes_def read_bytes_def split: if_splits)

lemma action_get:
  assumes "2 \<le> col" "col \<le> 34" and a: "action_col var col row = Inr row'"
  shows "monitorPolicyTable_get_value col row' = Some (Inr (written_value col var))"
  using writable_cases [OF assms(1,2)] a
  by (elim insertE emptyE) (auto simp: action_defs get_defs rbind_eq_Inr written_value_def col_defs dest: store_bytes_get)

text \<open>Writing the field of one column does not change what GET gives for another.\<close>

lemma get_upd:
  "c \<noteq> 2 \<Longrightarrow> monitorPolicyTable_get_value c (row\<lparr>monitorPolicyID := v0\<rparr>) = monitorPolicyTable_get_value c row"
  "c \<noteq> 3 \<Longrightarrow> monitorPolicyTable_get_value c (row\<lparr>monitorPolicyName := v1\<rparr>) = monitorPolicyTable_get_value c row"
  "c \<noteq> 4 \<Longrightarrow> monitorPolicyTable_get_value c (row\<lparr>monitorPolicyDescription := v2\<rparr>) = monitorPolicyTable_get_value c row"
  "c \<noteq> 5 \<Longrightarrow> monitorPolicyTable_get_value c (row\<lparr>monitorPolicyContructor := v3\<rparr>) = monitorPolicyTable_get_value c row"
  "c \<noteq> 6 \<Longrightarrow> monitorPolicyTable_get_value c (row\<lparr>monitorPolicyCreateDate := v4\<rparr>) = monitorPolicyTable_get_value c row"
  "c \<noteq> 7 \<Longrightarrow> monitorPolicyTable_get_value c (row\<lparr>monitorPolicyVariable1 := v5\<rparr>) = monitorPolicyTable_get_value c row"
  "c \<noteq> 8 \<Longrightarrow> monitorPolicyTable_get_value c (row\<lparr>monitorPolicyExpression1 := v6\<rparr>) = monitorPolicyTable_get_value c row"
  "c \<noteq> 9 \<Longrightarrow> monitorPolicyTable_get_value c (row\<lparr>monitorPolicyValue1 := v7\<rparr>) = monitorPolicyTable_get_value c row"
  "c \<noteq> 10 \<Longrightarrow> monitorPolicyTable_get_value c (row\<lparr>monitorPolicyOperation1 := v8\<rparr>) = monitorPolicyTable_get_value c row"
  "c \<noteq> 11 \<Longrightarrow> monitorPolicyTable_get_value c (row\<lparr>monitorPolicyVariable2 := v9\<rparr>) = monitorPolicyTable_get_value c row"
  "c \<noteq> 12 \<Longrightarrow> monitorPolicyTable_get_value c (row\<lparr>monitorPolicyExpression2 := v10\<rparr>) = monitorPolicyTable_get_value c row"
  "c \<noteq> 13 \<Longrightarrow> monitorPolicyTable_get_value c (row\<lparr>monitorPolicyValue2 := v11\<rparr>) = monitorPolicyTable_get_value c row"
  "c \<noteq> 14 \<Longrightarrow> monitorPolicyTable_get_value c (row\<lparr>monitorPolicyOperation2 := v12\<rparr>) = monitorPolicyTable_get_value c row"
  "c \<noteq> 15 \<Longrightarrow> monitorPolicyTable_get_value c (row\<lparr>monitorPolicyVariable3 := v13\<rparr>) = monitorPolicyTable_get_value c row"
  "c \<noteq> 16 \<Longrightarrow> monitorPolicyTable_get_value c (row\<lparr>monitorPolicyExpression3 := v14\<rparr>) = monitorPolicyTable_get_value c row"
  "c \<noteq> 17 \<Longrightarrow> monitorPolicyTable_get_value c (row\<lparr>monitorPolicyValue3 := v15\<rparr>) = monitorPolicyTable_get_value c row"
  "c \<noteq> 18 \<Longrightarrow> monitorPolicyTable_get_value c (row\<lparr>monitorPolicyOperation3 := v16\<rparr>) = monitorPolicyTable_get_value c row"
  "c \<noteq> 19 \<Longrightarrow> monitorPolicyTable_get_value c (row\<lparr>monitorPolicyVariable4 := v17\<rparr>) = monitorPolicyTable_get_value c row"
  "c \<noteq> 20 \<Longrightarrow> monitorPolicyTable_get_value c (row\<lparr>monitorPolicyExpression4 := v18\<rparr>) = monitorPolicyTable_get_value c row"
  "c \<noteq> 21 \<Longrightarrow> monitorPolicyTable_get_value c (row\<lparr>monitorPolicyValue4 := v19\<rparr>) = monitorPolicyTable_get_value c row"
  "c \<noteq> 22 \<Longrightarrow> monitorPolicyTable_get_value c (row\<lparr>monitorPolicyOperation4 := v20\<rparr>) = monitorPolicyTable_get_value c row"
  "c \<noteq> 23 \<Longrightarrow> monitorPolicyTable_get_value c (row\<lparr>monitorPolicyVariable5 := v21\<rparr>) = monitorPolicyTable_get_value c row"
  "c \<noteq> 24 \<Longrightarrow> monitorPolicyTable_get_value c (row\<lparr>monitorPolicyExpression5 := v22\<rparr>) = monitorPolicyTable_get_value c row"
  "c \<noteq> 25 \<Longrightarrow> monitorPolicyTable_get_value c (row\<lparr>monitorPolicyValue5 := v23\<rparr>) = monitorPolicyTable_get_value c row"
  "c \<noteq> 26 \<Longrightarrow> monitorPolicyTable_get_value c (row\<lparr>monitorPolicyLevel := v24\<rparr>) = monitorPolicyTable_get_value c row"
  "c \<noteq> 27 \<Longrightarrow> monitorPolicyTable_get_value c (row\<lparr>monitorPolicySMS := v25\<rparr>) = monitorPolicyTable_get_value c row"
  "c \<noteq> 28 \<Longrightarrow> monitorPolicyTable_get_value c (row\<lparr>monitorPolicyPopup := v26\<rparr>) = monitorPolicyTable_get_value c row"
  "c \<noteq> 29 \<Longrightarrow> monitorPolicyTable_get_value c (row\<lparr>monitorPolicyEmail := v27\<rparr>) = monitorPolicyTable_get_value c row"
  "c \<noteq> 30 \<Longrightarrow> monitorPolicyTable_get_value c (row\<lparr>monitorPolicyPSTN := v28\<rparr>) = monitorPolicyTable_get_value c row"
  "c \<noteq> 31 \<Longrightarrow> monitorPolicyTable_get_value c (row\<lparr>monitorPolicyCommand := v29\<rparr>) = monitorPolicyTable_get_value c row"
  "c \<noteq> 32 \<Longrightarrow> monitorPolicyTable_get_value c (row\<lparr>monitorPolicyScript := v30\<rparr>) = monitorPolicyTable_get_value c row"
  "c \<noteq> 33 \<Longrightarrow> monitorPolicyTable_get_value c (row\<lparr>monitorPolicyAlertMessage := v31\<rparr>) = monitorPolicyTable_get_value c row"
  "c \<noteq> 34 \<Longrightarrow> monitorPolicyTable_get_value c (row\<lparr>monitorPolicyStatus := v32\<rparr>) = monitorPolicyTable_get_value c row"
  by (simp_all add: get_defs)

lemma action_get_other:
  assumes "2 \<le> col" "col \<le> 34" and a: "action_col var col row = Inr row'" and c: "c \<noteq> col"
  shows "monitorPolicyTable_get_value c row' = monitorPolicyTable_get_value c row"
  using writable_cases [OF assms(1,2)] a c
  by (elim insertE emptyE) (auto simp: action_defs rbind_eq_Inr get_upd)

lemma rbind_eq_Inl: "rbind m f = Inl e \<longleftrightarrow> m = Inl e \<or> (\<exists>x. m = Inr x \<and> f x = Inl e)"
  by (cases m) auto

text \<open>The capacity of the array of a column.\<close>

definition col_size :: "int \<Rightarrow> nat" where
  "col_size col = (if col \<in> set oid_cols then 512 else if col = COLUMN_MONITORPOLICYCREATEDATE then 128 else 255)"

definition is_bytes :: "int \<Rightarrow> bool" where
  "is_bytes col \<longleftrightarrow> col \<in> set string_cols \<union> set oid_cols"

lemma action_row_ok:
  assumes "2 \<le> col" "col \<le> 34" and "row_ok row" and "action_col var col row = Inr row'"
  shows "row_ok row'"
  using writable_cases [OF assms(1,2)] assms(3,4)
  by (elim insertE emptyE) (auto simp: action_defs rbind_eq_Inr row_ok_def dest: store_bytes_ok)

lemma action_fault:
  assumes "2 \<le> col" "col \<le> 34" and "row_ok row" and "val_len var \<le> length (val_bytes var)"
  shows "(\<exists>e. action_col var col row = Inl e) \<longleftrightarrow> is_bytes col \<and> col_size col < val_len var"
  using writable_cases [OF assms(1,2)] assms(3,4)
  by (elim insertE emptyE)
     (simp_all add: action_defs rbind_eq_Inl row_ok_def store_bytes_fault is_bytes_def col_size_def col_defs)

lemma get_no_fault: "row_ok row \<Longrightarrow> monitorPolicyTable_get_value c row \<noteq> Some (Inl e)"
  by (simp add: get_defs read_bytes_def row_ok_def octets_ok_def)

text \<open>RESERVE1 of a request: a fault, or the status 0 exactly for an acceptable one.\<close>

definition acceptable :: "request \<Rightarrow> bool" where
  "acceptable r \<longleftrightarrow> 2 \<le> colnum r \<and> colnum r \<le> 34 \<and> vtype (requestvb r) = col_type (colnum r)
     \<and> (is_bytes (colnum r) \<or> val_len (requestvb r) = 4)
     \<and> (colnum r \<in> set expr_cols \<longrightarrow> 0 \<le> sint (val_integer (requestvb r)) \<and> sint (val_integer (requestvb r)) \<le> 5)"

lemma reserve1_rc_cases:
  "if col \<in> set expr_cols \<and> no_value var then reserve1_rc var col = Inl (BadPtr NULL)
   else \<exists>rc. reserve1_rc var col = Inr rc \<and> rc \<in> {0, 5, 7, 8, 10} \<and> (rc = 0 \<longleftrightarrow>
     2 \<le> col \<and> col \<le> 34 \<and> vtype var = col_type col \<and> (is_bytes col \<or> val_len var = 4)
     \<and> (col \<in> set expr_cols \<longrightarrow> 0 \<le> sint (val_integer var) \<and> sint (val_integer var) \<le> 5))"
proof (cases "2 \<le> col \<and> col \<le> 34")
  case True
  from writable_cases [of col] True have "col \<in> {2, 3, 4, 5, 6, 7, 8, 9, 10, 11, 12, 13, 14, 15, 16, 17, 18, 19, 20, 21, 22, 23, 24, 25, 26,
    27, 28, 29, 30, 31, 32, 33, 34}" by blast
  then show ?thesis
    by (elim insertE emptyE)
      (auto simp: reserve1_defs vb_check_defs expr_check_def read_long_def is_bytes_def col_defs)
next
  case False
  then have "\<forall>i\<in>{2..34}. col \<noteq> i" by auto
  then have "reserve1_rc var col = Inr SNMP_ERR_GENERR" "col \<notin> set expr_cols" by (simp_all add: reserve1_defs col_defs)
  with False show ?thesis by auto
qed

definition misread :: "request \<Rightarrow> bool" where
  "misread r \<longleftrightarrow> colnum r \<in> set expr_cols \<and> no_value (requestvb r)"

lemma reserve1_loop_status:
  "0 \<le> st \<Longrightarrow> \<forall>r\<in>set rs. rstatus r = 0 \<Longrightarrow>
    if \<exists>r\<in>set rs. misread r then reserve1_loop rs st = Inl (BadPtr NULL)
    else \<exists>rs' st'. reserve1_loop rs st = Inr (rs', st') \<and> st \<le> st' \<and> (st' = 0 \<longleftrightarrow> st = 0 \<and> (\<forall>r\<in>set rs. acceptable r))"
proof (induction rs arbitrary: st)
  case (Cons r rs)
  note c = reserve1_rc_cases [of "colnum r" "requestvb r", folded misread_def acceptable_def]
  show ?case
  proof (cases "misread r")
    case True
    then show ?thesis using c by simp
  next
    case False
    then obtain rc where rc: "reserve1_rc (requestvb r) (colnum r) = Inr rc" "rc \<in> {0, 5, 7, 8, 10}" "rc = 0 \<longleftrightarrow> acceptable r"
      using c by auto
    let ?r = "if rc \<noteq> 0 then request_set_error rc r else r"
    have st: "rstatus ?r = rc" "0 \<le> rc" using Cons.prems rc(2) by (auto simp: request_set_error_def)
    note ih = Cons.IH [of "max st rc"]
    have m: "0 \<le> max st rc" "max st rc = 0 \<longleftrightarrow> st = 0 \<and> rc = 0" using Cons.prems(1) st(2) by auto
    show ?thesis
    proof (cases "\<exists>x\<in>set rs. misread x")
      case True
      then show ?thesis using ih m Cons.prems(2) rc(1) st(1) by (simp add: Let_def)
    next
      case no: False
      then obtain rs' st' where l: "reserve1_loop rs (max st rc) = Inr (rs', st')" "max st rc \<le> st'"
          "st' = 0 \<longleftrightarrow> max st rc = 0 \<and> (\<forall>x\<in>set rs. acceptable x)"
        using ih m(1) Cons.prems(2) by auto
      have "reserve1_loop (r # rs) st = Inr (?r # rs', st')"
        by (simp only: reserve1_loop.simps rc(1) Let_def st(1) l(1) rbind_simps prod.case)
      then show ?thesis using no False l(2,3) m(2) rc(3) by auto
    qed
  qed
qed simp

lemma action_loop_append: "action_loop (rs @ qs) row = rbind (action_loop rs row) (action_loop qs)"
  by (induction rs arbitrary: row) (auto simp: rbind_def split: sum.splits)

lemma action_loop_outcome:
  "row_ok row \<Longrightarrow> \<forall>r\<in>set rs. acceptable r \<and> val_len (requestvb r) \<le> length (val_bytes (requestvb r)) \<Longrightarrow>
   if \<exists>r\<in>set rs. is_bytes (colnum r) \<and> col_size (colnum r) < val_len (requestvb r)
   then \<exists>e. action_loop rs row = Inl e
   else \<exists>row'. action_loop rs row = Inr row' \<and> row_ok row'
     \<and> (\<forall>c. monitorPolicyTable_get_value c row' =
         (case find (\<lambda>r. colnum r = c) (rev rs) of Some r \<Rightarrow> Some (Inr (written_value c (requestvb r)))
          | None \<Rightarrow> monitorPolicyTable_get_value c row))"
proof (induction rs rule: rev_induct)
  case (snoc r rs)
  let ?big = "\<lambda>r. is_bytes (colnum r) \<and> col_size (colnum r) < val_len (requestvb r)"
  have r: "2 \<le> colnum r" "colnum r \<le> 34" "val_len (requestvb r) \<le> length (val_bytes (requestvb r))"
    using snoc.prems(2) by (auto simp: acceptable_def)
  have "\<forall>r\<in>set rs. acceptable r \<and> val_len (requestvb r) \<le> length (val_bytes (requestvb r))"
    using snoc.prems(2) by simp
  note ih = snoc.IH [OF snoc.prems(1) this]
  show ?case
  proof (cases "\<exists>r\<in>set rs. ?big r")
    case True
    from ih [unfolded if_P [OF True]] True show ?thesis by (auto simp: action_loop_append)
  next
    case False
    then obtain row1 where row1: "action_loop rs row = Inr row1" "row_ok row1"
      "\<forall>c. monitorPolicyTable_get_value c row1 =
         (case find (\<lambda>r. colnum r = c) (rev rs) of Some r \<Rightarrow> Some (Inr (written_value c (requestvb r)))
          | None \<Rightarrow> monitorPolicyTable_get_value c row)"
      using ih [unfolded if_not_P [OF False]] by blast
    have step: "action_loop (rs @ [r]) row = action_col (requestvb r) (colnum r) row1"
      by (cases "action_col (requestvb r) (colnum r) row1") (simp_all add: action_loop_append row1(1))
    note flt = action_fault [OF r(1,2) row1(2) r(3)]
    show ?thesis
    proof (cases "?big r")
      case True
      then show ?thesis using flt step by auto
    next
      case small: False
      then obtain row' where row': "action_col (requestvb r) (colnum r) row1 = Inr row'"
        using flt by (cases "action_col (requestvb r) (colnum r) row1") auto
      note a = action_row_ok [OF r(1,2) row1(2) row'] action_get [OF r(1,2) row'] action_get_other [OF r(1,2) row']
      have "monitorPolicyTable_get_value c row' =
         (case find (\<lambda>r. colnum r = c) (rev (rs @ [r])) of Some r \<Rightarrow> Some (Inr (written_value c (requestvb r)))
          | None \<Rightarrow> monitorPolicyTable_get_value c row)" for c
        using a(2,3) row1(3) by (cases "colnum r = c") auto
      then show ?thesis using False small step row' a(1) by simp
    qed
  qed
qed simp
text \<open>The state a row is asked to take, and the state the check leaves it in.\<close>

definition requested_status :: "monitorPolicyTable_context request_group \<Rightarrow> monitorPolicyTable_context \<Rightarrow> long" where
  "requested_status rg row = (case find (\<lambda>r. colnum r = 34) (rev (rg_list rg)) of
     Some r \<Rightarrow> val_integer (requestvb r) | None \<Rightarrow> monitorPolicyStatus row)"

definition settled_status :: "long \<Rightarrow> long" where
  "settled_status s = (if s = 4 \<or> s = 1 then 1 else if s = 6 then 6 else 2)"

lemma get_status: "monitorPolicyTable_get_value 34 row = Some (Inr (AsnLong ASN_INTEGER (monitorPolicyStatus row)))"
  by (simp add: get_defs)

lemma set_action_eq:
  "existing_row rg = Some row \<Longrightarrow> monitorPolicyTable_set_action rg = rbind (action_loop (rg_list rg) row) (\<lambda>row'.
     Inr (rg\<lparr>existing_row := Some (row'\<lparr>monitorPolicyStatus := settled_status (monitorPolicyStatus row')\<rparr>),
       row_deleted := row_deleted rg \<or> monitorPolicyStatus row' = 6\<rparr>))"
  by (simp add: monitorPolicyTable_set_action_def check_row_status_always settled_status_def rbind_def split: sum.split)

lemma set_action_outcome:
  assumes "existing_row rg = Some row" and "row_ok row"
    and "\<forall>r\<in>set (rg_list rg). acceptable r \<and> val_len (requestvb r) \<le> length (val_bytes (requestvb r))"
  shows "if \<exists>r\<in>set (rg_list rg). is_bytes (colnum r) \<and> col_size (colnum r) < val_len (requestvb r)
    then \<exists>e. monitorPolicyTable_set_action rg = Inl e
    else \<exists>row'. monitorPolicyTable_set_action rg = Inr (rg\<lparr>existing_row := Some row',
        row_deleted := row_deleted rg \<or> requested_status rg row = 6\<rparr>) \<and> row_ok row'
      \<and> monitorPolicyStatus row' = settled_status (requested_status rg row)
      \<and> (\<forall>c. c \<noteq> 34 \<longrightarrow> monitorPolicyTable_get_value c row' =
          (case find (\<lambda>r. colnum r = c) (rev (rg_list rg)) of
             Some r \<Rightarrow> Some (Inr (written_value c (requestvb r)))
           | None \<Rightarrow> monitorPolicyTable_get_value c row))"
proof (cases "\<exists>r\<in>set (rg_list rg). is_bytes (colnum r) \<and> col_size (colnum r) < val_len (requestvb r)")
  case True
  from action_loop_outcome [OF assms(2,3), unfolded if_P [OF True]] True show ?thesis
    by (auto simp: set_action_eq [OF assms(1)])
next
  case False
  from action_loop_outcome [OF assms(2,3), unfolded if_not_P [OF False]] obtain row1
    where row1: "action_loop (rg_list rg) row = Inr row1" "row_ok row1"
      and get: "\<And>c. monitorPolicyTable_get_value c row1 =
         (case find (\<lambda>r. colnum r = c) (rev (rg_list rg)) of Some r \<Rightarrow> Some (Inr (written_value c (requestvb r)))
          | None \<Rightarrow> monitorPolicyTable_get_value c row)" by blast
  from get [of 34] have st: "monitorPolicyStatus row1 = requested_status rg row"
    by (simp add: get_status requested_status_def written_value_def col_defs split: option.splits)
  have "row_ok (row1\<lparr>monitorPolicyStatus := settled_status (monitorPolicyStatus row1)\<rparr>)"
    using row1(2) by (simp add: row_ok_def)
  then show ?thesis
    unfolding if_not_P [OF False] set_action_eq [OF assms(1)] row1(1) rbind_simps st
    by (intro exI [of _ "row1\<lparr>monitorPolicyStatus := settled_status (requested_status rg row)\<rparr>"]) (simp add: get get_upd)
qed

lemma row_octets:
  assumes "row_ok r"
  shows "octets_ok 255 (monitorPolicyName r)" and "octets_ok 255 (monitorPolicyDescription r)" and "octets_ok 255 (monitorPolicyContructor r)" and "octets_ok 128 (monitorPolicyCreateDate r)"
    and "octets_ok 512 (monitorPolicyVariable1 r)"
    and "octets_ok 512 (monitorPolicyVariable2 r)"
    and "octets_ok 512 (monitorPolicyVariable3 r)"
    and "octets_ok 512 (monitorPolicyVariable4 r)"
    and "octets_ok 512 (monitorPolicyVariable5 r)" and "octets_ok 255 (monitorPolicyCommand r)" and "octets_ok 255 (monitorPolicyScript r)" and "octets_ok 255 (monitorPolicyAlertMessage r)"
  using assms by (simp_all add: row_ok_def)

lemma row_copy_ok:
  assumes "row_ok src" "row_ok dst"
  shows "\<exists>dst'. monitorPolicyTable_row_copy True dst src = Inr (0, dst') \<and> row_ok dst'
     \<and> index_oids dst' = index_oids src \<and> idx dst' = idx dst
     \<and> (\<forall>c. monitorPolicyTable_get_value c dst' = monitorPolicyTable_get_value c src)"
proof -
  note s = row_octets [OF assms(1)] and d = row_octets [OF assms(2)]
  note cp = copy_bytes_ok [OF d(1) s(1)]
     copy_bytes_ok [OF d(2) s(2)]
     copy_bytes_ok [OF d(3) s(3)]
     copy_bytes_ok [OF d(4) s(4)]
     copy_bytes_ok [OF d(5) s(5)]
     copy_bytes_ok [OF d(6) s(6)]
     copy_bytes_ok [OF d(7) s(7)]
     copy_bytes_ok [OF d(8) s(8)]
     copy_bytes_ok [OF d(9) s(9)]
     copy_bytes_ok [OF d(10) s(10)]
     copy_bytes_ok [OF d(11) s(11)]
     copy_bytes_ok [OF d(12) s(12)]
  let ?r = "dst\<lparr>index_oids := index_oids src, monitorPolicyIndex := monitorPolicyIndex src, monitorPolicyID := monitorPolicyID src,
    monitorPolicyName := copied (monitorPolicyName dst) (monitorPolicyName src),
    monitorPolicyDescription := copied (monitorPolicyDescription dst) (monitorPolicyDescription src),
    monitorPolicyContructor := copied (monitorPolicyContructor dst) (monitorPolicyContructor src),
    monitorPolicyCreateDate := copied (monitorPolicyCreateDate dst) (monitorPolicyCreateDate src),
    monitorPolicyVariable1 := copied (monitorPolicyVariable1 dst) (monitorPolicyVariable1 src),
    monitorPolicyExpression1 := monitorPolicyExpression1 src, monitorPolicyValue1 := monitorPolicyValue1 src,
    monitorPolicyOperation1 := monitorPolicyOperation1 src,
    monitorPolicyVariable2 := copied (monitorPolicyVariable2 dst) (monitorPolicyVariable2 src),
    monitorPolicyExpression2 := monitorPolicyExpression2 src, monitorPolicyValue2 := monitorPolicyValue2 src,
    monitorPolicyOperation2 := monitorPolicyOperation2 src,
    monitorPolicyVariable3 := copied (monitorPolicyVariable3 dst) (monitorPolicyVariable3 src),
    monitorPolicyExpression3 := monitorPolicyExpression3 src, monitorPolicyValue3 := monitorPolicyValue3 src,
    monitorPolicyOperation3 := monitorPolicyOperation3 src,
    monitorPolicyVariable4 := copied (monitorPolicyVariable4 dst) (monitorPolicyVariable4 src),
    monitorPolicyExpression4 := monitorPolicyExpression4 src, monitorPolicyValue4 := monitorPolicyValue4 src,
    monitorPolicyOperation4 := monitorPolicyOperation4 src,
    monitorPolicyVariable5 := copied (monitorPolicyVariable5 dst) (monitorPolicyVariable5 src),
    monitorPolicyExpression5 := monitorPolicyExpression5 src, monitorPolicyValue5 := monitorPolicyValue5 src,
    monitorPolicyLevel := monitorPolicyLevel src, monitorPolicySMS := monitorPolicySMS src,
    monitorPolicyPopup := monitorPolicyPopup src, monitorPolicyEmail := monitorPolicyEmail src,
    monitorPolicyPSTN := monitorPolicyPSTN src,
    monitorPolicyCommand := copied (monitorPolicyCommand dst) (monitorPolicyCommand src),
    monitorPolicyScript := copied (monitorPolicyScript dst) (monitorPolicyScript src),
    monitorPolicyAlertMessage := copied (monitorPolicyAlertMessage dst) (monitorPolicyAlertMessage src),
    monitorPolicyStatus := monitorPolicyStatus src\<rparr>"
  have "monitorPolicyTable_row_copy True dst src = Inr (0, ?r)"
    by (simp add: monitorPolicyTable_row_copy_def Let_def cp)
  moreover have "row_ok ?r" by (simp add: row_ok_def cp)
  moreover have "monitorPolicyTable_get_value c ?r = monitorPolicyTable_get_value c src" for c
    by (simp add: get_defs cp)
  ultimately show ?thesis by auto
qed

text \<open>Saving and loading.\<close>

definition saved :: "monitorPolicyTable_context \<Rightarrow> monitorPolicyTable_context" where
  "saved r = r\<lparr>idx := hd (index_oids r)\<rparr>"

lemma commit_rows_ok:
  "\<forall>r\<in>set rows. index_oids r \<noteq> [] \<Longrightarrow> \<forall>j<length rows. ok (k + j) \<Longrightarrow>
   commit_rows ok k rows = Inr (map saved rows, map saved rows)"
proof (induction rows arbitrary: k)
  case (Cons r rows)
  have "commit_rows ok (Suc k) rows = Inr (map saved rows, map saved rows)"
  proof (rule Cons.IH)
    show "\<forall>j<length rows. ok (Suc k + j)"
    proof (intro allI impI)
      fix j assume "j < length rows"
      then show "ok (Suc k + j)" using Cons.prems(2) [rule_format, of "Suc j"] by simp
    qed
  qed (use Cons.prems(1) in simp)
  moreover have "ok k" using Cons.prems(2) [rule_format, of 0] by simp
  moreover have "set_idx r = Inr (saved r)"
    using Cons.prems(1) by (cases "index_oids r") (auto simp: set_idx_def saved_def)
  ultimately show ?case by simp
qed simp

lemma commit_rows_fail:
  "\<forall>r\<in>set rows. index_oids r \<noteq> [] \<Longrightarrow> n < length rows \<Longrightarrow> \<forall>j<n. ok (k + j) \<Longrightarrow> \<not> ok (k + n) \<Longrightarrow>
   \<exists>rows'. commit_rows ok k rows = Inr (rows', map saved (take n rows))"
proof (induction rows arbitrary: k n)
  case (Cons r rows)
  have s: "set_idx r = Inr (saved r)"
    using Cons.prems(1) by (cases "index_oids r") (auto simp: set_idx_def saved_def)
  show ?case
  proof (cases n)
    case 0
    then show ?thesis using s Cons.prems(4) by simp
  next
    case (Suc m)
    have "\<exists>rows'. commit_rows ok (Suc k) rows = Inr (rows', map saved (take m rows))"
    proof (rule Cons.IH)
      show "\<forall>j<m. ok (Suc k + j)"
      proof (intro allI impI)
        fix j assume "j < m"
        then show "ok (Suc k + j)" using Cons.prems(3) [rule_format, of "Suc j"] Suc by simp
      qed
    qed (use Cons.prems Suc in simp_all)
    moreover have "ok k" using Cons.prems(3) [rule_format, of 0] Suc by simp
    ultimately show ?thesis using s Suc by auto
  qed
qed simp

lemma load_rows_ok:
  "\<forall>r\<in>set rows. length (index_oids r) = 1 \<Longrightarrow> \<forall>j<length rows. mem (k + j) \<Longrightarrow>
   load_rows mem k (map saved rows) = Inr (map saved rows)"
proof (induction rows arbitrary: k)
  case (Cons r rows)
  have "load_rows mem (Suc k) (map saved rows) = Inr (map saved rows)"
  proof (rule Cons.IH)
    show "\<forall>j<length rows. mem (Suc k + j)"
    proof (intro allI impI)
      fix j assume "j < length rows"
      then show "mem (Suc k + j)" using Cons.prems(2) [rule_format, of "Suc j"] by simp
    qed
  qed (use Cons.prems(1) in simp)
  moreover have "mem k" using Cons.prems(2) [rule_format, of 0] by simp
  moreover obtain i where "index_oids r = [i]" using Cons.prems(1) by (auto simp: length_Suc_conv)
  ultimately show ?case by (simp add: saved_def [of r])
qed simp

lemma index_saved [simp]: "index_oids (saved r) = index_oids r"
  by (simp add: saved_def)

lemma get_saved [simp]: "monitorPolicyTable_get_value c (saved r) = monitorPolicyTable_get_value c r"
  by (simp add: get_defs saved_def)
section \<open>Properties\<close>

text \<open>An empty row with index 5.\<close>

definition empty_row :: monitorPolicyTable_context where
  "empty_row = zero_row\<lparr>index_oids := [5], monitorPolicyIndex := 5\<rparr>"

lemma empty_row_ok: "row_ok empty_row"
  using zero_row_ok by (simp add: row_ok_def empty_row_def)

definition set_request :: "int \<Rightarrow> int \<Rightarrow> byte list \<Rightarrow> long \<Rightarrow> request" where
  "set_request col ty bs i = \<lparr>rindex = 1, colnum = col, index_oid = [5], requestvb = \<lparr>vtype = ty, val_len = length bs, val_bytes = bs, val_integer = i\<rparr>,
     rstatus = 0\<rparr>"

definition set_group :: "request list \<Rightarrow> monitorPolicyTable_context request_group" where
  "set_group rs = \<lparr>rg_index = [5], rg_list = rs, rg_status = 0, existing_row = Some empty_row,
     undo_info = None, row_created = False, row_deleted = False\<rparr>"

text \<open>C29: RESERVE1 of a group reads through a NULL pointer exactly when an expression column is given a value
  without contents (NULL or one of the exceptions), whose type is looked at only after the read.
  Otherwise it accepts the group exactly when every request names a writable column, has the type of
  the column, has four bytes if the column is a number, and gives an expression column a value
  between 0 and 5. The length of a string is not checked, nor the range of an operation.\<close>

theorem reserve1_accepts_iff:
  assumes "rg_status rg = SNMP_ERR_NOERROR" and "\<forall>r\<in>set (rg_list rg). rstatus r = SNMP_ERR_NOERROR"
  shows "((\<exists>e. monitorPolicyTable_set_reserve1 rg = Inl e) \<longleftrightarrow>
      (\<exists>r\<in>set (rg_list rg). colnum r \<in> set expr_cols \<and> no_value (requestvb r)))
    \<and> ((\<exists>g. monitorPolicyTable_set_reserve1 rg = Inr g \<and> rg_status g = SNMP_ERR_NOERROR) \<longleftrightarrow>
      (\<forall>r\<in>set (rg_list rg). 2 \<le> colnum r \<and> colnum r \<le> 34 \<and> vtype (requestvb r) = col_type (colnum r)
        \<and> (is_bytes (colnum r) \<or> val_len (requestvb r) = 4)
        \<and> (colnum r \<in> set expr_cols \<longrightarrow> 0 \<le> sint (val_integer (requestvb r)) \<and> sint (val_integer (requestvb r)) \<le> 5)))"
proof -
  have typed: "\<not> misread r" if "acceptable r" for r
    using that by (auto simp: acceptable_def misread_def no_value_def col_defs)
  from reserve1_loop_status [of "rg_status rg" "rg_list rg"] assms have
    "if \<exists>r\<in>set (rg_list rg). misread r then reserve1_loop (rg_list rg) (rg_status rg) = Inl (BadPtr NULL)
     else \<exists>rs' st'. reserve1_loop (rg_list rg) (rg_status rg) = Inr (rs', st')
       \<and> (st' = 0 \<longleftrightarrow> (\<forall>r\<in>set (rg_list rg). acceptable r))" by (auto split: if_splits)
  then have "((\<exists>e. monitorPolicyTable_set_reserve1 rg = Inl e) \<longleftrightarrow> (\<exists>r\<in>set (rg_list rg). misread r))
    \<and> ((\<exists>g. monitorPolicyTable_set_reserve1 rg = Inr g \<and> rg_status g = SNMP_ERR_NOERROR)
        \<longleftrightarrow> (\<forall>r\<in>set (rg_list rg). acceptable r))"
    using typed by (cases "\<exists>r\<in>set (rg_list rg). misread r") (auto simp: monitorPolicyTable_set_reserve1_def)
  then show ?thesis unfolding misread_def acceptable_def .
qed

theorem reserve1_accepts_iff_witness:
  "(\<exists>g. monitorPolicyTable_set_reserve1 (set_group [set_request 3 4 (replicate 300 65) 0]) = Inr g \<and> rg_status g = 0)
   \<and> (\<nexists>g. monitorPolicyTable_set_reserve1 (set_group [set_request 8 2 [0, 0, 0, 6] 6]) = Inr g \<and> rg_status g = 0)
   \<and> (\<exists>e. monitorPolicyTable_set_reserve1 (set_group [set_request 8 5 [] 0]) = Inl e)"
  using reserve1_accepts_iff [of "set_group [set_request 3 4 (replicate 300 65) 0]"]
    reserve1_accepts_iff [of "set_group [set_request 8 2 [0, 0, 0, 6] 6]"]
    reserve1_accepts_iff [of "set_group [set_request 8 5 [] 0]"]
  by (simp add: set_group_def set_request_def col_defs is_bytes_def no_value_def)

text \<open>C9: ACTION on an accepted group: when every string fits its array, GET afterwards gives for each column but
  the status the value written last, and for a column that was not written what it gave before, the
  row stays well formed, and its status is the state the status written last asks for (active, not
  in service, or destroy, which marks the row as deleted); when some string is longer than its array (255, 128 or 512 bytes), memcpy writes
  behind the array, because no phase checks the length.\<close>

theorem set_then_get:
  assumes "existing_row rg = Some row" and "row_ok row"
    and "\<forall>r\<in>set (rg_list rg). acceptable r \<and> val_len (requestvb r) \<le> length (val_bytes (requestvb r))"
  shows "if \<exists>r\<in>set (rg_list rg). is_bytes (colnum r) \<and> col_size (colnum r) < val_len (requestvb r)
    then \<exists>e. monitorPolicyTable_set_action rg = Inl e
    else \<exists>row'. monitorPolicyTable_set_action rg = Inr (rg\<lparr>existing_row := Some row',
        row_deleted := row_deleted rg \<or> requested_status rg row = 6\<rparr>) \<and> row_ok row'
      \<and> monitorPolicyStatus row' = settled_status (requested_status rg row)
      \<and> (\<forall>c. c \<noteq> 34 \<longrightarrow> monitorPolicyTable_get_value c row' =
          (case find (\<lambda>r. colnum r = c) (rev (rg_list rg)) of
             Some r \<Rightarrow> Some (Inr (written_value c (requestvb r)))
           | None \<Rightarrow> monitorPolicyTable_get_value c row))"
  by (rule set_action_outcome [OF assms])

theorem set_then_get_witness:
  "(\<exists>row'. monitorPolicyTable_set_action (set_group [set_request 3 4 [65, 66] 0, set_request 34 2 [4, 0, 0, 0] 4])
      = Inr ((set_group [set_request 3 4 [65, 66] 0, set_request 34 2 [4, 0, 0, 0] 4])\<lparr>existing_row := Some row'\<rparr>)
      \<and> monitorPolicyStatus row' = 1 \<and> monitorPolicyTable_get_value 3 row' = Some (Inr (AsnBytes 4 [65, 66])))
   \<and> (\<exists>e. monitorPolicyTable_set_action (set_group [set_request 3 4 (replicate 300 65) 0]) = Inl e)"
proof -
  let ?g = "set_group [set_request 3 4 [65, 66] 0, set_request 34 2 [4, 0, 0, 0] 4]"
    and ?b = "set_group [set_request 3 4 (replicate 300 65) 0]"
  have e: "existing_row ?g = Some empty_row" "existing_row ?b = Some empty_row" by (simp_all add: set_group_def)
  have a: "\<forall>r\<in>set (rg_list ?g). acceptable r \<and> val_len (requestvb r) \<le> length (val_bytes (requestvb r))"
    "\<forall>r\<in>set (rg_list ?b). acceptable r \<and> val_len (requestvb r) \<le> length (val_bytes (requestvb r))"
    by (simp_all add: set_group_def set_request_def acceptable_def col_defs is_bytes_def)
  have s: "\<not> (\<exists>r\<in>set (rg_list ?g). is_bytes (colnum r) \<and> col_size (colnum r) < val_len (requestvb r))"
    "\<exists>r\<in>set (rg_list ?b). is_bytes (colnum r) \<and> col_size (colnum r) < val_len (requestvb r)"
    by (simp_all add: set_group_def set_request_def col_size_def col_defs is_bytes_def)
  have f: "find (\<lambda>r. colnum r = 3) (rev (rg_list ?g)) = Some (set_request 3 4 [65, 66] 0)"
    by (simp add: set_group_def set_request_def)
  have w: "written_value 3 (requestvb (set_request 3 4 [65, 66] 0)) = AsnBytes 4 [65, 66]"
    by (simp add: written_value_def set_request_def col_defs)
  have r: "requested_status ?g empty_row = 4" "row_deleted ?g = False"
    by (simp_all add: requested_status_def set_group_def set_request_def)
  from set_then_get [OF e(1) empty_row_ok a(1), unfolded if_not_P [OF s(1)] r]
  obtain row' where "monitorPolicyTable_set_action ?g = Inr (?g\<lparr>existing_row := Some row', row_deleted := False\<rparr>)"
    and st: "monitorPolicyStatus row' = settled_status 4"
    and v: "monitorPolicyTable_get_value 3 row' = (case find (\<lambda>r. colnum r = 3) (rev (rg_list ?g)) of
             Some r \<Rightarrow> Some (Inr (written_value 3 (requestvb r)))
           | None \<Rightarrow> monitorPolicyTable_get_value 3 empty_row)" by auto
  moreover have "?g\<lparr>existing_row := Some row', row_deleted := False\<rparr> = ?g\<lparr>existing_row := Some row'\<rparr>"
    by (simp add: set_group_def)
  moreover have "monitorPolicyStatus row' = 1" using st by (simp add: settled_status_def)
  moreover from v have "monitorPolicyTable_get_value 3 row' = Some (Inr (AsnBytes 4 [65, 66]))" unfolding f by (simp add: w)
  ultimately show ?thesis
    using set_then_get [OF e(2) empty_row_ok a(2), unfolded if_P [OF s(2)]] by metis
qed

text \<open>Copying a row (which the framework does to undo a SET) succeeds between well-formed rows, and GET gives
  for every column of the copy what it gives for the original.\<close>

theorem row_copy_visible:
  assumes "row_ok src" and "row_ok dst"
  shows "\<exists>dst'. monitorPolicyTable_row_copy True dst src = Inr (0, dst') \<and> row_ok dst'
    \<and> index_oids dst' = index_oids src
    \<and> (\<forall>c. monitorPolicyTable_get_value c dst' = monitorPolicyTable_get_value c src)"
  using row_copy_ok [OF assms] by blast

theorem row_copy_visible_witness:
  "\<exists>dst'. monitorPolicyTable_row_copy True empty_row empty_row = Inr (0, dst') \<and> index_oids dst' = [5]"
  using row_copy_visible [OF empty_row_ok empty_row_ok] by (auto simp: empty_row_def)

text \<open>C31: Saving the table and loading it again gives rows with the same index and the same values in all columns,
  when the index of each row is one number, every write succeeds and memory suffices.\<close>

theorem commit_then_load:
  assumes "\<forall>r\<in>set rows. length (index_oids r) = 1" and "\<forall>j<length rows. ok j" and "\<forall>j<length rows. mem j"
  shows "\<exists>rows' file loaded. monitorPolicyTable_set_commit True ok rows old = Inr (rows', file)
    \<and> RBM_Load_Container_From_File True mem file = Inr loaded \<and> map index_oids loaded = map index_oids rows
    \<and> (\<forall>c. map (monitorPolicyTable_get_value c) loaded = map (monitorPolicyTable_get_value c) rows)"
proof -
  have "\<forall>r\<in>set rows. index_oids r \<noteq> []" using assms(1) by fastforce
  then have "commit_rows ok 0 rows = Inr (map saved rows, map saved rows)"
    using assms(2) by (intro commit_rows_ok) simp_all
  moreover have "load_rows mem 0 (map saved rows) = Inr (map saved rows)"
    using assms(1,3) by (intro load_rows_ok) simp_all
  ultimately show ?thesis
    by (simp add: monitorPolicyTable_set_commit_def RBM_Load_Container_From_File_def comp_def)
qed

theorem commit_then_load_witness:
  "\<exists>rows' file loaded. monitorPolicyTable_set_commit True (\<lambda>_. True) [empty_row] [] = Inr (rows', file)
    \<and> RBM_Load_Container_From_File True (\<lambda>_. True) file = Inr loaded \<and> map index_oids loaded = [[5]]"
  using commit_then_load [of "[empty_row]" "\<lambda>_. True" "\<lambda>_. True" "[]"] by (auto simp: empty_row_def)

text \<open>The file is emptied before it is written, so when the write of row n fails the rows from n on are lost from
  the saved table, whatever it held before; the caller is not told.\<close>

theorem commit_failure_loses_rows:
  assumes "\<forall>r\<in>set rows. index_oids r \<noteq> []" and "n < length rows" and "\<forall>j<n. ok j" and "\<not> ok n"
  shows "\<exists>rows' file. monitorPolicyTable_set_commit True ok rows old = Inr (rows', file)
    \<and> length file = n \<and> map index_oids file = map index_oids (take n rows)"
proof -
  have "\<exists>rows'. commit_rows ok 0 rows = Inr (rows', map saved (take n rows))"
    by (rule commit_rows_fail) (use assms in simp_all)
  then show ?thesis using assms(2) by (auto simp: monitorPolicyTable_set_commit_def saved_def)
qed

theorem commit_failure_loses_rows_witness:
  "\<exists>rows' file. monitorPolicyTable_set_commit True (\<lambda>j. j < 1) [empty_row, empty_row] [empty_row, empty_row] = Inr (rows', file)
    \<and> length file = 1"
  using commit_failure_loses_rows [of "[empty_row, empty_row]" 1 "\<lambda>j. j < 1" "[empty_row, empty_row]"]
  by (auto simp: empty_row_def)

end
