(* ===== verification/RbmText.thy ===== *)
theory RbmText
  imports Prelude
begin

text \<open>
  The C text the rule evaluation of \<^verbatim>\<open>src/Group1/RBM/src/rbm.c\<close> works on: strings in a flat block of
  bytes (an array of \<open>RBM_List\<close> elements is one block, so a copy that is too long runs into the next
  element, and one that leaves the block is a fault), \<^verbatim>\<open>sprintf\<close> of numbers and OIDs, \<^verbatim>\<open>atoi\<close>,
  \<^verbatim>\<open>atol\<close> and \<^verbatim>\<open>strtok_r\<close>. A \<^typ>\<open>char\<close> is a byte; \<^verbatim>\<open>int\<close> and \<^verbatim>\<open>long\<close> have 32 bits.
\<close>

section \<open>Strings in a block\<close>

abbreviation (input) NUL :: char where "NUL \<equiv> CHR 0x00"
abbreviation (input) newline :: char where "newline \<equiv> CHR 0x0A"

definition cstr :: "string \<Rightarrow> nat \<Rightarrow> string res" where
  "cstr m off = (if NUL \<in> set (drop off m) then Inr (takeWhile (\<lambda>c. c \<noteq> NUL) (drop off m))
     else Inl (OutOfBounds (int (length m))))"

definition poke :: "string \<Rightarrow> nat \<Rightarrow> string \<Rightarrow> string res" where
  "poke m off s = (if off + length s \<le> length m
     then Inr (take off m @ s @ drop (off + length s) m)
     else Inl (OutOfBounds (int (length m))))"

definition strcpy :: "string \<Rightarrow> nat \<Rightarrow> string \<Rightarrow> string res" where
  "strcpy m off s = poke m off (s @ [NUL])"

text \<open>A \<^verbatim>\<open>sprintf\<close>, \<^verbatim>\<open>strcpy\<close> or \<^verbatim>\<open>strcat\<close> into a local array of \<open>n\<close> bytes that holds nothing else.\<close>

definition fits :: "nat \<Rightarrow> string \<Rightarrow> string res" where
  "fits n s = (if length s < n then Inr s else Inl (OutOfBounds (int n)))"

text \<open>The block holds the string \<open>s\<close> at the offset.\<close>

definition holds :: "string \<Rightarrow> nat \<Rightarrow> string \<Rightarrow> bool" where
  "holds m off s \<longleftrightarrow> NUL \<notin> set s \<and> off + length s < length m
   \<and> (\<forall>i<length s. m ! (off + i) = s ! i) \<and> m ! (off + length s) = NUL"

text \<open>The \<open>n\<close> bytes from the offset are all NUL.\<close>

definition blank :: "string \<Rightarrow> nat \<Rightarrow> nat \<Rightarrow> bool" where
  "blank m off n \<longleftrightarrow> off + n \<le> length m \<and> (\<forall>i<n. m ! (off + i) = NUL)"

lemma fits_eq_Inr [simp]: "fits n s = Inr t \<longleftrightarrow> length s < n \<and> t = s"
  by (auto simp: fits_def)

lemma poke_Inr: "off + length s \<le> length m \<Longrightarrow>
  \<exists>m'. poke m off s = Inr m' \<and> length m' = length m"
  by (simp add: poke_def)

lemma poke_length: "poke m off s = Inr m' \<Longrightarrow> length m' = length m \<and> off + length s \<le> length m"
  by (auto simp: poke_def split: if_splits)

lemma poke_nth:
  "poke m off s = Inr m' \<Longrightarrow> i < length m \<Longrightarrow>
   m' ! i = (if off \<le> i \<and> i < off + length s then s ! (i - off) else m ! i)"
  by (auto simp: poke_def nth_append split: if_splits)

lemma poke_fault_iff: "(\<exists>m'. poke m off s = Inr m') \<longleftrightarrow> off + length s \<le> length m"
  by (simp add: poke_def)

lemma holds_cstr: assumes "holds m off s" shows "cstr m off = Inr s"
proof -
  from assms have len: "off + length s < length m" and s: "NUL \<notin> set s"
    and nth: "\<And>i. i < length s \<Longrightarrow> m ! (off + i) = s ! i" and z: "m ! (off + length s) = NUL"
    by (auto simp: holds_def)
  have "take (length s) (drop off m) = s"
    using len nth by (intro nth_equalityI) auto
  moreover have "drop (length s) (drop off m) = NUL # drop (Suc (off + length s)) m"
    using Cons_nth_drop_Suc [OF len] z by (simp add: add.commute)
  ultimately have "drop off m = s @ NUL # drop (Suc (off + length s)) m"
    by (metis append_take_drop_id)
  moreover have "takeWhile (\<lambda>c. c \<noteq> NUL) (s @ NUL # t) = s" for t
    using s by (subst takeWhile_append2) auto
  ultimately show ?thesis by (simp add: cstr_def)
qed

lemma blank_holds: "blank m off n \<Longrightarrow> 0 < n \<Longrightarrow> holds m off []"
  by (auto simp: blank_def holds_def)

lemma blank_replicate [simp]: "blank (replicate k NUL) off n \<longleftrightarrow> off + n \<le> k"
  by (auto simp: blank_def)

lemma strcpy_holds: "NUL \<notin> set s \<Longrightarrow> strcpy m off s = Inr m' \<Longrightarrow> holds m' off s"
  using poke_length [of m off "s @ [NUL]" m']
  by (auto simp: holds_def strcpy_def poke_nth nth_append)

text \<open>Copying bytes without a terminator into an area that was blank.\<close>

lemma poke_blank_holds:
  "NUL \<notin> set s \<Longrightarrow> length s < n \<Longrightarrow> blank m off n \<Longrightarrow> poke m off s = Inr m' \<Longrightarrow> holds m' off s"
  using poke_length [of m off s m'] by (auto simp: holds_def blank_def poke_nth)

lemma poke_keeps_holds:
  "poke m off s = Inr m' \<Longrightarrow> holds m p t \<Longrightarrow> p + length t < off \<or> off + length s \<le> p \<Longrightarrow>
   holds m' p t"
  using poke_length [of m off s m'] by (auto simp: holds_def poke_nth)

lemma poke_keeps_blank:
  "poke m off s = Inr m' \<Longrightarrow> blank m p n \<Longrightarrow> p + n \<le> off \<or> off + length s \<le> p \<Longrightarrow> blank m' p n"
  using poke_length [of m off s m'] by (auto simp: blank_def poke_nth)

section \<open>Numbers as text\<close>

fun digits :: "nat \<Rightarrow> string" where
  "digits n = (if n < 10 then [char_of (48 + n)] else digits (n div 10) @ [char_of (48 + n mod 10)])"

declare digits.simps [simp del]

text \<open>\<^verbatim>\<open>sprintf\<close> with \<^verbatim>\<open>%ld\<close>, \<^verbatim>\<open>%d\<close> (and, on a nonnegative number, \<^verbatim>\<open>%lu\<close>).\<close>

definition print_int :: "int \<Rightarrow> string" where
  "print_int i = (if i < 0 then ''-'' @ digits (nat (- i)) else digits (nat i))"

definition isspace :: "char \<Rightarrow> bool" where
  "isspace c = (let n = (of_char c :: nat) in n = 32 \<or> 9 \<le> n \<and> n \<le> 13)"

definition isdigit :: "char \<Rightarrow> bool" where
  "isdigit c = (let n = (of_char c :: nat) in 48 \<le> n \<and> n \<le> 57)"

fun scan :: "nat \<Rightarrow> string \<Rightarrow> nat" where
  "scan a [] = a"
| "scan a (c # cs) = (if isdigit c then scan (10 * a + (of_char c - 48)) cs else a)"

definition strtol :: "string \<Rightarrow> int" where
  "strtol s = (case dropWhile isspace s of
       [] \<Rightarrow> 0
     | c # cs \<Rightarrow> if c = CHR ''-'' then - int (scan 0 cs)
         else if c = CHR ''+'' then int (scan 0 cs) else int (scan 0 (c # cs)))"

text \<open>\<^verbatim>\<open>atol\<close> (and \<^verbatim>\<open>atoi\<close>) keep the 32-bit range, as \<^verbatim>\<open>strtol\<close> does at the ends.\<close>

definition atol :: "string \<Rightarrow> int" where
  "atol s = max (- (2 ^ 31)) (min (2 ^ 31 - 1) (strtol s))"

abbreviation (input) atoi :: "string \<Rightarrow> int" where "atoi \<equiv> atol"

text \<open>\<^verbatim>\<open>strtoul\<close> with base 10 on text without a sign.\<close>

definition strtoul :: "string \<Rightarrow> nat" where
  "strtoul s = min (2 ^ 32 - 1) (nat (strtol s))"

lemma of_char_digit [simp]: "(d :: nat) < 10 \<Longrightarrow> (of_char (char_of (48 + d) :: char) :: nat) = 48 + d"
  by (simp add: of_char_of)

lemma isdigit_digit [simp]: "(d :: nat) < 10 \<Longrightarrow> isdigit (char_of (48 + d))"
  by (simp add: isdigit_def)

lemma digit_chars:
  "char_of (48 :: nat) = CHR ''0''" "char_of (49 :: nat) = CHR ''1''" "char_of (50 :: nat) = CHR ''2''"
  "char_of (51 :: nat) = CHR ''3''" "char_of (52 :: nat) = CHR ''4''" "char_of (53 :: nat) = CHR ''5''"
  "char_of (54 :: nat) = CHR ''6''" "char_of (55 :: nat) = CHR ''7''" "char_of (56 :: nat) = CHR ''8''"
  "char_of (57 :: nat) = CHR ''9''"
  by (simp_all add: char_of_def bit_iff_odd)

lemma digits_are_digits: "c \<in> set (digits n) \<Longrightarrow> isdigit c"
  by (induction n rule: digits.induct) (subst (asm) (2) digits.simps, auto split: if_splits)

lemma digits_nonempty [simp]: "digits n \<noteq> []"
  by (subst digits.simps) simp

lemma scan_append: "\<forall>c\<in>set xs. isdigit c \<Longrightarrow> scan a (xs @ ys) = scan (scan a xs) ys"
  by (induction xs arbitrary: a) auto

lemma scan_digits [simp]: "scan 0 (digits n) = n"
proof (induction n rule: digits.induct)
  case (1 n)
  show ?case
  proof (cases "n < 10")
    case True
    then show ?thesis by (subst digits.simps) simp
  next
    case False
    have "digits n = digits (n div 10) @ [char_of (48 + n mod 10)]"
      using False by (subst digits.simps) simp
    then show ?thesis using 1 False by (simp add: scan_append digits_are_digits)
  qed
qed

lemma isdigit_neq: "isdigit c \<Longrightarrow> \<not> isspace c \<and> c \<noteq> CHR ''-'' \<and> c \<noteq> CHR ''+'' \<and> c \<noteq> CHR ''.'' \<and> c \<noteq> NUL"
  by (auto simp: isdigit_def isspace_def Let_def)

lemma strtol_digits: "strtol (digits n) = int n"
proof -
  obtain c cs where c: "digits n = c # cs" by (cases "digits n") auto
  then have "isdigit c" using digits_are_digits [of c n] by simp
  then show ?thesis using isdigit_neq [of c] scan_digits [of n] c by (simp add: strtol_def)
qed

lemma strtol_print_int: "strtol (print_int i) = i"
proof (cases "i < 0")
  case True
  then show ?thesis by (simp add: print_int_def strtol_def isspace_def)
next
  case False
  then show ?thesis by (simp add: print_int_def strtol_digits)
qed

lemma atol_print_int: "- (2 ^ 31) \<le> i \<Longrightarrow> i < 2 ^ 31 \<Longrightarrow> atol (print_int i) = i"
  by (simp add: atol_def strtol_print_int)

lemma print_int_no_NUL: "NUL \<notin> set (print_int i)"
proof -
  have "NUL \<notin> set (digits n)" for n using digits_are_digits [of NUL n] by (auto simp: isdigit_def)
  then show ?thesis by (simp add: print_int_def)
qed

lemma length_digits: "n < 10 ^ k \<Longrightarrow> 0 < k \<Longrightarrow> length (digits n) \<le> k"
proof (induction k arbitrary: n)
  case (Suc k)
  show ?case
  proof (cases "n < 10")
    case True
    then show ?thesis by (subst digits.simps) simp
  next
    case False
    then have "0 < k" using Suc.prems by (cases k) auto
    moreover have "n div 10 < 10 ^ k" using Suc.prems by (simp add: less_mult_imp_div_less)
    ultimately have "length (digits (n div 10)) \<le> k" using Suc.IH by blast
    then show ?thesis using False by (subst digits.simps) simp
  qed
qed simp

lemma length_print_int: "\<bar>i\<bar> < 10 ^ 10 \<Longrightarrow> length (print_int i) \<le> 11"
proof -
  assume "\<bar>i\<bar> < 10 ^ 10"
  then have "nat i < 10 ^ 10" "nat (- i) < 10 ^ 10"
    by (auto simp: nat_less_iff)
  then have "length (digits (nat i)) \<le> 10" "length (digits (nat (- i))) \<le> 10"
    using length_digits by simp_all
  then show ?thesis by (simp add: print_int_def)
qed

text \<open>An OID as the program prints it, every sub-identifier with \<^verbatim>\<open>.%ld\<close>.\<close>

definition oid_text :: "long list \<Rightarrow> string" where
  "oid_text os = concat (map (\<lambda>x. ''.'' @ print_int (sint x)) os)"

lemmas text_eval = digit_chars digits.simps print_int_def oid_text_def atol_def strtol_def
  isspace_def isdigit_def

lemma oid_text_no_NUL: "NUL \<notin> set (oid_text os)"
  using print_int_no_NUL by (auto simp: oid_text_def)

section \<open>Tokens\<close>

text \<open>The tokens \<^verbatim>\<open>strtok_r\<close> finds between spaces.\<close>

function (sequential) tokens :: "string \<Rightarrow> string list" where
  "tokens [] = []"
| "tokens (c # cs) = (if c = CHR '' '' then tokens cs
     else (c # takeWhile (\<lambda>x. x \<noteq> CHR '' '') cs) # tokens (dropWhile (\<lambda>x. x \<noteq> CHR '' '') cs))"
  by pat_completeness auto

termination
  by (relation "measure length") (auto simp: le_imp_less_Suc length_dropWhile_le)

text \<open>Words with a blank between them.\<close>

fun unwords :: "string list \<Rightarrow> string" where
  "unwords [] = []"
| "unwords [w] = w"
| "unwords (w # ws) = w @ CHR '' '' # unwords ws"

end
