(* ===== verification/RbmPolicy.thy ===== *)
theory RbmPolicy
  imports RbmText
begin

text \<open>
  The evaluation of a rule (\<^verbatim>\<open>src/Group1/RBM/src/rbm.c\<close>): on a trap from the monitor, \<^verbatim>\<open>snmp_input\<close> reads
  the policy's row by SNMP, reads the variables it names, checks up to five conditions, sends an
  alert and runs the policy's command and script. An array of \<^verbatim>\<open>RBM_List\<close> elements is a flat block:
  element \<open>k\<close> has its \<^verbatim>\<open>szVariable\<close> at byte \<open>256 * k\<close> and its \<^verbatim>\<open>szValue\<close> 128 bytes further. The SNMP
  library, the resolver, the clock and the log file are the fields of \<open>rbm_env\<close>, an argument.
\<close>

section \<open>Data\<close>

definition var_at :: "nat \<Rightarrow> nat" where "var_at k = 256 * k"
definition val_at :: "nat \<Rightarrow> nat" where "val_at k = 256 * k + 128"

abbreviation (input) RBM_START_COLUMN :: nat where "RBM_START_COLUMN \<equiv> 7"
abbreviation (input) RBM_VAR_COLUMNS :: nat where "RBM_VAR_COLUMNS \<equiv> 27"
abbreviation (input) RBM_OID_COLUMNS :: nat where "RBM_OID_COLUMNS \<equiv> 5"
abbreviation (input) RBM_MSG_COLUMN :: nat where "RBM_MSG_COLUMN \<equiv> 26"
abbreviation (input) RBM_SCR_COLUMN :: nat where "RBM_SCR_COLUMN \<equiv> 25"
abbreviation (input) RBM_CMD_COLUMN :: nat where "RBM_CMD_COLUMN \<equiv> 24"
abbreviation (input) RBM_SMS_COLUMN :: nat where "RBM_SMS_COLUMN \<equiv> 20"
abbreviation (input) RBM_LEVEL_COLUMN :: nat where "RBM_LEVEL_COLUMN \<equiv> 19"

definition calloc_list :: "nat \<Rightarrow> string" where
  "calloc_list n = replicate (256 * n) NUL"

text \<open>What the agent returns for a GET: the varbinds of the reply, by the type of their value.\<close>

datatype snmp_value =
    Integer long            \<comment> \<open>\<^verbatim>\<open>ASN_INTEGER\<close>\<close>
  | Unsigned long           \<comment> \<open>\<^verbatim>\<open>ASN_UNSIGNED\<close> and \<^verbatim>\<open>ASN_IPADDRESS\<close>, read as a long\<close>
  | ObjectId "long list"    \<comment> \<open>\<^verbatim>\<open>ASN_OBJECT_ID\<close>\<close>
  | OctetStr string         \<comment> \<open>\<^verbatim>\<open>ASN_OCTET_STR\<close>, \<^verbatim>\<open>val_len\<close> bytes\<close>
  | OtherType int           \<comment> \<open>any other type\<close>

type_synonym snmp_var = "long list \<times> snmp_value"

datatype snmp_reply =
    NoSession               \<comment> \<open>\<^verbatim>\<open>snmp_open\<close> fails\<close>
  | NoReply                 \<comment> \<open>no answer, or one with an error status\<close>
  | Reply "snmp_var list"

record RBM_AlertMsg =
  modCode :: string
  masterIp :: string
  dateTime :: string
  sysName :: string
  alertMesg :: string
  level :: string
  sms :: string
  popup :: string
  email :: string
  pstn :: string

text \<open>
  \<open>read_objid s n\<close> is the result of \<^verbatim>\<open>read_objid\<close> on text \<open>s\<close> with room for \<open>n\<close> sub-identifiers: its
  return value and what it stored, whose number is the new length.
\<close>

record rbm_env =
  read_objid :: "string \<Rightarrow> nat \<Rightarrow> bool \<times> long list"
  snmp_get :: "string \<Rightarrow> long list list \<Rightarrow> snmp_reply"
  local_ip :: "string option"       \<comment> \<open>the host's address as text, if the name resolves\<close>
  nodename :: string
  ctime_text :: string
  stack_bytes :: string             \<comment> \<open>what uninitialised locals hold\<close>
  log_full :: "string \<Rightarrow> bool"      \<comment> \<open>the log would exceed its limit with this text\<close>
  log_reopens :: bool
  udp_works :: bool

text \<open>What the program does for the outside.\<close>

datatype action =
    Alert string nat string                    \<comment> \<open>datagram: address, port, text\<close>
  | Fork "fault + string option list"          \<comment> \<open>child process with its \<^verbatim>\<open>argv\<close>\<close>

record rbm_state =
  giSAPort :: int
  uiPolicyId :: long
  szTrapMessage :: string
  szRemAddress :: string
  num_received :: nat

section \<open>Reading a row\<close>

text \<open>
  The GET request: every OID text is parsed with room for as many sub-identifiers as the previous
  one left in \<^verbatim>\<open>anOID_len\<close>, and added whether or not it parsed.
\<close>

fun request_oids :: "(string \<Rightarrow> nat \<Rightarrow> bool \<times> long list) \<Rightarrow> string \<Rightarrow> nat list \<Rightarrow> nat \<Rightarrow>
    long list list res" where
  "request_oids rd m [] room = Inr []"
| "request_oids rd m (cnt # cnts) room = rbind (cstr m (var_at cnt)) (\<lambda>s.
     let anOID = snd (rd s room) in
     rbind (request_oids rd m cnts (length anOID)) (\<lambda>os. Inr (anOID # os)))"

text \<open>One varbind of the reply: the block and the next element to fill.\<close>

fun store_value :: "string \<Rightarrow> nat \<Rightarrow> snmp_value \<Rightarrow> (string \<times> nat) res" where
  "store_value m n (Integer w) =
     rbind (strcpy m (val_at n) (print_int (sint w))) (\<lambda>m. Inr (m, Suc n))"
| "store_value m n (Unsigned w) =
     rbind (strcpy m (val_at n) (print_int (uint w))) (\<lambda>m. Inr (m, Suc n))"
| "store_value m n (ObjectId os) = rbind (fits 80 (oid_text os)) (\<lambda>str.
     rbind (strcpy m (val_at n) str) (\<lambda>m. Inr (m, Suc n)))"
| "store_value m n (OctetStr s) =
     rbind (poke m (val_at n) (take 255 s)) (\<lambda>m. Inr (m, Suc n))"
| "store_value m n (OtherType t) = Inr (m, n)"

fun store_values :: "string \<Rightarrow> nat \<Rightarrow> snmp_var list \<Rightarrow> string res" where
  "store_values m n [] = Inr m"
| "store_values m n ((nm, v) # vs) = rbind (fits 80 (oid_text nm)) (\<lambda>_.
     rbind (store_value m n v) (\<lambda>(m, n). store_values m n vs))"

definition RBM_SNMP_Get_Row :: "rbm_env \<Rightarrow> rbm_state \<Rightarrow> string \<Rightarrow> nat \<Rightarrow> (string \<times> int) res" where
  "RBM_SNMP_Get_Row env st m iLength =
     (let szRemAddressPort = szRemAddress st @ '':'' @ print_int (giSAPort st) in
      rbind (request_oids (read_objid env) m [0..<iLength] 128) (\<lambda>oids.
        case snmp_get env szRemAddressPort oids of
          NoSession \<Rightarrow> Inr (m, 2)
        | NoReply \<Rightarrow> Inr (m, 1)
        | Reply vars \<Rightarrow> rbind (store_values m 0 vars) (\<lambda>m. Inr (m, 0))))"

section \<open>The lists\<close>

definition monitorPolicyTable_ENTRY_OID :: string where
  "monitorPolicyTable_ENTRY_OID = ''.1.3.6.1.4.1.3204.1.3.35.1.1''"

definition column_oid :: "long \<Rightarrow> nat \<Rightarrow> string" where
  "column_oid policy sCnt = monitorPolicyTable_ENTRY_OID @ ''.'' @
     print_int (int (sCnt + RBM_START_COLUMN)) @ ''.'' @ print_int (sint policy)"

fun fill_variables :: "long \<Rightarrow> string \<Rightarrow> nat list \<Rightarrow> string res" where
  "fill_variables policy m [] = Inr m"
| "fill_variables policy m (sCnt # cnts) = rbind (fits 80 (column_oid policy sCnt)) (\<lambda>szStrOid.
     rbind (strcpy m (var_at sCnt) szStrOid) (\<lambda>m. fill_variables policy m cnts))"

definition RBM_Fill_Variables_List :: "rbm_state \<Rightarrow> string \<Rightarrow> (string \<times> nat) res" where
  "RBM_Fill_Variables_List st m =
     rbind (fill_variables (uiPolicyId st) m [0..<RBM_VAR_COLUMNS]) (\<lambda>m. Inr (m, RBM_VAR_COLUMNS))"

text \<open>The OIDs of the variables, up to the first that is not set (its text starts with \<^verbatim>\<open>.0\<close>).\<close>

fun fill_oids :: "string \<Rightarrow> string \<Rightarrow> nat \<Rightarrow> nat list \<Rightarrow> (string \<times> nat) res" where
  "fill_oids m mo sAdd [] = Inr (mo, RBM_OID_COLUMNS)"
| "fill_oids m mo sAdd (sCnt # cnts) = rbind (cstr m (val_at sAdd)) (\<lambda>s.
     if take 2 s = ''.0'' then Inr (mo, sCnt)
     else rbind (strcpy mo (var_at sCnt) s) (\<lambda>mo. fill_oids m mo (sAdd + 4) cnts))"

definition RBM_Fill_OID_List :: "string \<Rightarrow> string \<Rightarrow> (string \<times> nat) res" where
  "RBM_Fill_OID_List pstList pstOidList = fill_oids pstList pstOidList 0 [0..<RBM_OID_COLUMNS]"

fun copy_oids :: "string \<Rightarrow> string \<Rightarrow> nat \<Rightarrow> nat list \<Rightarrow> string res" where
  "copy_oids m mo sAdd [] = Inr m"
| "copy_oids m mo sAdd (sCnt # cnts) = rbind (cstr mo (val_at sCnt)) (\<lambda>s.
     rbind (strcpy m (val_at sAdd) s) (\<lambda>m. copy_oids m mo (sAdd + 4) cnts))"

definition RBM_Copy_OID_List :: "string \<Rightarrow> string \<Rightarrow> nat \<Rightarrow> string res" where
  "RBM_Copy_OID_List pstList pstOidList iLength = copy_oids pstList pstOidList 0 [0..<iLength]"

section \<open>Conditions\<close>

text \<open>A list element's value as a number.\<close>

definition num_at :: "string \<Rightarrow> nat \<Rightarrow> int res" where
  "num_at m k = rbind (cstr m (val_at k)) (\<lambda>s. Inr (atol s))"

text \<open>The comparison an expression code stands for.\<close>

definition compare_expr :: "int \<Rightarrow> int \<Rightarrow> int \<Rightarrow> int" where
  "compare_expr iExpr iValue iThreshold =
     of_bool (if iExpr = 0 then iValue < iThreshold
       else if iExpr = 1 then iValue > iThreshold
       else if iExpr = 2 then iValue \<le> iThreshold
       else if iExpr = 3 then iValue \<ge> iThreshold
       else if iExpr = 4 then iValue \<noteq> iThreshold
       else if iExpr = 5 then iValue = iThreshold
       else False)"

definition RBM_Validate_Single_Variable :: "nat \<Rightarrow> int \<Rightarrow> string \<Rightarrow> int res" where
  "RBM_Validate_Single_Variable sCnt sSavedRes m =
     (if sCnt = 0 then
        rbind (num_at m sCnt) (\<lambda>iValue.
        rbind (num_at m (sCnt + 1)) (\<lambda>iExpr.
        rbind (num_at m (sCnt + 2)) (\<lambda>iThreshold.
        let iExpr = (if iExpr < 0 \<or> iExpr > 5 then 0 else iExpr) in
        Inr (compare_expr iExpr iValue iThreshold))))
      else
        rbind (num_at m sCnt) (\<lambda>iOperation.
        rbind (num_at m (sCnt + 1)) (\<lambda>iValue.
        rbind (num_at m (sCnt + 2)) (\<lambda>iExpr.
        rbind (num_at m (sCnt + 3)) (\<lambda>iThreshold.
        let iExpr = (if iExpr < 0 \<or> iExpr > 5 then 0 else iExpr) in
        if iOperation < 0 \<or> iOperation \<ge> 3 then Inl (OutOfBounds iOperation)  \<comment> \<open>\<^verbatim>\<open>aOpn[iOperation]\<close>\<close>
        else let iResult = compare_expr iExpr iValue iThreshold in
          Inr (if iOperation = 0 then and sSavedRes iResult else or sSavedRes iResult))))))"

function validate_loop :: "nat \<Rightarrow> int \<Rightarrow> nat \<Rightarrow> string \<Rightarrow> int res" where
  "validate_loop sCnt sSavedRes iLength m =
     (if int sCnt < int iLength * 4 - 1
      then rbind (RBM_Validate_Single_Variable sCnt sSavedRes m) (\<lambda>sOutput.
        validate_loop (sCnt + 4) sOutput iLength m)
      else Inr sSavedRes)"
  by pat_completeness auto

termination
  by (relation "measure (\<lambda>(sCnt, _, iLength, _). 4 * iLength - sCnt)") auto

definition RBM_Validate_Variables :: "string \<Rightarrow> nat \<Rightarrow> int res" where
  "RBM_Validate_Variables m iLength =
     rbind (RBM_Validate_Single_Variable 0 0 m) (\<lambda>sSavedRes. validate_loop 3 sSavedRes iLength m)"

declare validate_loop.simps [simp del]

section \<open>The alert\<close>

text \<open>Copies into the fields of the message, each an array of the size given.\<close>

definition flag_text :: "string \<Rightarrow> nat \<Rightarrow> string res" where
  "flag_text m i = rbind (num_at m (RBM_SMS_COLUMN + i)) (\<lambda>iTmp.
     fits 10 (if iTmp = 1 then ''True'' else ''False''))"

definition level_text :: "string \<Rightarrow> string res" where
  "level_text m = rbind (num_at m RBM_LEVEL_COLUMN) (\<lambda>iTmp.
     fits 10 ([''Warning'', ''Minor'', ''Normal'', ''Major'', ''Critical''] !
       nat (if iTmp < 0 \<or> iTmp > 4 then 0 else iTmp)))"

text \<open>The address is left as it was on the stack when the name does not resolve.\<close>

definition RBM_get_local_host_ip_log :: "rbm_env \<Rightarrow> string res" where
  "RBM_get_local_host_ip_log env = (case local_ip env of
       None \<Rightarrow> cstr (stack_bytes env) 0
     | Some ip \<Rightarrow> rbind (fits 25 ip) (\<lambda>sys_ip. fits 16 sys_ip))"

definition RBM_Get_ASCII_Time :: "rbm_env \<Rightarrow> string res" where
  "RBM_Get_ASCII_Time env = rbind (fits 50 (ctime_text env)) (\<lambda>t.
     if t = [] then Inl (OutOfBounds (- 1))
     else Inr (if last t = newline then butlast t else t))"

definition form_message :: "rbm_env \<Rightarrow> string \<Rightarrow> RBM_AlertMsg res" where
  "form_message env m =
     rbind (RBM_get_local_host_ip_log env) (\<lambda>ip.
     rbind (RBM_Get_ASCII_Time env) (\<lambda>t.
     rbind (fits 65 (nodename env)) (\<lambda>sys.
     rbind (cstr m (val_at RBM_MSG_COLUMN)) (\<lambda>s.
     rbind (fits 256 s) (\<lambda>msg.
     rbind (level_text m) (\<lambda>lv.
     rbind (flag_text m 0) (\<lambda>f0.
     rbind (flag_text m 1) (\<lambda>f1.
     rbind (flag_text m 2) (\<lambda>f2.
     rbind (flag_text m 3) (\<lambda>f3.
     Inr \<lparr>modCode = ''RBMM'', masterIp = ip, dateTime = t, sysName = sys, alertMesg = msg,
       level = lv, sms = f0, popup = f1, email = f2, pstn = f3\<rparr>))))))))))"

definition log_text :: "RBM_AlertMsg \<Rightarrow> string" where
  "log_text s = ''Module Code='' @ modCode s @ '' Master Agent IP='' @ masterIp s
     @ '' Time='' @ dateTime s @ [newline] @ ''SysName='' @ sysName s @ '' Message='' @ alertMesg s
     @ '' Level='' @ level s @ '' SMS='' @ sms s @ '' Popup='' @ popup s @ '' EMail='' @ email s
     @ '' PSTN='' @ pstn s"

definition wire_text :: "RBM_AlertMsg \<Rightarrow> string" where
  "wire_text s = modCode s @ ''|'' @ masterIp s @ ''|'' @ dateTime s @ ''|'' @ sysName s @ ''|''
     @ alertMesg s @ ''|'' @ level s @ ''|'' @ sms s @ ''|'' @ popup s @ ''|'' @ email s @ ''|''
     @ pstn s"

text \<open>\<^verbatim>\<open>inet_ntoa\<close>: the four bytes of the address in memory order.\<close>

definition inet_ntoa :: "nat \<Rightarrow> string" where
  "inet_ntoa a = digits (a mod 256) @ ''.'' @ digits (a div 256 mod 256) @ ''.'' @
     digits (a div 65536 mod 256) @ ''.'' @ digits (a div 16777216 mod 256)"

text \<open>
  The datagram goes to the address and port the agent gives for the alert manager; the two list
  elements are locals, so what the reply does not fill is what the stack holds.
\<close>

definition RBM_SendAlertMsg :: "rbm_env \<Rightarrow> rbm_state \<Rightarrow> RBM_AlertMsg \<Rightarrow> (action list \<times> int) res" where
  "RBM_SendAlertMsg env st stMesg =
     rbind (strcpy (take 512 (stack_bytes env)) (var_at 0) ''.1.3.6.1.4.1.3204.1.3.36.1.4.0'') (\<lambda>m.
     rbind (strcpy m (var_at 1) ''.1.3.6.1.4.1.3204.1.3.36.1.5.0'') (\<lambda>m.
     rbind (RBM_SNMP_Get_Row env st m 2) (\<lambda>(m, sErr).
     if sErr \<noteq> 0 then Inr ([], 1)
     else rbind (cstr m (val_at 0)) (\<lambda>s. rbind (fits 255 s) (\<lambda>gszAlertMgrIP.
       rbind (num_at m 1) (\<lambda>glRBMAlertMgrPort.
       rbind (fits 443 (wire_text stMesg)) (\<lambda>pcAlertMesg.
       if udp_works env
       then Inr ([Alert (inet_ntoa (strtoul gszAlertMgrIP)) (nat (glRBMAlertMgrPort mod 65536))
                   pcAlertMesg], 0)
       else Inr ([], 1))))))))"

text \<open>
  The result also says whether the log file is still open: when it is full it is renamed, and the
  file pointer is NULL if the new one cannot be opened.
\<close>

definition RBM_Form_Send_AlertMsg ::
    "rbm_env \<Rightarrow> rbm_state \<Rightarrow> string \<Rightarrow> (action list \<times> bool \<times> int) res" where
  "RBM_Form_Send_AlertMsg env st m = rbind (form_message env m) (\<lambda>stMsg.
     rbind (fits 1024 (log_text stMsg)) (\<lambda>acMessage.
     if log_full env acMessage \<and> \<not> log_reopens env then Inr ([], False, 1)
     else rbind (RBM_SendAlertMsg env st stMsg) (\<lambda>(acts, err). Inr (acts, True, err))))"

section \<open>Commands\<close>

text \<open>
  What the child builds in \<^verbatim>\<open>argv[20]\<close> for \<^verbatim>\<open>execv\<close>: one word without a space, the tokens otherwise
  (a command of spaces only has the NULL that \<^verbatim>\<open>strtok_r\<close> returned), then the NULL at the end.
\<close>

definition child_argv :: "string \<Rightarrow> string option list res" where
  "child_argv command =
     (let args = (if CHR '' '' \<notin> set command then [Some command]
        else if tokens command = [] then [None]
        else map Some (take 20 (tokens command)))
      in if length args < 20 then Inr args else Inl (OutOfBounds 20))"

definition RBM_Fork_Execute :: "string \<Rightarrow> action res" where
  "RBM_Fork_Execute szCmd = rbind (fits 256 szCmd) (\<lambda>command. Inr (Fork (child_argv command)))"

text \<open>A list element's value is run when it is not empty; the log is written first.\<close>

definition run_column :: "bool \<Rightarrow> string \<Rightarrow> nat \<Rightarrow> action list res" where
  "run_column fp m k = rbind (cstr m (val_at k)) (\<lambda>s.
     if s = [] then Inr []
     else if \<not> fp then Inl (BadPtr NULL)
     else rbind (RBM_Fork_Execute s) (\<lambda>a. Inr [a]))"

section \<open>The trap\<close>

datatype trap_value =
    TInteger long | TUnsigned long | TOctetStr string | TOther

record trap_pdu =
  variables :: "(long list \<times> trap_value) list"
  received :: bool             \<comment> \<open>\<^verbatim>\<open>op\<close> is \<^verbatim>\<open>NETSNMP_CALLBACK_OP_RECEIVED_MESSAGE\<close>\<close>
  is_trap2 :: bool             \<comment> \<open>the command is \<^verbatim>\<open>SNMP_MSG_TRAP2\<close>\<close>
  numeric_ip :: bool           \<comment> \<open>\<^verbatim>\<open>NETSNMP_DS_APP_NUMERIC_IP\<close> is set\<close>
  sender :: string             \<comment> \<open>the address of \<^verbatim>\<open>transport_data\<close> as text\<close>

definition aulNuriPolicy_variables_oid :: "long list" where
  "aulNuriPolicy_variables_oid = [1, 3, 6, 1, 4, 1, 3204, 1, 3, 35]"

text \<open>\<^verbatim>\<open>netsnmp_oid_is_subtree\<close> returns 0 when the name is in the subtree.\<close>

definition in_policy_tree :: "long list \<Rightarrow> bool" where
  "in_policy_tree nm = (take 10 nm = aulNuriPolicy_variables_oid)"

text \<open>\<^verbatim>\<open>strncpy\<close> of \<^verbatim>\<open>val_len\<close> bytes into the cleared array of 255.\<close>

definition copy_trap_message :: "string \<Rightarrow> string res" where
  "copy_trap_message s = (if length s \<le> 255
     then let c = takeWhile (\<lambda>x. x \<noteq> NUL) s in Inr (c @ replicate (255 - length c) NUL)
     else Inl (OutOfBounds 255))"

text \<open>The varbinds; the result is \<^const>\<open>False\<close> when the trap is rejected.\<close>

fun read_trap :: "nat \<Rightarrow> (long list \<times> trap_value) list \<Rightarrow> rbm_state \<Rightarrow> (rbm_state \<times> bool) res" where
  "read_trap sArgCnt [] st = Inr (st, True)"
| "read_trap sArgCnt ((nm, v) # vs) st =
     (let sArgCnt = Suc sArgCnt in
      if \<not> in_policy_tree nm then
        (if sArgCnt \<le> 2 then read_trap sArgCnt vs st else Inr (st, False))
      else if sArgCnt \<le> 2 then Inr (st, False)
      else case v of
        TInteger w \<Rightarrow> read_trap sArgCnt vs (st\<lparr>giSAPort := sint w\<rparr>)
      | TUnsigned w \<Rightarrow> read_trap sArgCnt vs (st\<lparr>uiPolicyId := w\<rparr>)
      | TOctetStr s \<Rightarrow> rbind (copy_trap_message s) (\<lambda>b.
          read_trap sArgCnt vs (st\<lparr>szTrapMessage := b\<rparr>))
      | TOther \<Rightarrow> read_trap sArgCnt vs st)"

definition note_sender :: "trap_pdu \<Rightarrow> rbm_state \<Rightarrow> rbm_state res" where
  "note_sender pdu st =
     (if received pdu \<and> is_trap2 pdu then
        (let st = st\<lparr>num_received := num_received st + 1\<rparr> in
         if numeric_ip pdu then Inr st
         else rbind (fits 25 (sender pdu)) (\<lambda>a.
           rbind (cstr (szTrapMessage st) 0) (\<lambda>_. Inr (st\<lparr>szRemAddress := a\<rparr>))))
      else Inr st)"

text \<open>
  The two reads: \<open>Inl r\<close> when the function returns \<open>r\<close> here, otherwise the filled list and the
  number of variables the policy has.
\<close>

definition gather :: "rbm_env \<Rightarrow> rbm_state \<Rightarrow> (int + string \<times> nat) res" where
  "gather env st =
     rbind (RBM_Fill_Variables_List st (calloc_list RBM_VAR_COLUMNS)) (\<lambda>(pstList, iLength).
     rbind (RBM_SNMP_Get_Row env st pstList iLength) (\<lambda>(pstList, sErr).
     if sErr \<noteq> 0 then Inr (Inl 1)
     else rbind (RBM_Fill_OID_List pstList (calloc_list RBM_OID_COLUMNS)) (\<lambda>(pstOidList, iLength).
     if iLength = 0 then Inr (Inl 0)
     else rbind (RBM_SNMP_Get_Row env st pstOidList iLength) (\<lambda>(pstOidList, sErr).
     if sErr \<noteq> 0 then Inr (Inl 1)
     else rbind (RBM_Copy_OID_List pstList pstOidList iLength) (\<lambda>pstList.
     Inr (Inr (pstList, iLength)))))))"

text \<open>The decision, the alert, the command and the script.\<close>

definition act_on :: "rbm_env \<Rightarrow> rbm_state \<Rightarrow> string \<Rightarrow> nat \<Rightarrow> (action list \<times> int) res" where
  "act_on env st pstList iLength =
     rbind (RBM_Validate_Variables pstList iLength) (\<lambda>iSendAlert.
     rbind (if iSendAlert \<noteq> 0 then RBM_Form_Send_AlertMsg env st pstList else Inr ([], True, 0))
       (\<lambda>(alert, fp, _).
     rbind (run_column fp pstList RBM_CMD_COLUMN) (\<lambda>cmd.
     rbind (run_column fp pstList RBM_SCR_COLUMN) (\<lambda>scr.
     if \<not> fp then Inl (BadPtr NULL) else Inr (alert @ cmd @ scr, 1)))))"

definition evaluate_policy :: "rbm_env \<Rightarrow> rbm_state \<Rightarrow> (action list \<times> int) res" where
  "evaluate_policy env st = rbind (gather env st) (\<lambda>g. case g of
       Inl r \<Rightarrow> Inr ([], r)
     | Inr (pstList, iLength) \<Rightarrow> act_on env st pstList iLength)"

definition snmp_input :: "rbm_env \<Rightarrow> trap_pdu \<Rightarrow> rbm_state \<Rightarrow> (rbm_state \<times> action list \<times> int) res" where
  "snmp_input env pdu st = rbind (read_trap 0 (variables pdu) st) (\<lambda>(st, ok).
     if \<not> ok then Inr (st, [], 1)
     else rbind (note_sender pdu st) (\<lambda>st.
       rbind (evaluate_policy env st) (\<lambda>(acts, r). Inr (st, acts, r))))"

section \<open>Options\<close>

record rbm_options =
  giDoDebug :: int
  giDoFork :: int
  giRBMPort :: int

text \<open>The arguments after the program name; \<^const>\<open>None\<close> when the program prints its usage and exits.\<close>

fun rbm_args :: "string list \<Rightarrow> rbm_options \<Rightarrow> rbm_options option" where
  "rbm_args [] opts = Some opts"
| "rbm_args (a # rest) opts =
     (if take 1 a \<noteq> ''-'' then None
      else if take 1 (drop 1 a) = ''D'' then rbm_args rest (opts\<lparr>giDoDebug := 1\<rparr>)
      else if take 1 (drop 1 a) = ''p'' \<or> take 1 (drop 1 a) = ''P'' then
        (case rest of
           [] \<Rightarrow> Some opts
         | port # rest \<Rightarrow> rbm_args (drop 1 rest) (opts\<lparr>giRBMPort := atoi port\<rparr>))
      else if take 1 (drop 1 a) = ''f'' \<or> take 1 (drop 1 a) = ''F''
        then rbm_args rest (opts\<lparr>giDoFork := 0\<rparr>)
      else None)"

definition RBM_GetOptions :: "string list \<Rightarrow> rbm_options \<Rightarrow> rbm_options option" where
  "RBM_GetOptions nargv opts = rbm_args (drop 1 nargv) opts"

section \<open>Conditions: the reference\<close>

text \<open>
  A condition compares a value with a threshold; an expression code out of range counts as 0.
  Conditions are joined from left to right, without precedence.
\<close>

definition cond_holds :: "int \<Rightarrow> int \<Rightarrow> int \<Rightarrow> bool" where
  "cond_holds e v t = (if e = 1 then t < v else if e = 2 then v \<le> t else if e = 3 then t \<le> v
     else if e = 4 then v \<noteq> t else if e = 5 then v = t else v < t)"

text \<open>The numbers of condition \<open>j\<close> are at \<open>4 * j\<close> (value), \<open>4 * j + 1\<close> (expression), \<open>4 * j + 2\<close>
  (threshold), and \<open>4 * j + 3\<close> is the operation that joins the next one.\<close>

primrec rule_holds :: "(nat \<Rightarrow> int) \<Rightarrow> nat \<Rightarrow> bool" where
  "rule_holds f 0 = cond_holds (f 1) (f 0) (f 2)"
| "rule_holds f (Suc j) =
     (let c = cond_holds (f (4 * j + 5)) (f (4 * j + 4)) (f (4 * j + 6)) in
      if f (4 * j + 3) = 0 then rule_holds f j \<and> c else rule_holds f j \<or> c)"

lemma compare_expr_cond [simp]:
  "compare_expr (if e < 0 \<or> e > 5 then 0 else e) v t = of_bool (cond_holds e v t)"
  by (auto simp: compare_expr_def cond_holds_def)

lemma and_of_bool: "and (of_bool a) (of_bool b) = (of_bool (a \<and> b) :: int)"
  by (cases a; cases b) simp_all

lemma or_of_bool: "or (of_bool a) (of_bool b) = (of_bool (a \<or> b) :: int)"
  by (cases a; cases b) simp_all

definition bad_op :: "int \<Rightarrow> bool" where
  "bad_op i \<longleftrightarrow> i < 0 \<or> 3 \<le> i"

lemma validate_first:
  assumes "num_at m 0 = Inr v" "num_at m 1 = Inr e" "num_at m 2 = Inr t"
  shows "RBM_Validate_Single_Variable 0 a m = Inr (of_bool (cond_holds e v t))"
  using assms compare_expr_cond [of e v t]
  by (simp add: RBM_Validate_Single_Variable_def Let_def numeral_2_eq_2
      del: compare_expr_cond split del: if_split)

lemma validate_later:
  assumes "n \<noteq> 0" and num: "num_at m n = Inr p" "num_at m (n + 1) = Inr v"
    "num_at m (n + 2) = Inr e" "num_at m (n + 3) = Inr t"
  shows "RBM_Validate_Single_Variable n (of_bool a) m
    = (if bad_op p then Inl (OutOfBounds p)
       else Inr (of_bool (if p = 0 then a \<and> cond_holds e v t else a \<or> cond_holds e v t)))"
  using assms
  by (simp add: RBM_Validate_Single_Variable_def Let_def and_of_bool or_of_bool bad_op_def
      split del: if_split) simp

text \<open>The first operation outside 0..2 among those joining the first \<open>n\<close> conditions.\<close>

definition first_bad_op :: "(nat \<Rightarrow> int) \<Rightarrow> nat \<Rightarrow> nat \<Rightarrow> int option" where
  "first_bad_op f j n = find bad_op (map (\<lambda>i. f (4 * i + 3)) [j..<n - 1])"

lemma first_bad_op_step:
  "j < n - 1 \<Longrightarrow> first_bad_op f j n
     = (if bad_op (f (4 * j + 3)) then Some (f (4 * j + 3)) else first_bad_op f (Suc j) n)"
  by (simp add: first_bad_op_def upt_conv_Cons)

lemma validate_loop_spec:
  assumes "j < n" and num: "\<And>k. k < 4 * n - 1 \<Longrightarrow> num_at m k = Inr (f k)"
  shows "validate_loop (4 * j + 3) (of_bool (rule_holds f j)) n m
    = (case first_bad_op f j n of Some p \<Rightarrow> Inl (OutOfBounds p)
       | None \<Rightarrow> Inr (of_bool (rule_holds f (n - 1))))"
  using assms(1)
proof (induction "n - 1 - j" arbitrary: j)
  case 0
  then have j: "j = n - 1" by simp
  with 0 have "\<not> int (4 * j + 3) < int n * 4 - 1" by auto
  then have "validate_loop (4 * j + 3) (of_bool (rule_holds f j)) n m = Inr (of_bool (rule_holds f j))"
    by (subst validate_loop.simps) simp
  with j show ?case by (simp add: first_bad_op_def)
next
  case (Suc d)
  then have j: "j < n - 1" and d: "d = n - 1 - Suc j" by auto
  then have go: "int (4 * j + 3) < int n * 4 - 1" by auto
  have num': "num_at m (4 * j + 3) = Inr (f (4 * j + 3))"
    "num_at m (4 * j + 3 + 1) = Inr (f (4 * j + 4))"
    "num_at m (4 * j + 3 + 2) = Inr (f (4 * j + 5))"
    "num_at m (4 * j + 3 + 3) = Inr (f (4 * j + 6))"
    using num j by (simp_all add: numeral_eq_Suc)
  note one = validate_later [OF _ num', of "rule_holds f j"]
  show ?case
  proof (cases "bad_op (f (4 * j + 3))")
    case True
    then show ?thesis using go one j by (subst validate_loop.simps) (simp add: first_bad_op_step)
  next
    case False
    then have "RBM_Validate_Single_Variable (4 * j + 3) (of_bool (rule_holds f j)) m
        = Inr (of_bool (rule_holds f (Suc j)))"
      using one by (simp add: Let_def)
    moreover have "4 * j + 3 + 4 = 4 * Suc j + 3" by simp
    ultimately have "validate_loop (4 * j + 3) (of_bool (rule_holds f j)) n m
        = validate_loop (4 * Suc j + 3) (of_bool (rule_holds f (Suc j))) n m"
      using go by (subst validate_loop.simps) (simp del: rule_holds.simps)
    then show ?thesis using Suc.hyps(1) [OF d] j False by (simp add: first_bad_op_step)
  qed
qed

lemma validate_spec:
  assumes "0 < n" and num: "\<And>k. k < 4 * n - 1 \<Longrightarrow> num_at m k = Inr (f k)"
  shows "RBM_Validate_Variables m n
    = (case first_bad_op f 0 n of Some p \<Rightarrow> Inl (OutOfBounds p)
       | None \<Rightarrow> Inr (of_bool (rule_holds f (n - 1))))"
proof -
  have "RBM_Validate_Single_Variable 0 0 m = Inr (of_bool (rule_holds f 0))"
    using num [of 0] num [of 1] num [of 2] assms(1) validate_first [of m "f 0" "f 1" "f 2" 0] by simp
  with validate_loop_spec [of 0 n m f] assms show ?thesis by (simp add: RBM_Validate_Variables_def)
qed

section \<open>Slots of a list\<close>

text \<open>
  Slot \<open>2 * k\<close> of a block is the \<^verbatim>\<open>szVariable\<close> of element \<open>k\<close> and slot \<open>2 * k + 1\<close> its \<^verbatim>\<open>szValue\<close>.
  Writing a string that fits its slot leaves the other slots alone.
\<close>

definition slot :: "string \<Rightarrow> nat \<Rightarrow> string \<Rightarrow> bool" where
  "slot m a s \<longleftrightarrow> holds m (128 * a) s \<and> length s < 128"

definition unused :: "string \<Rightarrow> nat \<Rightarrow> bool" where
  "unused m a \<longleftrightarrow> blank m (128 * a) 128"

definition writes :: "string \<Rightarrow> (nat \<times> string) list \<Rightarrow> string \<Rightarrow> bool" where
  "writes m ps m' \<longleftrightarrow> length m' = length m \<and> (\<forall>(a, s)\<in>set ps. slot m' a s)
   \<and> (\<forall>b t. b \<notin> fst ` set ps \<longrightarrow> slot m b t \<longrightarrow> slot m' b t)
   \<and> (\<forall>b. b \<notin> fst ` set ps \<longrightarrow> unused m b \<longrightarrow> unused m' b)"

lemma at_slot: "var_at k = 128 * (2 * k)" "val_at k = 128 * Suc (2 * k)"
  by (simp_all add: var_at_def val_at_def)

lemma slot_cstr: "slot m (2 * k) s \<Longrightarrow> cstr m (var_at k) = Inr s"
  "slot m (Suc (2 * k)) s \<Longrightarrow> cstr m (val_at k) = Inr s"
  by (simp_all add: slot_def at_slot holds_cstr)

lemma slots_apart: "a \<noteq> b \<Longrightarrow> 128 * a + 128 \<le> 128 * b \<or> 128 * b + 128 \<le> (128 * a :: nat)"
  by (cases a b rule: linorder_cases) auto

lemma poke_frame:
  assumes "poke m (128 * a) s = Inr m'" "length s \<le> 128" "b \<noteq> a"
  shows "slot m b t \<Longrightarrow> slot m' b t" "unused m b \<Longrightarrow> unused m' b"
  using slots_apart [OF assms(3)] assms(2)
  by (auto simp: slot_def unused_def intro: poke_keeps_holds [OF assms(1)]
      poke_keeps_blank [OF assms(1)])

lemma writes_nil [simp]: "writes m [] m"
  by (simp add: writes_def)

lemma writes_Cons:
  assumes "writes m [(a, s)] m1" "writes m1 ps m2" "a \<notin> fst ` set ps"
  shows "writes m ((a, s) # ps) m2"
proof -
  have "slot m2 a s" using assms by (simp add: writes_def)
  then show ?thesis using assms by (fastforce simp: writes_def)
qed

lemma writes_map_Cons:
  assumes "writes m [(g j, h j)] m1" "writes m1 (map (\<lambda>i. (g i, h i)) xs) m2" "inj g" "j \<notin> set xs"
  shows "writes m (map (\<lambda>i. (g i, h i)) (j # xs)) m2"
proof -
  have "g j \<notin> fst ` set (map (\<lambda>i. (g i, h i)) xs)" using assms(3,4) by (auto simp: inj_eq)
  then show ?thesis using writes_Cons [OF assms(1,2)] by simp
qed

lemma writes_length: "writes m ps m' \<Longrightarrow> length m' = length m"
  by (simp add: writes_def)

lemma writes_in: "writes m ps m' \<Longrightarrow> (a, s) \<in> set ps \<Longrightarrow> slot m' a s"
  by (fastforce simp: writes_def)

lemma writes_frame: "writes m ps m' \<Longrightarrow> b \<notin> fst ` set ps \<Longrightarrow> slot m b t \<Longrightarrow> slot m' b t"
  by (simp add: writes_def)

lemma writes_unused: "writes m ps m' \<Longrightarrow> b \<notin> fst ` set ps \<Longrightarrow> unused m b \<Longrightarrow> unused m' b"
  by (simp add: writes_def)

lemma strcpy_slot:
  assumes "128 * a + 128 \<le> length m" "NUL \<notin> set s" "length s < 128"
  shows "\<exists>m'. strcpy m (128 * a) s = Inr m' \<and> writes m [(a, s)] m'"
proof -
  from assms obtain m' where m': "poke m (128 * a) (s @ [NUL]) = Inr m'" "length m' = length m"
    using poke_Inr [of "128 * a" "s @ [NUL]" m] by auto
  then have "slot m' a s" using strcpy_holds [OF assms(2)] assms(3)
    by (simp add: slot_def strcpy_def)
  moreover have "writes m [(a, s)] m' \<longleftrightarrow> slot m' a s"
    using m' assms(3) poke_frame [OF m'(1)] by (auto simp: writes_def)
  ultimately show ?thesis using m' by (auto simp: strcpy_def)
qed

lemma poke_slot:
  assumes "unused m a" "NUL \<notin> set s" "length s < 128"
  shows "\<exists>m'. poke m (128 * a) s = Inr m' \<and> writes m [(a, s)] m'"
proof -
  from assms obtain m' where m': "poke m (128 * a) s = Inr m'" "length m' = length m"
    using poke_Inr [of "128 * a" s m] by (auto simp: unused_def blank_def)
  then have "slot m' a s" using assms poke_blank_holds [of s 128 m "128 * a" m']
    by (simp add: slot_def unused_def)
  moreover have "writes m [(a, s)] m' \<longleftrightarrow> slot m' a s"
    using m' assms(3) poke_frame [OF m'(1)] by (auto simp: writes_def)
  ultimately show ?thesis using m' by auto
qed

lemma unused_calloc [simp]: "unused (calloc_list n) a \<longleftrightarrow> a < 2 * n"
  by (auto simp: unused_def calloc_list_def)

lemma length_calloc [simp]: "length (calloc_list n) = 256 * n"
  by (simp add: calloc_list_def)

section \<open>The reads\<close>

text \<open>The text of a value, and the values whose text fits an element of the list.\<close>

fun value_text :: "snmp_value \<Rightarrow> string" where
  "value_text (Integer w) = print_int (sint w)"
| "value_text (Unsigned w) = print_int (uint w)"
| "value_text (ObjectId os) = oid_text os"
| "value_text (OctetStr s) = s"
| "value_text (OtherType t) = []"

fun value_fits :: "snmp_value \<Rightarrow> bool" where
  "value_fits (ObjectId os) \<longleftrightarrow> length (oid_text os) < 80"
| "value_fits (OctetStr s) \<longleftrightarrow> NUL \<notin> set s \<and> length s < 128"
| "value_fits (OtherType t) \<longleftrightarrow> False"
| "value_fits _ \<longleftrightarrow> True"

text \<open>Only an octet string is copied without its terminator, so only it needs a clear element.\<close>

definition clear_for :: "string \<Rightarrow> nat \<Rightarrow> snmp_value \<Rightarrow> bool" where
  "clear_for m k v \<longleftrightarrow> (case v of OctetStr s \<Rightarrow> unused m (Suc (2 * k)) | _ \<Rightarrow> True)"

lemma unused_clear_for: "unused m (Suc (2 * k)) \<Longrightarrow> clear_for m k v"
  by (simp add: clear_for_def split: snmp_value.split)

lemma writes_clear_for:
  "writes m ps m' \<Longrightarrow> Suc (2 * k) \<notin> fst ` set ps \<Longrightarrow> clear_for m k v \<Longrightarrow> clear_for m' k v"
  by (simp add: clear_for_def writes_unused split: snmp_value.splits)

lemma print_long_fits: "length (print_int (sint (w :: long))) \<le> 11" "length (print_int (uint w)) \<le> 11"
proof -
  have "\<bar>sint w\<bar> < 10 ^ 10" using sint_lt [of w] sint_ge [of w] by simp
  moreover have "\<bar>uint w\<bar> < 10 ^ 10" using uint_lt2p [of w] by simp
  ultimately show "length (print_int (sint w)) \<le> 11" "length (print_int (uint w)) \<le> 11"
    using length_print_int by simp_all
qed

lemma store_value_spec:
  assumes "value_fits v" "n < N" "length m = 256 * N" "clear_for m n v"
  shows "\<exists>m'. store_value m n v = Inr (m', Suc n) \<and> writes m [(Suc (2 * n), value_text v)] m'"
proof -
  have room: "128 * Suc (2 * n) + 128 \<le> length m" using assms by simp
  note put = strcpy_slot [OF room]
  show ?thesis
  proof (cases v)
    case (Integer w)
    with put [of "print_int (sint w)"] print_long_fits(1) [of w] show ?thesis
      by (auto simp: at_slot print_int_no_NUL)
  next
    case (Unsigned w)
    with put [of "print_int (uint w)"] print_long_fits(2) [of w] show ?thesis
      by (auto simp: at_slot print_int_no_NUL)
  next
    case (ObjectId os)
    with put [of "oid_text os"] assms(1) show ?thesis
      by (auto simp: at_slot oid_text_no_NUL fits_def)
  next
    case (OctetStr s)
    with poke_slot [of m "Suc (2 * n)" s] assms(1,4) show ?thesis by (auto simp: at_slot clear_for_def)
  next
    case (OtherType t)
    with assms(1) show ?thesis by simp
  qed
qed

text \<open>The slots a reply fills from element \<open>n\<close> on.\<close>

definition value_slots :: "nat \<Rightarrow> snmp_value list \<Rightarrow> (nat \<times> string) list" where
  "value_slots n vs = map (\<lambda>(i, v). (Suc (2 * i), value_text v)) (zip [n..<n + length vs] vs)"

lemma value_slots_Cons: "value_slots n (v # vs) = (Suc (2 * n), value_text v) # value_slots (Suc n) vs"
  by (simp add: value_slots_def upt_conv_Cons del: upt_Suc)

lemma fst_value_slots: "fst ` set (value_slots n vs) = (\<lambda>i. Suc (2 * i)) ` {n..<n + length vs}"
proof (induction vs arbitrary: n)
  case Nil
  then show ?case by (simp add: value_slots_def)
next
  case (Cons v vs)
  have "{n..<n + length (v # vs)} = insert n {Suc n..<Suc n + length vs}" by auto
  then show ?case using Cons by (simp add: value_slots_Cons)
qed

lemma value_slots_nth: "i < length vs \<Longrightarrow> (Suc (2 * (n + i)), value_text (vs ! i)) \<in> set (value_slots n vs)"
  by (force simp: value_slots_def set_zip)

lemma store_values_spec:
  assumes "\<forall>(nm, v)\<in>set vs. length (oid_text nm) < 80 \<and> value_fits v" "n + length vs \<le> N"
    "length m = 256 * N" "\<forall>i<length vs. clear_for m (n + i) (snd (vs ! i))"
  shows "\<exists>m'. store_values m n vs = Inr m' \<and> writes m (value_slots n (map snd vs)) m'"
  using assms
proof (induction vs arbitrary: m n)
  case Nil
  then show ?case by (simp add: value_slots_def)
next
  case (Cons x vs)
  obtain nm v where x: "x = (nm, v)" by (cases x)
  have "n < N" "value_fits v" "clear_for m n v" using Cons.prems x by force+
  then obtain m1 where m1: "store_value m n v = Inr (m1, Suc n)"
      "writes m [(Suc (2 * n), value_text v)] m1"
    using store_value_spec Cons.prems(3) by blast
  have "clear_for m1 (Suc n + i) (snd (vs ! i))" if "i < length vs" for i
  proof -
    have "clear_for m (n + Suc i) (snd ((x # vs) ! Suc i))" using Cons.prems(4) that by (metis Suc_mono length_Cons)
    then show ?thesis using writes_clear_for [OF m1(2), of "Suc n + i"] by simp
  qed
  moreover have "length m1 = 256 * N" using writes_length [OF m1(2)] Cons.prems(3) by simp
  ultimately obtain m2 where m2: "store_values m1 (Suc n) vs = Inr m2"
      "writes m1 (value_slots (Suc n) (map snd vs)) m2"
    using Cons.IH [of "Suc n" m1] Cons.prems(1,2) by auto
  have "writes m (value_slots n (map snd (x # vs))) m2"
    using writes_Cons [OF m1(2) m2(2)] x by (simp add: value_slots_Cons fst_value_slots image_iff)
  then show ?case using m1 m2 Cons.prems(1) x by (simp add: fits_def)
qed

text \<open>
  What \<^verbatim>\<open>read_objid\<close> does on the text of a numeric OID: it stores as many sub-identifiers as there is
  room for, and fails when there are more.
\<close>

definition nonneg_oid :: "long list \<Rightarrow> bool" where
  "nonneg_oid os \<longleftrightarrow> os \<noteq> [] \<and> (\<forall>x\<in>set os. 0 \<le> sint x)"

definition parses_oids :: "(string \<Rightarrow> nat \<Rightarrow> bool \<times> long list) \<Rightarrow> bool" where
  "parses_oids rd \<longleftrightarrow>
     (\<forall>os n. nonneg_oid os \<longrightarrow> rd (oid_text os) n = (length os \<le> n, take n os))"

fun cut_oids :: "nat \<Rightarrow> long list list \<Rightarrow> long list list" where
  "cut_oids room [] = []"
| "cut_oids room (os # oss) = take room os # cut_oids (min (length os) room) oss"

lemma cut_id:
  "sorted_wrt (\<lambda>a b. length b \<le> length a) oss \<Longrightarrow> \<forall>os\<in>set oss. length os \<le> room \<Longrightarrow> cut_oids room oss = oss"
  by (induction oss arbitrary: room) auto

lemma Min_insert_min: "finite S \<Longrightarrow> Min (insert (min a b) S) = Min (insert b (insert (a :: nat) S))"
  by (cases "S = {}") (auto simp: min.commute min.left_commute)

lemma cut_nth:
  "i < length oss \<Longrightarrow>
   cut_oids room oss ! i = take (Min (insert room (length ` set (take i oss)))) (oss ! i)"
proof (induction oss arbitrary: room i)
  case (Cons os oss)
  then show ?case
    by (cases i) (simp_all add: Min_insert_min del: Min_insert)
qed simp

lemma length_cut_oids [simp]: "length (cut_oids room oss) = length oss"
  by (induction oss arbitrary: room) auto

lemma request_oids_spec:
  assumes "parses_oids rd" "\<forall>os\<in>set oss. nonneg_oid os"
    "list_all2 (\<lambda>k os. slot m (2 * k) (oid_text os)) ks oss"
  shows "request_oids rd m ks room = Inr (cut_oids room oss)"
  using assms(3,2)
proof (induction arbitrary: room rule: list_all2_induct)
  case (Cons k ks os oss)
  have "rd (oid_text os) room = (length os \<le> room, take room os)"
    using assms(1) Cons.prems by (simp add: parses_oids_def)
  then show ?case using Cons slot_cstr(1) [OF Cons.hyps(1)] by (simp add: min.commute)
qed simp

text \<open>The OIDs of the row's columns.\<close>

definition policy_entry :: "long list" where
  "policy_entry = [1, 3, 6, 1, 4, 1, 3204, 1, 3, 35, 1, 1]"

definition row_oids :: "long \<Rightarrow> long list list" where
  "row_oids policy = map (\<lambda>k. policy_entry @ [of_nat (k + RBM_START_COLUMN), policy]) [0..<RBM_VAR_COLUMNS]"

lemma oid_text_append: "oid_text (xs @ ys) = oid_text xs @ oid_text ys"
  by (simp add: oid_text_def)

lemma entry_text: "oid_text policy_entry = monitorPolicyTable_ENTRY_OID"
  by (simp add: policy_entry_def monitorPolicyTable_ENTRY_OID_def text_eval)

lemma sint_column: "k < RBM_VAR_COLUMNS \<Longrightarrow> sint (of_nat (k + RBM_START_COLUMN) :: long) = int (k + RBM_START_COLUMN)"
  by (simp add: signed_of_nat signed_take_bit_int_eq_self del: of_nat_add)

lemma column_oid_text:
  assumes "k < RBM_VAR_COLUMNS"
  shows "column_oid policy k = oid_text (policy_entry @ [of_nat (k + RBM_START_COLUMN), policy])"
  using sint_column [OF assms]
  by (simp add: column_oid_def oid_text_append entry_text oid_text_def [of "[_, _]"] del: of_nat_add)

lemma column_oid_fits: "k < RBM_VAR_COLUMNS \<Longrightarrow> length (column_oid policy k) < 80 \<and> NUL \<notin> set (column_oid policy k)"
  using length_print_int [of "int (k + RBM_START_COLUMN)"] print_long_fits(1) [of policy]
  by (auto simp: column_oid_def monitorPolicyTable_ENTRY_OID_def print_int_no_NUL)

lemma fill_variables_spec:
  assumes "distinct ks" "\<forall>k\<in>set ks. k < RBM_VAR_COLUMNS" "length m = 256 * RBM_VAR_COLUMNS"
  shows "\<exists>m'. fill_variables policy m ks = Inr m'
    \<and> writes m (map (\<lambda>k. (2 * k, column_oid policy k)) ks) m'"
  using assms
proof (induction ks arbitrary: m)
  case (Cons k ks)
  then have k: "k < RBM_VAR_COLUMNS" by simp
  note fits = column_oid_fits [OF k, of policy]
  have "128 * (2 * k) + 128 \<le> length m" using k Cons.prems by simp
  then obtain m1 where m1: "strcpy m (var_at k) (column_oid policy k) = Inr m1"
      "writes m [(2 * k, column_oid policy k)] m1"
    using strcpy_slot [of "2 * k" m "column_oid policy k"] fits by (auto simp: at_slot)
  obtain m2 where m2: "fill_variables policy m1 ks = Inr m2"
      "writes m1 (map (\<lambda>k. (2 * k, column_oid policy k)) ks) m2"
    using Cons.IH [of m1] Cons.prems writes_length [OF m1(2)] by auto
  have "writes m (map (\<lambda>k. (2 * k, column_oid policy k)) (k # ks)) m2"
    using Cons.prems(1) by (intro writes_map_Cons [OF m1(2) m2(2)]) (auto simp: inj_def)
  then show ?case using m1 m2 fits by (simp add: fits_def)
qed simp

lemma fill_oids_spec:
  assumes "j \<le> n" "n \<le> RBM_OID_COLUMNS" "length mo = 256 * RBM_OID_COLUMNS"
    and oid: "\<And>i. i < n \<Longrightarrow> slot m (Suc (2 * (4 * i))) (ts i) \<and> take 2 (ts i) \<noteq> ''.0''
      \<and> NUL \<notin> set (ts i)"
    and stop: "n < RBM_OID_COLUMNS \<Longrightarrow> \<exists>t. slot m (Suc (2 * (4 * n))) t \<and> take 2 t = ''.0''"
  shows "\<exists>mo'. fill_oids m mo (4 * j) [j..<RBM_OID_COLUMNS] = Inr (mo', n)
    \<and> writes mo (map (\<lambda>i. (2 * i, ts i)) [j..<n]) mo'"
  using assms(1,3)
proof (induction "n - j" arbitrary: j mo)
  case 0
  then have j: "j = n" by simp
  show ?case
  proof (cases "n < RBM_OID_COLUMNS")
    case True
    then obtain t where "cstr m (val_at (4 * n)) = Inr t" "take 2 t = ''.0''"
      using stop slot_cstr(2) [of m "4 * n"] by auto
    with j True show ?thesis by (simp add: upt_conv_Cons del: upt_Suc upt_rec_numeral)
  next
    case False
    then show ?thesis using j assms(2) by simp
  qed
next
  case (Suc d)
  then have j: "j < n" "j < RBM_OID_COLUMNS" and d: "d = n - Suc j" using assms(2) by auto
  then have t: "cstr m (val_at (4 * j)) = Inr (ts j)" "take 2 (ts j) \<noteq> ''.0''"
    using oid slot_cstr(2) [of m "4 * j"] by auto
  have "length (ts j) < 128" using oid j(1) by (simp add: slot_def)
  then obtain m1 where m1: "strcpy mo (var_at j) (ts j) = Inr m1" "writes mo [(2 * j, ts j)] m1"
    using strcpy_slot [of "2 * j" mo "ts j"] oid j Suc.prems(2) by (auto simp: at_slot)
  obtain m2 where m2: "fill_oids m m1 (4 * Suc j) [Suc j..<RBM_OID_COLUMNS] = Inr (m2, n)"
      "writes m1 (map (\<lambda>i. (2 * i, ts i)) [Suc j..<n]) m2"
    using Suc.hyps(1) [OF d, of m1] Suc.prems(2) j writes_length [OF m1(2)] by auto
  have "writes mo (map (\<lambda>i. (2 * i, ts i)) [j..<n]) m2"
    using writes_map_Cons [OF m1(2) m2(2)] j(1) by (simp add: upt_conv_Cons inj_def)
  then show ?case using m1 m2 t j
    by (simp add: upt_conv_Cons add.commute del: upt_Suc upt_rec_numeral)
qed

lemma copy_oids_spec:
  assumes "j \<le> n" "n \<le> RBM_OID_COLUMNS" "length m = 256 * RBM_VAR_COLUMNS"
    and val: "\<And>i. i < n \<Longrightarrow> slot mo (Suc (2 * i)) (ts i) \<and> NUL \<notin> set (ts i)"
  shows "\<exists>m'. copy_oids m mo (4 * j) [j..<n] = Inr m'
    \<and> writes m (map (\<lambda>i. (Suc (2 * (4 * i)), ts i)) [j..<n]) m'"
  using assms(1,3)
proof (induction "n - j" arbitrary: j m)
  case 0
  then show ?case by simp
next
  case (Suc d)
  then have j: "j < n" and d: "d = n - Suc j" by simp_all
  then have t: "cstr mo (val_at j) = Inr (ts j)" "length (ts j) < 128"
    using val slot_cstr(2) [of mo j] by (auto simp: slot_def)
  then obtain m1 where m1: "strcpy m (val_at (4 * j)) (ts j) = Inr m1"
      "writes m [(Suc (2 * (4 * j)), ts j)] m1"
    using strcpy_slot [of "Suc (2 * (4 * j))" m "ts j"] val j assms(2) Suc.prems(2)
    by (auto simp: at_slot)
  obtain m2 where m2: "copy_oids m1 mo (4 * Suc j) [Suc j..<n] = Inr m2"
      "writes m1 (map (\<lambda>i. (Suc (2 * (4 * i)), ts i)) [Suc j..<n]) m2"
    using Suc.hyps(1) [OF d, of m1] Suc.prems(2) j writes_length [OF m1(2)] by auto
  have "writes m (map (\<lambda>i. (Suc (2 * (4 * i)), ts i)) [j..<n]) m2"
    using writes_map_Cons [OF m1(2) m2(2)] j(1) by (simp add: upt_conv_Cons inj_def)
  then show ?case using m1 m2 t j by (simp add: upt_conv_Cons add.commute del: upt_Suc)
qed

section \<open>Reading a policy\<close>

text \<open>The agent answers a GET of these OIDs with these values.\<close>

definition answers :: "rbm_env \<Rightarrow> rbm_state \<Rightarrow> long list list \<Rightarrow> snmp_value list \<Rightarrow> bool" where
  "answers env st oids vals \<longleftrightarrow>
     (case snmp_get env (szRemAddress st @ '':'' @ print_int (giSAPort st)) oids of
        Reply vs \<Rightarrow> map snd vs = vals \<and> (\<forall>(nm, v)\<in>set vs. length (oid_text nm) < 80 \<and> value_fits v)
      | _ \<Rightarrow> False)"

text \<open>
  The policy's row has the variables \<open>oss\<close>, the first one without a variable behind them (or five),
  no OID being longer than one before it, and the variables' values are \<open>vals\<close>.
\<close>

definition policy_readable :: "rbm_env \<Rightarrow> rbm_state \<Rightarrow> snmp_value list \<Rightarrow> long list list \<Rightarrow>
    snmp_value list \<Rightarrow> bool" where
  "policy_readable env st row oss vals \<longleftrightarrow>
     parses_oids (read_objid env) \<and> 0 \<le> sint (uiPolicyId st) \<and> length row = RBM_VAR_COLUMNS
   \<and> answers env st (row_oids (uiPolicyId st)) row
   \<and> oss \<noteq> [] \<and> length oss \<le> RBM_OID_COLUMNS
   \<and> (\<forall>os\<in>set oss. nonneg_oid os \<and> take 2 (oid_text os) \<noteq> ''.0'')
   \<and> sorted_wrt (\<lambda>a b. length b \<le> length a) oss
   \<and> (\<forall>i<length oss. row ! (4 * i) = ObjectId (oss ! i))
   \<and> (length oss < RBM_OID_COLUMNS \<longrightarrow> take 2 (value_text (row ! (4 * length oss))) = ''.0'')
   \<and> length vals = length oss \<and> answers env st oss vals"

text \<open>The text of element \<open>k\<close> once the variables' values have replaced their OIDs.\<close>

definition element_text :: "snmp_value list \<Rightarrow> snmp_value list \<Rightarrow> nat \<Rightarrow> string" where
  "element_text row vals k = (if k mod 4 = 0 \<and> k < 4 * length vals then value_text (vals ! (k div 4))
     else value_text (row ! k))"

lemma value_text_no_NUL: "value_fits v \<Longrightarrow> NUL \<notin> set (value_text v)"
  by (cases v) (simp_all add: print_int_no_NUL oid_text_no_NUL)

lemma answers_fits: "answers env st oids vals \<Longrightarrow> v \<in> set vals \<Longrightarrow> value_fits v"
  by (fastforce simp: answers_def split: snmp_reply.splits)

lemma length_oid_text: "length os \<le> length (oid_text os)"
  by (induction os) (simp_all add: oid_text_def)

text \<open>A read of a block whose \<^verbatim>\<open>szVariable\<close> parts are filled and whose \<^verbatim>\<open>szValue\<close> parts are clear.\<close>

lemma Get_Row_spec:
  assumes "parses_oids (read_objid env)" "\<forall>os\<in>set oids. nonneg_oid os \<and> length os \<le> 128"
    "sorted_wrt (\<lambda>a b. length b \<le> length a) oids" "answers env st oids vals"
    "length m = 256 * N" "length oids = n" "length vals = n" "n \<le> N"
    and var: "\<And>k. k < n \<Longrightarrow> slot m (2 * k) (oid_text (oids ! k))"
    and clear: "\<And>k. k < n \<Longrightarrow> clear_for m k (vals ! k)"
  shows "\<exists>m'. RBM_SNMP_Get_Row env st m n = Inr (m', 0) \<and> writes m (value_slots 0 vals) m'"
proof -
  have "list_all2 (\<lambda>k os. slot m (2 * k) (oid_text os)) [0..<n] oids"
    using assms(6) var by (simp add: list_all2_conv_all_nth)
  then have "request_oids (read_objid env) m [0..<n] 128 = Inr (cut_oids 128 oids)"
    using assms(2) by (intro request_oids_spec [OF assms(1)]) auto
  then have req: "request_oids (read_objid env) m [0..<n] 128 = Inr oids"
    using assms(2) cut_id [OF assms(3), of 128] by simp
  obtain vs where vs: "snmp_get env (szRemAddress st @ '':'' @ print_int (giSAPort st)) oids = Reply vs"
      "map snd vs = vals" "\<forall>(nm, v)\<in>set vs. length (oid_text nm) < 80 \<and> value_fits v"
    using assms(4) by (auto simp: answers_def split: snmp_reply.splits)
  have "length vs = n" using vs(2) assms(7) by (metis length_map)
  moreover have "\<forall>i<length vs. clear_for m (0 + i) (snd (vs ! i))"
    using clear vs(2) \<open>length vs = n\<close> by auto
  ultimately obtain m' where "store_values m 0 vs = Inr m'" "writes m (value_slots 0 vals) m'"
    using store_values_spec [OF vs(3), of 0 N m] assms(5,8) vs(2) by auto
  with req vs(1) show ?thesis by (simp add: RBM_SNMP_Get_Row_def)
qed

lemma row_oids_ok:
  assumes "0 \<le> sint policy"
  shows "\<forall>os\<in>set (row_oids policy). nonneg_oid os \<and> length os \<le> 128"
    "sorted_wrt (\<lambda>a b. length b \<le> length a) (row_oids policy)"
    "length (row_oids policy) = RBM_VAR_COLUMNS"
proof -
  have "\<forall>x\<in>set policy_entry. 0 \<le> sint x" by code_simp
  then show "\<forall>os\<in>set (row_oids policy). nonneg_oid os \<and> length os \<le> 128"
    using assms sint_column
    by (auto simp: row_oids_def nonneg_oid_def policy_entry_def simp del: of_nat_add)
  show "sorted_wrt (\<lambda>a b. length b \<le> length a) (row_oids policy)"
    "length (row_oids policy) = RBM_VAR_COLUMNS"
    by (simp_all add: row_oids_def sorted_wrt_map sorted_wrt_iff_nth_less)
qed

lemma slot_mono_nth: "k < length vals \<Longrightarrow> writes m (value_slots 0 vals) m' \<Longrightarrow>
    slot m' (Suc (2 * k)) (value_text (vals ! k))"
  using value_slots_nth [of k vals 0] by (auto intro: writes_in)

lemma read_policy_row:
  assumes "policy_readable env st row oss vals"
  shows "\<exists>m1 m2. RBM_Fill_Variables_List st (calloc_list RBM_VAR_COLUMNS) = Inr (m1, RBM_VAR_COLUMNS)
    \<and> RBM_SNMP_Get_Row env st m1 RBM_VAR_COLUMNS = Inr (m2, 0) \<and> length m2 = 256 * RBM_VAR_COLUMNS
    \<and> (\<forall>k<RBM_VAR_COLUMNS. slot m2 (Suc (2 * k)) (value_text (row ! k)))"
proof -
  let ?p = "uiPolicyId st"
  from assms have p: "0 \<le> sint ?p" "parses_oids (read_objid env)" "answers env st (row_oids ?p) row"
    "length row = RBM_VAR_COLUMNS"
    by (auto simp: policy_readable_def)
  obtain m1 where m1: "fill_variables ?p (calloc_list RBM_VAR_COLUMNS) [0..<RBM_VAR_COLUMNS] = Inr m1"
      "writes (calloc_list RBM_VAR_COLUMNS) (map (\<lambda>k. (2 * k, column_oid ?p k)) [0..<RBM_VAR_COLUMNS]) m1"
    using fill_variables_spec [of "[0..<RBM_VAR_COLUMNS]" "calloc_list RBM_VAR_COLUMNS" ?p]
    by (auto simp del: upt_rec_numeral)
  have var: "slot m1 (2 * k) (oid_text (row_oids ?p ! k))" if "k < RBM_VAR_COLUMNS" for k
  proof -
    have "(2 * k, column_oid ?p k) \<in> set (map (\<lambda>k. (2 * k, column_oid ?p k)) [0..<RBM_VAR_COLUMNS])"
      using that by (auto simp del: upt_rec_numeral)
    from writes_in [OF m1(2) this] show ?thesis
      using that column_oid_text by (simp add: row_oids_def del: upt_rec_numeral of_nat_add)
  qed
  have "clear_for m1 k (row ! k)" if "k < RBM_VAR_COLUMNS" for k
  proof (rule unused_clear_for, rule writes_unused [OF m1(2)])
    show "Suc (2 * k) \<notin> fst ` set (map (\<lambda>k. (2 * k, column_oid ?p k)) [0..<RBM_VAR_COLUMNS])"
      by auto presburger
    show "unused (calloc_list RBM_VAR_COLUMNS) (Suc (2 * k))" using that by simp
  qed
  moreover have "length m1 = 256 * RBM_VAR_COLUMNS" using writes_length [OF m1(2)] by simp
  ultimately obtain m2 where m2: "RBM_SNMP_Get_Row env st m1 RBM_VAR_COLUMNS = Inr (m2, 0)"
      "writes m1 (value_slots 0 row) m2"
    using Get_Row_spec [OF p(2) row_oids_ok(1,2) [OF p(1)] p(3) _ row_oids_ok(3) [OF p(1)] p(4) order_refl var]
    by blast
  have "slot m2 (Suc (2 * k)) (value_text (row ! k))" if "k < RBM_VAR_COLUMNS" for k
    using slot_mono_nth [OF _ m2(2), of k] p(4) that by simp
  then show ?thesis using m1 m2 writes_length [OF m1(2)] writes_length [OF m2(2)]
    by (auto simp: RBM_Fill_Variables_List_def)
qed

lemma gather_spec:
  assumes "policy_readable env st row oss vals"
  shows "\<exists>m. gather env st = Inr (Inr (m, length oss))
    \<and> (\<forall>k<RBM_VAR_COLUMNS. cstr m (val_at k) = Inr (element_text row vals k))"
proof -
  let ?n = "length oss"
  from assms have rd: "parses_oids (read_objid env)" and n: "0 < ?n" "?n \<le> RBM_OID_COLUMNS"
    and oss: "\<forall>os\<in>set oss. nonneg_oid os \<and> take 2 (oid_text os) \<noteq> ''.0''"
      "sorted_wrt (\<lambda>a b. length b \<le> length a) oss"
    and var: "\<And>i. i < ?n \<Longrightarrow> row ! (4 * i) = ObjectId (oss ! i)"
    and stop: "?n < RBM_OID_COLUMNS \<Longrightarrow> take 2 (value_text (row ! (4 * ?n))) = ''.0''"
    and vals: "length vals = ?n" "answers env st oss vals"
    by (auto simp: policy_readable_def)
  obtain m1 m2 where m1: "RBM_Fill_Variables_List st (calloc_list RBM_VAR_COLUMNS) = Inr (m1, RBM_VAR_COLUMNS)"
      and m2: "RBM_SNMP_Get_Row env st m1 RBM_VAR_COLUMNS = Inr (m2, 0)"
        "length m2 = 256 * RBM_VAR_COLUMNS"
      and m2v: "\<And>k. k < RBM_VAR_COLUMNS \<Longrightarrow> slot m2 (Suc (2 * k)) (value_text (row ! k))"
    using read_policy_row [OF assms] by blast
  have oid: "slot m2 (Suc (2 * (4 * i))) (oid_text (oss ! i)) \<and> take 2 (oid_text (oss ! i)) \<noteq> ''.0''
      \<and> NUL \<notin> set (oid_text (oss ! i))" if "i < ?n" for i
    using m2v [of "4 * i"] var [OF that] that n(2) oss(1) oid_text_no_NUL by simp
  have "\<exists>t. slot m2 (Suc (2 * (4 * ?n))) t \<and> take 2 t = ''.0''" if "?n < RBM_OID_COLUMNS"
    using m2v [of "4 * ?n"] stop [OF that] that by (intro exI conjI) auto
  with fill_oids_spec [of 0 ?n "calloc_list RBM_OID_COLUMNS" m2 "\<lambda>i. oid_text (oss ! i)"] n oid
  obtain mo where mo: "fill_oids m2 (calloc_list RBM_OID_COLUMNS) 0 [0..<RBM_OID_COLUMNS] = Inr (mo, ?n)"
      "writes (calloc_list RBM_OID_COLUMNS) (map (\<lambda>i. (2 * i, oid_text (oss ! i))) [0..<?n]) mo"
    by auto
  have ts: "slot mo (2 * i) (oid_text (oss ! i))" if "i < ?n" for i
    using that by (intro writes_in [OF mo(2)]) auto
  have clear: "clear_for mo i (vals ! i)" if "i < ?n" for i
  proof (rule unused_clear_for, rule writes_unused [OF mo(2)])
    show "Suc (2 * i) \<notin> fst ` set (map (\<lambda>i. (2 * i, oid_text (oss ! i))) [0..<?n])"
      by auto presburger
    show "unused (calloc_list RBM_OID_COLUMNS) (Suc (2 * i))" using that n(2) by simp
  qed
  have short: "length os \<le> 128" if os: "os \<in> set oss" for os
  proof -
    obtain i where i: "i < ?n" "oss ! i = os" using os by (auto simp: in_set_conv_nth)
    with oid [OF i(1)] length_oid_text [of os] show ?thesis by (simp add: slot_def)
  qed
  have "length mo = 256 * RBM_OID_COLUMNS" using writes_length [OF mo(2)] by simp
  with Get_Row_spec [OF rd _ oss(2) vals(2) _ refl vals(1) n(2) ts clear] oss(1) short
  obtain mo2 where mo2: "RBM_SNMP_Get_Row env st mo ?n = Inr (mo2, 0)"
      "writes mo (value_slots 0 vals) mo2"
    by blast
  have val: "slot mo2 (Suc (2 * i)) (value_text (vals ! i)) \<and> NUL \<notin> set (value_text (vals ! i))"
    if "i < ?n" for i
    using slot_mono_nth [OF _ mo2(2), of i] that vals value_text_no_NUL
      answers_fits [OF vals(2) nth_mem] by simp
  with copy_oids_spec [of 0 ?n m2 mo2 "\<lambda>i. value_text (vals ! i)"] n m2(2)
  obtain m3 where m3: "copy_oids m2 mo2 0 [0..<?n] = Inr m3"
      "writes m2 (map (\<lambda>i. (Suc (2 * (4 * i)), value_text (vals ! i))) [0..<?n]) m3"
    by auto
  have "cstr m3 (val_at k) = Inr (element_text row vals k)" if k: "k < RBM_VAR_COLUMNS" for k
  proof (rule slot_cstr(2), cases "k mod 4 = 0 \<and> k < 4 * ?n")
    case True
    then have "(Suc (2 * k), value_text (vals ! (k div 4)))
        \<in> set (map (\<lambda>i. (Suc (2 * (4 * i)), value_text (vals ! i))) [0..<?n])"
      by (auto simp: image_iff intro!: bexI [of _ "k div 4"])
    from writes_in [OF m3(2) this] True show "slot m3 (Suc (2 * k)) (element_text row vals k)"
      using vals(1) by (simp add: element_text_def)
  next
    case False
    then have "Suc (2 * k) \<notin> fst ` set (map (\<lambda>i. (Suc (2 * (4 * i)), value_text (vals ! i))) [0..<?n])"
      by auto
    from writes_frame [OF m3(2) this m2v [OF k]] False
    show "slot m3 (Suc (2 * k)) (element_text row vals k)" using vals(1) by (auto simp: element_text_def)
  qed
  moreover have "gather env st = Inr (Inr (m3, ?n))"
    using m1 m2(1) mo(1) mo2(1) m3(1) n(1)
    by (simp add: gather_def RBM_Fill_OID_List_def RBM_Copy_OID_List_def)
  ultimately show ?thesis by blast
qed

section \<open>Acting on a policy\<close>

text \<open>The alert's message, from the texts \<open>t\<close> of the list.\<close>

definition level_name :: "int \<Rightarrow> string" where
  "level_name i = (if i = 1 then ''Minor'' else if i = 2 then ''Normal''
     else if i = 3 then ''Major'' else if i = 4 then ''Critical'' else ''Warning'')"

definition flag_name :: "int \<Rightarrow> string" where
  "flag_name i = (if i = 1 then ''True'' else ''False'')"

definition policy_message :: "string \<Rightarrow> string \<Rightarrow> string \<Rightarrow> (nat \<Rightarrow> string) \<Rightarrow> RBM_AlertMsg" where
  "policy_message ip time sys t =
     \<lparr>modCode = ''RBMM'', masterIp = ip, dateTime = time, sysName = sys, alertMesg = t RBM_MSG_COLUMN,
      level = level_name (atol (t RBM_LEVEL_COLUMN)), sms = flag_name (atol (t 20)),
      popup = flag_name (atol (t 21)), email = flag_name (atol (t 22)), pstn = flag_name (atol (t 23))\<rparr>"

text \<open>
  The machine can send an alert: its address, name and time fit the message, the agent knows the
  alert manager's address and port, and neither the log file nor the socket fails.
\<close>

definition alert_oids :: "long list list" where
  "alert_oids = [[1, 3, 6, 1, 4, 1, 3204, 1, 3, 36, 1, 4, 0], [1, 3, 6, 1, 4, 1, 3204, 1, 3, 36, 1, 5, 0]]"

definition can_alert :: "rbm_env \<Rightarrow> rbm_state \<Rightarrow> string \<Rightarrow> string \<Rightarrow> long \<Rightarrow> long \<Rightarrow> bool" where
  "can_alert env st ip time mgr port \<longleftrightarrow>
     local_ip env = Some ip \<and> length ip < 16
   \<and> ctime_text env = time @ [newline] \<and> length time < 49
   \<and> length (nodename env) < 65 \<and> 512 \<le> length (stack_bytes env)
   \<and> answers env st alert_oids [Unsigned mgr, Integer port]
   \<and> (\<forall>text. log_full env text \<longrightarrow> log_reopens env) \<and> udp_works env"

lemma level_text_spec: "cstr m (val_at RBM_LEVEL_COLUMN) = Inr s \<Longrightarrow> level_text m = Inr (level_name (atol s))"
proof -
  assume "cstr m (val_at RBM_LEVEL_COLUMN) = Inr s"
  then have n: "num_at m RBM_LEVEL_COLUMN = Inr (atol s)" by (simp add: num_at_def)
  have "nat (if i < 0 \<or> i > 4 then 0 else i)
      = (if i = 1 then 1 else if i = 2 then 2 else if i = 3 then 3 else if i = 4 then 4 else 0)" for i :: int
    by auto
  with n show ?thesis by (simp add: level_text_def level_name_def fits_def)
qed

lemma flag_text_spec: "cstr m (val_at (20 + i)) = Inr s \<Longrightarrow> flag_text m i = Inr (flag_name (atol s))"
  by (simp add: flag_text_def flag_name_def num_at_def fits_def)

lemma length_names: "length (level_name i) \<le> 8" "length (flag_name i) \<le> 5"
  by (simp_all add: level_name_def flag_name_def)

lemma form_message_spec:
  assumes "can_alert env st ip time mgr port"
    and t: "\<And>k. k < RBM_VAR_COLUMNS \<Longrightarrow> cstr m (val_at k) = Inr (t k)" and "length (t RBM_MSG_COLUMN) < 256"
  shows "form_message env m = Inr (policy_message ip time (nodename env) t)"
  using assms level_text_spec [OF t [of 19]] flag_text_spec [of m 0 "t 20"]
    flag_text_spec [of m 1 "t 21"] flag_text_spec [of m 2 "t 22"] flag_text_spec [of m 3 "t 23"]
  by (simp add: form_message_def can_alert_def RBM_get_local_host_ip_log_def RBM_Get_ASCII_Time_def
      fits_def policy_message_def)

lemma message_fits:
  assumes "length ip < 16" "length time < 49" "length sys < 65" "length (t RBM_MSG_COLUMN) < 256"
  shows "length (wire_text (policy_message ip time sys t)) < 443"
    "length (log_text (policy_message ip time sys t)) < 1024"
  using assms length_names(1) [of "atol (t 19)"] length_names(2) [of "atol (t 20)"]
    length_names(2) [of "atol (t 21)"] length_names(2) [of "atol (t 22)"]
    length_names(2) [of "atol (t 23)"]
  by (simp_all add: wire_text_def log_text_def policy_message_def)

lemma strtoul_print_int: "strtoul (print_int (uint (w :: long))) = unat w"
proof -
  have "uint w < 4294967296" using uint_lt2p [of w] by simp
  moreover have "int (unat w) = uint w" by simp
  ultimately have "unat w < 4294967296" by linarith
  moreover have "nat (uint w) = unat w" by simp
  ultimately show ?thesis by (simp add: strtoul_def strtol_print_int)
qed

lemma atol_print_sint: "atol (print_int (sint (w :: long))) = sint w"
  using sint_lt [of w] sint_ge [of w] by (intro atol_print_int) simp_all

lemma alert_oids_ok:
  "\<forall>os\<in>set alert_oids. nonneg_oid os \<and> length os \<le> 128"
  "sorted_wrt (\<lambda>a b. length b \<le> length a) alert_oids"
  "oid_text (alert_oids ! 0) = ''.1.3.6.1.4.1.3204.1.3.36.1.4.0''"
  "oid_text (alert_oids ! 1) = ''.1.3.6.1.4.1.3204.1.3.36.1.5.0''"
  by (simp_all add: alert_oids_def nonneg_oid_def text_eval)

lemma SendAlertMsg_spec:
  assumes "parses_oids (read_objid env)" "can_alert env st ip time mgr port"
    "length (wire_text msg) < 443"
  shows "RBM_SendAlertMsg env st msg
    = Inr ([Alert (inet_ntoa (unat mgr)) (nat (sint port mod 65536)) (wire_text msg)], 0)"
proof -
  from assms(2) have reply: "answers env st alert_oids [Unsigned mgr, Integer port]"
    and len: "length (take 512 (stack_bytes env)) = 512" and udp: "udp_works env"
    by (simp_all add: can_alert_def)
  let ?s0 = "''.1.3.6.1.4.1.3204.1.3.36.1.4.0''" and ?s1 = "''.1.3.6.1.4.1.3204.1.3.36.1.5.0''"
  obtain m0 where m0: "strcpy (take 512 (stack_bytes env)) (var_at 0) ?s0 = Inr m0"
      "writes (take 512 (stack_bytes env)) [(2 * 0, ?s0)] m0"
    using strcpy_slot [of "2 * 0" "take 512 (stack_bytes env)" ?s0, unfolded len] unfolding at_slot
    by auto
  then have l0: "length m0 = 512" "slot m0 (2 * 0) ?s0"
    using writes_length len writes_in [OF m0(2)] by auto
  obtain m1 where m1: "strcpy m0 (var_at 1) ?s1 = Inr m1" "writes m0 [(2 * 1, ?s1)] m1"
    using strcpy_slot [of "2 * 1" m0 ?s1] l0(1) unfolding at_slot by auto
  then have l1: "length m1 = 256 * 2" "slot m1 (2 * 0) ?s0" "slot m1 (2 * 1) ?s1"
    using writes_length [OF m1(2)] l0 writes_in [OF m1(2)] writes_frame [OF m1(2) _ l0(2)] by auto
  have "slot m1 (2 * k) (oid_text (alert_oids ! k))" if "k < 2" for k
    using that l1(2,3) alert_oids_ok(3,4) by (auto simp: less_2_cases_iff)
  moreover have "clear_for m1 k ([Unsigned mgr, Integer port] ! k)" if "k < 2" for k
    using that by (auto simp: less_2_cases_iff clear_for_def)
  moreover have "length alert_oids = 2" by (simp add: alert_oids_def)
  ultimately obtain m2 where m2: "RBM_SNMP_Get_Row env st m1 2 = Inr (m2, 0)"
      "writes m1 (value_slots 0 [Unsigned mgr, Integer port]) m2"
    using Get_Row_spec [OF assms(1) alert_oids_ok(1,2) reply l1(1), of 2] by auto
  have "cstr m2 (val_at 0) = Inr (print_int (uint mgr))" "cstr m2 (val_at 1) = Inr (print_int (sint port))"
    using slot_mono_nth [OF _ m2(2), of 0] slot_mono_nth [OF _ m2(2), of 1]
      slot_cstr(2) [of m2 0] slot_cstr(2) [of m2 1] by simp_all
  moreover have "length (print_int (uint mgr)) < 255" using print_long_fits(2) [of mgr] by simp
  ultimately show ?thesis using m0(1) m1(1) m2(1) assms(3) udp
    by (simp add: RBM_SendAlertMsg_def fits_def num_at_def strtoul_print_int atol_print_sint)
qed

text \<open>What running a column does.\<close>

definition runs :: "string \<Rightarrow> action list" where
  "runs s = (if s = [] then [] else [Fork (child_argv s)])"

lemma run_column_spec:
  "cstr m (val_at k) = Inr s \<Longrightarrow> length s < 256 \<Longrightarrow> run_column True m k = Inr (runs s)"
  by (simp add: run_column_def runs_def RBM_Fork_Execute_def fits_def)

text \<open>The numbers of the list.\<close>

abbreviation element_num :: "snmp_value list \<Rightarrow> snmp_value list \<Rightarrow> nat \<Rightarrow> int" where
  "element_num row vals k \<equiv> atol (element_text row vals k)"

lemma text_length: "value_fits v \<Longrightarrow> length (value_text v) < 128"
proof -
  have "length (print_int (sint w)) < 128" "length (print_int (uint w)) < 128" for w :: long
    using print_long_fits [of w] by linarith+
  then show "value_fits v \<Longrightarrow> length (value_text v) < 128" by (cases v) simp_all
qed

lemma tail_text:
  assumes "policy_readable env st row oss vals" "20 \<le> k" "k < RBM_VAR_COLUMNS"
  shows "element_text row vals k = value_text (row ! k) \<and> length (element_text row vals k) < 128"
proof -
  have "length vals \<le> 5" "length row = RBM_VAR_COLUMNS" "answers env st (row_oids (uiPolicyId st)) row"
    using assms(1) by (auto simp: policy_readable_def)
  then show ?thesis using assms(2,3) text_length answers_fits by (simp add: element_text_def)
qed

text \<open>C10: a policy whose row and variables the agent returns, with values of the known types (integers and
  gauges, addresses, OIDs, texts), texts under 128 bytes, OIDs under 80 in print, none of them longer
  than the one before it and all arcs under 2^31, is evaluated as it is written: the program sends one alert, with the row's message
  and flags to the alert manager's address, exactly when the conditions joined from left to right
  hold, then runs the row's command and script, which it does whether or not they hold; an operation
  code outside 0..2 is an index outside an array. The address, the time and the name of the host have
  their usual lengths, a full log can be reopened, and UDP works. Rows outside these limits are
  misread: \<open>long_text_spills\<close> and \<open>later_oids_are_cut\<close>.\<close>

theorem policy_evaluation:
  assumes rd: "policy_readable env st row oss vals" and alert: "can_alert env st ip time mgr port"
  shows "evaluate_policy env st =
    (case first_bad_op (element_num row vals) 0 (length oss) of
       Some p \<Rightarrow> Inl (OutOfBounds p)
     | None \<Rightarrow> Inr ((if rule_holds (element_num row vals) (length oss - 1)
          then [Alert (inet_ntoa (unat mgr)) (nat (sint port mod 65536))
                 (wire_text (policy_message ip time (nodename env) (element_text row vals)))]
          else [])
        @ runs (value_text (row ! RBM_CMD_COLUMN)) @ runs (value_text (row ! RBM_SCR_COLUMN)), 1))"
proof -
  let ?t = "element_text row vals" and ?f = "element_num row vals" and ?n = "length oss"
  have n: "0 < ?n" "?n \<le> RBM_OID_COLUMNS" "parses_oids (read_objid env)"
    using rd by (auto simp: policy_readable_def)
  obtain m where m: "gather env st = Inr (Inr (m, ?n))"
    and t: "\<And>k. k < RBM_VAR_COLUMNS \<Longrightarrow> cstr m (val_at k) = Inr (?t k)"
    using gather_spec [OF rd] by blast
  have num: "num_at m k = Inr (?f k)" if "k < 4 * ?n - 1" for k
    using t [of k] that n(2) by (simp add: num_at_def)
  note valid = validate_spec [OF n(1) num]
  show ?thesis
  proof (cases "first_bad_op ?f 0 ?n")
    case (Some p)
    then show ?thesis using m valid by (simp add: evaluate_policy_def act_on_def)
  next
    case None
    have fits: "length (?t RBM_MSG_COLUMN) < 256" using tail_text [OF rd, of RBM_MSG_COLUMN] by auto
    note msg = form_message_spec [OF alert t fits]
    have time: "length ip < 16" "length time < 49" "length (nodename env) < 65"
      and log: "\<And>x. log_full env x \<Longrightarrow> log_reopens env" using alert by (auto simp: can_alert_def)
    note len = message_fits [OF time, of ?t, OF fits]
    have send: "RBM_Form_Send_AlertMsg env st m = Inr ([Alert (inet_ntoa (unat mgr))
        (nat (sint port mod 65536)) (wire_text (policy_message ip time (nodename env) ?t))], True, 0)"
      using msg len SendAlertMsg_spec [OF n(3) alert len(1)] log
      by (auto simp: RBM_Form_Send_AlertMsg_def fits_def)
    have "run_column True m k = Inr (runs (value_text (row ! k)))" if "20 \<le> k" "k < RBM_VAR_COLUMNS" for k
      using run_column_spec [OF t, of k] tail_text [OF rd, of k] that by auto
    then show ?thesis using m valid None send by (simp add: evaluate_policy_def act_on_def)
  qed
qed

section \<open>Texts that are too long\<close>

lemma cstr_append: "NUL \<notin> set s \<Longrightarrow> take (length s) (drop off m) = s \<Longrightarrow> off + length s \<le> length m \<Longrightarrow>
   cstr m (off + length s) = Inr t \<Longrightarrow> cstr m off = Inr (s @ t)"
proof -
  assume s: "NUL \<notin> set s" "take (length s) (drop off m) = s" "off + length s \<le> length m"
    and t: "cstr m (off + length s) = Inr t"
  have d: "drop off m = s @ drop (off + length s) m"
    using s(2) by (metis add.commute append_take_drop_id drop_drop)
  have "NUL \<in> set (drop (off + length s) m)" "t = takeWhile (\<lambda>c. c \<noteq> NUL) (drop (off + length s) m)"
    using t by (auto simp: cstr_def split: if_splits)
  then show "cstr m off = Inr (s @ t)" using s(1) unfolding cstr_def d
    by (subst takeWhile_append2) auto
qed

lemma holds_drop: "holds m off s \<Longrightarrow> i \<le> length s \<Longrightarrow> holds m (off + i) (drop i s)"
  by (auto simp: holds_def add.assoc dest: in_set_dropD)

text \<open>An octet string of more than 128 bytes that the agent returns for a column runs out of its
  \<^verbatim>\<open>szValue\<close>: in the last element it leaves the allocated block, elsewhere the text read back (the command
  that is then executed, for instance) is the string followed by the rest of the OID text of the next
  column.\<close>

theorem long_text_spills:
  assumes "NUL \<notin> set s" "128 < length s" "length s \<le> 255" "length m = 256 * N"
  shows "(Suc k = N \<longrightarrow> store_value m k (OctetStr s) = Inl (OutOfBounds (256 * int N)))
    \<and> (Suc k < N \<and> slot m (2 * Suc k) t \<and> length s \<le> 128 + length t \<longrightarrow>
        (\<exists>m'. store_value m k (OctetStr s) = Inr (m', Suc k)
          \<and> cstr m' (val_at k) = Inr (s @ drop (length s - 128) t)))"
proof (intro conjI impI)
  show "store_value m k (OctetStr s) = Inl (OutOfBounds (256 * int N))" if "Suc k = N"
    using that assms by (auto simp: poke_def val_at_def)
next
  assume kt: "Suc k < N \<and> slot m (2 * Suc k) t \<and> length s \<le> 128 + length t"
  then have k: "Suc k < N" and t: "slot m (2 * Suc k) t" "length s \<le> 128 + length t" by auto
  obtain m' where m': "poke m (val_at k) s = Inr m'" "length m' = length m"
    using poke_Inr [of "val_at k" s m] k assms(3,4) by (auto simp: val_at_def)
  have "take (length s) (drop (val_at k) m') = s"
    using m' poke_length [OF m'(1)] by (intro nth_equalityI) (auto simp: poke_nth [OF m'(1)])
  moreover have e: "128 * (2 * Suc k) + (length s - 128) = val_at k + length s"
    using assms(2) by (simp add: val_at_def)
  have "length s - 128 \<le> length t" using t(2) by linarith
  then have "holds m (val_at k + length s) (drop (length s - 128) t)"
    using holds_drop [of m "128 * (2 * Suc k)" t "length s - 128"] t(1) unfolding e slot_def by blast
  then have "cstr m' (val_at k + length s) = Inr (drop (length s - 128) t)"
    by (intro holds_cstr poke_keeps_holds [OF m'(1)]) auto
  ultimately have "cstr m' (val_at k) = Inr (s @ drop (length s - 128) t)"
    using assms(1) poke_length [OF m'(1)] m'(2) by (intro cstr_append) auto
  then show "\<exists>m'. store_value m k (OctetStr s) = Inr (m', Suc k)
      \<and> cstr m' (val_at k) = Inr (s @ drop (length s - 128) t)"
    using m'(1) assms(3) by simp
qed

section \<open>Types, sizes and order of the reply\<close>

definition known_type :: "snmp_var \<Rightarrow> bool" where
  "known_type x = (case snd x of OtherType t \<Rightarrow> False | _ \<Rightarrow> True)"

lemma known_type_simps [simp]:
  "known_type (nm, Integer w)" "known_type (nm, Unsigned w)" "known_type (nm, ObjectId os)"
  "known_type (nm, OctetStr s)" "\<not> known_type (nm, OtherType t)"
  by (simp_all add: known_type_def)

text \<open>A varbind of a type the program does not know (a counter, time ticks) is skipped without
  using an element, so every later value of the reply is stored one element too early.\<close>

theorem unknown_types_shift:
  assumes "\<forall>x\<in>set vs. length (oid_text (fst x)) < 80"
  shows "store_values m n vs = store_values m n (filter known_type vs)"
  using assms
proof (induction vs arbitrary: m n)
  case (Cons x vs)
  obtain nm v where x: "x = (nm, v)" by (cases x)
  have IH: "store_values m n vs = store_values m n (filter known_type vs)" for m n
    using Cons by simp
  show ?case using Cons.prems by (cases v) (simp_all add: x IH fits_def)
qed simp

text \<open>A number the agent sends as an integer is read back by the evaluation exactly; one sent as
  an unsigned number is read as 2147483647 when it is larger than that.\<close>

theorem numbers_read_back:
  "(store_value m n (Integer w) = Inr (m', n') \<longrightarrow> num_at m' n = Inr (sint w))
   \<and> (store_value m n (Unsigned w) = Inr (m', n') \<longrightarrow> num_at m' n = Inr (min (2 ^ 31 - 1) (uint w)))"
proof (intro conjI impI)
  have put: "num_at m' n = Inr (atol (print_int i))" if "strcpy m (val_at n) (print_int i) = Inr m'" for i
    using holds_cstr [OF strcpy_holds [OF print_int_no_NUL that]] by (simp add: num_at_def)
  show "num_at m' n = Inr (sint w)" if "store_value m n (Integer w) = Inr (m', n')"
    using that put by (auto simp: rbind_eq_Inr atol_print_sint)
  have "atol (print_int (uint w)) = min (2 ^ 31 - 1) (uint w)"
  proof -
    have "0 \<le> uint w" by simp
    then have "- 2147483648 \<le> uint w" by linarith
    then show ?thesis by (simp add: atol_def strtol_print_int min_def max_def)
  qed
  then show "num_at m' n = Inr (min (2 ^ 31 - 1) (uint w))"
    if "store_value m n (Unsigned w) = Inr (m', n')"
    using that put by (auto simp: rbind_eq_Inr)
qed

text \<open>The length variable passed to \<^verbatim>\<open>read_objid\<close> is never reset, so the OID asked for at position
  \<open>i\<close> of a GET is cut to the length of the shortest OID before it.\<close>

theorem later_oids_are_cut:
  assumes "parses_oids rd" "\<forall>os\<in>set oss. nonneg_oid os"
    "\<forall>k<length oss. slot m (2 * k) (oid_text (oss ! k))"
  shows "\<exists>req. request_oids rd m [0..<length oss] room = Inr req \<and> length req = length oss
    \<and> (\<forall>i<length oss. req ! i = take (Min (insert room (length ` set (take i oss)))) (oss ! i))"
proof -
  have "list_all2 (\<lambda>k os. slot m (2 * k) (oid_text os)) [0..<length oss] oss"
    using assms(3) by (simp add: list_all2_conv_all_nth)
  from request_oids_spec [OF assms(1,2) this]
  have "request_oids rd m [0..<length oss] room = Inr (cut_oids room oss)" .
  then show ?thesis using cut_nth [of _ oss room] length_cut_oids by (intro exI conjI) blast+
qed

section \<open>Traps, commands and the log\<close>

text \<open>A trap is accepted when its first two varbinds, and no others, are outside the policy's subtree.\<close>

lemma read_trap_suffix:
  "2 \<le> n \<Longrightarrow> (\<exists>st'. read_trap n vs st = Inr (st', True)) \<longleftrightarrow>
     (\<forall>(nm, v)\<in>set vs. in_policy_tree nm \<and> (case v of TOctetStr s \<Rightarrow> length s \<le> 255 | _ \<Rightarrow> True))"
proof (induction vs arbitrary: n st)
  case (Cons x vs)
  obtain nm v where x: "x = (nm, v)" by (cases x)
  show ?case using Cons.IH [of "Suc n"] Cons.prems
    by (cases v) (auto simp: x Let_def copy_trap_message_def)
qed simp

text \<open>The reading of a trap accepts it exactly when each of its first two varbinds is outside the policy
  subtree, all others are inside it and no text in them exceeds 255 bytes; a trap of fewer varbinds is
  judged by those it has.\<close>

theorem trap_accepted_iff:
  "(\<exists>st'. read_trap 0 vs st = Inr (st', True)) \<longleftrightarrow>
    (\<forall>(nm, v)\<in>set (take 2 vs). \<not> in_policy_tree nm)
    \<and> (\<forall>(nm, v)\<in>set (drop 2 vs). in_policy_tree nm
        \<and> (case v of TOctetStr s \<Rightarrow> length s \<le> 255 | _ \<Rightarrow> True))"
proof (cases "2 \<le> length vs")
  case True
  then obtain x y rest where vs: "vs = x # y # rest"
    by (cases vs; cases "tl vs") auto
  obtain nx v1 ny v2 where xy: "x = (nx, v1)" "y = (ny, v2)" by (cases x; cases y)
  show ?thesis
    using read_trap_suffix [of 2 rest] by (simp add: vs xy Let_def numeral_2_eq_2)
next
  case False
  then consider "vs = []" | x where "vs = [x]" by (cases vs; cases "tl vs") auto
  then show ?thesis by cases (auto simp: Let_def split: prod.split)
qed

text \<open>A command of words separated by single spaces.\<close>

lemma tokens_word:
  assumes "w \<noteq> []" "CHR '' '' \<notin> set w"
  shows "tokens w = [w]" and "tokens (w @ CHR '' '' # cs) = w # tokens cs"
proof -
  obtain c w' where w: "w = c # w'" "c \<noteq> CHR '' ''" "\<forall>x\<in>set w'. x \<noteq> CHR '' ''"
    using assms by (cases w) auto
  then have "takeWhile (\<lambda>x. x \<noteq> CHR '' '') w' = w'" "dropWhile (\<lambda>x. x \<noteq> CHR '' '') w' = []" by simp_all
  then show "tokens w = [w]" using w
    by (simp del: dropWhile_eq_Nil_conv takeWhile_eq_all_conv)
  have "takeWhile (\<lambda>x. x \<noteq> CHR '' '') (w' @ CHR '' '' # cs) = w'"
    "dropWhile (\<lambda>x. x \<noteq> CHR '' '') (w' @ CHR '' '' # cs) = CHR '' '' # cs"
    using w by (simp_all add: takeWhile_append2 dropWhile_append2)
  then show "tokens (w @ CHR '' '' # cs) = w # tokens cs" using w by simp
qed

lemma tokens_unwords: "\<forall>w\<in>set ws. w \<noteq> [] \<and> CHR '' '' \<notin> set w \<Longrightarrow> tokens (unwords ws) = ws"
  by (induction ws rule: unwords.induct) (simp_all add: tokens_word)

lemma space_unwords: "2 \<le> length ws \<Longrightarrow> CHR '' '' \<in> set (unwords ws)"
  by (cases ws rule: unwords.cases) auto

text \<open>The child of a command of several words gets those words as its arguments when they are
  fewer than 20; with 20 or more the terminating NULL is written past the end of \<^verbatim>\<open>argv[20]\<close>.\<close>

theorem argv_of_words:
  assumes "2 \<le> length ws" "\<forall>w\<in>set ws. w \<noteq> [] \<and> CHR '' '' \<notin> set w"
  shows "child_argv (unwords ws)
    = (if length ws < 20 then Inr (map Some ws) else Inl (OutOfBounds 20))"
proof -
  have "ws \<noteq> []" using assms(1) by auto
  then show ?thesis using space_unwords [OF assms(1)] tokens_unwords [OF assms(2)]
    by (simp add: child_argv_def Let_def)
qed

text \<open>When the conditions hold and the log is full, a log file that cannot be reopened makes the
  program write through a NULL file pointer: no alert is sent and no command is run.\<close>

theorem full_log_crashes:
  assumes rd: "policy_readable env st row oss vals"
    and ops: "first_bad_op (element_num row vals) 0 (length oss) = None"
    and holds: "rule_holds (element_num row vals) (length oss - 1)"
    and alert: "can_alert (env\<lparr>log_reopens := True\<rparr>) st ip time mgr port"
    and log: "\<not> log_reopens env"
      "log_full env (log_text (policy_message ip time (nodename env) (element_text row vals)))"
  shows "evaluate_policy env st = Inl (BadPtr NULL)"
proof -
  let ?t = "element_text row vals"
  obtain m where m: "gather env st = Inr (Inr (m, length oss))"
    and t: "\<And>k. k < RBM_VAR_COLUMNS \<Longrightarrow> cstr m (val_at k) = Inr (?t k)"
    using gather_spec [OF rd] by blast
  have n: "0 < length oss" "length oss \<le> RBM_OID_COLUMNS" using rd by (auto simp: policy_readable_def)
  have num: "num_at m k = Inr (element_num row vals k)" if "k < 4 * length oss - 1" for k
    using t [of k] that n(2) by (simp add: num_at_def)
  have valid: "RBM_Validate_Variables m (length oss) = Inr 1"
    using validate_spec [OF n(1) num] ops holds by simp
  have fits: "length (?t RBM_MSG_COLUMN) < 256" using tail_text [OF rd, of RBM_MSG_COLUMN] by auto
  have "form_message (env\<lparr>log_reopens := True\<rparr>) m = form_message env m"
    by (simp add: form_message_def RBM_get_local_host_ip_log_def RBM_Get_ASCII_Time_def
        cong: option.case_cong)
  with form_message_spec [OF alert t fits]
  have msg: "form_message env m = Inr (policy_message ip time (nodename env) ?t)" by simp
  have time: "length ip < 16" "length time < 49" "length (nodename env) < 65"
    using alert by (auto simp: can_alert_def)
  have "RBM_Form_Send_AlertMsg env st m = Inr ([], False, 1)"
    using msg message_fits(2) [OF time, of ?t, OF fits] log
    by (simp add: RBM_Form_Send_AlertMsg_def fits_def)
  moreover have "run_column False m k = (if ?t k = [] then Inr [] else Inl (BadPtr NULL))"
    if "k < RBM_VAR_COLUMNS" for k
    using t [OF that] by (simp add: run_column_def)
  ultimately show ?thesis using m valid by (simp add: evaluate_policy_def act_on_def)
qed

section \<open>A parser of OIDs\<close>

text \<open>One \<^verbatim>\<open>read_objid\<close> of the documented kind.\<close>

function (sequential) parse_subids :: "string \<Rightarrow> long list" where
  "parse_subids (CHR ''.'' # cs) = of_nat (scan 0 cs) # parse_subids (dropWhile isdigit cs)"
| "parse_subids _ = []"
  by pat_completeness auto

termination
  by (relation "measure length") (auto simp: le_imp_less_Suc length_dropWhile_le)

definition parse_oid :: "string \<Rightarrow> nat \<Rightarrow> bool \<times> long list" where
  "parse_oid s n = (length (parse_subids s) \<le> n, take n (parse_subids s))"

lemma scan_stops: "ys = [] \<or> \<not> isdigit (hd ys) \<Longrightarrow> scan a ys = a"
  by (cases ys) auto

lemma parse_subids_text: "\<forall>x\<in>set os. 0 \<le> sint x \<Longrightarrow> parse_subids (oid_text os) = os"
proof (induction os)
  case (Cons x os)
  have x: "print_int (sint x) = digits (nat (sint x))" using Cons.prems by (simp add: print_int_def)
  have stop: "oid_text os = [] \<or> \<not> isdigit (hd (oid_text os))"
    by (cases os) (simp_all add: oid_text_def isdigit_def)
  have "scan 0 (digits (nat (sint x)) @ oid_text os) = nat (sint x)"
    using scan_append [of "digits (nat (sint x))"] digits_are_digits scan_stops [OF stop] by simp
  moreover have "dropWhile isdigit (digits (nat (sint x)) @ oid_text os) = oid_text os"
  proof -
    have "dropWhile isdigit (oid_text os) = oid_text os" using stop by (cases "oid_text os") auto
    then show ?thesis using digits_are_digits by (subst dropWhile_append2) auto
  qed
  moreover have "of_nat (nat (sint x)) = x"
  proof -
    have "of_nat (nat (sint x)) = (of_int (sint x) :: long)" using Cons.prems by simp
    then show ?thesis by simp
  qed
  moreover have "oid_text (x # os) = CHR ''.'' # digits (nat (sint x)) @ oid_text os"
    by (simp add: oid_text_def x)
  ultimately show ?case using Cons by simp
qed (simp add: oid_text_def)

lemma parse_oid_ok: "parses_oids parse_oid"
  by (simp add: parses_oids_def parse_oid_def nonneg_oid_def parse_subids_text)

section \<open>Examples\<close>

text \<open>
  Policy 5: alert when the value of \<^verbatim>\<open>.1.3.6\<close> is more than 10, and run \<^verbatim>\<open>/bin/ls -l\<close>; its value is 42.
\<close>

definition sample_row :: "snmp_value list" where
  "sample_row = [ObjectId [1, 3, 6], Integer 1, Integer 10, Integer 0]
     @ concat (replicate 3 [ObjectId [0], Integer 0, Integer 0, Integer 0])
     @ [ObjectId [0], Integer 0, Integer 0, Integer 4, Integer 1, Integer 0, Integer 1, Integer 0,
        OctetStr ''/bin/ls -l'', OctetStr [], OctetStr ''cpu high'']"

definition sample_env :: "bool \<Rightarrow> rbm_env" where
  "sample_env full = \<lparr>read_objid = parse_oid,
     snmp_get = (\<lambda>_ oids. if length oids = RBM_VAR_COLUMNS then Reply (map (Pair []) sample_row)
       else if length oids = 1 then Reply [([], Integer 42)]
       else Reply [([], Unsigned 16777343), ([], Integer 5000)]),
     local_ip = Some ''10.0.0.1'', nodename = ''host'',
     ctime_text = ''Thu Jan  1 00:00:00 1970'' @ [newline],
     stack_bytes = replicate 512 NUL, log_full = (\<lambda>_. full), log_reopens = False, udp_works = True\<rparr>"

definition sample_state :: rbm_state where
  "sample_state = \<lparr>giSAPort = 161, uiPolicyId = 5, szTrapMessage = replicate 255 NUL,
     szRemAddress = ''10.0.0.2'', num_received = 0\<rparr>"

lemma sample_answers:
  "answers (sample_env b) sample_state (row_oids (uiPolicyId sample_state)) sample_row"
  "answers (sample_env b) sample_state [[1, 3, 6]] [Integer 42]"
  "answers (sample_env b) sample_state alert_oids [Unsigned 16777343, Integer 5000]"
  "answers ((sample_env b)\<lparr>log_reopens := True\<rparr>) sample_state alert_oids [Unsigned 16777343, Integer 5000]"
proof -
  have get: "snmp_get (sample_env b) peer oids =
      (if length oids = RBM_VAR_COLUMNS then Reply (map (Pair []) sample_row)
       else if length oids = 1 then Reply [([], Integer 42)]
       else Reply [([], Unsigned 16777343), ([], Integer 5000)])" for peer oids
    by (simp add: sample_env_def)
  have "\<forall>v\<in>set sample_row. value_fits v" by (simp add: sample_row_def numeral_3_eq_3 text_eval)
  then have "answers (sample_env b) st oids sample_row" if "length oids = RBM_VAR_COLUMNS" for st oids
    using that by (simp add: answers_def get comp_def oid_text_def split_beta)
  then show "answers (sample_env b) sample_state (row_oids (uiPolicyId sample_state)) sample_row"
    by (simp add: row_oids_def)
  show "answers (sample_env b) sample_state [[1, 3, 6]] [Integer 42]"
    "answers (sample_env b) sample_state alert_oids [Unsigned 16777343, Integer 5000]"
    "answers ((sample_env b)\<lparr>log_reopens := True\<rparr>) sample_state alert_oids
      [Unsigned 16777343, Integer 5000]"
    by (simp_all add: answers_def get oid_text_def alert_oids_def)
qed

lemma sample_readable:
  "policy_readable (sample_env b) sample_state sample_row [[1, 3, 6]] [Integer 42]"
proof -
  have rd: "read_objid (sample_env b) = parse_oid" by (simp add: sample_env_def)
  have "0 \<le> sint (uiPolicyId sample_state)" "length sample_row = RBM_VAR_COLUMNS"
    "nonneg_oid [1, 3, 6]" "take 2 (oid_text [1, 3, 6]) \<noteq> ''.0''"
    "sample_row ! 0 = ObjectId [1, 3, 6]" "take 2 (value_text (sample_row ! 4)) = ''.0''"
    by (simp_all add: sample_state_def sample_row_def numeral_3_eq_3 nonneg_oid_def text_eval)
  then show ?thesis using sample_answers(1,2) [of b]
    by (simp add: policy_readable_def rd parse_oid_ok)
qed

lemma sample_texts:
  "element_text sample_row [Integer 42] 0 = ''42''" "element_text sample_row [Integer 42] 1 = ''1''"
  "element_text sample_row [Integer 42] (Suc 0) = ''1''"
  "element_text sample_row [Integer 42] 2 = ''10''" "element_text sample_row [Integer 42] 19 = ''4''"
  "element_text sample_row [Integer 42] 20 = ''1''" "element_text sample_row [Integer 42] 21 = ''0''"
  "element_text sample_row [Integer 42] 22 = ''1''" "element_text sample_row [Integer 42] 23 = ''0''"
  "element_text sample_row [Integer 42] 26 = ''cpu high''"
  "value_text (sample_row ! 24) = ''/bin/ls -l''" "value_text (sample_row ! 25) = []"
  by (simp_all add: sample_row_def numeral_3_eq_3 element_text_def text_eval)

lemma sample_numbers:
  "atol ''42'' = 42" "atol ''10'' = 10" "atol ''4'' = 4" "atol ''1'' = 1" "atol ''0'' = 0"
  by (simp_all add: text_eval)

lemma sample_rule: "rule_holds (element_num sample_row [Integer 42]) 0"
  "first_bad_op (element_num sample_row [Integer 42]) 0 1 = None"
  by (simp_all add: sample_texts sample_numbers cond_holds_def first_bad_op_def)

theorem policy_evaluation_witness:
  "evaluate_policy (sample_env False) sample_state =
     Inr ([Alert ''127.0.0.1'' 5000 (''RBMM|10.0.0.1|Thu Jan  1 00:00:00 1970|host|cpu high|Critical|''
             @ ''True|False|True|False''),
           Fork (Inr [Some ''/bin/ls'', Some ''-l''])], 1)"
proof -
  have "can_alert (sample_env False) sample_state ''10.0.0.1'' ''Thu Jan  1 00:00:00 1970'' 16777343 5000"
    using sample_answers(3) [of False] by (simp add: can_alert_def sample_env_def)
  note run = policy_evaluation [OF sample_readable this]
  have "runs ''/bin/ls -l'' = [Fork (Inr [Some ''/bin/ls'', Some ''-l''])]"
    by (simp add: runs_def child_argv_def)
  moreover have "inet_ntoa (unat (16777343 :: long)) = ''127.0.0.1''"
    by (simp add: inet_ntoa_def text_eval)
  moreover have "nodename (sample_env False) = ''host''" by (simp add: sample_env_def)
  ultimately show ?thesis unfolding run using sample_rule
    by (simp add: sample_texts sample_numbers policy_message_def wire_text_def level_name_def
        flag_name_def runs_def [of "[]"])
qed

theorem full_log_crashes_witness:
  "evaluate_policy (sample_env True) sample_state = Inl (BadPtr NULL)"
proof (rule full_log_crashes [OF sample_readable])
  show "first_bad_op (element_num sample_row [Integer 42]) 0 (length [[1, 3, 6 :: long]]) = None"
    "rule_holds (element_num sample_row [Integer 42]) (length [[1, 3, 6 :: long]] - 1)"
    using sample_rule by simp_all
  show "can_alert ((sample_env True)\<lparr>log_reopens := True\<rparr>) sample_state ''10.0.0.1''
      ''Thu Jan  1 00:00:00 1970'' 16777343 5000"
    using sample_answers(4) [of True] by (simp add: can_alert_def sample_env_def)
qed (simp_all add: sample_env_def)

lemma slotI: "length pre = 128 * a \<Longrightarrow> NUL \<notin> set s \<Longrightarrow> length s < 128 \<Longrightarrow>
    slot (pre @ s @ NUL # post) a s"
  by (auto simp: slot_def holds_def nth_append)

text \<open>
  A command of 130 bytes in the first of two elements, the second holding an OID: the last three
  bytes of the OID are part of the text read back.
\<close>

definition spill_block :: string where
  "spill_block = replicate 256 NUL @ ''.1.36'' @ NUL # replicate 250 NUL"

theorem long_text_spills_witness:
  "(\<exists>m'. store_value spill_block 0 (OctetStr (replicate 130 CHR ''x'')) = Inr (m', 1)
     \<and> cstr m' (val_at 0) = Inr (replicate 130 CHR ''x'' @ ''.36''))
   \<and> store_value spill_block 1 (OctetStr (replicate 130 CHR ''x'')) = Inl (OutOfBounds 512)"
proof -
  let ?s = "replicate 130 CHR ''x''"
  have len: "length spill_block = 256 * 2" by (simp add: spill_block_def)
  have "slot spill_block (2 * Suc 0) ''.1.36''"
    unfolding spill_block_def by (rule slotI) simp_all
  with long_text_spills [of ?s spill_block 2 0 "''.1.36''"] len
  have "\<exists>m'. store_value spill_block 0 (OctetStr ?s) = Inr (m', Suc 0)
      \<and> cstr m' (val_at 0) = Inr (?s @ drop 2 ''.1.36'')"
    by (simp del: store_value.simps)
  moreover have "store_value spill_block 1 (OctetStr ?s) = Inl (OutOfBounds 512)"
    using long_text_spills [of ?s spill_block 2 1 "[]"] len by (simp del: store_value.simps)
  ultimately show ?thesis by simp
qed

theorem unknown_types_shift_witness:
  "store_values (calloc_list 2) 0 [([], OtherType 65), ([], Integer 7)]
     = store_values (calloc_list 2) 0 [([], Integer 7)]"
  using unknown_types_shift [of "[([], OtherType 65), ([], Integer 7)]" "calloc_list 2" 0]
  by (simp add: oid_text_def del: store_values.simps)

theorem numbers_read_back_witness:
  "\<exists>m'. store_value (calloc_list 1) 0 (Unsigned 3000000000) = Inr (m', 1)
     \<and> num_at m' 0 = Inr 2147483647"
proof -
  obtain m' where "store_value (calloc_list 1) 0 (Unsigned 3000000000) = Inr (m', 1)"
    using store_value_spec [of "Unsigned 3000000000" 0 1 "calloc_list 1"] by (auto simp: clear_for_def)
  with numbers_read_back [of "calloc_list 1" 0 3000000000 m' 1] show ?thesis by auto
qed

definition two_oids :: string where
  "two_oids = ''.1.3'' @ NUL # replicate 251 NUL @ ''.1.3.6'' @ NUL # replicate 249 NUL"

theorem later_oids_are_cut_witness:
  "\<exists>req. request_oids parse_oid two_oids [0..<2] 128 = Inr req \<and> req ! 1 = [1, 3]"
proof -
  have oss: "\<forall>os\<in>set [[1, 3], [1, 3, 6]]. nonneg_oid os" by (simp add: nonneg_oid_def)
  have "slot two_oids 0 ''.1.3''"
    using slotI [of "[]" 0 "''.1.3''"] by (simp add: two_oids_def)
  moreover have "slot two_oids 2 ''.1.3.6''"
    using slotI [of "''.1.3'' @ NUL # replicate 251 NUL" 2 "''.1.3.6''" "replicate 249 NUL"]
    by (simp add: two_oids_def)
  ultimately have "\<forall>k<length [[1, 3], [1, 3, 6 :: long]].
      slot two_oids (2 * k) (oid_text ([[1, 3], [1, 3, 6]] ! k))"
    by (auto simp: less_Suc_eq text_eval)
  from later_oids_are_cut [OF parse_oid_ok oss this, of 128]
  obtain req where "request_oids parse_oid two_oids [0..<2] 128 = Inr req"
      "\<forall>i<2. req ! i = take (Min (insert 128 (length ` set (take i [[1, 3], [1, 3, 6 :: long]]))))
        ([[1, 3], [1, 3, 6]] ! i)"
    by (auto simp: numeral_2_eq_2 simp del: upt_Suc)
  then show ?thesis by (intro exI [of _ req] conjI) auto
qed

theorem trap_accepted_iff_witness:
  "(\<exists>st'. read_trap 0 [([1, 3, 6, 1, 2], TOther), ([1, 3, 6, 1, 6], TOther),
       (aulNuriPolicy_variables_oid @ [1, 2, 5], TUnsigned 5)] sample_state = Inr (st', True))
   \<and> \<not> (\<exists>st'. read_trap 0 [(aulNuriPolicy_variables_oid, TOther), ([1, 3], TOther)] sample_state
          = Inr (st', True))"
  using trap_accepted_iff [of "[([1, 3, 6, 1, 2], TOther), ([1, 3, 6, 1, 6], TOther),
       (aulNuriPolicy_variables_oid @ [1, 2, 5], TUnsigned 5)]" sample_state]
    trap_accepted_iff [of "[(aulNuriPolicy_variables_oid, TOther), ([1, 3], TOther)]" sample_state]
  by (simp add: in_policy_tree_def aulNuriPolicy_variables_oid_def del: read_trap.simps)

theorem argv_of_words_witness:
  "child_argv ''/bin/kill -9 77'' = Inr [Some ''/bin/kill'', Some ''-9'', Some ''77'']"
  using argv_of_words [of "[''/bin/kill'', ''-9'', ''77'']"] by simp

end
