(* ===== verification/JobList.thy ===== *)
theory JobList
  imports Prelude
begin

text \<open>
  The list of scheduled jobs of the job scheduler process
  (\<^verbatim>\<open>src/Group2/Unix/JobSched/src/NASCenter_JS_List.c\<close>): a linked list behind a header node that pairs
  a job's table index with the id of its task. What a client relies on is the locale \<open>job_index\<close>,
  interpreted on the model of the code at the end.
\<close>

section \<open>The job list\<close>

record stNode =
  iIndex :: "16 word"
  lTaskId :: int

definition JS_AddNodeInJobList ::
  "stNode allocator \<Rightarrow> int \<Rightarrow> 16 word \<Rightarrow> addr \<Rightarrow> stNode heap \<Rightarrow> stNode heap res" where
  "JS_AddNodeInJobList malloc taskID iIdx stListPtr h =
    (let TmpCell = malloc h in
     if TmpCell = NULL then Inl (Exit 0)
     else let h = h(TmpCell \<mapsto> Node \<lparr>iIndex = iIdx, lTaskId = taskID\<rparr> NULL) in
       rbind (deref h stListPtr) (\<lambda>tempPtr.
       rbind (set_next h TmpCell (nxt tempPtr)) (\<lambda>h.
       set_next h stListPtr TmpCell)))"

text \<open>The search of \<^verbatim>\<open>JS_DeleteNodeFromList\<close>: the node and the one before it; NULL when there is none.\<close>

partial_function (option) find_node ::
  "stNode heap \<Rightarrow> 16 word \<Rightarrow> int \<Rightarrow> addr \<Rightarrow> addr \<Rightarrow> (addr \<times> addr) run" where
  "find_node h iIdx taskID stPrevPtr stDelStruct =
    (if stDelStruct = NULL then Some (Inr (stPrevPtr, NULL))
     else case deref h stDelStruct of
       Inl e \<Rightarrow> Some (Inl e)
     | Inr nd \<Rightarrow>
         if iIndex (dat nd) = iIdx \<and> lTaskId (dat nd) = taskID
         then Some (Inr (stPrevPtr, stDelStruct))
         else find_node h iIdx taskID stDelStruct (nxt nd))"

definition JS_DeleteNodeFromList ::
  "addr \<Rightarrow> 16 word \<Rightarrow> int \<Rightarrow> stNode heap \<Rightarrow> (int \<times> stNode heap) run" where
  "JS_DeleteNodeFromList stListPtr iIdx taskID h =
    obind (lift_res (deref h stListPtr)) (\<lambda>hd.
    obind (find_node h iIdx taskID stListPtr (nxt hd)) (\<lambda>(stPrevPtr, stDelStruct).
      if stDelStruct = NULL then Some (Inr (0, h))
      else lift_res (rbind (deref h stDelStruct) (\<lambda>nd.
        rbind (set_next h stPrevPtr (nxt nd)) (\<lambda>h.
        rbind (free_node h stDelStruct) (\<lambda>h. Inr (1, h)))))))"

partial_function (option) task_walk :: "stNode heap \<Rightarrow> 16 word \<Rightarrow> addr \<Rightarrow> int run" where
  "task_walk h iIdx stPrevPtr =
    (if stPrevPtr = NULL then Some (Inr (-1))
     else case deref h stPrevPtr of
       Inl e \<Rightarrow> Some (Inl e)
     | Inr nd \<Rightarrow> if iIndex (dat nd) = iIdx then Some (Inr (lTaskId (dat nd)))
                 else task_walk h iIdx (nxt nd))"

definition JS_GetTaskID :: "16 word \<Rightarrow> addr \<Rightarrow> stNode heap \<Rightarrow> int run" where
  "JS_GetTaskID iIdx stListPtr h =
     obind (lift_res (deref h stListPtr)) (\<lambda>hd. task_walk h iIdx (nxt hd))"

partial_function (option) free_walk :: "stNode heap \<Rightarrow> addr \<Rightarrow> stNode heap run" where
  "free_walk h pstNewNode =
    (if pstNewNode = NULL then Some (Inr h)
     else case deref h pstNewNode of
       Inl e \<Rightarrow> Some (Inl e)
     | Inr nd \<Rightarrow> (case free_node h pstNewNode of
           Inl e \<Rightarrow> Some (Inl e)
         | Inr h' \<Rightarrow> free_walk h' (nxt nd)))"

definition JS_DeleteList :: "addr \<Rightarrow> stNode heap \<Rightarrow> stNode heap run" where
  "JS_DeleteList stListPtr h =
     obind (lift_res (deref h stListPtr)) (\<lambda>hd.
     obind (lift_res (set_next h stListPtr NULL)) (\<lambda>h. free_walk h (nxt hd)))"

text \<open>The old header, if there is one, is not freed.\<close>

definition JS_MakeEmpty ::
  "stNode allocator \<Rightarrow> addr \<Rightarrow> stNode heap \<Rightarrow> (addr \<times> stNode heap) run" where
  "JS_MakeEmpty malloc stListPtr h =
     obind (if stListPtr \<noteq> NULL then JS_DeleteList stListPtr h else Some (Inr h)) (\<lambda>h.
       let p = malloc h in
       if p = NULL then Some (Inl (Exit 0))
       else Some (Inr (p, h(p \<mapsto> Node \<lparr>iIndex = 0, lTaskId = 0\<rparr> NULL))))"

declare find_node.simps [code] task_walk.simps [code] free_walk.simps [code]

text \<open>The list holds the nodes \<open>ns\<close> behind its header, and nothing else is live.\<close>

definition job_list :: "stNode heap \<Rightarrow> addr \<Rightarrow> (addr \<times> stNode) list \<Rightarrow> bool" where
  "job_list h p ns \<longleftrightarrow> (\<exists>d. lseg h p ((p, d) # ns) NULL) \<and> dom h = insert p (set (addrs ns))"

lemma job_listE:
  assumes "job_list h p ns"
  obtains d where "h p = Some (Node d (first_addr ns NULL))" "p \<noteq> NULL" "lseg h (first_addr ns NULL) ns NULL"
    "p \<notin> set (addrs ns)" "distinct (addrs ns)" "dom h = insert p (set (addrs ns))"
proof -
  obtain d where l: "lseg h p ((p, d) # ns) NULL" and dom: "dom h = insert p (set (addrs ns))"
    using assms by (auto simp: job_list_def)
  obtain n where n: "p \<noteq> NULL" "h p = Some (Node d n)" "lseg h n ns NULL"
    using l by (auto simp: lseg_Cons)
  moreover have "n = first_addr ns NULL" using lseg_first_addr [OF n(3)] .
  ultimately show ?thesis using lseg_distinct [OF l] dom that by auto
qed

definition job_is :: "16 word \<Rightarrow> int \<Rightarrow> addr \<times> stNode \<Rightarrow> bool" where
  "job_is i t n \<longleftrightarrow> iIndex (snd n) = i \<and> lTaskId (snd n) = t"

lemma find_node_none:
  "lseg h c ns NULL \<Longrightarrow> \<forall>n\<in>set ns. \<not> job_is i t n \<Longrightarrow> \<exists>q. find_node h i t p c = Some (Inr (q, NULL))"
proof (induction ns arbitrary: p c)
  case Nil
  then show ?case by (simp add: find_node.simps)
next
  case (Cons x ns)
  then obtain n where n: "c = fst x" "c \<noteq> NULL" "h c = Some (Node (snd x) n)" "lseg h n ns NULL"
    by (auto simp: lseg_Cons)
  then have "find_node h i t p c = find_node h i t c n"
    using Cons.prems(2) by (subst find_node.simps) (auto simp: job_is_def)
  then show ?case using Cons.IH [OF n(4)] Cons.prems(2) by simp
qed

lemma find_node_first:
  "lseg h c (xs @ (a, d) # ys) NULL \<Longrightarrow> \<forall>n\<in>set xs. \<not> job_is i t n \<Longrightarrow> job_is i t (a, d) \<Longrightarrow>
   find_node h i t p c = Some (Inr (if xs = [] then p else prev_addr xs, a))"
proof (induction xs arbitrary: p c)
  case Nil
  then obtain n where "c = a" "c \<noteq> NULL" "h c = Some (Node d n)" by (auto simp: lseg_Cons)
  with Nil show ?case by (subst find_node.simps) (simp add: job_is_def)
next
  case (Cons x xs)
  then obtain n where n: "c = fst x" "c \<noteq> NULL" "h c = Some (Node (snd x) n)"
      "lseg h n (xs @ (a, d) # ys) NULL"
    by (auto simp: lseg_Cons)
  then have "find_node h i t p c = find_node h i t c n"
    using Cons.prems(2) by (subst find_node.simps) (auto simp: job_is_def)
  then show ?case using Cons.IH [OF n(4), of c] Cons.prems(2,3) n(1) by (simp add: prev_addr_Cons)
qed

lemma task_walk_spec:
  "lseg h c ns NULL \<Longrightarrow> task_walk h i c = Some (Inr (case find (\<lambda>n. iIndex (snd n) = i) ns of
     None \<Rightarrow> - 1 | Some n \<Rightarrow> lTaskId (snd n)))"
proof (induction ns arbitrary: c)
  case Nil
  then show ?case by (simp add: task_walk.simps)
next
  case (Cons x ns)
  then obtain n where "c = fst x" "c \<noteq> NULL" "h c = Some (Node (snd x) n)" "lseg h n ns NULL"
    by (auto simp: lseg_Cons)
  then show ?case using Cons.IH by (subst task_walk.simps) simp
qed

text \<open>The contents of the list, first match first.\<close>

definition jobs_of :: "(addr \<times> stNode) list \<Rightarrow> (16 word \<times> int) list" where
  "jobs_of ns = map (\<lambda>n. (iIndex (snd n), lTaskId (snd n))) ns"

definition task_of :: "(16 word \<times> int) list \<Rightarrow> 16 word \<Rightarrow> int" where
  "task_of js i = (case map_of js i of None \<Rightarrow> - 1 | Some t \<Rightarrow> t)"

lemma find_task_of: "(case find (\<lambda>n. iIndex (snd n) = i) ns of None \<Rightarrow> - 1 | Some n \<Rightarrow> lTaskId (snd n))
    = task_of (jobs_of ns) i"
  by (induction ns) (auto simp: task_of_def jobs_of_def)

lemma JS_GetTaskID_spec: "job_list h p ns \<Longrightarrow> JS_GetTaskID i p h = Some (Inr (task_of (jobs_of ns) i))"
  by (erule job_listE) (simp add: JS_GetTaskID_def lift_res_def task_walk_spec find_task_of)

lemma JS_AddNodeInJobList_spec:
  assumes "job_list h p ns" "alloc_ok malloc" "malloc h \<noteq> NULL"
  shows "\<exists>h'. JS_AddNodeInJobList malloc t i p h = Inr h'
    \<and> job_list h' p ((malloc h, \<lparr>iIndex = i, lTaskId = t\<rparr>) # ns)"
proof -
  let ?a = "malloc h" and ?d = "\<lparr>iIndex = i, lTaskId = t\<rparr>" and ?n = "first_addr ns NULL"
  obtain d where l: "h p = Some (Node d ?n)" "p \<noteq> NULL" "lseg h ?n ns NULL" "p \<notin> set (addrs ns)"
      "dom h = insert p (set (addrs ns))"
    using job_listE [OF assms(1)] by metis
  have new: "?a \<noteq> p" "?a \<notin> set (addrs ns)" using alloc_okD [OF assms(2,3)] l(1,5) by auto
  let ?h = "h(?a \<mapsto> Node ?d ?n, p \<mapsto> Node d ?a)"
  have "JS_AddNodeInJobList malloc t i p h = Inr ?h"
    using l new assms(3) by (simp add: JS_AddNodeInJobList_def Let_def fun_upd_twist)
  moreover have "lseg ?h p ((p, d) # (?a, ?d) # ns) NULL"
    using l new assms(3) by (simp add: lseg_Cons)
  moreover have "dom ?h = insert p (set (addrs ((?a, ?d) # ns)))" using l(5) by auto
  ultimately show ?thesis unfolding job_list_def by blast
qed

lemma JS_DeleteNodeFromList_none:
  assumes "job_list h p ns" "\<forall>n\<in>set ns. \<not> job_is i t n"
  shows "JS_DeleteNodeFromList p i t h = Some (Inr (0, h))"
proof -
  obtain d where l: "h p = Some (Node d (first_addr ns NULL))" "p \<noteq> NULL" "lseg h (first_addr ns NULL) ns NULL"
    using job_listE [OF assms(1)] by metis
  from find_node_none [OF l(3) assms(2), of p] l(1,2) show ?thesis
    by (auto simp: JS_DeleteNodeFromList_def lift_res_def)
qed

lemma JS_DeleteNodeFromList_first:
  assumes "job_list h p (xs @ (a, d) # ys)" "\<forall>n\<in>set xs. \<not> job_is i t n" "job_is i t (a, d)"
  shows "\<exists>h'. JS_DeleteNodeFromList p i t h = Some (Inr (1, h')) \<and> job_list h' p (xs @ ys)"
proof -
  let ?ns = "xs @ (a, d) # ys"
  obtain d0 where l: "h p = Some (Node d0 (first_addr ?ns NULL))" "p \<noteq> NULL"
      "lseg h (first_addr ?ns NULL) ?ns NULL" "p \<notin> set (addrs ?ns)" "distinct (addrs ?ns)"
      "dom h = insert p (set (addrs ?ns))"
    using job_listE [OF assms(1)] by metis
  let ?q = "if xs = [] then p else prev_addr xs"
  note found = find_node_first [OF l(3) assms(2,3), of p]
  have whole: "lseg h p ((p, d0) # ?ns) NULL" using l by (simp add: lseg_Cons)
  obtain us b db where u: "(p, d0) # xs = us @ [(b, db)]"
    by (metis append_butlast_last_id list.distinct(1) surj_pair)
  have b: "?q = b" using u by (cases xs rule: rev_cases) (auto simp: prev_addr_def)
  have seg: "lseg h p (us @ [(b, db)] @ (a, d) # ys) NULL" using whole u by (metis append_Cons append_assoc)
  then obtain n where n: "a \<noteq> NULL" "h a = Some (Node d n)" "lseg h n ys NULL" "b \<noteq> NULL"
      "h b = Some (Node db a)" "lseg h p us b"
    by (auto simp: lseg_append lseg_Cons)
  have dist: "distinct (addrs (us @ [(b, db)] @ (a, d) # ys))" using lseg_distinct [OF seg] .
  let ?h = "h(b \<mapsto> Node db n, a := None)"
  have "JS_DeleteNodeFromList p i t h = Some (Inr (1, ?h))"
    using l(1,2) found b n dist
    by (simp add: JS_DeleteNodeFromList_def lift_res_def)
  moreover have "lseg ?h p (us @ [(b, db)] @ ys) NULL"
    using n dist by (auto simp: lseg_append lseg_Cons)
  then have "lseg ?h p ((p, d0) # xs @ ys) NULL" using u by (metis append_Cons append_assoc)
  moreover have "dom ?h = insert p (set (addrs (xs @ ys)))"
  proof -
    have "b \<in> dom h" using n(5) by auto
    then have "dom ?h = dom h - {a}" using dist by auto
    also have "\<dots> = insert p (set (addrs (xs @ ys)))" using l(4,5,6) by auto
    finally show ?thesis .
  qed
  ultimately show ?thesis unfolding job_list_def by blast
qed

lemma free_walk_spec:
  "lseg h c ns NULL \<Longrightarrow> \<exists>h'. free_walk h c = Some (Inr h') \<and> dom h' = dom h - set (addrs ns)
     \<and> (\<forall>a. a \<notin> set (addrs ns) \<longrightarrow> h' a = h a)"
proof (induction ns arbitrary: h c)
  case Nil
  then show ?case by (simp add: free_walk.simps)
next
  case (Cons x ns)
  have dist: "fst x \<notin> set (addrs ns)" using lseg_distinct [OF Cons.prems] by simp
  obtain n where n: "c = fst x" "c \<noteq> NULL" "h c = Some (Node (snd x) n)" "lseg h n ns NULL"
    using Cons.prems by (auto simp: lseg_Cons)
  then have "lseg (h(c := None)) n ns NULL" using dist by simp
  from Cons.IH [OF this] obtain h' where "free_walk (h(c := None)) n = Some (Inr h')"
      "dom h' = dom (h(c := None)) - set (addrs ns)"
      "\<forall>a. a \<notin> set (addrs ns) \<longrightarrow> h' a = (h(c := None)) a"
    by blast
  then show ?case using n by (subst free_walk.simps) auto
qed

lemma JS_MakeEmpty_spec:
  assumes "job_list h p ns \<or> p = NULL \<and> dom h = {}" "alloc_ok malloc" "mem_suffices malloc"
  shows "\<exists>q h'. JS_MakeEmpty malloc p h = Some (Inr (q, h')) \<and> dom h' = (if p = NULL then {q} else {p, q})
    \<and> h' q = Some (Node \<lparr>iIndex = 0, lTaskId = 0\<rparr> NULL) \<and> q \<noteq> NULL"
proof -
  have "\<exists>h1. (if p \<noteq> NULL then JS_DeleteList p h else Some (Inr h)) = Some (Inr h1)
      \<and> dom h1 = (if p = NULL then {} else {p})"
  proof (cases "p = NULL")
    case True
    then have "dom h = {}" using assms(1) by (auto elim: job_listE)
    with True show ?thesis by simp
  next
    case False
    then obtain d where l: "h p = Some (Node d (first_addr ns NULL))" "p \<noteq> NULL"
        "lseg h (first_addr ns NULL) ns NULL" "p \<notin> set (addrs ns)" "dom h = insert p (set (addrs ns))"
      using assms(1) job_listE by metis
    then have "lseg (h(p \<mapsto> Node d NULL)) (first_addr ns NULL) ns NULL" by simp
    from free_walk_spec [OF this] l show ?thesis by (auto simp: JS_DeleteList_def lift_res_def)
  qed
  then obtain h1 where h1: "(if p \<noteq> NULL then JS_DeleteList p h else Some (Inr h)) = Some (Inr h1)"
      "dom h1 = (if p = NULL then {} else {p})"
    by blast
  then have "finite (dom h1)" by simp
  then have "malloc h1 \<noteq> NULL" using assms(3) by (simp add: mem_suffices_def)
  then show ?thesis using h1 by (auto simp: JS_MakeEmpty_def Let_def)
qed

text \<open>
  What a user of the list relies on: it is an association list from job indices to task ids, the
  newest entry first.
\<close>

locale job_index =
  fixes rep :: "'s \<Rightarrow> (16 word \<times> int) list \<Rightarrow> bool"
    and admits :: "'c \<Rightarrow> 's \<Rightarrow> bool"
    and add :: "'c \<Rightarrow> int \<Rightarrow> 16 word \<Rightarrow> 's \<Rightarrow> 's res"
    and del :: "16 word \<Rightarrow> int \<Rightarrow> 's \<Rightarrow> (int \<times> 's) run"
    and get :: "16 word \<Rightarrow> 's \<Rightarrow> int run"
  assumes add_law: "rep s js \<Longrightarrow> admits c s \<Longrightarrow> \<exists>s'. add c t i s = Inr s' \<and> rep s' ((i, t) # js)"
    and del_law: "rep s js \<Longrightarrow> \<exists>s'. del i t s = Some (Inr (if (i, t) \<in> set js then 1 else 0, s'))
      \<and> rep s' (remove1 (i, t) js)"
    and get_law: "rep s js \<Longrightarrow> get i s = Some (Inr (task_of js i))"
begin

lemma get_after_add:
  assumes "rep s js" "admits c s" "add c t i s = Inr s'"
  shows "get i s' = Some (Inr t)" and "j \<noteq> i \<Longrightarrow> get j s' = get j s"
  using add_law [OF assms(1,2), of t i] assms(3) get_law [OF assms(1)]
  by (auto simp: get_law task_of_def)

lemma del_after_add:
  assumes "rep s js" "admits c s"
  shows "\<exists>s1 s2. add c t i s = Inr s1 \<and> del i t s1 = Some (Inr (1, s2)) \<and> rep s2 js"
  using add_law [OF assms, of t i] del_law [of _ "(i, t) # js" i t] by fastforce

text \<open>Replacing the task id of a job, as a modification does.\<close>

lemma replace_task:
  assumes "rep s js" "(i, t) \<in> set js" "\<And>s'. rep s' (remove1 (i, t) js) \<Longrightarrow> admits c s'"
  shows "\<exists>s1 s2. del i t s = Some (Inr (1, s1)) \<and> add c u i s1 = Inr s2
    \<and> rep s2 ((i, u) # remove1 (i, t) js) \<and> get i s2 = Some (Inr u)"
proof -
  obtain s1 where d: "del i t s = Some (Inr (1, s1))" "rep s1 (remove1 (i, t) js)"
    using del_law [OF assms(1), of i t] assms(2) by auto
  obtain s2 where "add c u i s1 = Inr s2" "rep s2 ((i, u) # remove1 (i, t) js)"
    using add_law [OF d(2) assms(3) [OF d(2)]] by blast
  with d show ?thesis by (auto simp: get_law task_of_def)
qed

end

definition job_rep :: "addr \<Rightarrow> stNode heap \<Rightarrow> (16 word \<times> int) list \<Rightarrow> bool" where
  "job_rep p h js \<longleftrightarrow> (\<exists>ns. job_list h p ns \<and> jobs_of ns = js)"

definition job_room :: "stNode allocator \<Rightarrow> stNode heap \<Rightarrow> bool" where
  "job_room malloc h \<longleftrightarrow> alloc_ok malloc \<and> malloc h \<noteq> NULL"

lemma job_split:
  assumes "(i, t) \<in> set (jobs_of ns)"
  obtains xs a d ys where "ns = xs @ (a, d) # ys" "job_is i t (a, d)" "\<forall>n\<in>set xs. \<not> job_is i t n"
    "jobs_of (xs @ ys) = remove1 (i, t) (jobs_of ns)"
proof -
  have "\<exists>n\<in>set ns. job_is i t n" using assms by (auto simp: jobs_of_def job_is_def)
  then obtain xs n ys where x: "ns = xs @ n # ys" "job_is i t n" "\<forall>n\<in>set xs. \<not> job_is i t n"
    using split_list_first_prop by metis
  obtain a d where n: "n = (a, d)" by (cases n)
  have "(i, t) \<notin> set (jobs_of xs)" using x(3) by (auto simp: jobs_of_def job_is_def)
  moreover have "jobs_of ns = jobs_of xs @ (i, t) # jobs_of ys" "jobs_of (xs @ ys) = jobs_of xs @ jobs_of ys"
    using x n by (simp_all add: jobs_of_def job_is_def)
  ultimately have "jobs_of (xs @ ys) = remove1 (i, t) (jobs_of ns)"
    by (simp add: remove1_append)
  with x n show ?thesis using that by blast
qed

lemma JS_Delete_law:
  assumes "job_rep p h js"
  shows "\<exists>h'. JS_DeleteNodeFromList p i t h = Some (Inr (if (i, t) \<in> set js then 1 else 0, h'))
    \<and> job_rep p h' (remove1 (i, t) js)"
proof -
  obtain ns where ns: "job_list h p ns" "jobs_of ns = js" using assms by (auto simp: job_rep_def)
  show ?thesis
  proof (cases "(i, t) \<in> set js")
    case True
    then obtain xs a d ys where x: "ns = xs @ (a, d) # ys" "job_is i t (a, d)"
        "\<forall>n\<in>set xs. \<not> job_is i t n" "jobs_of (xs @ ys) = remove1 (i, t) (jobs_of ns)"
      using job_split ns(2) by metis
    from JS_DeleteNodeFromList_first [OF ns(1) [unfolded x(1)] x(3,2)] True x(4) ns(2) show ?thesis
      by (auto simp: job_rep_def)
  next
    case False
    then have "\<forall>n\<in>set ns. \<not> job_is i t n" using ns(2) by (force simp: jobs_of_def job_is_def)
    from JS_DeleteNodeFromList_none [OF ns(1) this] False assms show ?thesis
      by (auto simp: remove1_idem)
  qed
qed

lemma JS_Add_law:
  assumes "job_rep p h js" "job_room malloc h"
  shows "\<exists>h'. JS_AddNodeInJobList malloc t i p h = Inr h' \<and> job_rep p h' ((i, t) # js)"
proof -
  obtain ns where ns: "job_list h p ns" "jobs_of ns = js" using assms(1) by (auto simp: job_rep_def)
  from JS_AddNodeInJobList_spec [OF ns(1), of malloc t i] assms(2) ns(2) show ?thesis
    unfolding job_rep_def job_room_def by (fastforce simp: jobs_of_def)
qed

interpretation jl: job_index "job_rep p" job_room "\<lambda>c t i. JS_AddNodeInJobList c t i p"
    "JS_DeleteNodeFromList p" "\<lambda>i. JS_GetTaskID i p" for p
  by unfold_locales
    (use JS_Add_law JS_Delete_law JS_GetTaskID_spec in \<open>auto simp: job_rep_def\<close>)

end
