(* ===== verification/JobSched.thy ===== *)
theory JobSched
  imports SchedExec JobList RbmText
begin

text \<open>
  The job scheduler process (\<^verbatim>\<open>src/Group2/Unix/JobSched/src/NASCenter_JS.c\<close>): a trap about a row of
  the job table becomes a job structure, and the job is added to, changed in or deleted from the task
  scheduler, with the job list keeping the id of its task. The operations are clients of the two
  interfaces \<open>task_store\<close> and \<open>job_index\<close>.

  A text field is owned by its structure: \<^const>\<open>None\<close> is the NULL pointer, and the bytes are those
  before the terminator that \<^verbatim>\<open>JS_FillStruct\<close> appends, so a zero byte may be among them.
\<close>

section \<open>Data\<close>

record stJobMaster =
  iJobMasIndex :: UI16
  pcJobMasId :: "byte list option"
  pcJobMasName :: "byte list option"
  iJobMasInterval :: int
  pcJobMasStartTime :: "byte list option"
  pcJobMasFinishTime :: "byte list option"
  uiEndTimeinNum :: UI32
  iJobMasMemoryUsage :: int
  iJobMasCPUUsage :: int
  iJobMasStatus :: int

type_synonym jobs = "addr \<Rightarrow> stJobMaster option"

record js_state =
  jobs :: jobs
  stListPtr :: addr
  jlist :: "stNode heap"
  sch :: sched
  log_task_id :: int          \<comment> \<open>the static variables of \<^verbatim>\<open>JS_ScheduleLogInfo\<close>\<close>
  iInterVal :: UI16
  backupInterval :: UI16

text \<open>
  What the operations read and do not compute: the allocators of the four kinds of memory (the texts
  of a modification by field number, those of a trap by the number of the variable), the clock
  reading of \<^verbatim>\<open>SCH_AddTask\<close>, the library functions \<^verbatim>\<open>mktime\<close> and \<^verbatim>\<open>ctime\<close>, the addresses of the callbacks,
  and the contents of the uninitialised locals \<^verbatim>\<open>task\<close> and \<^verbatim>\<open>iDayCount\<close> and of a new job structure.
\<close>

record js_env =
  task_malloc :: "stTask allocator"
  node_malloc :: "stNode allocator"
  job_malloc :: "jobs \<Rightarrow> addr"
  copy_room :: bool
  field_room :: "int \<Rightarrow> bool"
  var_room :: "nat \<Rightarrow> bool"
  now :: tm
  mktime :: "tm \<Rightarrow> UI32 \<times> tm"
  ctime :: "UI32 \<Rightarrow> string"
  JS_PerformJobSchedAction :: addr
  JS_CallJobLogFile :: addr
  junk_task :: stTask
  junk_job :: stJobMaster
  junk_day :: int

definition job_at :: "jobs \<Rightarrow> addr \<Rightarrow> stJobMaster res" where
  "job_at js p = (if p = NULL then Inl (BadPtr p)
     else case js p of None \<Rightarrow> Inl (BadPtr p) | Some j \<Rightarrow> Inr j)"

definition JS_FreeJobMaster :: "addr \<Rightarrow> jobs \<Rightarrow> jobs res" where
  "JS_FreeJobMaster p js = (if p = NULL then Inr js else rbind (job_at js p) (\<lambda>_. Inr (js(p := None))))"

section \<open>Times\<close>

definition c_text :: "byte list \<Rightarrow> byte list" where
  "c_text bs = takeWhile (\<lambda>b. b \<noteq> 0) bs"

text \<open>
  \<^verbatim>\<open>strcpy\<close> into 80 bytes copies up to the first zero byte; the rest of \<open>szStr\<close> is zero.
\<close>

definition JS_FillTimeStruct :: "(tm \<Rightarrow> UI32 \<times> tm) \<Rightarrow> tm \<Rightarrow> byte list \<Rightarrow> (UI32 \<times> tm) res" where
  "JS_FillTimeStruct mk pstTm pstTime =
    (let s = c_text pstTime in
     if length s \<ge> 80 then Inl (OutOfBounds (int (length s)))
     else
       let szStr = (\<lambda>i. if i < length s then uint (s ! i) else 0);
           iYear = szStr 0 * 256 + szStr 1;
           pstTm = pstTm\<lparr>tm_year := iYear - 1900, tm_mon := szStr 2 - 1, tm_mday := szStr 3,
             tm_hour := szStr 4, tm_min := szStr 5, tm_sec := szStr 6\<rparr>;
           (iTime, pstTm) = mk pstTm
       in Inr (iTime, pstTm\<lparr>tm_year := iYear\<rparr>))"

definition Days :: "string list" where
  "Days = [''Sun'', ''Mon'', ''Tue'', ''Wed'', ''Thu'', ''Fri'', ''Sat'']"

fun day_loop :: "string \<Rightarrow> string list \<Rightarrow> int \<Rightarrow> int" where
  "day_loop pcDay [] iCount = err_code NASC_FAILURE"
| "day_loop pcDay (d # ds) iCount = (if pcDay = d then iCount else day_loop pcDay ds (iCount + 1))"

definition JS_GetDayNum :: "string \<Rightarrow> int" where
  "JS_GetDayNum pcDay = day_loop pcDay Days 0"

text \<open>The two words \<^verbatim>\<open>sscanf\<close> reads from the text of \<^verbatim>\<open>ctime\<close>, into 4 and 30 bytes.\<close>

definition JS_GetDay :: "(UI32 \<Rightarrow> string) \<Rightarrow> UI32 \<Rightarrow> int res" where
  "JS_GetDay ct iTime =
    rbind (fits 100 (ct iTime)) (\<lambda>cTimeBuff.
      let w = dropWhile isspace cTimeBuff;
          w2 = dropWhile isspace (dropWhile (\<lambda>c. \<not> isspace c) w) in
      rbind (fits 4 (takeWhile (\<lambda>c. \<not> isspace c) w)) (\<lambda>cDay.
      rbind (fits 30 (takeWhile (\<lambda>c. \<not> isspace c) w2)) (\<lambda>_.
      Inr (JS_GetDayNum cDay))))"

definition zero_tm :: tm where
  "zero_tm = \<lparr>tm_sec = 0, tm_min = 0, tm_hour = 0, tm_mday = 0, tm_mon = 0, tm_year = 0, tm_wday = 0\<rparr>"

definition date_fields :: "tm \<Rightarrow> stDate" where
  "date_fields t = \<lparr>ui16Day = word_of_int (tm_mday t), ui16Month = word_of_int (tm_mon t),
     ui16Year = word_of_int (tm_year t)\<rparr>"

definition time_fields :: "tm \<Rightarrow> stTime" where
  "time_fields t = \<lparr>ui16Hour = word_of_int (tm_hour t), ui16Minute = word_of_int (tm_min t),
     ui16Second = word_of_int (tm_sec t)\<rparr>"

definition start_fields :: "tm \<Rightarrow> stTask \<Rightarrow> stTask" where
  "start_fields t task = task\<lparr>StartTime := time_fields t, StartDate := date_fields t\<rparr>"

definition end_fields :: "tm \<Rightarrow> stTask \<Rightarrow> stTask" where
  "end_fields t task = task\<lparr>EndTime := time_fields t, EndDate := date_fields t\<rparr>"

text \<open>The switch over the interval, which a job is added and modified with. Other values change nothing.\<close>

definition interval_fields :: "int \<Rightarrow> int \<Rightarrow> tm \<Rightarrow> stTask \<Rightarrow> stTask" where
  "interval_fields iv day tmEnd task =
    (if iv = 0 then task\<lparr>eType := SCH_ONE_SHOT, ePCity := SCH_DAY, eWeekDay := SCH_ALL_DAYS\<rparr>
     else if iv = 1 then task\<lparr>eType := SCH_PERIODIC, ePCity := SCH_DAY, eWeekDay := SCH_ALL_DAYS,
       EndDate := date_fields tmEnd\<rparr>
     else if iv = 2 then task\<lparr>eType := SCH_PERIODIC, ePCity := SCH_WEEK, eWeekDay := day,
       EndDate := date_fields tmEnd\<rparr>
     else if iv = 3 then task\<lparr>eType := SCH_PERIODIC, ePCity := SCH_MONTH, eWeekDay := day,
       EndDate := date_fields tmEnd\<rparr>
     else task)"

section \<open>Adding a job\<close>

text \<open>
  The task of a job, read from its fields, and the job with its end time; \<^const>\<open>None\<close> is a return with
  a failure. The end time is written before the interval is tested for -1.
\<close>

definition job_task :: "js_env \<Rightarrow> addr \<Rightarrow> stJobMaster \<Rightarrow> (stJobMaster \<times> stTask option) res" where
  "job_task e p j =
    (case pcJobMasStartTime j of
       None \<Rightarrow> Inr (j, None)
     | Some st \<Rightarrow>
       rbind (JS_FillTimeStruct (mktime e) zero_tm st) (\<lambda>(ulTime, tmStart).
       if ulTime = 0 then Inr (j, None)
       else let task = start_fields tmStart (junk_task e) in
         rbind (JS_GetDay (ctime e) ulTime) (\<lambda>iRetCount.
         if iJobMasInterval j = 0
         then Inr (j, Some ((interval_fields 0 iRetCount zero_tm task)\<lparr>vpArg := p, fp := JS_PerformJobSchedAction e\<rparr>))
         else case pcJobMasFinishTime j of
           None \<Rightarrow> Inr (j, None)
         | Some en \<Rightarrow>
           rbind (JS_FillTimeStruct (mktime e) zero_tm en) (\<lambda>(ulTime, tmEnd).
           if ulTime = 0 then Inr (j, None)
           else let j = j\<lparr>uiEndTimeinNum := ulTime\<rparr>; task = end_fields tmEnd task in
             if iJobMasInterval j = - 1 then Inr (j, None)
             else Inr (j, Some ((interval_fields (iJobMasInterval j) iRetCount tmEnd task)
               \<lparr>vpArg := p, fp := JS_PerformJobSchedAction e\<rparr>))))))"

definition JS_AddJobToSched :: "js_env \<Rightarrow> addr \<Rightarrow> js_state \<Rightarrow> (int \<times> js_state) res" where
  "JS_AddJobToSched e pstJSStruct s =
    (if pstJSStruct = NULL then Inr (err_code NASC_FAILURE, s)
     else rbind (job_at (jobs s) pstJSStruct) (\<lambda>j.
       rbind (job_task e pstJSStruct j) (\<lambda>(j, t).
       let s = s\<lparr>jobs := (jobs s)(pstJSStruct \<mapsto> j)\<rparr> in
       case t of
         None \<Rightarrow> Inr (err_code NASC_FAILURE, s)
       | Some task \<Rightarrow>
         rbind (SCH_AddTask (task_malloc e) (now e) task (sch s)) (\<lambda>(lId, sc).
         let s = s\<lparr>sch := sc\<rparr> in
         if lId = - 1 then Inr (err_code NASC_FAILURE, s)
         else rbind (JS_AddNodeInJobList (node_malloc e) lId (iJobMasIndex j) (stListPtr s) (jlist s)) (\<lambda>h.
           Inr (err_code NASC_SUCCESS, s\<lparr>jlist := h\<rparr>))))))"

section \<open>Modifying a job\<close>

text \<open>
  The task with the times and the interval of the modification, and the modification with its end time;
  \<^const>\<open>None\<close> is a return with a failure. Without a start time the day is not set.
\<close>

definition modify_times :: "js_env \<Rightarrow> stJobMaster \<Rightarrow> stTask \<Rightarrow> (stJobMaster \<times> stTask option) res" where
  "modify_times e j task =
    rbind (case pcJobMasStartTime j of
        None \<Rightarrow> Inr (Some (junk_day e, task))
      | Some st \<Rightarrow>
        rbind (JS_FillTimeStruct (mktime e) zero_tm st) (\<lambda>(ulTime, tmStart).
        if ulTime = 0 then Inr None
        else rbind (JS_GetDay (ctime e) ulTime) (\<lambda>d. Inr (Some (d, start_fields tmStart task)))))
    (\<lambda>r. case r of
        None \<Rightarrow> Inr (j, None)
      | Some (iDayCount, task) \<Rightarrow>
        (case pcJobMasFinishTime j of
          None \<Rightarrow> Inr (j, Some task)
        | Some en \<Rightarrow>
          rbind (JS_FillTimeStruct (mktime e) zero_tm en) (\<lambda>(ulTime, tmEnd).
          if ulTime = 0 then Inr (j, None)
          else Inr (j\<lparr>uiEndTimeinNum := ulTime\<rparr>,
            Some (if iJobMasInterval j \<noteq> - 1
              then interval_fields (iJobMasInterval j) iDayCount tmEnd (end_fields tmEnd task)
              else end_fields tmEnd task)))))"

text \<open>
  Replacing a text of the job \<open>m\<close>: the old one is freed, and when there is no memory for the new one
  the field stays NULL and the function returns.
\<close>

definition copy_text ::
  "bool \<Rightarrow> byte list option \<Rightarrow> (byte list option \<Rightarrow> stJobMaster \<Rightarrow> stJobMaster) \<Rightarrow> bool \<times> stJobMaster
   \<Rightarrow> bool \<times> stJobMaster" where
  "copy_text room src put r = (case r of (ok, m) \<Rightarrow>
     if \<not> ok then (ok, m)
     else case src of
       None \<Rightarrow> (True, m)
     | Some t \<Rightarrow> if room then (True, put (Some (c_text t)) m) else (False, put None m))"

definition copy_texts :: "js_env \<Rightarrow> stJobMaster \<Rightarrow> stJobMaster \<Rightarrow> bool \<times> stJobMaster" where
  "copy_texts e j m =
    copy_text (field_room e 5) (pcJobMasFinishTime j) (\<lambda>t m. m\<lparr>pcJobMasFinishTime := t\<rparr>)
    (copy_text (field_room e 4) (pcJobMasStartTime j) (\<lambda>t m. m\<lparr>pcJobMasStartTime := t\<rparr>)
    (copy_text (field_room e 2) (pcJobMasName j) (\<lambda>t m. m\<lparr>pcJobMasName := t\<rparr>)
    (copy_text (field_room e 1) (pcJobMasId j) (\<lambda>t m. m\<lparr>pcJobMasId := t\<rparr>) (True, m))))"

text \<open>The last part: the task is replaced, and its id in the job list.\<close>

definition replace_id :: "js_env \<Rightarrow> addr \<Rightarrow> stJobMaster \<Rightarrow> int \<Rightarrow> stTask \<Rightarrow> js_state \<Rightarrow> (int \<times> js_state) run" where
  "replace_id e pstJSStruct j lId task s =
    obind (SCH_ModifyTask (task_malloc e) (now e) lId task (sch s)) (\<lambda>(newTaskID, sc).
    let s = s\<lparr>sch := sc\<rparr>;
        done = (\<lambda>s. lift_res (rbind (JS_FreeJobMaster pstJSStruct (jobs s)) (\<lambda>js.
          Inr (err_code NASC_SUCCESS, s\<lparr>jobs := js\<rparr>)))) in
    if newTaskID \<noteq> - 1 then
      obind (JS_DeleteNodeFromList (stListPtr s) (iJobMasIndex j) lId (jlist s)) (\<lambda>(iResult, h).
      let s = s\<lparr>jlist := h\<rparr> in
      if iResult = 0 then Some (Inr (err_code NASC_FAILURE, s))
      else obind (lift_res (JS_AddNodeInJobList (node_malloc e) newTaskID (iJobMasIndex j) (stListPtr s) (jlist s)))
        (\<lambda>h. done (s\<lparr>jlist := h\<rparr>)))
    else done s)"

definition has_text :: "stJobMaster \<Rightarrow> bool" where
  "has_text j \<longleftrightarrow> pcJobMasId j \<noteq> None \<or> pcJobMasName j \<noteq> None \<or> pcJobMasStartTime j \<noteq> None
     \<or> pcJobMasFinishTime j \<noteq> None"

text \<open>
  The argument of the task is the job that is changed. When it is the structure of the modification
  itself, a text would be read after it was freed.
\<close>

definition JS_ModifyJobToSched :: "js_env \<Rightarrow> addr \<Rightarrow> js_state \<Rightarrow> (int \<times> js_state) run" where
  "JS_ModifyJobToSched e pstJSStruct s =
    obind (lift_res (job_at (jobs s) pstJSStruct)) (\<lambda>j.
    obind (JS_GetTaskID (iJobMasIndex j) (stListPtr s) (jlist s)) (\<lambda>lId.
    if lId = - 1 then
      lift_res (rbind (JS_FreeJobMaster pstJSStruct (jobs s)) (\<lambda>js. Inr (err_code NASC_FAILURE, s\<lparr>jobs := js\<rparr>)))
    else obind (SCH_GetTask lId (sch s)) (\<lambda>(_, r).
    case r of
      None \<Rightarrow> Some (Inr (err_code NASC_FAILURE, s))
    | Some task \<Rightarrow>
      if \<not> copy_room e then Some (Inl (BadPtr NULL))
      else obind (lift_res (modify_times e j task)) (\<lambda>(j, r).
      let s = s\<lparr>jobs := (jobs s)(pstJSStruct \<mapsto> j)\<rparr> in
      case r of
        None \<Rightarrow> Some (Inr (err_code NASC_FAILURE, s))
      | Some task \<Rightarrow>
        let pstJSMod = vpArg task in
        if pstJSMod = pstJSStruct \<and> has_text j then Some (Inl (BadPtr pstJSMod))
        else obind (lift_res (job_at (jobs s) pstJSMod)) (\<lambda>m.
        let (ok, m) = copy_texts e j m in
        if \<not> ok then Some (Inr (err_code NASC_FAILURE, s\<lparr>jobs := (jobs s)(pstJSMod \<mapsto> m)\<rparr>))
        else replace_id e pstJSStruct j lId (task\<lparr>fp := JS_PerformJobSchedAction e\<rparr>)
          (s\<lparr>jobs := (jobs s)(pstJSMod \<mapsto> m\<lparr>uiEndTimeinNum := uiEndTimeinNum j\<rparr>)\<rparr>))))))"

section \<open>Deleting a job\<close>

definition JS_DeleteFromSched :: "js_env \<Rightarrow> addr \<Rightarrow> js_state \<Rightarrow> (int \<times> js_state) run" where
  "JS_DeleteFromSched e pstJSStruct s =
    (if pstJSStruct = NULL then Some (Inr (err_code NASC_FAILURE, s))
     else obind (lift_res (job_at (jobs s) pstJSStruct)) (\<lambda>j.
     obind (JS_GetTaskID (iJobMasIndex j) (stListPtr s) (jlist s)) (\<lambda>lDelTaskId.
     if lDelTaskId = - 1 then
       lift_res (rbind (JS_FreeJobMaster pstJSStruct (jobs s)) (\<lambda>js. Inr (err_code NASC_FAILURE, s\<lparr>jobs := js\<rparr>)))
     else obind (SCH_GetTask lDelTaskId (sch s)) (\<lambda>(_, r).
     case r of
       None \<Rightarrow> Some (Inr (err_code NASC_FAILURE, s))
     | Some task \<Rightarrow>
       if \<not> copy_room e then Some (Inl (BadPtr NULL))
       else let pstJSMod = vpArg task in
         obind (SCH_DeleteTask lDelTaskId (sch s)) (\<lambda>(iResult, sc).
         let s = s\<lparr>sch := sc\<rparr> in
         if err_code iResult = 0 then Some (Inr (err_code NASC_FAILURE, s))
         else obind (lift_res (JS_FreeJobMaster pstJSMod (jobs s))) (\<lambda>js.
         obind (JS_DeleteNodeFromList (stListPtr s) (iJobMasIndex j) lDelTaskId (jlist s)) (\<lambda>(iResult, h).
         let s = s\<lparr>jobs := js, jlist := h\<rparr> in
         if iResult = 0 then Some (Inr (err_code NASC_SUCCESS, s))
         else lift_res (rbind (JS_FreeJobMaster pstJSStruct (jobs s)) (\<lambda>js.
           Inr (err_code NASC_SUCCESS, s\<lparr>jobs := js\<rparr>))))))))))"

abbreviation (input) JS_ADD :: int where "JS_ADD \<equiv> 1"
abbreviation (input) JS_MODIFY :: int where "JS_MODIFY \<equiv> 2"
abbreviation (input) JS_DELETE :: int where "JS_DELETE \<equiv> 3"

definition JS_UpdateJobToScheduler :: "js_env \<Rightarrow> addr \<Rightarrow> int \<Rightarrow> js_state \<Rightarrow> (int \<times> js_state) run" where
  "JS_UpdateJobToScheduler e pstJSStruct iDecisionFlag s =
    (if pstJSStruct = NULL then Some (Inr (err_code NASC_FAILURE, s))
     else obind (if iDecisionFlag = JS_ADD then lift_res (JS_AddJobToSched e pstJSStruct s)
         else if iDecisionFlag = JS_MODIFY then JS_ModifyJobToSched e pstJSStruct s
         else if iDecisionFlag = JS_DELETE then JS_DeleteFromSched e pstJSStruct s
         else Some (Inr (0, s)))
       (\<lambda>(_, s). Some (Inr (1, s))))"

section \<open>The trap\<close>

text \<open>
  A variable of the trap: its OID and the bytes of its value. An integer is read from the first four
  bytes, whatever the type of the variable is.
\<close>

type_synonym job_var = "long list \<times> byte list"

definition val_integer :: "byte list \<Rightarrow> int res" where
  "val_integer bs = (if length bs < 4 then Inl (OutOfBounds (int (length bs)))
     else Inr (sint (ucast (bs ! 0) + 256 * ucast (bs ! 1) :: 16 word)))"

definition jobProcessMasterTable_variables_oid :: "long list" where
  "jobProcessMasterTable_variables_oid = [1, 3, 6, 1, 4, 1, 3204, 1, 3, 34, 1, 1]"

definition is_subtree :: "long list \<Rightarrow> long list \<Rightarrow> bool" where
  "is_subtree o1 nm \<longleftrightarrow> take (length o1) nm = o1"

definition job_column_oid :: "long \<Rightarrow> long list" where
  "job_column_oid c = jobProcessMasterTable_variables_oid @ [1, c]"

definition JS_CheckTable :: "job_var list \<Rightarrow> int res" where
  "JS_CheckTable vars = (case vars of [] \<Rightarrow> Inl (BadPtr NULL)
     | v # _ \<Rightarrow> Inr (if is_subtree jobProcessMasterTable_variables_oid (fst v) then 1 else - 1))"

definition JS_GetIndex :: "job_var \<Rightarrow> UI16" where
  "JS_GetIndex v = ucast (last (fst v))"

definition JS_CheckField :: "job_var \<Rightarrow> int" where
  "JS_CheckField v =
    (let iRetValue = (- 1 :: int);
         iRetValue = (if is_subtree (job_column_oid 2) (fst v) then 1 else iRetValue);
         iRetValue = (if is_subtree (job_column_oid 3) (fst v) then 2 else iRetValue);
         iRetValue = (if is_subtree (job_column_oid 8) (fst v) then 3 else iRetValue);
         iRetValue = (if is_subtree (job_column_oid 9) (fst v) then 4 else iRetValue);
         iRetValue = (if is_subtree (job_column_oid 10) (fst v) then 5 else iRetValue);
         iRetValue = (if is_subtree (job_column_oid 11) (fst v) then 6 else iRetValue);
         iRetValue = (if is_subtree (job_column_oid 12) (fst v) then 7 else iRetValue);
         iRetValue = (if is_subtree (job_column_oid 13) (fst v) then 8 else iRetValue)
     in iRetValue)"

text \<open>
  The length is kept in 16 bits with a sign: from 32768 on it is negative, and the memory asked for
  is more than there is (for -1 it is none, and the copy overruns it). The first component is the
  error, the second the new value of the field.
\<close>

definition JS_FillStruct :: "bool \<Rightarrow> byte list \<Rightarrow> byte list option \<Rightarrow> (ENASCenterError \<times> byte list option) res" where
  "JS_FillStruct room val pcDst =
    (let iLen = sint (of_nat (length val) :: 16 word) in
     if iLen = 0 then Inr (NASC_FAILURE, pcDst)
     else if iLen < - 1 \<or> \<not> room then Inr (NASC_INSUFFICIENT_MEMORY, None)
     else if iLen = - 1 then Inl (OutOfBounds 0)
     else Inr (NASC_SUCCESS, Some (take (nat iLen) val)))"

text \<open>The four fields that are texts.\<close>

definition text_field :: "int \<Rightarrow> stJobMaster \<Rightarrow> byte list option" where
  "text_field f j = (if f = 1 then pcJobMasId j else if f = 2 then pcJobMasName j
     else if f = 4 then pcJobMasStartTime j else pcJobMasFinishTime j)"

definition set_text :: "int \<Rightarrow> byte list option \<Rightarrow> stJobMaster \<Rightarrow> stJobMaster" where
  "set_text f t j = (if f = 1 then j\<lparr>pcJobMasId := t\<rparr> else if f = 2 then j\<lparr>pcJobMasName := t\<rparr>
     else if f = 4 then j\<lparr>pcJobMasStartTime := t\<rparr> else j\<lparr>pcJobMasFinishTime := t\<rparr>)"

text \<open>The loop over the variables; \<^const>\<open>None\<close> when there is no memory for a text.\<close>

fun read_vars :: "(nat \<Rightarrow> bool) \<Rightarrow> nat \<Rightarrow> job_var list \<Rightarrow> stJobMaster \<Rightarrow> stJobMaster option res" where
  "read_vars room k [] j = Inr (Some j)"
| "read_vars room k (v # vs) j =
    (let iFieldFlag = JS_CheckField v in
     if iFieldFlag \<in> {1, 2, 4, 5} then
       rbind (JS_FillStruct (room k) (snd v) (text_field iFieldFlag j)) (\<lambda>(r, t).
       if r = NASC_INSUFFICIENT_MEMORY then Inr None
       else read_vars room (Suc k) vs (set_text iFieldFlag t j))
     else if iFieldFlag = 3 then
       rbind (val_integer (snd v)) (\<lambda>n. read_vars room (Suc k) vs (j\<lparr>iJobMasInterval := n\<rparr>))
     else if iFieldFlag = 8 then
       rbind (val_integer (snd v)) (\<lambda>n. read_vars room (Suc k) vs (j\<lparr>iJobMasStatus := n\<rparr>))
     else read_vars room (Suc k) vs j)"

definition decision :: "int \<Rightarrow> int" where
  "decision status = (if status = 4 \<or> status = 1 then JS_ADD
     else if status = 6 \<or> status = 2 then JS_DELETE else JS_MODIFY)"

definition JS_ParseTrap :: "js_env \<Rightarrow> job_var list \<Rightarrow> js_state \<Rightarrow> js_state run" where
  "JS_ParseTrap e vars s =
    obind (lift_res (JS_CheckTable vars)) (\<lambda>iOperFlag.
    if iOperFlag = - 1 then Some (Inr s)
    else let pstJSMaster = job_malloc e (jobs s) in
      if pstJSMaster = NULL then Some (Inr s)
      else let j = (junk_job e)\<lparr>iJobMasIndex := JS_GetIndex (hd vars), iJobMasStatus := 0,
          iJobMasInterval := - 1, pcJobMasId := None, pcJobMasName := None,
          pcJobMasStartTime := None, pcJobMasFinishTime := None\<rparr> in
        obind (lift_res (read_vars (var_room e) 0 vars j)) (\<lambda>r.
        case r of
          None \<Rightarrow> Some (Inr s)
        | Some j \<Rightarrow>
          obind (JS_UpdateJobToScheduler e pstJSMaster (decision (iJobMasStatus j))
              (s\<lparr>jobs := (jobs s)(pstJSMaster \<mapsto> j)\<rparr>))
            (\<lambda>(_, s). Some (Inr s))))"

section \<open>The transfer of the log file\<close>

text \<open>
  The task that sends the log file. It is made anew when the interval the agent holds, which
  \<^verbatim>\<open>JS_GetAgentInfoMIB\<close> puts into \<open>backupInterval\<close>, has changed since the last call. Its argument and
  its end are what the local variable happens to hold.
\<close>

definition log_task :: "js_env \<Rightarrow> UI16 \<Rightarrow> stTask" where
  "log_task e iv = (junk_task e)\<lparr>
     StartTime := \<lparr>ui16Hour = word_of_int (tm_hour (now e) + (tm_min (now e) + 2) div 60),
       ui16Minute = word_of_int ((tm_min (now e) + 2) mod 60), ui16Second = word_of_int (tm_sec (now e))\<rparr>,
     StartDate := \<lparr>ui16Day = word_of_int (tm_mday (now e)), ui16Month = word_of_int (tm_mon (now e)),
       ui16Year = word_of_int (tm_year (now e) + 1900)\<rparr>,
     eType := SCH_PERIODIC, ePCity := SCH_SEC_MIN_HOUR, ui32Interval := scast iv, eWeekDay := SCH_ALL_DAYS,
     fp := JS_CallJobLogFile e\<rparr>"

definition JS_ScheduleLogInfo :: "js_env \<Rightarrow> js_state \<Rightarrow> (int \<times> js_state) run" where
  "JS_ScheduleLogInfo e s =
    (if backupInterval s = iInterVal s then Some (Inr (err_code NASC_SUCCESS, s))
     else let s = s\<lparr>iInterVal := backupInterval s\<rparr> in
       obind (if log_task_id s = - 1 then Some (Inr (sch s))
         else obind (SCH_DeleteTask (log_task_id s) (sch s)) (\<lambda>(_, sc). Some (Inr sc))) (\<lambda>sc.
       obind (lift_res (SCH_AddTask (task_malloc e) (now e) (log_task e (backupInterval s)) sc)) (\<lambda>(lTaskId, sc).
       Some (Inr (err_code NASC_SUCCESS, s\<lparr>sch := sc, log_task_id := lTaskId\<rparr>)))))"

text \<open>
  The test the thread of a job makes before it runs the job: the time now and the end time of the job.
\<close>

definition job_may_run :: "UI32 \<Rightarrow> addr \<Rightarrow> jobs \<Rightarrow> bool res" where
  "job_may_run uiCurrentTime p js = rbind (job_at js p) (\<lambda>j. Inr (\<not> uiEndTimeinNum j < uiCurrentTime))"

section \<open>The task scheduler as the jobs use it\<close>

text \<open>A task whose slot is in the table is stored or refused.\<close>

definition hour_ok :: "stTask \<Rightarrow> bool" where
  "hour_ok t \<longleftrightarrow> unat (ui16Hour (StartTime t)) < 24"

lemma hour_ok_home: "hour_ok t \<Longrightarrow> task_home t < MASTER_ARR_SIZE"
  by (simp add: hour_ok_def task_home_def)

lemma sched_add:
  assumes "master_inv s" "alloc_ok m" "task_home t < MASTER_ARR_SIZE"
  obtains i s' where "SCH_AddTask m n t s = Inr (i, s')" "master_inv s'"
    "i = - 1 \<and> s' = s \<or> 0 < i \<and> tasks s i = None \<and> tasks s' = (tasks s)(i \<mapsto> t)"
proof (cases "add_refuses_task (m, n) t s")
  case True
  with ms.add_refuses [OF assms(1) True] assms(1) that show ?thesis by simp
next
  case False
  then have "add_admits_task (m, n) t s"
    using assms(2,3) by (simp add: add_admits_task_def add_refuses_task_def)
  with ms.add_admits [OF assms(1) this] that show ?thesis by fastforce
qed

lemma sched_modify:
  assumes "master_inv s" "alloc_ok m" "hour_ok t" "tasks s i \<noteq> None"
  obtains j s' where "SCH_ModifyTask m n i t s = Some (Inr (j, s'))" "master_inv s'"
    "j = - 1 \<and> tasks s' = (tasks s)(i := None)
     \<or> 0 < j \<and> ((tasks s)(i := None)) j = None \<and> tasks s' = (tasks s)(i := None, j \<mapsto> t)"
proof -
  obtain s1 where d: "SCH_DeleteTask i s = Some (Inr (NASC_SUCCESS, s1))" "master_inv s1"
      "tasks s1 = (tasks s)(i := None)"
    using ms.del_law [OF assms(1), of i] assms(4) by auto
  obtain j s' where a: "SCH_AddTask m n t s1 = Inr (j, s')" "master_inv s'"
      "j = - 1 \<and> s' = s1 \<or> 0 < j \<and> tasks s1 j = None \<and> tasks s' = (tasks s1)(j \<mapsto> t)"
    using sched_add [OF d(2) assms(2) hour_ok_home [OF assms(3)]] by metis
  have "SCH_ModifyTask m n i t s = Some (Inr (j, s'))"
    using d(1) a(1) by (simp add: SCH_ModifyTask_def lift_res_def)
  then show ?thesis using that a(2,3) d(3) by metis
qed

section \<open>The invariant\<close>

text \<open>
  The argument of every task is a job that is live, the arguments of two tasks are different, and
  every task has an hour of the day.
\<close>

definition args_ok :: "(int \<Rightarrow> stTask option) \<Rightarrow> jobs \<Rightarrow> bool" where
  "args_ok m js \<longleftrightarrow> (\<forall>i t. m i = Some t \<longrightarrow> vpArg t \<noteq> NULL \<and> js (vpArg t) \<noteq> None \<and> hour_ok t)
   \<and> (\<forall>i i' t t'. m i = Some t \<longrightarrow> m i' = Some t' \<longrightarrow> vpArg t = vpArg t' \<longrightarrow> i = i')"

definition is_arg :: "(int \<Rightarrow> stTask option) \<Rightarrow> addr \<Rightarrow> bool" where
  "is_arg m p \<longleftrightarrow> (\<exists>i t. m i = Some t \<and> vpArg t = p)"

lemma args_ok_remove: "args_ok m js \<Longrightarrow> args_ok (m(i := None)) js"
  by (auto simp: args_ok_def split: if_splits)

lemma is_arg_remove: "\<not> is_arg m p \<Longrightarrow> \<not> is_arg (m(i := None)) p"
  by (auto simp: is_arg_def split: if_splits)

lemma is_arg_insert: "\<not> is_arg m p \<Longrightarrow> vpArg t \<noteq> p \<Longrightarrow> \<not> is_arg (m(i \<mapsto> t)) p"
  unfolding is_arg_def by (metis fun_upd_apply option.inject)

lemma args_ok_job: "args_ok m js \<Longrightarrow> args_ok m (js(p \<mapsto> j))"
  by (auto simp: args_ok_def)

lemma args_ok_free: "args_ok m js \<Longrightarrow> \<not> is_arg m p \<Longrightarrow> args_ok m (js(p := None))"
  by (fastforce simp: args_ok_def is_arg_def)

lemma args_ok_insert:
  "args_ok m js \<Longrightarrow> \<not> is_arg m (vpArg t) \<Longrightarrow> vpArg t \<noteq> NULL \<Longrightarrow> js (vpArg t) \<noteq> None \<Longrightarrow> hour_ok t
   \<Longrightarrow> args_ok (m(i \<mapsto> t)) js"
  unfolding args_ok_def is_arg_def by (metis fun_upd_apply option.inject)

lemma args_ok_arg: "args_ok m js \<Longrightarrow> m i = Some t \<Longrightarrow> vpArg t \<noteq> NULL \<and> js (vpArg t) \<noteq> None \<and> hour_ok t"
  by (auto simp: args_ok_def)

text \<open>The task that has an argument is the only one.\<close>

lemma args_ok_only: "args_ok m js \<Longrightarrow> m i = Some t \<Longrightarrow> \<not> is_arg (m(i := None)) (vpArg t)"
  by (auto simp: args_ok_def is_arg_def split: if_splits)

lemmas args_intros = args_ok_remove args_ok_job args_ok_free args_ok_insert is_arg_remove

text \<open>The tasks of jobs: all but the one that sends the log file.\<close>

definition job_tasks :: "js_state \<Rightarrow> int \<Rightarrow> stTask option" where
  "job_tasks s = (tasks (sch s))(log_task_id s := None)"

lemma job_tasks_simps [simp]:
  "job_tasks (s\<lparr>jobs := js\<rparr>) = job_tasks s" "job_tasks (s\<lparr>jlist := h\<rparr>) = job_tasks s"
  "job_tasks (s\<lparr>sch := sc\<rparr>) = (tasks sc)(log_task_id s := None)"
  "job_tasks (s\<lparr>iInterVal := v\<rparr>) = job_tasks s" "job_tasks (s\<lparr>backupInterval := v\<rparr>) = job_tasks s"
  by (simp_all add: job_tasks_def)

definition log_ok :: "js_state \<Rightarrow> bool" where
  "log_ok s \<longleftrightarrow> log_task_id s = - 1
     \<or> (\<exists>t. tasks (sch s) (log_task_id s) = Some t \<and> eType t = SCH_PERIODIC)"

text \<open>
  The task table and the job list are well formed, the arguments of the tasks of jobs are as above,
  the log task, if there is one, is stored, and its id is not among those of the job list.
\<close>

definition js_inv :: "js_state \<Rightarrow> bool" where
  "js_inv s \<longleftrightarrow> master_inv (sch s) \<and> args_ok (job_tasks s) (jobs s) \<and> log_ok s
     \<and> (\<exists>l. job_rep (stListPtr s) (jlist s) l \<and> log_task_id s \<notin> snd ` set l)"

lemma job_rep_unique: "job_rep p h l \<Longrightarrow> job_rep p h l' \<Longrightarrow> l = l'"
proof -
  assume "job_rep p h l" "job_rep p h l'"
  then obtain ns ns' where "job_list h p ns" "jobs_of ns = l" "job_list h p ns'" "jobs_of ns' = l'"
    by (auto simp: job_rep_def)
  moreover from this obtain d d' where "lseg h p ((p, d) # ns) NULL" "lseg h p ((p, d') # ns') NULL"
    by (auto simp: job_list_def)
  ultimately show ?thesis using lseg_unique by blast
qed

lemma js_inv_list: "js_inv s \<Longrightarrow> job_rep (stListPtr s) (jlist s) l \<Longrightarrow> log_task_id s \<notin> snd ` set l"
  unfolding js_inv_def using job_rep_unique by metis

lemma task_of_in: "task_of l i = - 1 \<or> task_of l i \<in> snd ` set l"
  by (auto simp: task_of_def dest!: map_of_SomeD split: option.split) force?

text \<open>A task found by way of the job list is not the log task.\<close>

lemma js_inv_job_task:
  assumes "js_inv s" "job_rep (stListPtr s) (jlist s) l" "tasks (sch s) (task_of l i) = Some t"
  shows "task_of l i \<noteq> log_task_id s" "job_tasks s (task_of l i) = Some t"
proof -
  have "task_of l i \<noteq> - 1" using assms(3) by (auto simp: tasks_def split: if_splits)
  then show n: "task_of l i \<noteq> log_task_id s" using js_inv_list [OF assms(1,2)] task_of_in [of l i] by metis
  then show "job_tasks s (task_of l i) = Some t" using assms(3) by (simp add: job_tasks_def)
qed

lemma js_inv_fresh: "js_inv s \<Longrightarrow> 0 < i \<Longrightarrow> tasks (sch s) i = None \<Longrightarrow> i \<noteq> log_task_id s"
  by (auto simp: js_inv_def log_ok_def)

lemma js_inv_keep:
  assumes "js_inv s" "stListPtr s' = stListPtr s" "log_task_id s' = log_task_id s" "master_inv (sch s')"
    "args_ok (job_tasks s') (jobs s')" "tasks (sch s') (log_task_id s) = tasks (sch s) (log_task_id s)"
    "job_rep (stListPtr s) (jlist s') l" "log_task_id s \<notin> snd ` set l"
  shows "js_inv s'"
  using assms unfolding js_inv_def log_ok_def by metis

lemma js_inv_jobs: "js_inv s \<Longrightarrow> args_ok (job_tasks s) js \<Longrightarrow> js_inv (s\<lparr>jobs := js\<rparr>)"
  by (simp add: js_inv_def log_ok_def)

lemma js_invE:
  assumes "js_inv s"
  obtains l where "master_inv (sch s)" "job_rep (stListPtr s) (jlist s) l" "args_ok (job_tasks s) (jobs s)"
    "log_task_id s \<notin> snd ` set l"
  using assms by (auto simp: js_inv_def)

section \<open>The times of a job\<close>

text \<open>
  What the operations need of their environment: memory, \<^verbatim>\<open>mktime\<close> as documented, which gives an hour
  of the day unless it fails with -1, and the text of \<^verbatim>\<open>ctime\<close> with the documented length of its words.
\<close>

definition js_env_ok :: "js_env \<Rightarrow> bool" where
  "js_env_ok e \<longleftrightarrow> alloc_ok (task_malloc e) \<and> alloc_ok (node_malloc e) \<and> mem_suffices (node_malloc e)
   \<and> (\<forall>js. job_malloc e js = NULL \<or> js (job_malloc e js) = None) \<and> copy_room e
   \<and> (\<forall>t. fst (mktime e t) \<noteq> - 1 \<longrightarrow> 0 \<le> tm_hour (snd (mktime e t)) \<and> tm_hour (snd (mktime e t)) < 24)
   \<and> (\<forall>t. \<exists>d. JS_GetDay (ctime e) t = Inr d)"

text \<open>A start time that can be represented: \<^verbatim>\<open>mktime\<close> does not fail, which the code does not test.\<close>

definition start_known :: "js_env \<Rightarrow> byte list \<Rightarrow> bool" where
  "start_known e t \<longleftrightarrow> (case JS_FillTimeStruct (mktime e) zero_tm t of Inl _ \<Rightarrow> False | Inr (u, _) \<Rightarrow> u \<noteq> - 1)"

definition texts_ok :: "js_env \<Rightarrow> stJobMaster \<Rightarrow> bool" where
  "texts_ok e j \<longleftrightarrow> (case pcJobMasStartTime j of None \<Rightarrow> True | Some t \<Rightarrow> length t < 80 \<and> start_known e t)
   \<and> (case pcJobMasFinishTime j of None \<Rightarrow> True | Some t \<Rightarrow> length t < 80)"

lemma FillTimeStruct_ok:
  assumes "length t < 80"
  shows "\<exists>u r. JS_FillTimeStruct mk tm0 t = Inr (u, r)
    \<and> (\<exists>x. tm_hour r = tm_hour (snd (mk x)) \<and> u = fst (mk x))"
proof -
  have l: "\<not> 80 \<le> length (c_text t)"
    using assms length_takeWhile_le [of "\<lambda>b. b \<noteq> 0" t] unfolding c_text_def by linarith
  have "\<exists>x y. JS_FillTimeStruct mk tm0 t = (case mk x of (u, r) \<Rightarrow> Inr (u, r\<lparr>tm_year := y\<rparr>))"
    unfolding JS_FillTimeStruct_def Let_def if_not_P [OF l] by (rule exI, rule exI, rule refl)
  then obtain x y where "JS_FillTimeStruct mk tm0 t = (case mk x of (u, r) \<Rightarrow> Inr (u, r\<lparr>tm_year := y\<rparr>))"
    by blast
  then show ?thesis by (cases "mk x") (auto intro: exI [of _ x])
qed

lemma hour_of_start: "0 \<le> tm_hour r \<Longrightarrow> tm_hour r < 24 \<Longrightarrow> hour_ok (start_fields r t)"
proof -
  assume a: "0 \<le> tm_hour r" "tm_hour r < 24"
  have "unat (word_of_int (tm_hour r) :: 16 word) = nat (tm_hour r)"
    using a by (simp add: unat_eq_nat_uint uint_word_of_int)
  then show ?thesis using a by (simp add: hour_ok_def start_fields_def time_fields_def)
qed

lemma hour_ok_kept [simp]:
  "hour_ok (end_fields r t) \<longleftrightarrow> hour_ok t" "hour_ok (interval_fields iv d r t) \<longleftrightarrow> hour_ok t"
  "hour_ok (t\<lparr>vpArg := p\<rparr>) \<longleftrightarrow> hour_ok t" "hour_ok (t\<lparr>fp := p\<rparr>) \<longleftrightarrow> hour_ok t"
  by (simp_all add: hour_ok_def end_fields_def interval_fields_def)

lemma vpArg_kept [simp]:
  "vpArg (start_fields r t) = vpArg t" "vpArg (end_fields r t) = vpArg t"
  "vpArg (interval_fields iv d r t) = vpArg t"
  by (simp_all add: start_fields_def end_fields_def interval_fields_def)

lemma start_time_ok:
  assumes "js_env_ok e" "length t < 80" "start_known e t"
  obtains u r d where "JS_FillTimeStruct (mktime e) zero_tm t = Inr (u, r)"
    "JS_GetDay (ctime e) u = Inr d" "\<And>task. hour_ok (start_fields r task)"
proof -
  obtain u r x where f: "JS_FillTimeStruct (mktime e) zero_tm t = Inr (u, r)"
      "tm_hour r = tm_hour (snd (mktime e x))" "u = fst (mktime e x)"
    using FillTimeStruct_ok [OF assms(2)] by blast
  have "fst (mktime e x) \<noteq> - 1" using assms(3) f(1,3) by (simp add: start_known_def)
  then have "0 \<le> tm_hour r \<and> tm_hour r < 24" using f(2) assms(1) by (simp add: js_env_ok_def)
  moreover obtain d where "JS_GetDay (ctime e) u = Inr d" using assms(1) unfolding js_env_ok_def by blast
  ultimately show ?thesis using f(1) that hour_of_start by blast
qed

lemma job_task_ok:
  assumes "js_env_ok e" "texts_ok e j"
  obtains j' r where "job_task e p j = Inr (j', r)"
    "\<And>t. r = Some t \<Longrightarrow> vpArg t = p \<and> hour_ok t" "iJobMasIndex j' = iJobMasIndex j"
proof -
  have "\<exists>j' r. job_task e p j = Inr (j', r) \<and> (\<forall>t. r = Some t \<longrightarrow> vpArg t = p \<and> hour_ok t)
      \<and> iJobMasIndex j' = iJobMasIndex j"
  proof (cases "pcJobMasStartTime j")
    case None
    then show ?thesis by (simp add: job_task_def)
  next
    case (Some st)
    then obtain u r d where s: "JS_FillTimeStruct (mktime e) zero_tm st = Inr (u, r)"
        "JS_GetDay (ctime e) u = Inr d" "\<And>task. hour_ok (start_fields r task)"
      using start_time_ok [OF assms(1), of st] assms(2) by (auto simp: texts_ok_def)
    show ?thesis
    proof (cases "pcJobMasFinishTime j")
      case None
      then show ?thesis using Some s by (simp add: job_task_def Let_def)
    next
      case (Some en)
      then obtain u' r' where "JS_FillTimeStruct (mktime e) zero_tm en = Inr (u', r')"
        using FillTimeStruct_ok [of en "mktime e" zero_tm] assms(2) by (fastforce simp: texts_ok_def)
      then show ?thesis using Some s \<open>pcJobMasStartTime j = Some st\<close> by (simp add: job_task_def Let_def)
    qed
  qed
  then show ?thesis using that by blast
qed

lemma modify_times_job:
  "modify_times e j task = Inr (j', r) \<Longrightarrow> \<exists>u. j' = j\<lparr>uiEndTimeinNum := u\<rparr>"
  by (auto simp: modify_times_def rbind_def split: sum.splits option.splits prod.splits if_splits)
    (metis stJobMaster.surjective stJobMaster.update_convs(7))+

lemma modify_times_ok:
  assumes "js_env_ok e" "texts_ok e j" "hour_ok task"
  shows "\<exists>u r. modify_times e j task = Inr (j\<lparr>uiEndTimeinNum := u\<rparr>, r)
    \<and> (\<forall>t. r = Some t \<longrightarrow> vpArg t = vpArg task \<and> hour_ok t)"
proof -
  have fin: "\<exists>u r. JS_FillTimeStruct (mktime e) zero_tm en = Inr (u, r)" if "pcJobMasFinishTime j = Some en" for en
    using FillTimeStruct_ok [of en "mktime e" zero_tm] assms(2) that by (fastforce simp: texts_ok_def)
  have st: "\<exists>u r d. JS_FillTimeStruct (mktime e) zero_tm t = Inr (u, r) \<and> JS_GetDay (ctime e) u = Inr d
      \<and> hour_ok (start_fields r task)" if "pcJobMasStartTime j = Some t" for t
    using start_time_ok [OF assms(1), of t] assms(2) that by (simp add: texts_ok_def) metis
  have "\<exists>j' r. modify_times e j task = Inr (j', r) \<and> (\<forall>t. r = Some t \<longrightarrow> vpArg t = vpArg task \<and> hour_ok t)"
    using assms(3)
    by (cases "pcJobMasStartTime j"; cases "pcJobMasFinishTime j")
      (auto simp: modify_times_def dest!: st fin)
  then show ?thesis using modify_times_job by blast
qed

section \<open>The operations are safe\<close>

lemma job_list_room: "job_rep p h l \<Longrightarrow> js_env_ok e \<Longrightarrow> job_room (node_malloc e) h"
  by (auto simp: job_rep_def job_list_def job_room_def js_env_ok_def mem_suffices_def)

lemma add_id_ok:
  assumes "job_rep p h l" "js_env_ok e"
  shows "\<exists>h'. JS_AddNodeInJobList (node_malloc e) t i p h = Inr h' \<and> job_rep p h' ((i, t) # l)"
  using jl.add_law [OF assms(1) job_list_room [OF assms]] .

text \<open>The two outcomes of adding a job: no task, or a task with the job as its argument and its id in the list.\<close>

lemma add_outcome:
  assumes m: "master_inv (sch s)" "job_rep (stListPtr s) (jlist s) l" and e: "js_env_ok e"
    and p: "jobs s p = Some j" "p \<noteq> NULL" and t: "texts_ok e j"
  shows "(\<exists>j'. JS_AddJobToSched e p s = Inr (0, s\<lparr>jobs := (jobs s)(p \<mapsto> j')\<rparr>))
    \<or> (\<exists>j' task i sc h. JS_AddJobToSched e p s = Inr (1, s\<lparr>jobs := (jobs s)(p \<mapsto> j'), sch := sc, jlist := h\<rparr>)
      \<and> job_task e p j = Inr (j', Some task) \<and> vpArg task = p \<and> hour_ok task \<and> master_inv sc
      \<and> 0 < i \<and> tasks (sch s) i = None \<and> tasks sc = (tasks (sch s))(i \<mapsto> task)
      \<and> job_rep (stListPtr s) h ((iJobMasIndex j, i) # l))"
proof -
  obtain j' r where jt: "job_task e p j = Inr (j', r)" "\<And>t. r = Some t \<Longrightarrow> vpArg t = p \<and> hour_ok t"
      "iJobMasIndex j' = iJobMasIndex j"
    using job_task_ok [OF e t, of p] by metis
  note start = JS_AddJobToSched_def job_at_def jt(1) p(1,2)
  show ?thesis
  proof (cases r)
    case None
    then have "JS_AddJobToSched e p s = Inr (0, s\<lparr>jobs := (jobs s)(p \<mapsto> j')\<rparr>)"
      using p(2) by (simp add: start)
    then show ?thesis by blast
  next
    case (Some task)
    have al: "alloc_ok (task_malloc e)" using e by (simp add: js_env_ok_def)
    obtain i sc where a: "SCH_AddTask (task_malloc e) (now e) task (sch s) = Inr (i, sc)" "master_inv sc"
        "i = - 1 \<and> sc = sch s \<or> 0 < i \<and> tasks (sch s) i = None \<and> tasks sc = (tasks (sch s))(i \<mapsto> task)"
      using sched_add [OF m(1) al hour_ok_home] jt(2) [OF Some] by metis
    obtain h where "JS_AddNodeInJobList (node_malloc e) i (iJobMasIndex j') (stListPtr s) (jlist s) = Inr h"
        "job_rep (stListPtr s) h ((iJobMasIndex j', i) # l)"
      using add_id_ok [OF m(2) e] by blast
    note h = this
    show ?thesis
    proof (cases "i = - 1")
      case True
      then have "JS_AddJobToSched e p s = Inr (0, s\<lparr>jobs := (jobs s)(p \<mapsto> j')\<rparr>)"
        using a Some p(2) by (simp add: start Let_def)
      then show ?thesis by blast
    next
      case False
      then have "JS_AddJobToSched e p s = Inr (1, s\<lparr>jobs := (jobs s)(p \<mapsto> j'), sch := sc, jlist := h\<rparr>)"
        using a(1) h(1) Some p(2) by (simp add: start Let_def)
      moreover have "0 < i" "tasks (sch s) i = None" "tasks sc = (tasks (sch s))(i \<mapsto> task)"
        using a(3) False by auto
      ultimately show ?thesis using a(2) h(2) jt(1,3) jt(2) [OF Some] Some
        by (intro disjI2 exI [of _ j'] exI [of _ task] exI [of _ i] exI [of _ sc] exI [of _ h]) simp
    qed
  qed
qed

lemma add_safe:
  assumes inv: "js_inv s" and e: "js_env_ok e" and p: "jobs s p = Some j" "p \<noteq> NULL"
    "\<not> is_arg (job_tasks s) p" and t: "texts_ok e j"
  shows "\<exists>r s'. JS_AddJobToSched e p s = Inr (r, s') \<and> js_inv s'"
proof -
  obtain l where m: "master_inv (sch s)" "job_rep (stListPtr s) (jlist s) l" "args_ok (job_tasks s) (jobs s)"
      "log_task_id s \<notin> snd ` set l"
    using inv by (rule js_invE)
  from add_outcome [OF m(1,2) e p(1,2) t] show ?thesis
  proof (elim disjE exE conjE)
    fix j' assume "JS_AddJobToSched e p s = Inr (0, s\<lparr>jobs := (jobs s)(p \<mapsto> j')\<rparr>)"
    then show ?thesis using js_inv_jobs [OF inv args_ok_job [OF m(3)]] by auto
  next
    fix j' task i sc h
    assume a: "JS_AddJobToSched e p s = Inr (1, s\<lparr>jobs := (jobs s)(p \<mapsto> j'), sch := sc, jlist := h\<rparr>)"
      "vpArg task = p" "hour_ok task" "master_inv sc" "tasks sc = (tasks (sch s))(i \<mapsto> task)"
      "job_rep (stListPtr s) h ((iJobMasIndex j, i) # l)" "0 < i" "tasks (sch s) i = None"
    have n: "i \<noteq> log_task_id s" using js_inv_fresh [OF inv a(7,8)] .
    then have "(tasks sc)(log_task_id s := None) = (job_tasks s)(i \<mapsto> task)"
      unfolding a(5) job_tasks_def by (rule fun_upd_twist)
    then have "args_ok ((tasks sc)(log_task_id s := None)) ((jobs s)(p \<mapsto> j'))"
      using a m(3) p by (auto simp: args_intros)
    then have "js_inv (s\<lparr>jobs := (jobs s)(p \<mapsto> j'), sch := sc, jlist := h\<rparr>)"
      using a n m(4) by (intro js_inv_keep [OF inv, where l = "(iJobMasIndex j, i) # l"]) auto
    with a(1) show ?thesis by blast
  qed
qed

lemma free_job: "js p = Some j \<Longrightarrow> JS_FreeJobMaster p js = Inr (if p = NULL then js else js(p := None))"
  by (simp add: JS_FreeJobMaster_def job_at_def)

text \<open>Deleting a job whose task is stored: the task, its job and its entry are gone, nothing else changes.\<close>

lemma delete_outcome:
  assumes inv: "js_inv s" and l: "job_rep (stListPtr s) (jlist s) l" and e: "js_env_ok e"
    and p: "jobs s p = Some j" "p \<noteq> NULL" "\<not> is_arg (job_tasks s) p"
    and t: "tasks (sch s) (task_of l (iJobMasIndex j)) = Some task"
  defines "i \<equiv> task_of l (iJobMasIndex j)"
  shows "\<exists>sc h. JS_DeleteFromSched e p s = Some (Inr (1, s\<lparr>sch := sc,
        jobs := (if (iJobMasIndex j, i) \<in> set l then (jobs s)(vpArg task := None, p := None)
          else (jobs s)(vpArg task := None)), jlist := h\<rparr>))
    \<and> SCH_DeleteTask i (sch s) = Some (Inr (NASC_SUCCESS, sc))
    \<and> master_inv sc \<and> tasks sc = (tasks (sch s))(i := None)
    \<and> job_rep (stListPtr s) h (remove1 (iJobMasIndex j, i) l)"
proof -
  have m: "master_inv (sch s)" "args_ok (job_tasks s) (jobs s)" using inv by (auto simp: js_inv_def)
  have room: "copy_room e" using e by (simp add: js_env_ok_def)
  have task: "tasks (sch s) i = Some task" "job_tasks s i = Some task"
    using t js_inv_job_task(2) [OF inv l t] by (simp_all add: i_def)
  have "i \<noteq> - 1" using task by (auto simp: tasks_def split: if_splits)
  obtain sc where d: "SCH_DeleteTask i (sch s) = Some (Inr (NASC_SUCCESS, sc))" "master_inv sc"
      "tasks sc = (tasks (sch s))(i := None)"
    using ms.del_law [OF m(1), of i] task by auto
  have q: "vpArg task \<noteq> NULL" "vpArg task \<noteq> p"
    using args_ok_arg [OF m(2) task(2)] p(3) task(2) by (auto simp: is_arg_def)
  obtain jm where jm: "jobs s (vpArg task) = Some jm" using args_ok_arg [OF m(2) task(2)] by auto
  obtain h where n: "JS_DeleteNodeFromList (stListPtr s) (iJobMasIndex j) i (jlist s)
        = Some (Inr (if (iJobMasIndex j, i) \<in> set l then 1 else 0, h))"
      "job_rep (stListPtr s) h (remove1 (iJobMasIndex j, i) l)"
    using jl.del_law [OF l] by blast
  have "JS_DeleteFromSched e p s = Some (Inr (1, s\<lparr>sch := sc,
        jobs := (if (iJobMasIndex j, i) \<in> set l then (jobs s)(vpArg task := None, p := None)
          else (jobs s)(vpArg task := None)), jlist := h\<rparr>))"
    using n(1) d(1) task q jm \<open>i \<noteq> - 1\<close> p(1,2) room jl.get_law [OF l] ms.get_law [OF m(1)]
    by (simp add: JS_DeleteFromSched_def job_at_def lift_res_def free_job Let_def flip: i_def)
  with d n(2) show ?thesis by blast
qed

text \<open>Otherwise nothing is deleted, and the structure of the trap is freed only when the list has no entry.\<close>

lemma delete_unknown:
  assumes "js_inv s" "job_rep (stListPtr s) (jlist s) l" "jobs s p = Some j" "p \<noteq> NULL"
    "tasks (sch s) (task_of l (iJobMasIndex j)) = None"
  shows "JS_DeleteFromSched e p s = Some (Inr (0, if task_of l (iJobMasIndex j) = - 1
    then s\<lparr>jobs := (jobs s)(p := None)\<rparr> else s))"
proof -
  have m: "master_inv (sch s)" using assms(1) by (auto simp: js_inv_def)
  show ?thesis using assms jl.get_law [OF assms(2)] ms.get_law [OF m]
    by (simp add: JS_DeleteFromSched_def job_at_def lift_res_def free_job)
qed

lemma set_remove1_ids: "x \<notin> snd ` set l \<Longrightarrow> x \<notin> snd ` set (remove1 a l)"
  by (meson image_mono set_remove1_subset subsetD)

lemma delete_safe:
  assumes inv: "js_inv s" and e: "js_env_ok e" and p: "jobs s p = Some j" "p \<noteq> NULL"
    "\<not> is_arg (job_tasks s) p"
  shows "\<exists>r s'. JS_DeleteFromSched e p s = Some (Inr (r, s')) \<and> js_inv s'"
proof -
  obtain l where m: "master_inv (sch s)" "job_rep (stListPtr s) (jlist s) l" "args_ok (job_tasks s) (jobs s)"
      "log_task_id s \<notin> snd ` set l"
    using inv by (rule js_invE)
  let ?i = "task_of l (iJobMasIndex j)"
  show ?thesis
  proof (cases "tasks (sch s) ?i")
    case None
    have "js_inv (s\<lparr>jobs := (jobs s)(p := None)\<rparr>)" by (rule js_inv_jobs [OF inv args_ok_free [OF m(3) p(3)]])
    with delete_unknown [OF inv m(2) p(1,2) None] show ?thesis using inv by simp
  next
    case (Some task)
    note t = js_inv_job_task [OF inv m(2) Some]
    let ?m = "(job_tasks s)(?i := None)"
    have "args_ok ?m ((jobs s)(vpArg task := None))"
      by (intro args_ok_free args_ok_remove m(3) args_ok_only [OF m(3) t(2)])
    moreover have "args_ok ?m ((jobs s)(vpArg task := None, p := None))"
      by (intro args_ok_free [OF calculation] is_arg_remove p(3))
    moreover have "(tasks sc)(log_task_id s := None) = ?m" if "tasks sc = (tasks (sch s))(?i := None)" for sc
      unfolding that job_tasks_def using t(1) by (rule fun_upd_twist)
    moreover obtain sc h where d: "JS_DeleteFromSched e p s = Some (Inr (1, s\<lparr>sch := sc,
          jobs := (if (iJobMasIndex j, ?i) \<in> set l then (jobs s)(vpArg task := None, p := None)
            else (jobs s)(vpArg task := None)), jlist := h\<rparr>))"
        "master_inv sc" "tasks sc = (tasks (sch s))(?i := None)"
        "job_rep (stListPtr s) h (remove1 (iJobMasIndex j, ?i) l)"
      using delete_outcome [OF inv m(2) e p Some] by blast
    ultimately have "js_inv (s\<lparr>sch := sc, jobs := (if (iJobMasIndex j, ?i) \<in> set l
        then (jobs s)(vpArg task := None, p := None) else (jobs s)(vpArg task := None)), jlist := h\<rparr>)"
      using t(1) by (intro js_inv_keep [OF inv _ _ _ _ _ _ set_remove1_ids [OF m(4)]]) simp_all
    then show ?thesis using d(1) by blast
  qed
qed

lemma replace_id_safe:
  assumes inv: "js_inv s" and e: "js_env_ok e" and p: "jobs s p = Some j'" "p \<noteq> NULL"
    "\<not> is_arg (job_tasks s) p" and i: "tasks (sch s) i = Some old" "i \<noteq> log_task_id s"
    and t: "vpArg t = vpArg old" "hour_ok t"
  shows "\<exists>r s'. replace_id e p j i t s = Some (Inr (r, s')) \<and> js_inv s'"
proof -
  obtain l where m: "master_inv (sch s)" "job_rep (stListPtr s) (jlist s) l" "args_ok (job_tasks s) (jobs s)"
      "log_task_id s \<notin> snd ` set l"
    using inv by (rule js_invE)
  have al: "alloc_ok (task_malloc e)" and some: "tasks (sch s) i \<noteq> None" using e i by (simp_all add: js_env_ok_def)
  obtain k sc where r: "SCH_ModifyTask (task_malloc e) (now e) i t (sch s) = Some (Inr (k, sc))" "master_inv sc"
      "k = - 1 \<and> tasks sc = (tasks (sch s))(i := None) \<or> 0 < k \<and> ((tasks (sch s))(i := None)) k = None
         \<and> tasks sc = (tasks (sch s))(i := None, k \<mapsto> t)"
    using sched_modify [OF m(1) al t(2) some] by metis
  have old: "job_tasks s i = Some old" using i by (simp add: job_tasks_def)
  have q: "vpArg t \<noteq> NULL" "jobs s (vpArg t) \<noteq> None" "vpArg t \<noteq> p"
    using args_ok_arg [OF m(3) old] p(3) old t(1) by (auto simp: is_arg_def)
  have rest: "args_ok ((job_tasks s)(i := None)) (jobs s)" by (rule args_ok_remove [OF m(3)])
  have only: "\<not> is_arg ((job_tasks s)(i := None)) (vpArg t)" unfolding t(1) by (rule args_ok_only [OF m(3) old])
  have k: "k \<noteq> log_task_id s" if "k \<noteq> - 1"
    using r(3) that inv i by (auto simp: js_inv_def log_ok_def split: if_splits)
  let ?m = "(tasks sc)(log_task_id s := None)"
  have sc: "k = - 1 \<and> ?m = (job_tasks s)(i := None) \<or> k \<noteq> - 1 \<and> ?m = (job_tasks s)(i := None, k \<mapsto> t)"
    using r(3) k i(2) by (auto simp: job_tasks_def fun_eq_iff)
  have args: "args_ok ?m (jobs s)" using sc args_ok_insert [OF rest only q(1,2) t(2)] rest by auto
  have "\<not> is_arg ?m p" using sc is_arg_remove [OF p(3)] is_arg_insert [OF is_arg_remove [OF p(3)] q(3)] by auto
  then have free: "args_ok ?m ((jobs s)(p := None))" by (rule args_ok_free [OF args])
  have log: "tasks sc (log_task_id s) = tasks (sch s) (log_task_id s)" using r(3) k i(2) by auto
  obtain b h where d: "JS_DeleteNodeFromList (stListPtr s) (iJobMasIndex j) i (jlist s) = Some (Inr (b, h))"
      "job_rep (stListPtr s) h (remove1 (iJobMasIndex j, i) l)"
    using jl.del_law [OF m(2)] by blast
  obtain h' where h': "JS_AddNodeInJobList (node_malloc e) k (iJobMasIndex j) (stListPtr s) h = Inr h'"
      "job_rep (stListPtr s) h' ((iJobMasIndex j, k) # remove1 (iJobMasIndex j, i) l)"
    using add_id_ok [OF d(2) e] by blast
  note out = set_remove1_ids [OF m(4), of "(iJobMasIndex j, i)"]
  have inv': "js_inv (s\<lparr>sch := sc, jobs := (jobs s)(p := None)\<rparr>)" "js_inv (s\<lparr>sch := sc, jlist := h\<rparr>)"
    using r(2) free args log m d(2) out by (auto intro: js_inv_keep [OF inv, where l = l]
      js_inv_keep [OF inv, where l = "remove1 (iJobMasIndex j, i) l"])
  have "js_inv (s\<lparr>sch := sc, jlist := h', jobs := (jobs s)(p := None)\<rparr>)" if "k \<noteq> - 1"
    using r(2) free log m h'(2) out k [OF that]
    by (intro js_inv_keep [OF inv, where l = "(iJobMasIndex j, k) # remove1 (iJobMasIndex j, i) l"]) auto
  then show ?thesis using r(1) d(1) h'(1) p(1,2) inv'
    by (cases "k = - 1"; cases "b = 0") (auto simp: replace_id_def Let_def lift_res_def free_job)
qed

lemma modify_safe:
  assumes inv: "js_inv s" and e: "js_env_ok e" and p: "jobs s p = Some j" "p \<noteq> NULL"
    "\<not> is_arg (job_tasks s) p" and t: "texts_ok e j"
  shows "\<exists>r s'. JS_ModifyJobToSched e p s = Some (Inr (r, s')) \<and> js_inv s'"
proof -
  obtain l where m: "master_inv (sch s)" "job_rep (stListPtr s) (jlist s) l" "args_ok (job_tasks s) (jobs s)"
    using inv by (rule js_invE)
  let ?i = "task_of l (iJobMasIndex j)"
  have room: "copy_room e" using e by (simp add: js_env_ok_def)
  note start = JS_ModifyJobToSched_def job_at_def lift_res_def jl.get_law [OF m(2)] ms.get_law [OF m(1)]
    p(1,2) room free_job
  show ?thesis
  proof (cases "?i = - 1 \<or> tasks (sch s) ?i = None")
    case True
    then show ?thesis using inv js_inv_jobs [OF inv args_ok_free [OF m(3) p(3)]]
      by (auto simp: start)
  next
    case False
    then obtain task where task: "tasks (sch s) ?i = Some task" "?i \<noteq> - 1" by auto
    note jt = js_inv_job_task [OF inv m(2) task(1)]
    have q: "vpArg task \<noteq> NULL" "jobs s (vpArg task) \<noteq> None" "vpArg task \<noteq> p" "hour_ok task"
      using args_ok_arg [OF m(3) jt(2)] p(3) jt(2) by (auto simp: is_arg_def)
    then obtain jm where jm: "jobs s (vpArg task) = Some jm" by auto
    obtain u r where mt: "modify_times e j task = Inr (j\<lparr>uiEndTimeinNum := u\<rparr>, r)"
        "\<And>t. r = Some t \<Longrightarrow> vpArg t = vpArg task \<and> hour_ok t"
      using modify_times_ok [OF e t q(4)] by blast
    let ?j = "j\<lparr>uiEndTimeinNum := u\<rparr>"
    show ?thesis
    proof (cases r)
      case None
      then show ?thesis using js_inv_jobs [OF inv args_ok_job [OF m(3)]] task mt(1) by (auto simp: start)
    next
      case (Some tk)
      obtain ok m' where c: "copy_texts e ?j jm = (ok, m')" by (cases "copy_texts e ?j jm")
      let ?s = "\<lambda>m. s\<lparr>jobs := (jobs s)(p \<mapsto> ?j, vpArg task \<mapsto> m)\<rparr>"
      have s: "js_inv (?s m)" for m by (intro js_inv_jobs [OF inv] args_ok_job m(3))
      have "\<exists>r s'. replace_id e p ?j ?i (tk\<lparr>fp := JS_PerformJobSchedAction e\<rparr>) (?s m) = Some (Inr (r, s'))
          \<and> js_inv s'" for m
        by (rule replace_id_safe [where p = p and j' = ?j, OF s e]) (use q(3) p task(1) jt(1) mt(2) [OF Some] in auto)
      then show ?thesis using s c task q(1,3) mt Some jm by (cases ok) (simp_all add: start Let_def)
    qed
  qed
qed

section \<open>Traps and the nightly cleaning\<close>

definition var_ok :: "js_env \<Rightarrow> job_var \<Rightarrow> bool" where
  "var_ok e v \<longleftrightarrow> (JS_CheckField v \<in> {3, 8} \<longrightarrow> 4 \<le> length (snd v))
   \<and> (JS_CheckField v \<in> {1, 2} \<longrightarrow> length (snd v) < 32768)
   \<and> (JS_CheckField v \<in> {4, 5} \<longrightarrow> length (snd v) < 80)
   \<and> (JS_CheckField v = 4 \<longrightarrow> start_known e (snd v))"

lemma FillStruct_ok:
  assumes "length val < 32768"
  shows "JS_FillStruct room val old = Inr (if val = [] then (NASC_FAILURE, old)
    else if room then (NASC_SUCCESS, Some val) else (NASC_INSUFFICIENT_MEMORY, None))"
proof -
  have "sint (of_nat (length val) :: 16 word) = int (length val)"
    using assms by (simp add: signed_of_nat signed_take_bit_int_eq_self)
  then show ?thesis by (auto simp: JS_FillStruct_def Let_def)
qed

lemma texts_ok_set_text:
  "texts_ok e j \<Longrightarrow> (f \<in> {4, 5} \<longrightarrow> (case t of None \<Rightarrow> True | Some b \<Rightarrow> length b < 80))
   \<Longrightarrow> (f = 4 \<longrightarrow> (case t of None \<Rightarrow> True | Some b \<Rightarrow> start_known e b)) \<Longrightarrow> f \<in> {1, 2, 4, 5}
   \<Longrightarrow> texts_ok e (set_text f t j)"
  by (cases t) (auto simp: texts_ok_def set_text_def)

lemma read_vars_ok:
  "\<forall>v\<in>set vs. var_ok e v \<Longrightarrow> texts_ok e j \<Longrightarrow>
   \<exists>r. read_vars room k vs j = Inr r \<and> (\<forall>j'. r = Some j' \<longrightarrow> texts_ok e j')"
proof (induction vs arbitrary: k j)
  case (Cons v vs)
  let ?f = "JS_CheckField v"
  note IH = Cons.IH [of _ "Suc k"]
  show ?case
  proof (cases "?f \<in> {1, 2, 4, 5}")
    case True
    then have "length (snd v) < 32768" using Cons.prems(1) by (auto simp: var_ok_def)
    note fill = FillStruct_ok [OF this, of "room k" "text_field ?f j"]
    have "texts_ok e (set_text ?f (text_field ?f j) j)" "texts_ok e (set_text ?f (Some (snd v)) j)"
      using Cons.prems True by (auto simp: texts_ok_set_text texts_ok_def text_field_def set_text_def var_ok_def)
    then have "\<exists>r. read_vars room (Suc k) vs (set_text ?f t j) = Inr r \<and> (\<forall>j'. r = Some j' \<longrightarrow> texts_ok e j')"
      if "t \<in> {text_field ?f j, Some (snd v)}" for t
      using IH Cons.prems(1) that by auto
    then show ?thesis using True fill by (simp add: Let_def)
  next
    case False
    have "texts_ok e (j\<lparr>iJobMasInterval := n\<rparr>)" "texts_ok e (j\<lparr>iJobMasStatus := n\<rparr>)" for n
      using Cons.prems(2) by (simp_all add: texts_ok_def)
    moreover have "4 \<le> length (snd v)" if "?f = 3 \<or> ?f = 8" using Cons.prems(1) that by (auto simp: var_ok_def)
    ultimately show ?thesis using False IH Cons.prems by (auto simp: Let_def val_integer_def)
  qed
qed simp

lemma update_safe:
  assumes "js_inv s" "js_env_ok e" "jobs s p = Some j" "p \<noteq> NULL" "\<not> is_arg (job_tasks s) p" "texts_ok e j"
  shows "\<exists>s'. JS_UpdateJobToScheduler e p d s = Some (Inr (1, s')) \<and> js_inv s'"
  using add_safe [OF assms] modify_safe [OF assms] delete_safe [OF assms(1-5)] assms(1,4)
  by (auto simp: JS_UpdateJobToScheduler_def lift_res_def)

lemma trap_safe:
  assumes inv: "js_inv s" and e: "js_env_ok e" and v: "vs \<noteq> []" "\<forall>v\<in>set vs. var_ok e v"
  shows "\<exists>s'. JS_ParseTrap e vs s = Some (Inr s') \<and> js_inv s'"
proof -
  let ?p = "job_malloc e (jobs s)"
  obtain f where f: "JS_CheckTable vs = Inr f" using v(1) by (cases vs) (auto simp: JS_CheckTable_def)
  show ?thesis
  proof (cases "f = - 1 \<or> ?p = NULL")
    case True
    then show ?thesis using inv f by (auto simp: JS_ParseTrap_def lift_res_def Let_def)
  next
    case False
    have "\<forall>js. job_malloc e js = NULL \<or> js (job_malloc e js) = None" using e by (simp add: js_env_ok_def)
    from spec [OF this, of "jobs s"] have "?p = NULL \<or> jobs s ?p = None" .
    then have new: "?p \<noteq> NULL" "jobs s ?p = None" using False by auto
    then have na: "\<not> is_arg (job_tasks s) ?p"
      using inv args_ok_arg unfolding js_inv_def is_arg_def by metis
    let ?j = "(junk_job e)\<lparr>iJobMasIndex := JS_GetIndex (hd vs), iJobMasStatus := 0,
          iJobMasInterval := - 1, pcJobMasId := None, pcJobMasName := None,
          pcJobMasStartTime := None, pcJobMasFinishTime := None\<rparr>"
    have "texts_ok e ?j" by (simp add: texts_ok_def)
    from read_vars_ok [OF v(2) this, of "var_room e" 0] obtain r where r:
        "read_vars (var_room e) 0 vs ?j = Inr r" "\<And>j'. r = Some j' \<Longrightarrow> texts_ok e j'"
      by blast
    show ?thesis
    proof (cases r)
      case None
      then show ?thesis using inv f False r(1) by (simp add: JS_ParseTrap_def lift_res_def Let_def)
    next
      case (Some j)
      let ?s = "s\<lparr>jobs := (jobs s)(?p \<mapsto> j)\<rparr>"
      have "js_inv ?s" using inv js_inv_jobs args_ok_job unfolding js_inv_def by blast
      from update_safe [OF this e, of ?p j "decision (iJobMasStatus j)"] obtain s' where
          "JS_UpdateJobToScheduler e ?p (decision (iJobMasStatus j)) ?s = Some (Inr (1, s'))" "js_inv s'"
        using new(1) na r(2) Some by auto
      then show ?thesis using f False r(1) Some by (simp add: JS_ParseTrap_def lift_res_def Let_def)
    qed
  qed
qed

text \<open>Making the log task anew keeps the invariant unless the new task gets an id the job list still has.\<close>

lemma log_safe:
  assumes inv: "js_inv s" and e: "js_env_ok e"
  shows "\<exists>s'. JS_ScheduleLogInfo e s = Some (Inr (1, s'))
    \<and> (\<forall>l. job_rep (stListPtr s) (jlist s) l \<longrightarrow> log_task_id s' \<notin> snd ` set l \<longrightarrow> js_inv s')
    \<and> (backupInterval s \<noteq> iInterVal s \<longrightarrow> log_task_id s' \<noteq> - 1 \<longrightarrow>
         tasks (sch s') (log_task_id s') = Some (log_task e (backupInterval s)))
    \<and> master_inv (sch s') \<and> jobs s' = jobs s \<and> jlist s' = jlist s \<and> stListPtr s' = stListPtr s"
proof (cases "backupInterval s = iInterVal s")
  case True
  then show ?thesis using inv by (simp add: JS_ScheduleLogInfo_def js_inv_def)
next
  case False
  let ?id = "log_task_id s"
  have m: "master_inv (sch s)" "args_ok (job_tasks s) (jobs s)" using inv by (simp_all add: js_inv_def)
  obtain sc where d: "(if ?id = - 1 then Some (Inr (sch s))
      else obind (SCH_DeleteTask ?id (sch s)) (\<lambda>(_, sc). Some (Inr sc))) = Some (Inr sc)"
    "master_inv sc" "tasks sc = job_tasks s"
  proof (cases "?id = - 1")
    case True
    then have "job_tasks s = tasks (sch s)" by (auto simp: job_tasks_def tasks_def fun_eq_iff)
    then show ?thesis using that m True by simp
  next
    case False
    then show ?thesis using that ms.del_law [OF m(1), of ?id] by (auto simp: job_tasks_def)
  qed
  let ?t = "log_task e (backupInterval s)"
  have t: "task_home ?t < MASTER_ARR_SIZE" "eType ?t = SCH_PERIODIC" by (simp_all add: log_task_def task_home_def)
  have al: "alloc_ok (task_malloc e)" using e by (simp add: js_env_ok_def)
  obtain i sc' where a: "SCH_AddTask (task_malloc e) (now e) ?t sc = Inr (i, sc')" "master_inv sc'"
      "i = - 1 \<and> sc' = sc \<or> 0 < i \<and> tasks sc i = None \<and> tasks sc' = (tasks sc)(i \<mapsto> ?t)"
    using sched_add [OF d(2) al t(1)] by metis
  let ?s = "s\<lparr>iInterVal := backupInterval s, sch := sc', log_task_id := i\<rparr>"
  have "JS_ScheduleLogInfo e s = Some (Inr (1, ?s))"
    using False d(1) a(1)
    by (cases "?id = - 1") (auto simp: JS_ScheduleLogInfo_def Let_def lift_res_def obind_eq_Some_Inr)
  moreover have "tasks sc (- 1) = None" by (simp add: tasks_def)
  then have "(tasks sc')(i := None) = job_tasks s"
    using a(3) by (auto simp: d(3) [symmetric] fun_upd_idem)
  then have "job_tasks ?s = job_tasks s" by (simp add: job_tasks_def)
  moreover have "log_ok ?s" using a(3) t(2) by (auto simp: log_ok_def)
  moreover have "i \<noteq> - 1 \<longrightarrow> tasks sc' i = Some ?t" using a(3) by auto
  ultimately show ?thesis using a(2) m(2) by (auto simp: js_inv_def)
qed

text \<open>
  The process as a transition system: traps arrive, at night the scheduler drops expired tasks, and
  the log task is made anew with the interval \<open>v\<close> that was read from the agent; here its id is not one
  that the job list has kept of a task that is gone.
\<close>

inductive js_step :: "js_state \<Rightarrow> js_state \<Rightarrow> bool" where
  js_trap: "js_env_ok e \<Longrightarrow> vs \<noteq> [] \<Longrightarrow> \<forall>v\<in>set vs. var_ok e v \<Longrightarrow> JS_ParseTrap e vs s = Some (Inr s')
    \<Longrightarrow> js_step s s'"
| js_clean: "SCH_AutoCleanTask clk (sch s) = Some (Inr sc) \<Longrightarrow> js_step s (s\<lparr>sch := sc\<rparr>)"
| js_log: "js_env_ok e \<Longrightarrow> JS_ScheduleLogInfo e (s\<lparr>backupInterval := v\<rparr>) = Some (Inr (r, s'))
    \<Longrightarrow> job_rep (stListPtr s) (jlist s) l \<Longrightarrow> log_task_id s' \<notin> snd ` set l \<Longrightarrow> js_step s s'"

lemma periodic_only_Some: "periodic_only m i = Some t \<Longrightarrow> m i = Some t"
  by (auto simp: periodic_only_def split: option.splits if_splits)

lemma args_ok_mono: "args_ok m js \<Longrightarrow> (\<And>i t. m' i = Some t \<Longrightarrow> m i = Some t) \<Longrightarrow> args_ok m' js"
  unfolding args_ok_def by metis

lemma args_ok_periodic: "args_ok (m(i := None)) js \<Longrightarrow> args_ok ((periodic_only m)(i := None)) js"
  by (erule args_ok_mono) (auto dest: periodic_only_Some split: if_splits)

lemma backup_inv: "js_inv s \<Longrightarrow> js_inv (s\<lparr>backupInterval := v\<rparr>)"
  by (simp add: js_inv_def log_ok_def)

lemma js_step_inv: "js_step s s' \<Longrightarrow> js_inv s \<Longrightarrow> js_inv s'"
proof (induction rule: js_step.induct)
  case (js_trap e vs s s')
  then show ?case using trap_safe [of s e vs] by fastforce
next
  case (js_clean clk s sc)
  have m: "master_inv (sch s)" "args_ok (job_tasks s) (jobs s)" using js_clean(2) by (simp_all add: js_inv_def)
  from sch_step_refines [OF st_clean [OF js_clean(1)] m(1)]
  have sc: "master_inv sc" "tasks sc = periodic_only (tasks (sch s))" by (auto simp: map_step_simps)
  have "args_ok (job_tasks (s\<lparr>sch := sc\<rparr>)) (jobs s)"
    using m(2) args_ok_periodic by (simp add: sc(2) job_tasks_def)
  moreover have "log_ok (s\<lparr>sch := sc\<rparr>)"
    using js_clean(2) by (auto simp: js_inv_def log_ok_def sc(2) periodic_only_def)
  ultimately show ?case using js_clean(2) sc(1) by (auto simp: js_inv_def)
next
  case (js_log e v s r s' l)
  from log_safe [OF backup_inv [OF js_log(5), of v] js_log(1)] js_log(2-4) show ?case by auto
qed

lemma js_steps_inv: "js_step\<^sup>*\<^sup>* s s' \<Longrightarrow> js_inv s \<Longrightarrow> js_inv s'"
  by (induction rule: rtranclp_induct) (auto intro: js_step_inv)

section \<open>A concrete process\<close>

definition demo_job :: "UI16 \<Rightarrow> stJobMaster" where
  "demo_job i = \<lparr>iJobMasIndex = i, pcJobMasId = None, pcJobMasName = None, iJobMasInterval = 1,
     pcJobMasStartTime = Some [7, 215, 7, 5, 3, 30], pcJobMasFinishTime = Some [7, 216, 7, 5, 3, 30],
     uiEndTimeinNum = 0, iJobMasMemoryUsage = 0, iJobMasCPUUsage = 0, iJobMasStatus = 0\<rparr>"

definition demo_env :: js_env where
  "demo_env = \<lparr>task_malloc = bump, node_malloc = bump, job_malloc = (\<lambda>js. if js 8 = None then 8 else NULL),
     copy_room = True, field_room = (\<lambda>_. True), var_room = (\<lambda>_. True), now = at_clock 3 0 0,
     mktime = (\<lambda>t. (1000, t\<lparr>tm_hour := tm_hour t mod 24\<rparr>)), ctime = (\<lambda>_. ''Thu Jul  5 03:30:00 2007''),
     JS_PerformJobSchedAction = 100, JS_CallJobLogFile = 300, junk_task = daily_task, junk_job = demo_job 0, junk_day = 3\<rparr>"

text \<open>No job is scheduled, or the job at address 200 with index 5.\<close>

definition no_jobs :: js_state where
  "no_jobs = \<lparr>jobs = Map.empty, stListPtr = 1, jlist = [1 \<mapsto> Node \<lparr>iIndex = 0, lTaskId = 0\<rparr> NULL],
     sch = InitMasterTable no_sched, log_task_id = - 1, iInterVal = 0, backupInterval = 0\<rparr>"

definition one_job :: js_state where
  "one_job = \<lparr>jobs = [200 \<mapsto> demo_job 5], stListPtr = 1,
     jlist = [1 \<mapsto> Node \<lparr>iIndex = 0, lTaskId = 0\<rparr> 2, 2 \<mapsto> Node \<lparr>iIndex = 5, lTaskId = 1\<rparr> NULL],
     sch = one_task daily_task, log_task_id = - 1, iInterVal = 0, backupInterval = 0\<rparr>"

definition given :: "addr \<Rightarrow> stJobMaster \<Rightarrow> js_state \<Rightarrow> js_state" where
  "given p j s = s\<lparr>jobs := (jobs s)(p \<mapsto> j)\<rparr>"

lemma given_simps [simp]:
  "jobs (given p j s) = (jobs s)(p \<mapsto> j)" "sch (given p j s) = sch s" "jlist (given p j s) = jlist s"
  "stListPtr (given p j s) = stListPtr s" "log_task_id (given p j s) = log_task_id s"
  "job_tasks (given p j s) = job_tasks s" "log_ok (given p j s) = log_ok s"
  by (simp_all add: given_def log_ok_def)

lemma given_inv: "js_inv s \<Longrightarrow> js_inv (given p j s)"
  by (simp add: js_inv_def args_intros)

lemma demo_env_ok [simp]: "js_env_ok demo_env"
  by (simp add: js_env_ok_def demo_env_def JS_GetDay_def Let_def fits_def text_eval)

lemma demo_job_ok [simp]: "texts_ok demo_env (demo_job i)" "iJobMasIndex (demo_job i) = i"
  by (simp_all add: demo_job_def demo_env_def texts_ok_def start_known_def JS_FillTimeStruct_def c_text_def zero_tm_def)

lemma no_jobs_list [simp]: "job_rep (stListPtr no_jobs) (jlist no_jobs) []"
  by (auto simp: job_rep_def job_list_def no_jobs_def jobs_of_def lseg_Cons intro!: exI [of _ "[]"])

lemma one_job_list [simp]: "job_rep (stListPtr one_job) (jlist one_job) [(5, 1)]"
  by (auto simp: job_rep_def job_list_def one_job_def jobs_of_def lseg_Cons
    intro!: exI [of _ "[(2, \<lparr>iIndex = 5, lTaskId = 1\<rparr>)]"])

lemma no_log [simp]: "log_task_id no_jobs = - 1" "log_task_id one_job = - 1" "log_ok no_jobs" "log_ok one_job"
    "iInterVal one_job = 0" "iInterVal no_jobs = 0"
  by (simp_all add: no_jobs_def one_job_def log_ok_def)

lemma no_jobs_inv [simp]: "js_inv no_jobs"
proof -
  have "args_ok (job_tasks no_jobs) (jobs no_jobs)" by (simp add: args_ok_def job_tasks_def no_jobs_def)
  moreover have "master_inv (sch no_jobs)" by (simp add: no_jobs_def)
  ultimately show ?thesis using no_jobs_list no_log unfolding js_inv_def by fastforce
qed

lemma daily_arg: "vpArg daily_task = 200" "hour_ok daily_task"
  by (simp_all add: daily_task_def task_at_def hour_ok_def)

lemma one_job_tasks [simp]: "tasks (sch one_job) = [1 \<mapsto> daily_task]" "jobs one_job = [200 \<mapsto> demo_job 5]"
  by (simp_all add: one_job_def)

lemma one_job_job_tasks [simp]: "job_tasks one_job = [1 \<mapsto> daily_task]"
  by (auto simp: job_tasks_def)

lemma one_job_inv [simp]: "js_inv one_job"
proof -
  have "args_ok (job_tasks one_job) (jobs one_job)" by (simp add: args_ok_def daily_arg)
  moreover have "master_inv (sch one_job)" by (simp add: one_job_def one_task_inv)
  moreover have "- 1 \<notin> snd ` set [(5 :: 16 word, 1 :: int)]" by simp
  ultimately show ?thesis using one_job_list no_log unfolding js_inv_def by metis
qed

lemma one_job_args: "is_arg [1 \<mapsto> daily_task] p \<longleftrightarrow> p = 200"
  by (auto simp: is_arg_def daily_arg)

lemma demo_fill: "y \<noteq> 0 \<Longrightarrow> JS_FillTimeStruct (mktime demo_env) zero_tm [7, y, 7, 5, 3, 30] = Inr (1000,
    \<lparr>tm_sec = 0, tm_min = 30, tm_hour = 3, tm_mday = 5, tm_mon = 6, tm_year = 1792 + uint y, tm_wday = 0\<rparr>)"
  by (simp add: JS_FillTimeStruct_def c_text_def demo_env_def zero_tm_def)

lemma demo_day: "JS_GetDay (ctime demo_env) 1000 = Inr 4"
  by (simp add: JS_GetDay_def demo_env_def Let_def fits_def text_eval JS_GetDayNum_def Days_def)

lemmas demo_times = demo_fill demo_day Let_def start_fields_def end_fields_def interval_fields_def
  date_fields_def time_fields_def rejected_def ValidateTask_def date_before_def at_clock_def task_home_def

text \<open>The job without an interval as a trap gives it.\<close>

definition demo_once :: stJobMaster where
  "demo_once = (demo_job 5)\<lparr>iJobMasInterval := 0, pcJobMasFinishTime := None\<rparr>"

lemma demo_accepted:
  "\<exists>t. job_task demo_env p (demo_job i) = Inr ((demo_job i)\<lparr>uiEndTimeinNum := 1000\<rparr>, Some t)
    \<and> \<not> rejected (at_clock 3 0 0) t \<and> task_home t = 3"
  "\<exists>t. job_task demo_env p demo_once = Inr (demo_once, Some t) \<and> \<not> rejected (at_clock 3 0 0) t \<and> task_home t = 3"
  by (simp_all add: job_task_def demo_job_def demo_once_def demo_times)

lemma demo_add:
  assumes "p \<noteq> NULL"
    and "job_task demo_env p j = Inr (j', Some t) \<and> \<not> rejected (at_clock 3 0 0) t \<and> task_home t = 3"
  shows "\<exists>s1. JS_AddJobToSched demo_env p (given p j no_jobs) = Inr (1, s1) \<and> tasks (sch s1) = [1 \<mapsto> t]"
proof -
  have "SCH_AddTask bump (at_clock 3 0 0) t (InitMasterTable no_sched) = Inr (1, one_task t)"
    using add_to_no_sched assms by simp
  moreover obtain h where "JS_AddNodeInJobList bump 1 (iJobMasIndex j') 1 (jlist no_jobs) = Inr h"
    using add_id_ok [OF no_jobs_list demo_env_ok, of 1 "iJobMasIndex j'"] by (auto simp: demo_env_def no_jobs_def)
  ultimately show ?thesis using assms
    by (simp add: JS_AddJobToSched_def job_at_def Let_def no_jobs_def demo_env_def given_def)
qed

lemma demo_adds:
  "\<exists>s1. JS_AddJobToSched demo_env 200 (given 200 (demo_job 5) no_jobs) = Inr (1, s1)"
  "\<exists>s1. JS_AddJobToSched demo_env 200 (given 200 demo_once no_jobs) = Inr (1, s1)"
  using demo_accepted(1) [of 200 5] demo_accepted(2) [of 200] demo_add [of 200] by fastforce+

text \<open>The trap that adds the job.\<close>

definition demo_trap :: "job_var list" where
  "demo_trap = [(job_column_oid 8 @ [5], [1, 0, 0, 0]), (job_column_oid 9 @ [5], [7, 215, 7, 5, 3, 30]),
     (job_column_oid 10 @ [5], [7, 216, 7, 5, 3, 30]), (job_column_oid 13 @ [5], [4, 0, 0, 0])]"

lemma demo_trap_read:
  "read_vars (var_room demo_env) 0 demo_trap
      ((junk_job demo_env)\<lparr>iJobMasIndex := 5, iJobMasStatus := 0, iJobMasInterval := - 1, pcJobMasId := None,
        pcJobMasName := None, pcJobMasStartTime := None, pcJobMasFinishTime := None\<rparr>)
   = Inr (Some ((demo_job 5)\<lparr>iJobMasStatus := 4\<rparr>))"
  by (simp add: demo_trap_def JS_CheckField_def is_subtree_def job_column_oid_def jobProcessMasterTable_variables_oid_def
      Let_def val_integer_def JS_FillStruct_def demo_env_def demo_job_def set_text_def)

lemma demo_trap_ok: "demo_trap \<noteq> []" "\<forall>v\<in>set demo_trap. var_ok demo_env v"
  by (simp_all add: demo_trap_def var_ok_def start_known_def demo_fill JS_CheckField_def is_subtree_def
      job_column_oid_def jobProcessMasterTable_variables_oid_def)

lemma demo_trap_table: "JS_CheckTable demo_trap = Inr 1" "JS_GetIndex (hd demo_trap) = 5"
  by (simp_all add: demo_trap_def JS_CheckTable_def JS_GetIndex_def is_subtree_def job_column_oid_def)

lemma demo_trap_step: "\<exists>s. js_step\<^sup>*\<^sup>* no_jobs s \<and> tasks (sch s) 1 \<noteq> None"
proof -
  let ?j = "(demo_job 5)\<lparr>iJobMasStatus := 4\<rparr>"
  have "\<exists>t. job_task demo_env 8 ?j = Inr (?j\<lparr>uiEndTimeinNum := 1000\<rparr>, Some t)
      \<and> \<not> rejected (at_clock 3 0 0) t \<and> task_home t = 3"
    by (simp add: job_task_def demo_job_def demo_times)
  then obtain s t where s: "JS_AddJobToSched demo_env 8 (given 8 ?j no_jobs) = Inr (1, s)" "tasks (sch s) = [1 \<mapsto> t]"
    using demo_add [of 8] by fastforce
  have p: "job_malloc demo_env (jobs no_jobs) = 8" by (simp add: demo_env_def no_jobs_def)
  have "JS_ParseTrap demo_env demo_trap no_jobs = Some (Inr s)"
    using s(1) by (simp add: JS_ParseTrap_def demo_trap_table demo_trap_read p lift_res_def Let_def
        JS_UpdateJobToScheduler_def decision_def given_def)
  from js_trap [OF demo_env_ok demo_trap_ok this] s(2) show ?thesis by auto
qed

lemma no_jobs_arg [simp]: "\<not> is_arg (job_tasks no_jobs) p"
  by (simp add: is_arg_def job_tasks_def no_jobs_def)

text \<open>The job list has kept the id of a task that is gone, and a trap about its row has come in.\<close>

definition stale_list :: js_state where
  "stale_list = no_jobs\<lparr>jobs := [8 \<mapsto> demo_job 5], jlist := jlist one_job, backupInterval := 3600\<rparr>"

lemma stale_job_list: "job_rep (stListPtr stale_list) (jlist stale_list) [(5, 1)]"
  using one_job_list by (simp add: stale_list_def no_jobs_def one_job_def)

lemma stale_inv: "js_inv stale_list"
proof -
  have "args_ok (job_tasks stale_list) (jobs stale_list)" "log_ok stale_list" "master_inv (sch stale_list)"
      "log_task_id stale_list = - 1"
    by (simp_all add: args_ok_def job_tasks_def stale_list_def no_jobs_def log_ok_def)
  moreover have "- 1 \<notin> snd ` set [(5 :: 16 word, 1 :: int)]" by simp
  ultimately show ?thesis using stale_job_list unfolding js_inv_def by metis
qed

lemma stale_log: "\<exists>s'. JS_ScheduleLogInfo demo_env stale_list = Some (Inr (1, s')) \<and> log_task_id s' = 1"
proof -
  let ?t = "log_task demo_env 3600"
  have "\<not> rejected (at_clock 3 0 0) ?t" "task_home ?t < MASTER_ARR_SIZE"
    by (simp_all add: log_task_def rejected_def ValidateTask_def task_home_def)
  then show ?thesis using add_to_no_sched [of "at_clock 3 0 0" ?t]
    by (simp add: JS_ScheduleLogInfo_def stale_list_def no_jobs_def Let_def demo_env_def lift_res_def)
qed

section \<open>Properties\<close>

text \<open>C3: In every state reached by traps, nightly cleanings and new log tasks, from a state in which every
  task of a job has a live job of its own, a trap is handled to its end without a fault, the log task
  is made anew without a fault, and the thread of every task of a job finds its job: no job that a
  task still refers to has been freed, and none belongs to two tasks. The traps are those with at least
  one variable, whose time texts are shorter than 80 bytes, whose start time can be represented and
  whose numbers have four bytes (each of these the code fails to check); memory for the small
  blocks that are written untested is there; and no new log task gets an id that the job list has kept
  of a task that is gone (see \<open>log_task_of_stale_id\<close>).\<close>

theorem jobs_never_dangle:
  assumes "js_inv s0" and "js_step\<^sup>*\<^sup>* s0 s" and "js_env_ok e" and "vs \<noteq> []" and "\<forall>v\<in>set vs. var_ok e v"
  shows "(\<exists>s'. JS_ParseTrap e vs s = Some (Inr s') \<and> js_inv s')
    \<and> (\<exists>s'. JS_ScheduleLogInfo e s = Some (Inr (1, s')))
    \<and> (\<forall>i t. tasks (sch s) i = Some t \<longrightarrow> i \<noteq> log_task_id s \<longrightarrow>
        (\<exists>b. job_may_run n (vpArg t) (jobs s) = Inr b)
        \<and> (\<forall>i' t'. tasks (sch s) i' = Some t' \<longrightarrow> i' \<noteq> log_task_id s \<longrightarrow> vpArg t = vpArg t' \<longrightarrow> i = i'))"
proof -
  have inv: "js_inv s" using js_steps_inv [OF assms(2,1)] .
  then have args: "args_ok (job_tasks s) (jobs s)" by (simp add: js_inv_def)
  have own: "job_tasks s i = Some t" if "tasks (sch s) i = Some t" "i \<noteq> log_task_id s" for i t
    using that by (simp add: job_tasks_def)
  have "\<exists>b. job_may_run n (vpArg t) (jobs s) = Inr b" if "job_tasks s i = Some t" for i t
    using args_ok_arg [OF args that] by (auto simp: job_may_run_def job_at_def)
  moreover have "i = i'" if "job_tasks s i = Some t" "job_tasks s i' = Some t'" "vpArg t = vpArg t'" for i i' t t'
    using args that by (auto simp: args_ok_def)
  ultimately show ?thesis using trap_safe [OF inv assms(3-5)] log_safe [OF inv assms(3)] own by blast
qed

theorem jobs_never_dangle_witness:
  "\<exists>s s'. js_step\<^sup>*\<^sup>* no_jobs s \<and> tasks (sch s) 1 \<noteq> None
     \<and> JS_ParseTrap demo_env [(job_column_oid 13 @ [5], [6, 0, 0, 0])] s = Some (Inr s') \<and> js_inv s'"
proof -
  obtain s where s: "js_step\<^sup>*\<^sup>* no_jobs s" "tasks (sch s) 1 \<noteq> None" using demo_trap_step by blast
  have "\<forall>v\<in>set [(job_column_oid 13 @ [5], [6, 0, 0, 0 :: byte])]. var_ok demo_env v"
    by (simp add: var_ok_def JS_CheckField_def is_subtree_def job_column_oid_def
      jobProcessMasterTable_variables_oid_def)
  from jobs_never_dangle [OF no_jobs_inv s(1) demo_env_ok _ this] s show ?thesis by blast
qed

text \<open>C22: Adding a job with time texts under 80 bytes and a start time that can be represented either leaves the
  scheduler and the job list as they are and returns a failure, or stores the task made from the job
  under a new id, with the job as its argument, and puts the index and the id at the front of the job
  list. Memory for the entry of the list is assumed, and a log task that is stored with an id the list
  does not have. What a start time does that cannot be represented is \<open>unrepresentable_start_overruns\<close>.\<close>

theorem job_added:
  assumes "js_inv s" and "js_env_ok e" and "jobs s p = Some j" and "p \<noteq> NULL" and "texts_ok e j"
    and "job_rep (stListPtr s) (jlist s) l"
  shows "(\<exists>j'. JS_AddJobToSched e p s = Inr (0, s\<lparr>jobs := (jobs s)(p \<mapsto> j')\<rparr>))
    \<or> (\<exists>j' task i sc h. JS_AddJobToSched e p s = Inr (1, s\<lparr>jobs := (jobs s)(p \<mapsto> j'), sch := sc, jlist := h\<rparr>)
      \<and> job_task e p j = Inr (j', Some task) \<and> vpArg task = p
      \<and> tasks (sch s) i = None \<and> tasks sc = (tasks (sch s))(i \<mapsto> task)
      \<and> job_rep (stListPtr s) h ((iJobMasIndex j, i) # l))"
proof -
  have "master_inv (sch s)" using assms(1) by (simp add: js_inv_def)
  from add_outcome [OF this assms(6,2,3,4,5)] show ?thesis by blast
qed

theorem job_added_witness:
  "\<exists>s' task i. JS_AddJobToSched demo_env 200 (given 200 (demo_job 5) no_jobs) = Inr (1, s')
      \<and> vpArg task = 200 \<and> tasks (sch s') = [i \<mapsto> task] \<and> job_rep 1 (jlist s') [(5, i)]"
proof -
  have c: "jobs (given 200 (demo_job 5) no_jobs) = [200 \<mapsto> demo_job 5]" "stListPtr no_jobs = 1"
      "tasks (sch no_jobs) = Map.empty"
    by (simp_all add: no_jobs_def)
  have "jobs (given 200 (demo_job 5) no_jobs) 200 = Some (demo_job 5)" by simp
  from job_added [OF given_inv [OF no_jobs_inv] demo_env_ok this, of "[]"] demo_adds(1) show ?thesis
    using no_jobs_list c by auto blast
qed

text \<open>C20: A job that was added and is deleted by the next trap about the same row leaves the tasks, the job list
  and the other jobs as they were before. The job has time texts under 80 bytes and a start time that
  can be represented, the structures of the two traps are different and no task's argument, memory for
  the small blocks is there, and the id of the log task is not in the job list.\<close>

theorem add_then_delete_restores:
  assumes "js_inv s" and "js_env_ok e" and "jobs s p = Some j" and "p \<noteq> NULL"
    and "\<not> is_arg (job_tasks s) p" and "texts_ok e j" and "job_rep (stListPtr s) (jlist s) l"
    and "JS_AddJobToSched e p s = Inr (1, s1)"
    and "iJobMasIndex k = iJobMasIndex j" and "q \<noteq> NULL" and "q \<noteq> p" and "\<not> is_arg (job_tasks s) q"
  shows "\<exists>s2. JS_DeleteFromSched e q (s1\<lparr>jobs := (jobs s1)(q \<mapsto> k)\<rparr>) = Some (Inr (1, s2))
    \<and> tasks (sch s2) = tasks (sch s) \<and> job_rep (stListPtr s) (jlist s2) l
    \<and> jobs s2 = (jobs s)(p := None, q := None)"
proof -
  have "master_inv (sch s)" using assms(1) by (simp add: js_inv_def)
  from add_outcome [OF this assms(7,2,3,4,6)] assms(8) obtain j' task i sc h where
    a: "s1 = s\<lparr>jobs := (jobs s)(p \<mapsto> j'), sch := sc, jlist := h\<rparr>" "vpArg task = p" "tasks (sch s) i = None"
      "tasks sc = (tasks (sch s))(i \<mapsto> task)" "job_rep (stListPtr s) h ((iJobMasIndex j, i) # l)" "0 < i"
    by auto
  obtain r s1' where "JS_AddJobToSched e p s = Inr (r, s1')" "js_inv s1'"
    using add_safe [OF assms(1-6)] by blast
  then have "js_inv s1" using assms(8) by simp
  then have inv: "js_inv (given q k s1)" by (rule given_inv)
  have "\<not> is_arg ((job_tasks s)(i \<mapsto> task)) q" using is_arg_insert [OF assms(12)] a(2) assms(11) by auto
  moreover have "job_tasks s1 = (job_tasks s)(i \<mapsto> task)"
    using a(1,4) js_inv_fresh [OF assms(1) \<open>0 < i\<close> a(3)] by (auto simp: job_tasks_def)
  ultimately have na: "\<not> is_arg (job_tasks (given q k s1)) q" by simp
  have rep: "job_rep (stListPtr (given q k s1)) (jlist (given q k s1)) ((iJobMasIndex j, i) # l)"
    using a(1,5) by simp
  have own: "jobs (given q k s1) q = Some k" by simp
  have t: "tasks (sch (given q k s1)) (task_of ((iJobMasIndex j, i) # l) (iJobMasIndex k)) = Some task"
    using a(1,4) assms(9) by (simp add: task_of_def)
  from delete_outcome [OF inv rep assms(2) own assms(10) na t] a assms(9,11)
  show ?thesis by (auto simp: given_def task_of_def fun_eq_iff)
qed

theorem add_then_delete_restores_witness:
  "\<exists>s1 s2. JS_AddJobToSched demo_env 200 (given 200 (demo_job 5) no_jobs) = Inr (1, s1)
    \<and> JS_DeleteFromSched demo_env 8 (s1\<lparr>jobs := (jobs s1)(8 \<mapsto> demo_job 5)\<rparr>) = Some (Inr (1, s2))
    \<and> tasks (sch s2) = Map.empty \<and> jobs s2 = Map.empty"
proof -
  obtain s1 where a: "JS_AddJobToSched demo_env 200 (given 200 (demo_job 5) no_jobs) = Inr (1, s1)"
    using demo_adds by blast
  have c: "jobs (given 200 (demo_job 5) no_jobs) 200 = Some (demo_job 5)" "\<And>p. \<not> is_arg (job_tasks (given 200 (demo_job 5) no_jobs)) p"
      "job_rep (stListPtr (given 200 (demo_job 5) no_jobs)) (jlist (given 200 (demo_job 5) no_jobs)) []"
    using no_jobs_list by simp_all
  from add_then_delete_restores [OF given_inv [OF no_jobs_inv] demo_env_ok c(1) _ c(2) demo_job_ok(1) c(3) a _ _ _ c(2),
    of "demo_job 5" 8] a show ?thesis by (auto simp: no_jobs_def)
qed

text \<open>Deleting a job whose task is stored removes the task and frees the structure of the job, but every
  entry of the hour's list that was planned with that job as its argument stays there, and no change is
  signalled to the scheduler: the thread such an entry starts reads the freed structure. This is for
  a trap with a structure of its own, enough memory, and the list of the hour as it was built.\<close>

theorem deleted_job_still_planned:
  assumes "js_inv s" and "job_rep (stListPtr s) (jlist s) l" and "js_env_ok e"
    and "jobs s p = Some j" and "p \<noteq> NULL" and "\<not> is_arg (job_tasks s) p"
    and "tasks (sch s) (task_of l (iJobMasIndex j)) = Some task"
    and "exec_linked (sch s) es" and "x \<in> set es" and "xvpArg (snd x) = vpArg task"
  shows "\<exists>s'. JS_DeleteFromSched e p s = Some (Inr (1, s'))
    \<and> tasks (sch s') = (tasks (sch s))(task_of l (iJobMasIndex j) := None)
    \<and> exec_linked (sch s') es \<and> gbTaskChanged (sch s') = gbTaskChanged (sch s)
    \<and> job_may_run n (xvpArg (snd x)) (jobs s') = Inl (BadPtr (vpArg task))"
proof -
  let ?i = "task_of l (iJobMasIndex j)"
  obtain sc h where d: "JS_DeleteFromSched e p s = Some (Inr (1, s\<lparr>sch := sc,
        jobs := (if (iJobMasIndex j, ?i) \<in> set l then (jobs s)(vpArg task := None, p := None)
          else (jobs s)(vpArg task := None)), jlist := h\<rparr>))"
      "SCH_DeleteTask ?i (sch s) = Some (Inr (NASC_SUCCESS, sc))" "tasks sc = (tasks (sch s))(?i := None)"
    using delete_outcome [OF assms(1-7)] by blast
  have "gExecList sc = gExecList (sch s)" "eheap sc = eheap (sch s)" "gbTaskChanged sc = gbTaskChanged (sch s)"
    using d(2) by (auto simp: SCH_DeleteTask_def obind_eq_Some_Inr split: prod.splits)
  with d assms(8,10) show ?thesis by (simp add: job_may_run_def job_at_def exec_linked_def)
qed

text \<open>The list of the hour of the job at address 200, as the scheduler builds it.\<close>

lemma demo_planned:
  "\<exists>sc y. BuildExecutionList bump (at_clock 3 0 0) (sch one_job) = Some (Inr sc)
     \<and> exec_linked sc [y] \<and> xvpArg (snd y) = 200 \<and> js_inv (one_job\<lparr>sch := sc\<rparr>)
     \<and> tasks sc = [1 \<mapsto> daily_task]"
proof -
  let ?s = "one_task daily_task" and ?xss = "no_tasks[3 := [(1, daily_task)]]"
  have ok: "master_ok ?s ?xss" using one_task_master [of daily_task] by simp
  have clk: "tm_ok (at_clock 3 0 0)" by (simp add: at_clock_ok)
  obtain sc where sc: "BuildExecutionList bump (at_clock 3 0 0) ?s = Some (Inr sc)"
      "exec_extends ?s [] (exec_plan (at_clock 3 0 0) (map snd (?xss ! 24)) (map snd (?xss ! nat (tm_hour (at_clock 3 0 0))))) sc"
    using BuildExecutionList_plan [OF ok one_task_exec_ok clk bump_alloc_ok bump_mem_suffices] by blast
  have "exec_plan (at_clock 3 0 0) (map snd (?xss ! 24)) (map snd (?xss ! nat (tm_hour (at_clock 3 0 0))))
      = [exec_of daily_task 1800]"
    by (simp add: exec_plan_def hour_plan_def due_this_hour_def daily_task_def task_at_def at_clock_def start_offset_def)
  then obtain ns where ns: "exec_ok sc ns" "map snd ns = [exec_of daily_task 1800]"
    using sc(2) by (auto simp: exec_extends_def)
  then obtain y where y: "ns = [y]" "xvpArg (snd y) = 200" by (cases ns) (auto simp: exec_of_def daily_arg)
  have same: "mheap sc = mheap ?s" "gSchMasterTable sc = gSchMasterTable ?s" using exec_extends_mheap [OF sc(2)] by simp_all
  have "tasks sc = tasks ?s" by (rule ext) (simp only: tasks_def same)
  then have t: "tasks sc = [1 \<mapsto> daily_task]" by simp
  have "master_ok sc ?xss" using ok same by (simp add: master_ok_def)
  then have "master_inv sc" by (auto simp: master_inv_def)
  then have "js_inv (one_job\<lparr>sch := sc\<rparr>)" using one_job_inv t by (simp add: js_inv_def log_ok_def)
  moreover have "sch one_job = ?s" by (simp add: one_job_def)
  ultimately show ?thesis using sc(1) ns(1) y t unfolding exec_ok_def by metis
qed

theorem deleted_job_still_planned_witness:
  "\<exists>sc y s'. BuildExecutionList bump (at_clock 3 0 0) (sch one_job) = Some (Inr sc)
    \<and> JS_DeleteFromSched demo_env 8 (given 8 (demo_job 5) (one_job\<lparr>sch := sc\<rparr>)) = Some (Inr (1, s'))
    \<and> exec_linked (sch s') [y] \<and> job_may_run 0 (xvpArg (snd y)) (jobs s') = Inl (BadPtr 200)"
proof -
  obtain sc y where b: "BuildExecutionList bump (at_clock 3 0 0) (sch one_job) = Some (Inr sc)"
      "exec_linked sc [y]" "xvpArg (snd y) = 200" "js_inv (one_job\<lparr>sch := sc\<rparr>)" "tasks sc = [1 \<mapsto> daily_task]"
    using demo_planned by blast
  let ?s = "given 8 (demo_job 5) (one_job\<lparr>sch := sc\<rparr>)"
  have c: "jobs ?s 8 = Some (demo_job 5)" "\<not> is_arg (job_tasks ?s) 8"
      "job_rep (stListPtr ?s) (jlist ?s) [(5, 1)]"
      "tasks (sch ?s) (task_of [(5, 1)] (iJobMasIndex (demo_job 5))) = Some daily_task"
      "exec_linked (sch ?s) [y]" "y \<in> set [y]" "xvpArg (snd y) = vpArg daily_task"
    using one_job_list b(2,3,5) one_job_args by (simp_all add: task_of_def daily_arg job_tasks_def fun_upd_idem)
  have "(8 :: nat) \<noteq> NULL" by simp
  from deleted_job_still_planned [OF given_inv [OF b(4)] c(3) demo_env_ok c(1) this c(2,4-7), of 0] obtain s' where
      "JS_DeleteFromSched demo_env 8 ?s = Some (Inr (1, s'))" "exec_linked (sch s') [y]"
      "job_may_run 0 (xvpArg (snd y)) (jobs s') = Inl (BadPtr 200)"
    by (auto simp: daily_arg)
  then show ?thesis using b(1) by blast
qed

text \<open>C32: The job list keeps the id of a task that is gone (one the nightly cleaning dropped, or one whose
  modification was rejected). When the log task is made anew and gets that id, as a node of the task
  table may be reused, the trap that deletes the job deletes the log task and frees the uninitialised
  word that is its argument: with an address that is no job's the process faults.\<close>

theorem log_task_of_stale_id:
  assumes "js_inv s" and "js_env_ok e" and "job_rep (stListPtr s) (jlist s) l"
    and "backupInterval s \<noteq> iInterVal s" and "JS_ScheduleLogInfo e s = Some (Inr (r, s'))"
    and "jobs s p = Some j" and "p \<noteq> NULL"
    and "task_of l (iJobMasIndex j) = log_task_id s'" and "log_task_id s' \<noteq> - 1"
    and "vpArg (junk_task e) \<noteq> NULL" and "jobs s (vpArg (junk_task e)) = None"
  shows "JS_DeleteFromSched e p s' = Some (Inl (BadPtr (vpArg (junk_task e))))"
proof -
  let ?i = "log_task_id s'"
  have t: "tasks (sch s') ?i = Some (log_task e (backupInterval s))" "master_inv (sch s')" "jobs s' = jobs s"
      "jlist s' = jlist s" "stListPtr s' = stListPtr s"
    using log_safe [OF assms(1,2)] assms(4,5,9) by auto
  have room: "copy_room e" using assms(2) by (simp add: js_env_ok_def)
  obtain sc where "SCH_DeleteTask ?i (sch s') = Some (Inr (NASC_SUCCESS, sc))"
    using ms.del_law [OF t(2), of ?i] t(1) by auto
  moreover have "vpArg (log_task e v) = vpArg (junk_task e)" for v by (simp add: log_task_def)
  moreover have "job_rep (stListPtr s') (jlist s') l" using assms(3) t(4,5) by simp
  ultimately show ?thesis
    using assms(6-11) t(1,3) room jl.get_law [of "stListPtr s'" "jlist s'" l] ms.get_law [OF t(2)]
    by (simp add: JS_DeleteFromSched_def job_at_def lift_res_def JS_FreeJobMaster_def Let_def)
qed

theorem log_task_of_stale_id_witness:
  "\<exists>s'. JS_ScheduleLogInfo demo_env stale_list = Some (Inr (1, s'))
     \<and> JS_DeleteFromSched demo_env 8 s' = Some (Inl (BadPtr 200))"
proof -
  obtain s' where s': "JS_ScheduleLogInfo demo_env stale_list = Some (Inr (1, s'))" "log_task_id s' = 1"
    using stale_log by blast
  have c: "js_inv stale_list" "job_rep (stListPtr stale_list) (jlist stale_list) [(5, 1)]"
      "backupInterval stale_list \<noteq> iInterVal stale_list" "jobs stale_list 8 = Some (demo_job 5)"
      "vpArg (junk_task demo_env) = 200" "jobs stale_list 200 = None"
    by (simp_all add: stale_inv stale_job_list) (simp_all add: stale_list_def demo_env_def daily_arg no_jobs_def)
  then have "task_of [(5, 1)] (iJobMasIndex (demo_job 5)) = log_task_id s'" using s'(2) by (simp add: task_of_def)
  from log_task_of_stale_id [OF c(1) demo_env_ok c(2,3) s'(1) c(4) _ this] s' c(5,6) show ?thesis by auto
qed

text \<open>A start time after 2038 cannot be represented in the 32 bits of \<^verbatim>\<open>time_t\<close>: \<^verbatim>\<open>mktime\<close> fails with -1, which is
  not tested, and leaves the hour as it was in the text. For a daily job the hour is then the index
  of the list the task is put into, whatever byte it is.\<close>

theorem unrepresentable_start_overruns:
  assumes "js_inv s" and "js_env_ok e" and "\<And>t. 138 < tm_year t \<Longrightarrow> mktime e t = (- 1, t)"
    and "jobs s p = Some j" and "p \<noteq> NULL" and "iJobMasInterval j = 1"
    and "pcJobMasStartTime j = Some st" and "pcJobMasFinishTime j = Some en"
    and "length st < 80" and "5 \<le> length st" and "0 \<notin> set st" and "8 \<le> unat (st ! 0)" and "25 \<le> unat (st ! 4)"
    and "length en < 80" and "2 \<le> length en" and "0 \<notin> set en" and "8 \<le> unat (en ! 0)"
  shows "JS_AddJobToSched e p s = Inl (OutOfBounds (int (unat (st ! 4))))"
proof -
  have ct: "c_text b = b" if "0 \<notin> set b" for b using that by (auto simp: c_text_def takeWhile_eq_all_conv)
  have year: "138 < uint (b ! 0) * 256 + uint (b ! 1) - 1900" if "8 \<le> unat (b ! 0)" for b :: "byte list"
  proof -
    have "uint (b ! 0) = int (unat (b ! 0))" by simp
    then have "8 \<le> uint (b ! 0)" using that by linarith
    moreover have "0 \<le> uint (b ! 1)" by simp
    ultimately show ?thesis by linarith
  qed
  have fill: "\<exists>r. JS_FillTimeStruct (mktime e) zero_tm b = Inr (- 1, r) \<and> (5 \<le> length b \<longrightarrow> tm_hour r = uint (b ! 4))"
    if "0 \<notin> set b" "length b < 80" "2 \<le> length b" "8 \<le> unat (b ! 0)" for b
  proof -
    have l: "0 < length b" "1 < length b" "(4 < length b) = (5 \<le> length b)" "\<not> 80 \<le> length b" using that(2,3) by auto
    let ?sz = "\<lambda>i. if i < length b then uint (b ! i) else 0"
    let ?t = "zero_tm\<lparr>tm_year := ?sz 0 * 256 + ?sz 1 - 1900, tm_mon := ?sz 2 - 1, tm_mday := ?sz 3,
      tm_hour := ?sz 4, tm_min := ?sz 5, tm_sec := ?sz 6\<rparr>"
    have "138 < tm_year ?t" using year [OF that(4)] l(1,2) by simp
    then have "mktime e ?t = (- 1, ?t)" by (rule assms(3))
    then have "JS_FillTimeStruct (mktime e) zero_tm b = Inr (- 1, ?t\<lparr>tm_year := ?sz 0 * 256 + ?sz 1\<rparr>)"
      unfolding JS_FillTimeStruct_def ct [OF that(1)] Let_def if_not_P [OF l(4)] by (simp only: prod.case)
    then show ?thesis using l(3) by simp
  qed
  obtain r1 where r1: "JS_FillTimeStruct (mktime e) zero_tm st = Inr (- 1, r1)" "tm_hour r1 = uint (st ! 4)"
    using fill [of st] assms(9-12) by auto
  obtain r2 where r2: "JS_FillTimeStruct (mktime e) zero_tm en = Inr (- 1, r2)"
    using fill [of en] assms(14-17) by auto
  obtain d where d: "JS_GetDay (ctime e) (- 1) = Inr d" using assms(2) unfolding js_env_ok_def by blast
  obtain task where task: "job_task e p j = Inr (j\<lparr>uiEndTimeinNum := - 1\<rparr>, Some task)"
      "eType task = SCH_PERIODIC" "ePCity task = SCH_DAY" "eWeekDay task = SCH_ALL_DAYS"
      "ui16Hour (StartTime task) = word_of_int (uint (st ! 4))"
    by (simp add: job_task_def assms(6-8) r1 r2 d Let_def interval_fields_def start_fields_def time_fields_def
        end_fields_def)
  have "unat (word_of_int v :: 16 word) = nat v" if "0 \<le> v" "v < 256" for v
    using that by (simp add: unat_eq_nat_uint uint_word_of_int)
  from this [of "uint (st ! 4)"] have "unat (word_of_int (uint (st ! 4)) :: 16 word) = unat (st ! 4)"
    using unsigned_less [of "st ! 4", where 'a = int] by simp
  then have home: "task_home task = unat (st ! 4)" using task(3,5) by (simp add: task_home_def)
  have "\<not> rejected (now e) task" using task(2-4) by (simp add: rejected_def ValidateTask_def)
  moreover have "length (gSchMasterTable (sch s)) \<le> unat (st ! 4)"
    using assms(1,13) master_inv_table [of "sch s"] by (simp add: js_inv_def)
  ultimately have "SCH_AddTask (task_malloc e) (now e) task (sch s) = Inl (OutOfBounds (int (unat (st ! 4))))"
    using SCH_AddTask_accepted add_to_slot_oob home by metis
  then show ?thesis using assms(4,5) task(1) by (simp add: JS_AddJobToSched_def job_at_def Let_def)
qed

theorem unrepresentable_start_overruns_witness:
  "JS_AddJobToSched (demo_env\<lparr>mktime := \<lambda>t. if 138 < tm_year t then (- 1, t) else (1000, t\<lparr>tm_hour := tm_hour t mod 24\<rparr>)\<rparr>)
     8 (given 8 ((demo_job 5)\<lparr>pcJobMasStartTime := Some [8, 1, 1, 1, 99], pcJobMasFinishTime := Some [8, 2, 1, 1]\<rparr>) no_jobs)
   = Inl (OutOfBounds 99)"
proof -
  let ?e = "demo_env\<lparr>mktime := \<lambda>t. if 138 < tm_year t then (- 1, t) else (1000, t\<lparr>tm_hour := tm_hour t mod 24\<rparr>)\<rparr>"
  let ?j = "(demo_job 5)\<lparr>pcJobMasStartTime := Some [8, 1, 1, 1, 99], pcJobMasFinishTime := Some [8, 2, 1, 1]\<rparr>"
  have e: "js_env_ok ?e" using demo_env_ok by (simp add: js_env_ok_def)
  have m: "\<And>t. 138 < tm_year t \<Longrightarrow> mktime ?e t = (- 1, t)" by simp
  have j: "jobs (given 8 ?j no_jobs) 8 = Some ?j" "iJobMasInterval ?j = 1" by (simp_all add: demo_job_def)
  from unrepresentable_start_overruns [OF given_inv [OF no_jobs_inv] e m j(1) _ j(2), of "[8, 1, 1, 1, 99]" "[8, 2, 1, 1]"]
  show ?thesis by simp
qed

text \<open>A modification whose new times the scheduler rejects is reported as done, but the task is gone, its job is
  never freed, and the job list still has the id: when another job's task gets the address, a later
  trap about the row changes or deletes that job.\<close>

theorem rejected_modification_loses_task:
  assumes "js_inv s" and "job_rep (stListPtr s) (jlist s) l" and "js_env_ok e"
    and "jobs s p = Some j" and "p \<noteq> NULL" and "\<not> is_arg (job_tasks s) p"
    and "tasks (sch s) (task_of l (iJobMasIndex j)) = Some task"
    and "modify_times e j task = Inr (j', Some task')"
    and "rejected (now e) (task'\<lparr>fp := JS_PerformJobSchedAction e\<rparr>)"
    and "vpArg task' = vpArg task" and "jobs s (vpArg task) = Some m" and "copy_texts e j' m = (True, m')"
  shows "\<exists>s'. JS_ModifyJobToSched e p s = Some (Inr (1, s'))
    \<and> tasks (sch s') = (tasks (sch s))(task_of l (iJobMasIndex j) := None)
    \<and> jlist s' = jlist s \<and> JS_GetTaskID (iJobMasIndex j) (stListPtr s') (jlist s')
        = Some (Inr (task_of l (iJobMasIndex j)))
    \<and> jobs s' (vpArg task) = Some (m'\<lparr>uiEndTimeinNum := uiEndTimeinNum j'\<rparr>)"
proof -
  let ?i = "task_of l (iJobMasIndex j)" and ?t = "task'\<lparr>fp := JS_PerformJobSchedAction e\<rparr>"
  have ms: "master_inv (sch s)" using assms(1) by (simp add: js_inv_def)
  obtain sc where d: "SCH_DeleteTask ?i (sch s) = Some (Inr (NASC_SUCCESS, sc))"
      "tasks sc = (tasks (sch s))(?i := None)"
    using ms.del_law [OF ms, of ?i] assms(7) by auto
  have "SCH_ModifyTask (task_malloc e) (now e) ?i ?t (sch s) = Some (Inr (- 1, sc))"
    using d(1) SCH_AddTask_rejected [OF assms(9)] by (simp add: SCH_ModifyTask_def lift_res_def)
  moreover have "?i \<noteq> - 1" using assms(7) by (auto simp: tasks_def split: if_splits)
  moreover note own = js_inv_job_task(2) [OF assms(1,2,7)]
  then have "vpArg task \<noteq> p" using assms(6) by (auto simp: is_arg_def)
  moreover have "args_ok (job_tasks s) (jobs s)" using assms(1) by (simp add: js_inv_def)
  from args_ok_arg [OF this own] have "vpArg task \<noteq> NULL" by simp
  moreover have "copy_room e" using assms(3) by (simp add: js_env_ok_def)
  ultimately show ?thesis
    using assms(4,5,7,8,10-12) jl.get_law [OF assms(2)] ms.get_law [OF ms] d(2)
    by (simp add: JS_ModifyJobToSched_def replace_id_def job_at_def lift_res_def Let_def free_job)
qed

theorem rejected_modification_loses_task_witness:
  "\<exists>s'. JS_ModifyJobToSched demo_env 8 (given 8 ((demo_job 5)\<lparr>iJobMasInterval := 0,
      pcJobMasStartTime := Some [7, 214, 7, 5, 3, 30]\<rparr>) one_job) = Some (Inr (1, s'))
    \<and> tasks (sch s') = Map.empty \<and> jobs s' 200 \<noteq> None"
proof -
  let ?j = "(demo_job 5)\<lparr>iJobMasInterval := 0, pcJobMasStartTime := Some [7, 214, 7, 5, 3, 30]\<rparr>"
  let ?s = "given 8 ?j one_job"
  have c: "jobs ?s 8 = Some ?j" "\<not> is_arg (job_tasks ?s) 8" "job_rep (stListPtr ?s) (jlist ?s) [(5, 1)]"
      "tasks (sch ?s) (task_of [(5, 1)] (iJobMasIndex ?j)) = Some daily_task" "jobs ?s (vpArg daily_task) = Some (demo_job 5)"
    using one_job_list by (simp_all add: one_job_args task_of_def daily_arg)
  have "\<exists>t. modify_times demo_env ?j daily_task = Inr (?j\<lparr>uiEndTimeinNum := 1000\<rparr>, Some t)
      \<and> rejected (now demo_env) (t\<lparr>fp := JS_PerformJobSchedAction demo_env\<rparr>) \<and> vpArg t = vpArg daily_task"
    by (simp add: modify_times_def demo_job_def demo_times) (simp add: demo_env_def at_clock_def)
  then obtain t where m: "modify_times demo_env ?j daily_task = Inr (?j\<lparr>uiEndTimeinNum := 1000\<rparr>, Some t)"
      "rejected (now demo_env) (t\<lparr>fp := JS_PerformJobSchedAction demo_env\<rparr>)" "vpArg t = vpArg daily_task"
    by blast
  obtain m' where "copy_texts demo_env (?j\<lparr>uiEndTimeinNum := 1000\<rparr>) (demo_job 5) = (True, m')"
    by (simp add: copy_texts_def copy_text_def demo_env_def demo_job_def)
  from rejected_modification_loses_task [OF given_inv [OF one_job_inv] c(3) demo_env_ok c(1) _ c(2,4) m c(5) this]
  show ?thesis by (auto simp: daily_arg task_of_def)
qed

text \<open>A time text is copied as a C string: when its hour is midnight the minutes and the seconds behind the
  zero byte are lost, whatever they are.\<close>

theorem midnight_times_are_cut:
  assumes "0 \<notin> set ymd" and "length ymd = 4"
  shows "JS_FillTimeStruct mk tm0 (ymd @ 0 # rest) = JS_FillTimeStruct mk tm0 (ymd @ [0, 0, 0])"
proof -
  have "c_text (ymd @ 0 # r) = ymd" for r
    using assms(1) by (auto simp: c_text_def takeWhile_append)
  then show ?thesis by (simp add: JS_FillTimeStruct_def)
qed

theorem midnight_times_are_cut_witness:
  "JS_FillTimeStruct (\<lambda>t. (1, t)) zero_tm [7, 215, 7, 5, 0, 45, 10]
    = JS_FillTimeStruct (\<lambda>t. (1, t)) zero_tm [7, 215, 7, 5, 0, 0, 0]"
  using midnight_times_are_cut [of "[7, 215, 7, 5]" "\<lambda>t. (1, t)" zero_tm "[45, 10]"] by simp

lemma read_vars_end_time:
  "read_vars room k vs j = Inr (Some j') \<Longrightarrow> uiEndTimeinNum j' = uiEndTimeinNum j"
  by (induction vs arbitrary: k j)
    (auto simp: Let_def rbind_eq_Inr set_text_def split: if_splits)

text \<open>A job without an interval that a trap schedules never gets an end time: whether its thread runs it is
  decided by the uninitialised contents of the structure \<^verbatim>\<open>malloc\<close> returned.\<close>

theorem one_shot_end_time_unset:
  assumes "read_vars room 0 vs ((junk_job e)\<lparr>iJobMasIndex := i, iJobMasStatus := 0, iJobMasInterval := - 1,
      pcJobMasId := None, pcJobMasName := None, pcJobMasStartTime := None, pcJobMasFinishTime := None\<rparr>)
      = Inr (Some j)"
    and "iJobMasInterval j = 0" and "JS_AddJobToSched e p (s\<lparr>jobs := (jobs s)(p \<mapsto> j)\<rparr>) = Inr (1, s')"
  shows "job_may_run n p (jobs s') = Inr (\<not> uiEndTimeinNum (junk_job e) < n)"
proof -
  have p: "p \<noteq> NULL"
  proof
    assume "p = NULL"
    then show False using assms(3) by (simp add: JS_AddJobToSched_def)
  qed
  have "\<And>j' t. job_task e p j = Inr (j', t) \<Longrightarrow> j' = j"
    using assms(2) by (auto simp: job_task_def Let_def rbind_eq_Inr split: option.splits if_splits prod.splits)
  then have "jobs s' p = Some j" using assms(3) p
    by (auto simp: JS_AddJobToSched_def job_at_def Let_def rbind_eq_Inr split: option.splits if_splits prod.splits)
  then show ?thesis using p read_vars_end_time [OF assms(1)] by (simp add: job_may_run_def job_at_def)
qed

theorem one_shot_end_time_unset_witness:
  "\<exists>s'. JS_AddJobToSched demo_env 200 (given 200 demo_once no_jobs) = Inr (1, s')
    \<and> job_may_run 5 200 (jobs s') = Inr False"
proof -
  obtain s' where a: "JS_AddJobToSched demo_env 200 (given 200 demo_once no_jobs) = Inr (1, s')"
    using demo_adds(2) by blast
  have "read_vars room 0 [(job_column_oid 8 @ [5], [0, 0, 0, 0]), (job_column_oid 9 @ [5], [7, 215, 7, 5, 3, 30])]
      ((junk_job demo_env)\<lparr>iJobMasIndex := 5, iJobMasStatus := 0, iJobMasInterval := - 1, pcJobMasId := None,
        pcJobMasName := None, pcJobMasStartTime := None, pcJobMasFinishTime := None\<rparr>) = Inr (Some demo_once)"
    if "room = (\<lambda>_. True)" for room
    using that by (simp add: JS_CheckField_def is_subtree_def job_column_oid_def jobProcessMasterTable_variables_oid_def
      Let_def val_integer_def JS_FillStruct_def demo_env_def demo_job_def demo_once_def set_text_def)
  from one_shot_end_time_unset [OF this [OF refl], of 200 no_jobs s' 5] a show ?thesis
    by (auto simp: demo_once_def given_def demo_env_def demo_job_def)
qed

end
