(* ===== verification/TrapQueue.thy ===== *)
theory TrapQueue
  imports Prelude
begin

text \<open>
  The circular queue between the thread that receives traps and the one that processes them
  (\<^verbatim>\<open>src/Group2/Unix/JobSched/src/NASCenter_JS.c\<close>). A PDU is a value of type \<open>'a\<close>; an entry that is
  NULL is \<^const>\<open>None\<close>. The interface of a bounded queue is the locale \<open>bounded_fifo\<close>; the model of the code
  satisfies it as long as the queue does not overflow.
\<close>

record 'a SCBuffer =
  iQRear :: int
  iQFront :: int
  queueEntry :: "'a option list"

abbreviation (input) JS_MAX_ELEMENT :: nat where "JS_MAX_ELEMENT \<equiv> 14"

datatype lock_act = Lock | Unlock | Signal

definition JS_InitCBuffer :: "'a SCBuffer \<Rightarrow> 'a SCBuffer" where
  "JS_InitCBuffer q = q\<lparr>iQRear := - 1, iQFront := 0\<rparr>"

definition JS_IsQueueEmpty :: "'a SCBuffer \<Rightarrow> bool" where
  "JS_IsQueueEmpty q \<longleftrightarrow> (iQRear q + 1) mod 14 = iQFront q"

definition JS_IsQueue_Full :: "'a SCBuffer \<Rightarrow> bool" where
  "JS_IsQueue_Full q \<longleftrightarrow> (iQRear q + 2) mod 14 = iQFront q"

text \<open>The callback for a trap: when the queue is full the mutex is released and the code goes on.\<close>

definition JS_ListenTrap :: "'a \<Rightarrow> 'a SCBuffer \<Rightarrow> lock_act list \<times> 'a SCBuffer" where
  "JS_ListenTrap pdu q =
    (let rear = (iQRear q + 1) mod 14 in
     ([Lock] @ (if JS_IsQueue_Full q then [Unlock] else []) @ [Signal, Unlock],
      q\<lparr>iQRear := rear, queueEntry := (queueEntry q)[nat rear := Some pdu]\<rparr>))"

text \<open>Reading the entry at the front: \<^verbatim>\<open>snmp_clone_pdu\<close> of a NULL pointer is a fault.\<close>

definition take_entry :: "'a SCBuffer \<Rightarrow> ('a \<times> 'a SCBuffer) res" where
  "take_entry q =
    (if nat (iQFront q) < length (queueEntry q)
     then case queueEntry q ! nat (iQFront q) of
         None \<Rightarrow> Inl (BadPtr NULL)
       | Some trapPDU \<Rightarrow> Inr (trapPDU,
           q\<lparr>queueEntry := (queueEntry q)[nat (iQFront q) := None], iQFront := (iQFront q + 1) mod 14\<rparr>)
     else Inl (OutOfBounds (iQFront q)))"

text \<open>
  One turn of the processing thread up to the message: \<open>wake\<close> is the queue when the wait for the
  condition returns, which happens once.
\<close>

definition JS_ProcessTrapMsg :: "('a SCBuffer \<Rightarrow> 'a SCBuffer) \<Rightarrow> 'a SCBuffer \<Rightarrow> ('a \<times> 'a SCBuffer) res" where
  "JS_ProcessTrapMsg wake q = take_entry (if JS_IsQueueEmpty q then wake q else q)"

section \<open>The interface\<close>

datatype 'a queue_event = Put 'a | Take

text \<open>What a sequence of arrivals and reads delivers, and the queue left.\<close>

fun queue_run :: "('a \<Rightarrow> 'q \<Rightarrow> 'q) \<Rightarrow> ('q \<Rightarrow> ('a \<times> 'q) res) \<Rightarrow> 'a queue_event list \<Rightarrow> 'q \<Rightarrow> ('a list \<times> 'q) res" where
  "queue_run put tk [] q = Inr ([], q)"
| "queue_run put tk (Put x # es) q = queue_run put tk es (put x q)"
| "queue_run put tk (Take # es) q = rbind (tk q) (\<lambda>(x, q).
     rbind (queue_run put tk es q) (\<lambda>(xs, q). Inr (x # xs, q)))"

text \<open>The same sequence on a list, when at most \<open>n\<close> messages wait and none is read from an empty queue.\<close>

fun fits_run :: "nat \<Rightarrow> 'a queue_event list \<Rightarrow> nat \<Rightarrow> bool" where
  "fits_run n [] k \<longleftrightarrow> True"
| "fits_run n (Put x # es) k \<longleftrightarrow> k < n \<and> fits_run n es (k + 1)"
| "fits_run n (Take # es) k \<longleftrightarrow> 0 < k \<and> fits_run n es (k - 1)"

fun arrivals :: "'a queue_event list \<Rightarrow> 'a list" where
  "arrivals [] = []"
| "arrivals (Put x # es) = x # arrivals es"
| "arrivals (Take # es) = arrivals es"

locale bounded_fifo =
  fixes rep :: "'q \<Rightarrow> 'a list \<Rightarrow> bool"
    and cap :: nat
    and put :: "'a \<Rightarrow> 'q \<Rightarrow> 'q"
    and tk :: "'q \<Rightarrow> ('a \<times> 'q) res"
  assumes put_law: "rep q xs \<Longrightarrow> length xs < cap \<Longrightarrow> rep (put x q) (xs @ [x])"
    and take_law: "rep q (x # xs) \<Longrightarrow> \<exists>q'. tk q = Inr (x, q') \<and> rep q' xs"
begin

text \<open>Every message is delivered once, in the order of arrival.\<close>

lemma delivers_in_order:
  "rep q xs \<Longrightarrow> fits_run cap es (length xs) \<Longrightarrow>
   \<exists>ys q' zs. queue_run put tk es q = Inr (ys, q') \<and> rep q' zs \<and> ys @ zs = xs @ arrivals es"
proof (induction es arbitrary: q xs)
  case (Cons e es)
  show ?case
  proof (cases e)
    case (Put x)
    then show ?thesis using Cons.IH [OF put_law [OF Cons.prems(1), of x]] Cons.prems(2) by auto
  next
    case Take
    then obtain x xs' where xs: "xs = x # xs'" using Cons.prems(2) by (cases xs) auto
    obtain q' where q': "tk q = Inr (x, q')" "rep q' xs'" using take_law Cons.prems(1) xs by blast
    obtain ys q'' zs where "queue_run put tk es q' = Inr (ys, q'')" "rep q'' zs" "ys @ zs = xs' @ arrivals es"
      using Cons.IH [OF q'(2)] Cons.prems(2) Take xs by auto
    then show ?thesis using q'(1) Take xs by auto
  qed
qed auto

end

section \<open>The code provides it\<close>

definition queue_rep :: "'a SCBuffer \<Rightarrow> 'a list \<Rightarrow> bool" where
  "queue_rep q xs \<longleftrightarrow> length (queueEntry q) = JS_MAX_ELEMENT \<and> length xs < JS_MAX_ELEMENT
   \<and> 0 \<le> iQFront q \<and> iQFront q < 14 \<and> (iQRear q + 1) mod 14 = (iQFront q + int (length xs)) mod 14
   \<and> - 1 \<le> iQRear q
   \<and> (\<forall>i<JS_MAX_ELEMENT. queueEntry q ! ((nat (iQFront q) + i) mod 14)
        = (if i < length xs then Some (xs ! i) else None))"

lemma nat_mod14: "0 \<le> a \<Longrightarrow> nat ((a + int n) mod 14) = (nat a + n) mod 14"
  by (simp add: nat_mod_distrib nat_add_distrib)

lemma mod14: "f < 14 \<Longrightarrow> i < 14 \<Longrightarrow> (f + i) mod 14 = (if f + i < 14 then f + i else f + i - (14 :: nat))"
  by (simp add: le_mod_geq not_less)

lemma mod14_inj: "(f + i) mod 14 = (f + j) mod (14 :: nat) \<Longrightarrow> f < 14 \<Longrightarrow> i < 14 \<Longrightarrow> j < 14 \<Longrightarrow> i = j"
  by (auto simp: mod14 split: if_splits)

lemma int_mod14:
  "0 \<le> f \<Longrightarrow> f < 14 \<Longrightarrow> n < 15 \<Longrightarrow> (f + int n) mod 14 = (if f + int n < 14 then f + int n else f + int n - 14)"
proof -
  assume a: "0 \<le> f" "f < 14" "n < 15"
  show ?thesis
  proof (cases "f + int n < 14")
    case True
    with a show ?thesis by simp
  next
    case False
    then have "(f + int n) mod 14 = (f + int n - 14) mod 14" by (simp add: minus_mod_self2)
    also have "\<dots> = f + int n - 14"
      by (rule mod_pos_pos_trivial) (use False a in linarith)+
    finally show ?thesis using False by simp
  qed
qed

lemma put_rep:
  assumes "queue_rep q xs" "length xs < 13"
  shows "queue_rep (snd (JS_ListenTrap x q)) (xs @ [x])"
proof -
  let ?f = "nat (iQFront q)" and ?n = "length xs"
  have r: "(iQRear q + 1) mod 14 = (iQFront q + int ?n) mod 14" and f: "0 \<le> iQFront q" "iQFront q < 14"
    using assms(1) by (auto simp: queue_rep_def)
  have fn: "?f < 14" using f by linarith
  have at: "nat ((iQRear q + 1) mod 14) = (?f + ?n) mod 14" unfolding r using f(1) by (rule nat_mod14)
  have "((iQRear q + 1) mod 14 + 1) mod 14 = (iQFront q + int (Suc ?n)) mod 14"
    unfolding r by (simp add: mod_simps) (simp add: add_ac)
  moreover have "- 1 \<le> (iQFront q + int ?n) mod 14" using pos_mod_sign [of 14 "iQFront q + int ?n"] by linarith
  moreover have "(queueEntry q)[(?f + ?n) mod 14 := Some x] ! ((?f + i) mod 14)
      = (if i < Suc ?n then Some ((xs @ [x]) ! i) else None)" if "i < 14" for i
  proof (cases "i = ?n")
    case True
    then show ?thesis using assms(1) by (simp add: queue_rep_def)
  next
    case False
    then have "(?f + ?n) mod 14 \<noteq> (?f + i) mod 14" using mod14_inj [of ?f ?n i] fn that assms(2) by auto
    then show ?thesis using assms(1) that False by (auto simp: queue_rep_def nth_append)
  qed
  ultimately show ?thesis using assms f 
    by (simp add: queue_rep_def JS_ListenTrap_def Let_def at) (simp add: r nat_mod14 [OF f(1)])
qed

lemma take_rep:
  assumes "queue_rep q (x # xs)"
  shows "\<exists>q'. take_entry q = Inr (x, q') \<and> queue_rep q' xs"
proof -
  let ?f = "nat (iQFront q)"
  have f: "0 \<le> iQFront q" "iQFront q < 14" "length (queueEntry q) = 14" "length xs < 13"
    and e: "\<And>i. i < 14 \<Longrightarrow> queueEntry q ! ((?f + i) mod 14) = (if i < Suc (length xs) then Some ((x # xs) ! i) else None)"
    and r: "(iQRear q + 1) mod 14 = (iQFront q + int (Suc (length xs))) mod 14" "- 1 \<le> iQRear q"
    using assms by (auto simp: queue_rep_def)
  have fn: "?f < 14" using f(1,2) by linarith
  then have fm: "?f mod 14 = ?f" by simp
  have front: "queueEntry q ! ?f = Some x" using e [of 0] fm by simp
  let ?q = "q\<lparr>queueEntry := (queueEntry q)[?f := None], iQFront := (iQFront q + 1) mod 14\<rparr>"
  have f1: "nat ((iQFront q + 1) mod 14) = (?f + 1) mod 14" using nat_mod14 [OF f(1), of 1] by simp
  have "(queueEntry q)[?f := None] ! ((nat ((iQFront q + 1) mod 14) + i) mod 14)
      = (if i < length xs then Some (xs ! i) else None)" if i: "i < 14" for i
  proof -
    have pos: "(nat ((iQFront q + 1) mod 14) + i) mod 14 = (?f + Suc i) mod 14" unfolding f1 by (simp add: mod_simps)
    show ?thesis
    proof (cases "i = 13")
      case True
      have "(?f + Suc i) mod 14 = ?f" using True fm by simp
      then show ?thesis unfolding pos using True f by simp
    next
      case False
      then have "Suc i < 14" using i by simp
      moreover have "(?f + Suc i) mod 14 \<noteq> ?f"
        using mod14_inj [of ?f "Suc i" 0] \<open>Suc i < 14\<close> fm fn by auto
      ultimately show ?thesis unfolding pos using e [of "Suc i"] by simp
    qed
  qed
  moreover have "(iQRear q + 1) mod 14 = ((iQFront q + 1) mod 14 + int (length xs)) mod 14"
    unfolding r(1) by (simp add: mod_simps) (simp add: add_ac)
  ultimately have "queue_rep ?q xs" using f r(2) by (simp add: queue_rep_def)
  then show ?thesis using front f by (simp add: take_entry_def)
qed

lemma empty_iff: "queue_rep q xs \<Longrightarrow> JS_IsQueueEmpty q \<longleftrightarrow> xs = []"
proof -
  assume q: "queue_rep q xs"
  then have "0 \<le> iQFront q" "iQFront q < 14" "length xs < 14"
    "(iQRear q + 1) mod 14 = (iQFront q + int (length xs)) mod 14"
    by (auto simp: queue_rep_def)
  then show ?thesis using int_mod14 [of "iQFront q" "length xs"]
    by (auto simp: JS_IsQueueEmpty_def split: if_splits)
qed

lemma full_iff: "queue_rep q xs \<Longrightarrow> JS_IsQueue_Full q \<longleftrightarrow> length xs = 13"
proof -
  assume q: "queue_rep q xs"
  then have f: "0 \<le> iQFront q" "iQFront q < 14" "length xs < 14"
    "(iQRear q + 1) mod 14 = (iQFront q + int (length xs)) mod 14"
    by (auto simp: queue_rep_def)
  have "(iQRear q + 2) mod 14 = ((iQRear q + 1) mod 14 + 1) mod 14" by (simp add: mod_simps add_ac)
  also have "\<dots> = (iQFront q + int (Suc (length xs))) mod 14" unfolding f(4) by (simp add: mod_simps) (simp add: add_ac)
  finally show ?thesis using f(1-3) int_mod14 [of "iQFront q" "Suc (length xs)"]
    by (auto simp: JS_IsQueue_Full_def split: if_splits)
qed

lemma take_process: "queue_rep q (x # xs) \<Longrightarrow> JS_ProcessTrapMsg wake q = take_entry q"
  using empty_iff [of q "x # xs"] by (simp add: JS_ProcessTrapMsg_def)

interpretation tq: bounded_fifo queue_rep 13 "\<lambda>x q. snd (JS_ListenTrap x q)" "JS_ProcessTrapMsg wake" for wake
  by unfold_locales (use put_rep take_rep take_process in fastforce)+

section \<open>Properties\<close>

definition new_queue :: "'a SCBuffer" where
  "new_queue = JS_InitCBuffer \<lparr>iQRear = 0, iQFront = 0, queueEntry = replicate 14 None\<rparr>"

lemma new_queue_rep: "queue_rep new_queue []"
  by (simp add: new_queue_def JS_InitCBuffer_def queue_rep_def)

text \<open>C15: From a queue that holds \<open>xs\<close>, any sequence of arriving and processed traps in which at most 13
  wait at a time and none is taken from an empty queue delivers the waiting and the arriving traps
  once each, in the order of arrival.\<close>

theorem traps_delivered_in_order:
  assumes "queue_rep q xs" and "fits_run 13 es (length xs)"
  shows "\<exists>ys q' zs. queue_run (\<lambda>x q. snd (JS_ListenTrap x q)) (JS_ProcessTrapMsg wake) es q = Inr (ys, q')
    \<and> queue_rep q' zs \<and> ys @ zs = xs @ arrivals es"
  by (rule tq.delivers_in_order [OF assms])

theorem traps_delivered_in_order_witness:
  "\<exists>ys q' zs. queue_run (\<lambda>x q. snd (JS_ListenTrap x q)) (JS_ProcessTrapMsg id)
      [Put 1, Put 2, Take, Put (3 :: nat), Take, Take] new_queue = Inr (ys, q')
    \<and> queue_rep q' zs \<and> ys @ zs = [1, 2, 3]"
  using traps_delivered_in_order [OF new_queue_rep, of "[Put 1, Put 2, Take, Put (3 :: nat), Take, Take]" id]
  by (simp del: queue_run.simps)

text \<open>When 13 traps wait, the next one releases the mutex twice and makes the queue look empty: the
  processing thread waits although 14 traps are stored, and after one more trap it is given only
  that last one, at the place of the oldest, and the queue looks empty again.\<close>

theorem full_queue_looks_empty:
  assumes "queue_rep q xs" and "length xs = 13"
  shows "JS_IsQueue_Full q \<and> fst (JS_ListenTrap x q) = [Lock, Unlock, Signal, Unlock]
    \<and> JS_IsQueueEmpty (snd (JS_ListenTrap x q))
    \<and> (\<exists>q'. JS_ProcessTrapMsg wake (snd (JS_ListenTrap y (snd (JS_ListenTrap x q)))) = Inr (y, q')
        \<and> JS_IsQueueEmpty q')"
proof -
  let ?q1 = "snd (JS_ListenTrap x q)" and ?f = "iQFront q"
  let ?q2 = "snd (JS_ListenTrap y ?q1)"
  have f: "0 \<le> ?f" "?f < 14" "length (queueEntry q) = 14" using assms(1) by (auto simp: queue_rep_def)
  have full: "JS_IsQueue_Full q" using full_iff [OF assms(1)] assms(2) by simp
  then have r: "(iQRear q + 2) mod 14 = ?f" by (simp add: JS_IsQueue_Full_def)
  have "((iQRear q + 1) mod 14 + 1) mod 14 = (iQRear q + 2) mod 14" by (simp add: mod_simps add_ac)
  then have r2: "((iQRear q + 1) mod 14 + 1) mod 14 = ?f" using r by simp
  have e1: "JS_IsQueueEmpty ?q1" using r2 by (simp add: JS_IsQueueEmpty_def JS_ListenTrap_def Let_def)
  have q2: "?q2 = q\<lparr>iQRear := ?f, queueEntry := (queueEntry ?q1)[nat ?f := Some y]\<rparr>"
    using r2 by (simp add: JS_ListenTrap_def Let_def)
  have "(?f + 1) mod 14 \<noteq> ?f" using int_mod14 [OF f(1,2), of 1] by auto
  then have "\<not> JS_IsQueueEmpty ?q2" unfolding q2 by (simp add: JS_IsQueueEmpty_def)
  moreover have "nat ?f < length (queueEntry ?q1)" using f by (simp add: JS_ListenTrap_def Let_def)
  ultimately have "\<exists>q'. JS_ProcessTrapMsg wake ?q2 = Inr (y, q') \<and> JS_IsQueueEmpty q'"
    by (simp add: q2 JS_ProcessTrapMsg_def take_entry_def JS_IsQueueEmpty_def)
  then show ?thesis using full e1 by (simp add: JS_ListenTrap_def Let_def)
qed

lemma full_queue_rep: "queue_rep \<lparr>iQRear = 12, iQFront = 0, queueEntry = replicate 13 (Some x) @ [None]\<rparr> (replicate 13 x)"
  by (auto simp: queue_rep_def nth_append nth_Cons')

theorem full_queue_looks_empty_witness:
  "JS_IsQueueEmpty (snd (JS_ListenTrap (7 :: nat)
     \<lparr>iQRear = 12, iQFront = 0, queueEntry = replicate 13 (Some 1) @ [None]\<rparr>))"
proof -
  have l: "length (replicate 13 (1 :: nat)) = 13" by (rule length_replicate)
  show ?thesis
    by (rule full_queue_looks_empty [OF full_queue_rep l, of 7 id 7, THEN conjunct2, THEN conjunct2, THEN conjunct1])
qed

end
