(* ===== verification/FileSend.thy ===== *)
theory FileSend
  imports SchedTypes
begin

text \<open>
  The sending side of the file transfer over UDP
  (\<^verbatim>\<open>src/Group2/Unix/common/src/NASCenter_FileTrans.c\<close> and \<^verbatim>\<open>NASCenter_FileTrans_Send_Util.c\<close>, as built for
  Unix). A file is sent in windows of one memory page, a window as a burst of packets; after a burst
  the sender waits for an acknowledgement, and repeats what the receiver misses. What arrives at a
  socket is a list of events; when it is exhausted, every further wait times out. Headers are in host
  order on both sides, \<^verbatim>\<open>htonl\<close> and \<^verbatim>\<open>ntohl\<close> being inverse. Sizes and counts are natural numbers below
  $2^{31}$.
\<close>

section \<open>Packets and what a socket delivers\<close>

abbreviation (input) HND_SHAKE :: int where "HND_SHAKE \<equiv> 0"
abbreviation (input) HND_SHAKE_ACK :: int where "HND_SHAKE_ACK \<equiv> 1"
abbreviation (input) DATA :: int where "DATA \<equiv> 4"
abbreviation (input) DATA_ACK :: int where "DATA_ACK \<equiv> 5"
abbreviation (input) DATA_NEG_ACK :: int where "DATA_NEG_ACK \<equiv> 6"
abbreviation (input) MAX_NO_OF_RETRIES :: nat where "MAX_NO_OF_RETRIES \<equiv> 5"
abbreviation (input) MAX_DATA_SIZE :: nat where "MAX_DATA_SIZE \<equiv> 1100"
abbreviation (input) DEF_MSG_SIZE :: nat where "DEF_MSG_SIZE \<equiv> 512"

text \<open>A packet: the header, and the \<open>iDataLen\<close> bytes of data.\<close>

record stMsg =
  ePktType :: int
  eModuleId :: int
  iPktNo :: int
  iMmapNo :: int
  iCorrelater :: int
  cData :: "byte list"

datatype recv = Got stMsg | TimedOut | Closed | Failed | Interrupted

abbreviation (input) missing :: byte where "missing \<equiv> 48"
abbreviation (input) received :: byte where "received \<equiv> 49"

text \<open>
  Waiting for the packet with the given sequence. The data of every packet that arrives is copied
  over the packet status, also when the packet is not the one waited for; without a status (in the
  handshake) nothing is copied.
\<close>

definition copy_status :: "bool \<Rightarrow> byte list \<Rightarrow> byte list \<Rightarrow> byte list res" where
  "copy_status copy new old =
    (if \<not> copy then Inr old
     else if length new > MAX_DATA_SIZE \<or> length new > length old then Inl (OutOfBounds (int (length new)))
     else Inr (new @ drop (length new) old))"

fun FileTrans_RecvAck ::
  "int \<Rightarrow> int \<Rightarrow> bool \<Rightarrow> byte list \<Rightarrow> recv list \<Rightarrow> (ENASCenterError \<times> stMsg option \<times> byte list \<times> recv list) res" where
  "FileTrans_RecvAck iMapNo iCorr copy st [] = Inr (NASC_FILE_TRANS_TIME_OUT, None, st, [])"
| "FileTrans_RecvAck iMapNo iCorr copy st (e # es) = (case e of
     TimedOut \<Rightarrow> Inr (NASC_FILE_TRANS_TIME_OUT, None, st, es)
   | Closed \<Rightarrow> Inr (NASC_FILE_TRANS_CONN_CLOSED, None, st, es)
   | Failed \<Rightarrow> Inr (NASC_FAILURE, None, st, es)
   | Interrupted \<Rightarrow> Inr (NASC_FAILURE, None, st, es)
   | Got p \<Rightarrow> (case copy_status copy (cData p) st of
       Inl f \<Rightarrow> Inl f
     | Inr st \<Rightarrow> if iMmapNo p = iMapNo \<and> iCorrelater p = iCorr then Inr (NASC_SUCCESS, Some p, st, es)
         else FileTrans_RecvAck iMapNo iCorr copy st es))"

section \<open>The plan of a transfer\<close>

definition cdiv :: "nat \<Rightarrow> nat \<Rightarrow> nat" where
  "cdiv a b = (if a mod b \<noteq> 0 then a div b + 1 else a div b)"

record send_plan =
  iMsgSize :: nat
  iTotNoOfPkts :: nat
  iNoOfMappingNeeded :: nat
  iNoPktsPerMMap :: nat
  iExtraPktsPerMap :: nat
  iLastPktSize :: nat

definition plan_of :: "nat \<Rightarrow> nat \<Rightarrow> nat \<Rightarrow> send_plan" where
  "plan_of st_size iPageSize msg =
    (let msg = (if msg = 0 then DEF_MSG_SIZE else msg);
         msg = (if msg > MAX_DATA_SIZE then MAX_DATA_SIZE else msg);
         tot = cdiv st_size msg;
         extra = st_size mod iPageSize
     in \<lparr>iMsgSize = msg, iTotNoOfPkts = tot, iNoOfMappingNeeded = cdiv st_size iPageSize,
         iNoPktsPerMMap = (if st_size \<le> iPageSize then tot else cdiv iPageSize msg),
         iExtraPktsPerMap = (if st_size \<le> iPageSize then 0 else cdiv extra msg),
         iLastPktSize = extra mod msg\<rparr>)"

section \<open>Sending a window\<close>

text \<open>
  A page of the file in memory; behind the end of the file \<^verbatim>\<open>mmap\<close> fills the last page with zeros.
\<close>

definition page_at :: "byte list \<Rightarrow> nat \<Rightarrow> nat \<Rightarrow> byte list" where
  "page_at file iPageSize k = (let pg = take iPageSize (drop (k * iPageSize) file) in
     pg @ replicate (iPageSize - length pg) 0)"

text \<open>
  The burst: \<open>n\<close> packets are left, \<open>i\<close> is the position in the status, \<open>off\<close> the place in the page. A
  packet is sent when its status is missing. The result has the packets sent and the status.
\<close>

fun send_loop :: "(stMsg \<Rightarrow> bool) \<Rightarrow> send_plan \<Rightarrow> byte list \<Rightarrow> byte list \<Rightarrow> int \<Rightarrow> int \<Rightarrow> nat \<Rightarrow> nat \<Rightarrow> nat \<Rightarrow> nat
    \<Rightarrow> (stMsg list \<times> ENASCenterError) res" where
  "send_loop sendto pl page st m c iLastPktNo off i 0 = Inr ([], NASC_SUCCESS)"
| "send_loop sendto pl page st m c iLastPktNo off i (Suc n) =
    (let iLastPktNo = iLastPktNo + 1;
         len = (if iLastPktNo = iTotNoOfPkts pl \<and> iLastPktSize pl \<noteq> 0 then iLastPktSize pl else iMsgSize pl)
     in if i \<ge> length st then Inl (OutOfBounds (int i))
        else if st ! i \<noteq> missing then send_loop sendto pl page st m c iLastPktNo (off + len) (i + 1) n
        else if off + len > length page then Inl (OutOfBounds (int (off + len)))
        else let p = \<lparr>ePktType = DATA, eModuleId = 0, iPktNo = int iLastPktNo, iMmapNo = m, iCorrelater = c,
                   cData = take len (drop off page)\<rparr> in
          if sendto p
          then rbind (send_loop sendto pl page st m c iLastPktNo (off + len) (i + 1) n) (\<lambda>(ps, r). Inr (p # ps, r))
          else Inr ([], NASC_FAILURE))"

text \<open>\<open>room\<close>: there is memory for a copy of the data of a packet.\<close>

definition FileTrans_SendActualData :: "bool \<Rightarrow> (stMsg \<Rightarrow> bool) \<Rightarrow> send_plan \<Rightarrow> byte list \<Rightarrow> byte list \<Rightarrow> int \<Rightarrow> int
    \<Rightarrow> nat \<Rightarrow> nat \<Rightarrow> (stMsg list \<times> ENASCenterError) res" where
  "FileTrans_SendActualData room sendto pl page st m c iLastPktNo n =
    (if \<not> room then Inr ([], NASC_INSUFFICIENT_MEMORY) else send_loop sendto pl page st m c iLastPktNo 0 0 n)"

section \<open>Sending a file\<close>

record send_state =
  iMmapCntr :: nat
  piPktStatus :: "byte list"
  sMmapNo :: int
  sCorrelater :: int
  iNoOfRetries :: nat
  sLastPktNo :: nat
  sPktsPerMMap :: nat

record send_env =
  sendto :: "stMsg \<Rightarrow> bool"
  mmap :: "nat \<Rightarrow> bool"
  fileData :: "byte list"
  iPageSize :: nat
  status_room :: bool
  copy_room :: bool
  bound :: bool
  opened :: bool
  statted :: bool
  connected :: bool

text \<open>After an acknowledgement: the next window, the last one with its own number of packets.\<close>

definition next_window :: "send_plan \<Rightarrow> send_state \<Rightarrow> send_state" where
  "next_window pl s = s\<lparr>iMmapCntr := iMmapCntr s + 1, sLastPktNo := sLastPktNo s + sPktsPerMMap s,
     piPktStatus := replicate (sPktsPerMMap s + 1) missing @ drop (sPktsPerMMap s + 1) (piPktStatus s),
     sPktsPerMMap := (if iMmapCntr s + 2 = iNoOfMappingNeeded pl \<and> iExtraPktsPerMap pl \<noteq> 0
       then iExtraPktsPerMap pl else sPktsPerMMap s),
     sMmapNo := sMmapNo s + 1, sCorrelater := 1, iNoOfRetries := 0\<rparr>"

lemma RecvAck_rest:
  "FileTrans_RecvAck m c b st es = Inr (r, p, st', es') \<Longrightarrow>
   length es' \<le> length es \<and> (r = NASC_SUCCESS \<longrightarrow> length es' < length es \<and> p \<noteq> None)"
proof (induction es arbitrary: st)
  case (Cons e es)
  then show ?case by (fastforce split: recv.splits sum.splits if_splits)
qed simp

text \<open>
  The loop over the windows. The result has the bursts, one list of packets for each, and the status;
  every round sends what is missing and waits for an acknowledgement.
\<close>

function send_data :: "send_env \<Rightarrow> send_plan \<Rightarrow> send_state \<Rightarrow> recv list \<Rightarrow> (stMsg list list \<times> ENASCenterError) res" where
  "send_data e pl s es =
    (if iMmapCntr s \<ge> iNoOfMappingNeeded pl then Inr ([], NASC_SUCCESS)
     else if iNoOfRetries s > MAX_NO_OF_RETRIES then Inr ([], NASC_FAILURE)
     else case FileTrans_SendActualData (copy_room e) (sendto e) pl (page_at (fileData e) (iPageSize e) (iMmapCntr s))
         (piPktStatus s) (sMmapNo s) (sCorrelater s) (sLastPktNo s) (sPktsPerMMap s) of
       Inl f \<Rightarrow> Inl f
     | Inr (ps, r) \<Rightarrow>
       if r \<noteq> NASC_SUCCESS then Inr ([ps], r)
       else case FileTrans_RecvAck (sMmapNo s) (sCorrelater s) True (piPktStatus s) es of
         Inl f \<Rightarrow> Inl f
       | Inr (r, p, st, es') \<Rightarrow>
         (let s = s\<lparr>piPktStatus := st\<rparr>; go = (\<lambda>r. case r of Inl f \<Rightarrow> Inl f | Inr (bs, r) \<Rightarrow> Inr (ps # bs, r)) in
          if r = NASC_FILE_TRANS_TIME_OUT
          then go (send_data e pl (s\<lparr>iNoOfRetries := iNoOfRetries s + 1\<rparr>) es')
          else if r \<noteq> NASC_SUCCESS then Inr ([ps], r)
          else if ePktType (the p) = DATA_ACK then
            if iMmapCntr s + 1 \<ge> iNoOfMappingNeeded pl then Inr ([ps], NASC_SUCCESS)
            else if \<not> mmap e (iMmapCntr s + 1) then Inr ([ps], NASC_FAILURE)
            else go (send_data e pl (next_window pl s) es')
          else if ePktType (the p) = DATA_NEG_ACK
          then go (send_data e pl (s\<lparr>sCorrelater := sCorrelater s + 1, iNoOfRetries := iNoOfRetries s + 1\<rparr>) es')
          else go (send_data e pl s es')))"
  by pat_completeness auto

termination
proof (relation "measures [\<lambda>(e, pl, s, es). iNoOfMappingNeeded pl - iMmapCntr s,
    \<lambda>(e, pl, s, es). length es + (6 - iNoOfRetries s)]", goal_cases)
  case 1
  show ?case by simp
qed (use RecvAck_rest in \<open>fastforce simp: next_window_def\<close>)+

declare send_data.simps [simp del]

definition send_start :: "send_plan \<Rightarrow> send_state" where
  "send_start pl = \<lparr>iMmapCntr = 0, piPktStatus = replicate (iNoPktsPerMMap pl + 1) missing, sMmapNo = 1,
     sCorrelater = 1, iNoOfRetries = 0, sLastPktNo = 0, sPktsPerMMap = iNoPktsPerMMap pl\<rparr>"

definition FileTransfer_SendData :: "send_env \<Rightarrow> send_plan \<Rightarrow> recv list \<Rightarrow> (stMsg list list \<times> ENASCenterError) res" where
  "FileTransfer_SendData e pl es =
    (if \<not> mmap e 0 then Inr ([], NASC_FAILURE)
     else if \<not> status_room e then Inr ([], NASC_INSUFFICIENT_MEMORY)
     else send_data e pl (send_start pl) es)"

section \<open>The handshake\<close>

text \<open>The control data. Its two names are arrays of 500 bytes, zero behind the text.\<close>

record stCntrlData =
  iTotNoPkts :: nat
  iTotNoMaps :: nat
  cNoPktsPerMMap :: nat
  iNoExtraMapPackets :: nat
  iMesgSizePerPkt :: nat
  iMesgSizeForLastPkt :: nat
  pcDestPath :: "byte list"
  pcFileName :: "byte list"

abbreviation (input) MAX_PATH_LEN :: nat where "MAX_PATH_LEN \<equiv> 500"

text \<open>The control data of a plan; \<^const>\<open>None\<close> when a name is too long.\<close>

definition cntrl_data :: "send_plan \<Rightarrow> byte list \<Rightarrow> byte list option \<Rightarrow> stCntrlData option" where
  "cntrl_data pl name path =
    (if length name > MAX_PATH_LEN \<or> (case path of None \<Rightarrow> False | Some p \<Rightarrow> length p > MAX_PATH_LEN) then None
     else Some \<lparr>iTotNoPkts = iTotNoOfPkts pl, iTotNoMaps = iNoOfMappingNeeded pl,
       cNoPktsPerMMap = iNoPktsPerMMap pl, iNoExtraMapPackets = iExtraPktsPerMap pl,
       iMesgSizePerPkt = iMsgSize pl, iMesgSizeForLastPkt = iLastPktSize pl,
       pcDestPath = (case path of None \<Rightarrow> [] | Some p \<Rightarrow> p), pcFileName = name\<rparr>)"

text \<open>
  Sending the handshake until it is acknowledged: a timeout counts as two retries, and after any other
  failure the loop goes on. The result has the number of handshakes sent. The numbers of the sequence
  are 0 and 1.
\<close>

function handshake_loop :: "bool \<Rightarrow> nat \<Rightarrow> recv list \<Rightarrow> (nat \<times> ENASCenterError \<times> recv list) res" where
  "handshake_loop sent retries es =
    (if retries > MAX_NO_OF_RETRIES then Inr (0, NASC_FAILURE, es)
     else if \<not> sent then Inr (0, NASC_FAILURE, es)
     else case FileTrans_RecvAck 0 1 False [] es of
       Inl f \<Rightarrow> Inl f
     | Inr (r, p, _, es') \<Rightarrow>
       (let go = (\<lambda>r. case r of Inl f \<Rightarrow> Inl f | Inr (k, r) \<Rightarrow> Inr (k + 1, r)) in
        if r = NASC_FILE_TRANS_TIME_OUT then go (handshake_loop sent (retries + 2) es')
        else if r \<noteq> NASC_SUCCESS then go (handshake_loop sent (retries + 1) es')
        else if ePktType (the p) = HND_SHAKE_ACK then Inr (1, NASC_SUCCESS, es')
        else go (handshake_loop sent (retries + 1) es')))"
  by pat_completeness auto

termination
  by (relation "measure (\<lambda>(sent, retries, es). 6 - retries)") auto

declare handshake_loop.simps [simp del]

definition FileTransfer_InitHandshake ::
  "bool \<Rightarrow> send_plan \<Rightarrow> byte list \<Rightarrow> byte list option \<Rightarrow> recv list \<Rightarrow> (nat \<times> ENASCenterError \<times> recv list) res" where
  "FileTransfer_InitHandshake sent pl name path es =
    (case cntrl_data pl name path of
       None \<Rightarrow> Inr (0, NASC_FAILURE, es)
     | Some _ \<Rightarrow> handshake_loop sent 0 es)"

text \<open>The last component of the path; a path that ends in a slash has none, and \<^verbatim>\<open>strtok_r\<close> gives NULL.\<close>

definition base_name :: "byte list \<Rightarrow> byte list option" where
  "base_name path =
    (if 47 \<in> set path
     then let t = rev (takeWhile (\<lambda>b. b \<noteq> 47) (rev path)) in if t = [] then None else Some t
     else Some path)"

text \<open>
  The result has the number of handshakes and the bursts. The handshake succeeds or fails before the
  socket is connected, and its status is tested after that.
\<close>

definition FileTrans_SendFile ::
  "send_env \<Rightarrow> bool \<Rightarrow> byte list \<Rightarrow> bool \<Rightarrow> byte list option \<Rightarrow> nat \<Rightarrow> recv list
   \<Rightarrow> (nat \<times> stMsg list list \<times> ENASCenterError) res" where
  "FileTrans_SendFile e sent path dest dpath msg es =
    (if \<not> bound e \<or> \<not> dest \<or> \<not> opened e \<or> \<not> statted e then Inr (0, [], NASC_FAILURE)
     else let pl = plan_of (length (fileData e)) (iPageSize e) msg in
       case base_name path of
         None \<Rightarrow> Inl (BadPtr NULL)
       | Some name \<Rightarrow>
         rbind (FileTransfer_InitHandshake sent pl name dpath es) (\<lambda>(k, r, es).
         if \<not> connected e \<or> r \<noteq> NASC_SUCCESS then Inr (k, [], NASC_FAILURE)
         else rbind (FileTransfer_SendData e pl es) (\<lambda>(bs, r). Inr (k, bs, r))))"

end
