(* ===== verification/FileRecv.thy ===== *)
theory FileRecv
  imports FileSend
begin

text \<open>
  The receiving side of the file transfer (\<^verbatim>\<open>src/Group2/Unix/common/src/NASCenter_FileTrans_Recv_Util.c\<close>,
  as built for Unix): the packets of a window are kept in memory until all have arrived, then the
  window is acknowledged and written. The interface between the two sides is the locale
  \<open>segmentation\<close>: a sequence of windows with the numbers the control data announces.
\<close>

section \<open>Receiving a window\<close>

record recv_state =
  rStatus :: "byte list"
  rSlots :: "byte list list"
  iToNoOfPktsRecvd :: nat

text \<open>
  A packet's place in the window is computed from its number; a place outside the arrays is a fault.
\<close>

definition place :: "nat \<Rightarrow> int \<Rightarrow> stMsg \<Rightarrow> int" where
  "place perMap m p = iPktNo p - (m - 1) * int perMap - 1"

definition store :: "nat \<Rightarrow> int \<Rightarrow> stMsg \<Rightarrow> recv_state \<Rightarrow> recv_state" where
  "store perMap m p r = (let i = nat (place perMap m p) in
     r\<lparr>rStatus := (rStatus r)[i := received], rSlots := (rSlots r)[i := cData p],
       iToNoOfPktsRecvd := iToNoOfPktsRecvd r + 1\<rparr>)"

text \<open>\<open>room n\<close>: there is memory for a packet of \<open>n\<close> bytes. \<open>k\<close> packets of this call have been counted.\<close>

fun FileTrans_RecvDataPkt :: "(nat \<Rightarrow> bool) \<Rightarrow> nat \<Rightarrow> nat \<Rightarrow> int \<Rightarrow> int \<Rightarrow> nat \<Rightarrow> recv_state \<Rightarrow> recv list
    \<Rightarrow> (ENASCenterError \<times> recv_state \<times> recv list) res" where
  "FileTrans_RecvDataPkt room perMap expected m c k r [] =
    Inr (if k \<ge> expected then NASC_SUCCESS else NASC_FILE_TRANS_TIME_OUT, r, [])"
| "FileTrans_RecvDataPkt room perMap expected m c k r (e # es) =
    (if k \<ge> expected then Inr (NASC_SUCCESS, r, e # es)
     else case e of
       TimedOut \<Rightarrow> Inr (NASC_FILE_TRANS_TIME_OUT, r, es)
     | Closed \<Rightarrow> Inr (NASC_FILE_TRANS_CONN_CLOSED, r, es)
     | Failed \<Rightarrow> Inr (NASC_FAILURE, r, es)
     | Interrupted \<Rightarrow> FileTrans_RecvDataPkt room perMap expected m c k r es
     | Got p \<Rightarrow>
       if \<not> room (length (cData p)) then Inr (NASC_INSUFFICIENT_MEMORY, r, es)
       else if length (cData p) > MAX_DATA_SIZE then Inl (OutOfBounds (int (length (cData p))))
       else if ePktType p \<noteq> DATA then FileTrans_RecvDataPkt room perMap expected m c k r es
       else if iMmapNo p = m \<and> iCorrelater p = c then
         if place perMap m p < 0 \<or> place perMap m p \<ge> int perMap then Inl (OutOfBounds (place perMap m p))
         else FileTrans_RecvDataPkt room perMap expected m c (k + 1) (store perMap m p r) es
       else FileTrans_RecvDataPkt room perMap expected m c k r es)"

section \<open>Acknowledgements\<close>

text \<open>
  The acknowledgement, and for a negative one the number of packets that are missing. The status is
  copied into an array of 1100 bytes.
\<close>

definition count_missing :: "byte list \<Rightarrow> nat" where
  "count_missing st = length (filter (\<lambda>b. b = missing) st)"

definition ack_msg :: "int \<Rightarrow> int \<Rightarrow> int \<Rightarrow> int \<Rightarrow> byte list \<Rightarrow> stMsg" where
  "ack_msg ty mid m c st = \<lparr>ePktType = ty, eModuleId = mid, iPktNo = 0, iMmapNo = m, iCorrelater = c, cData = st\<rparr>"

definition FileTrans_SendDataAck :: "byte list \<Rightarrow> nat \<Rightarrow> int \<Rightarrow> int \<Rightarrow> int \<Rightarrow> int \<Rightarrow> (stMsg \<times> nat) res" where
  "FileTrans_SendDataAck status n m c ty mid =
    (if n > MAX_DATA_SIZE \<or> n > length status then Inl (OutOfBounds (int n))
     else let st = take n status in Inr (ack_msg ty mid m c st, count_missing st))"

section \<open>Receiving a file\<close>

record file_state =
  fRecv :: recv_state
  fMmapNo :: int
  fCorrelater :: int
  fExpected :: nat
  fPktsPerMap :: nat
  iNoOfTimeOuts :: nat
  fAcks :: "stMsg list"
  fWritten :: "byte list"

record file_env =
  packet_room :: "nat \<Rightarrow> bool"
  name_room :: bool
  can_open :: "byte list \<Rightarrow> bool"
  status_mem :: bool
  slots_mem :: bool
  dir_exists :: "byte list \<Rightarrow> bool"
  can_mkdir :: "byte list \<Rightarrow> bool"
  ack_sent :: "stMsg \<Rightarrow> bool"
  moduleId :: int

text \<open>
  After a window: its packets are written in order, the arrays are cleared, and the next window is
  awaited, the last one with its own number of packets.
\<close>

definition window_done :: "stCntrlData \<Rightarrow> file_state \<Rightarrow> file_state" where
  "window_done d s = s\<lparr>fWritten := fWritten s @ concat (take (fPktsPerMap s) (rSlots (fRecv s))),
     fRecv := (fRecv s)\<lparr>rSlots := replicate (cNoPktsPerMMap d) [], rStatus := replicate (cNoPktsPerMMap d + 1) missing\<rparr>\<rparr>"

definition window_next :: "stCntrlData \<Rightarrow> file_state \<Rightarrow> file_state" where
  "window_next d s = (let m = fMmapNo s + 1; lst = (m = int (iTotNoMaps d) \<and> iNoExtraMapPackets d \<noteq> 0) in
     s\<lparr>fMmapNo := m, fCorrelater := 1,
       fExpected := (if lst then iNoExtraMapPackets d else cNoPktsPerMMap d),
       fPktsPerMap := (if lst then iNoExtraMapPackets d else fPktsPerMap s)\<rparr>)"

text \<open>
  The loop of the receiver. A timeout is answered by a negative acknowledgement with the status, and
  the next packets are expected with the next correlater. The slots are as many as the control data
  says, so a larger last window overruns them.
\<close>

partial_function (option) recv_loop ::
  "file_env \<Rightarrow> stCntrlData \<Rightarrow> file_state \<Rightarrow> recv list \<Rightarrow> (ENASCenterError \<times> file_state \<times> recv list) run" where
  "recv_loop e d s es =
    (case FileTrans_RecvDataPkt (packet_room e) (cNoPktsPerMMap d) (fExpected s) (fMmapNo s) (fCorrelater s) 0 (fRecv s) es of
       Inl f \<Rightarrow> Some (Inl f)
     | Inr (r, rs, es) \<Rightarrow>
       let s = s\<lparr>fRecv := rs\<rparr> in
       if r = NASC_FILE_TRANS_TIME_OUT then
         let s = s\<lparr>iNoOfTimeOuts := iNoOfTimeOuts s + 1\<rparr> in
         if iNoOfTimeOuts s > MAX_NO_OF_RETRIES then Some (Inr (r, s, es))
         else (case FileTrans_SendDataAck (rStatus rs) (fPktsPerMap s) (fMmapNo s) (fCorrelater s) DATA_NEG_ACK (moduleId e) of
           Inl f \<Rightarrow> Some (Inl f)
         | Inr (a, k) \<Rightarrow>
           recv_loop e d (s\<lparr>fExpected := k, fCorrelater := fCorrelater s + 1,
             fAcks := (if ack_sent e a then fAcks s @ [a] else fAcks s)\<rparr>) es)
       else if r \<noteq> NASC_SUCCESS then Some (Inr (r, s, es))
       else let a = ack_msg DATA_ACK (moduleId e) (fMmapNo s) (fCorrelater s) [] in
         if \<not> ack_sent e a then Some (Inr (NASC_FAILURE, s, es))
         else if fPktsPerMap s > cNoPktsPerMMap d then Some (Inl (OutOfBounds (int (fPktsPerMap s))))
         else let s = window_done d (s\<lparr>fAcks := fAcks s @ [a]\<rparr>) in
           if iToNoOfPktsRecvd rs = iTotNoPkts d then Some (Inr (NASC_SUCCESS, s, es))
           else recv_loop e d (window_next d s) es)"

declare recv_loop.simps [code]

definition recv_start :: "stCntrlData \<Rightarrow> file_state" where
  "recv_start d = \<lparr>fRecv = \<lparr>rStatus = replicate (cNoPktsPerMMap d + 1) missing,
       rSlots = replicate (cNoPktsPerMMap d) [], iToNoOfPktsRecvd = 0\<rparr>,
     fMmapNo = 1, fCorrelater = 1, fExpected = cNoPktsPerMMap d, fPktsPerMap = cNoPktsPerMMap d,
     iNoOfTimeOuts = 0, fAcks = [], fWritten = []\<rparr>"

section \<open>The file\<close>

text \<open>
  Where the file goes: the directory named, the current one when none is named or it cannot be made.
  A name that fills its array of 500 bytes has no end.
\<close>

definition dest_path :: "file_env \<Rightarrow> stCntrlData \<Rightarrow> byte list res" where
  "dest_path e d =
    (if length (pcDestPath d) \<ge> MAX_PATH_LEN \<or> length (pcFileName d) \<ge> MAX_PATH_LEN
     then Inl (OutOfBounds (int MAX_PATH_LEN))
     else let p = pcDestPath d;
              dir = (if p = [] then [46] else if dir_exists e p \<or> can_mkdir e p then p else [46])
          in Inr (dir @ [47] @ pcFileName d))"

text \<open>
  Writing from the start of a file that is not truncated when it is opened.
\<close>

definition overwrite :: "byte list \<Rightarrow> byte list \<Rightarrow> byte list" where
  "overwrite new old = new @ drop (length new) old"

text \<open>
  The result: the status, the name and contents of the file when it was opened, and the
  acknowledgements. \<open>old\<close> gives the contents of the files before.
\<close>

definition FileTrans_HandleDataPkt ::
  "file_env \<Rightarrow> (byte list \<Rightarrow> byte list) \<Rightarrow> stCntrlData \<Rightarrow> recv list
   \<Rightarrow> (ENASCenterError \<times> (byte list \<times> byte list) option \<times> stMsg list) run" where
  "FileTrans_HandleDataPkt e old d es =
    obind (lift_res (dest_path e d)) (\<lambda>path.
    if \<not> name_room e \<or> \<not> can_open e path then Some (Inr (NASC_FAILURE, None, []))
    else if \<not> status_mem e \<or> \<not> slots_mem e
    then Some (Inr (NASC_INSUFFICIENT_MEMORY, Some (path, old path), []))
    else obind (recv_loop e d (recv_start d) es) (\<lambda>(r, s, _).
      Some (Inr (r, Some (path, overwrite (fWritten s) (old path)), fAcks s))))"

section \<open>Requests\<close>

text \<open>
  The well-known port. \<^verbatim>\<open>FileTrans_RecvPkt\<close> copies the header of a datagram into a variable of its own and
  leaves the caller's header as it is; only the data reach the caller, always \<open>n\<close> bytes of the zeroed
  buffer. Without a timeout it waits for ever when nothing comes: \<^const>\<open>None\<close>.
\<close>

fun FileTrans_RecvPkt :: "int \<Rightarrow> byte list \<Rightarrow> nat \<Rightarrow> recv list \<Rightarrow> (ENASCenterError \<times> int \<times> byte list \<times> recv list) option" where
  "FileTrans_RecvPkt ty pvData n [] = None"
| "FileTrans_RecvPkt ty pvData n (e # es) = (case e of
     Got p \<Rightarrow> Some (NASC_SUCCESS, ty, take n (cData p @ replicate n 0), es)
   | TimedOut \<Rightarrow> Some (NASC_FILE_TRANS_TIME_OUT, ty, pvData, es)
   | Closed \<Rightarrow> Some (NASC_FILE_TRANS_CONN_CLOSED, ty, pvData, es)
   | Failed \<Rightarrow> Some (NASC_FAILURE, ty, pvData, es)
   | Interrupted \<Rightarrow> FileTrans_RecvPkt ty pvData n es)"

lemma RecvPkt_rest: "FileTrans_RecvPkt ty d n es = Some (r, ty', d', es') \<Longrightarrow> length es' < length es"
  by (induction es) (auto split: recv.splits)

text \<open>
  The control data of the handlers that are started, in order, seven integers and two names of 500
  bytes each. The status of the call is not tested.
\<close>

abbreviation (input) CNTRL_SIZE :: nat where "CNTRL_SIZE \<equiv> 1028"

function FileTrans_ProcessRecvMsg :: "int \<Rightarrow> byte list \<Rightarrow> recv list \<Rightarrow> byte list list" where
  "FileTrans_ProcessRecvMsg ty stData es =
    (case FileTrans_RecvPkt ty stData CNTRL_SIZE es of
       None \<Rightarrow> []
     | Some (_, ty, stData, es) \<Rightarrow>
         if ty \<noteq> HND_SHAKE then FileTrans_ProcessRecvMsg ty stData es
         else stData # FileTrans_ProcessRecvMsg ty stData es)"
  by pat_completeness auto

termination
  by (relation "measure (\<lambda>(ty, d, es). length es)") (auto dest: RecvPkt_rest)

declare FileTrans_ProcessRecvMsg.simps [simp del]

text \<open>The thread of a request: it acknowledges the handshake and receives the file.\<close>

definition FileTrans_HandleRequest ::
  "file_env \<Rightarrow> (byte list \<Rightarrow> byte list) \<Rightarrow> stCntrlData \<Rightarrow> recv list
   \<Rightarrow> (ENASCenterError \<times> (byte list \<times> byte list) option \<times> stMsg list) run" where
  "FileTrans_HandleRequest e old d es =
    (let a = ack_msg HND_SHAKE_ACK (moduleId e) 0 1 [] in
     if \<not> ack_sent e a then Some (Inr (NASC_FAILURE, None, []))
     else obind (FileTrans_HandleDataPkt e old d es) (\<lambda>(r, f, as). Some (Inr (r, f, a # as))))"

section \<open>Packets that fit\<close>

definition fits_window :: "(nat \<Rightarrow> bool) \<Rightarrow> nat \<Rightarrow> int \<Rightarrow> int \<Rightarrow> stMsg \<Rightarrow> bool" where
  "fits_window room perMap m c p \<longleftrightarrow> room (length (cData p)) \<and> length (cData p) \<le> MAX_DATA_SIZE
   \<and> ePktType p = DATA \<and> iMmapNo p = m \<and> iCorrelater p = c
   \<and> 0 \<le> place perMap m p \<and> place perMap m p < int perMap"

lemma recv_fitting:
  "\<forall>p\<in>set ps. fits_window room perMap m c p \<Longrightarrow> k + length ps \<le> expected \<Longrightarrow>
   FileTrans_RecvDataPkt room perMap expected m c k r (map Got ps @ es)
     = FileTrans_RecvDataPkt room perMap expected m c (k + length ps) (fold (store perMap m) ps r) es"
  by (induction ps arbitrary: k r) (auto simp: fits_window_def)

text \<open>Packets of another window or another round, and those that are no data, are passed over.\<close>

definition passed_over :: "(nat \<Rightarrow> bool) \<Rightarrow> int \<Rightarrow> int \<Rightarrow> stMsg \<Rightarrow> bool" where
  "passed_over room m c p \<longleftrightarrow> room (length (cData p)) \<and> length (cData p) \<le> MAX_DATA_SIZE
   \<and> (ePktType p \<noteq> DATA \<or> iMmapNo p \<noteq> m \<or> iCorrelater p \<noteq> c)"

lemma recv_passed_over:
  "\<forall>p\<in>set ps. passed_over room m c p \<Longrightarrow> k < expected \<Longrightarrow>
   FileTrans_RecvDataPkt room perMap expected m c k r (map Got ps @ es)
     = FileTrans_RecvDataPkt room perMap expected m c k r es"
  by (induction ps) (auto simp: passed_over_def)

lemma recv_enough: "expected \<le> k \<Longrightarrow> FileTrans_RecvDataPkt room perMap expected m c k r es = Inr (NASC_SUCCESS, r, es)"
  by (cases es) auto

lemma recv_timeout:
  "k < expected \<Longrightarrow> FileTrans_RecvDataPkt room perMap expected m c k r (TimedOut # es)
     = Inr (NASC_FILE_TRANS_TIME_OUT, r, es)"
  by simp

text \<open>What is in the arrays afterwards, whatever the order and the repetitions.\<close>

definition places :: "nat \<Rightarrow> int \<Rightarrow> stMsg list \<Rightarrow> nat set" where
  "places perMap m ps = (\<lambda>p. nat (place perMap m p)) ` set ps"

lemma fold_store_total: "iToNoOfPktsRecvd (fold (store n m) ps r) = iToNoOfPktsRecvd r + length ps"
  by (induction ps arbitrary: r) (auto simp: store_def Let_def)

lemma fold_store_slots:
  "\<forall>p\<in>set ps. cData p = g (nat (place n m p)) \<Longrightarrow> rSlots r = map f [0..<n] \<Longrightarrow>
   rSlots (fold (store n m) ps r) = map (\<lambda>i. if i \<in> places n m ps then g i else f i) [0..<n]"
proof (induction ps arbitrary: r f)
  case (Cons p ps)
  let ?i = "nat (place n m p)"
  have "rSlots (store n m p r) = map (f(?i := g ?i)) [0..<n]"
    using Cons.prems by (auto simp: store_def Let_def intro!: nth_equalityI)
  from Cons.IH [OF _ this] Cons.prems(1) show ?case by (auto simp: places_def)
qed (simp add: places_def)

lemma fold_store_status:
  "rStatus r = map f [0..<N] \<Longrightarrow>
   rStatus (fold (store n m) ps r) = map (\<lambda>i. if i \<in> places n m ps then received else f i) [0..<N]"
proof (induction ps arbitrary: r f)
  case (Cons p ps)
  let ?i = "nat (place n m p)"
  have "rStatus (store n m p r) = map (f(?i := received)) [0..<N]"
    using Cons.prems by (auto simp: store_def Let_def intro!: nth_equalityI)
  from Cons.IH [OF this] show ?case by (auto simp: places_def)
qed (simp add: places_def)

end
