(* ===== verification/FileTransfer.thy ===== *)
theory FileTransfer
  imports FileRecv
begin

text \<open>
  The two sides of the file transfer together. The network is a schedule: for every window the rounds
  in which its packets arrive, each a list of places in the window in the order of arrival. The locale
  \<open>segmentation\<close> is what the receiver needs of the sender's windows; the pages of a file provide it
  when the message size divides the page size or the file is shorter than a page.
\<close>

section \<open>Windows and rounds\<close>

definition data_pkt :: "nat \<Rightarrow> nat \<Rightarrow> int \<Rightarrow> nat \<Rightarrow> byte list \<Rightarrow> stMsg" where
  "data_pkt perMap k c i b = \<lparr>ePktType = DATA, eModuleId = 0, iPktNo = int (k * perMap + i + 1),
     iMmapNo = int k + 1, iCorrelater = c, cData = b\<rparr>"

definition burst :: "nat \<Rightarrow> byte list list \<Rightarrow> nat \<Rightarrow> int \<Rightarrow> nat list \<Rightarrow> stMsg list" where
  "burst perMap w k c is = map (\<lambda>i. data_pkt perMap k c i (w ! i)) is"

definition status_of :: "nat \<Rightarrow> nat set \<Rightarrow> byte list" where
  "status_of n A = map (\<lambda>i. if i \<in> A then received else missing) [0..<n]"

text \<open>
  What arrives in a window: between two rounds the receiver's wait ends, before that of the sender. One
  round is a window without a loss. Schedules in which the sender's wait ends first are not of this
  form; \<open>lost_packet_unnoticed\<close> in \<open>FileProps\<close> follows one of them.
\<close>

fun round_events :: "nat \<Rightarrow> byte list list \<Rightarrow> nat \<Rightarrow> int \<Rightarrow> nat list list \<Rightarrow> recv list" where
  "round_events perMap w k c [] = []"
| "round_events perMap w k c [B] = map Got (burst perMap w k c B)"
| "round_events perMap w k c (B # Bs) = map Got (burst perMap w k c B) @ TimedOut # round_events perMap w k (c + 1) Bs"

text \<open>What the receiver answers, and which packets the sender sends, \<open>A\<close> having been received.\<close>

fun round_acks :: "int \<Rightarrow> nat \<Rightarrow> nat \<Rightarrow> int \<Rightarrow> nat set \<Rightarrow> nat list list \<Rightarrow> stMsg list" where
  "round_acks mid n k c A [] = []"
| "round_acks mid n k c A [B] = [ack_msg DATA_ACK mid (int k + 1) c []]"
| "round_acks mid n k c A (B # Bs) = ack_msg DATA_NEG_ACK mid (int k + 1) c (status_of n (A \<union> set B))
     # round_acks mid n k (c + 1) (A \<union> set B) Bs"

fun round_bursts :: "nat \<Rightarrow> byte list list \<Rightarrow> nat \<Rightarrow> int \<Rightarrow> nat set \<Rightarrow> nat list list \<Rightarrow> stMsg list list" where
  "round_bursts perMap w k c A [] = []"
| "round_bursts perMap w k c A (B # Bs) = burst perMap w k c (filter (\<lambda>i. i \<notin> A) [0..<length w])
     # round_bursts perMap w k (c + 1) (A \<union> set B) Bs"

text \<open>The same for a file: \<open>rss\<close> has the rounds of each window.\<close>

definition file_events :: "nat \<Rightarrow> (nat \<Rightarrow> byte list list) \<Rightarrow> nat list list list \<Rightarrow> recv list" where
  "file_events perMap win rss = concat (map (\<lambda>k. round_events perMap (win k) k 1 (rss ! k)) [0..<length rss])"

definition file_bursts :: "nat \<Rightarrow> (nat \<Rightarrow> byte list list) \<Rightarrow> nat list list list \<Rightarrow> stMsg list list" where
  "file_bursts perMap win rss = concat (map (\<lambda>k. round_bursts perMap (win k) k 1 {} (rss ! k)) [0..<length rss])"

definition file_acks :: "int \<Rightarrow> (nat \<Rightarrow> byte list list) \<Rightarrow> nat list list list \<Rightarrow> stMsg list" where
  "file_acks mid win rss = concat (map (\<lambda>k. round_acks mid (length (win k)) k 1 {} (rss ! k)) [0..<length rss])"

text \<open>Every packet of the window arrives in one of the rounds, and the last round brings one.\<close>

definition rounds_ok :: "nat \<Rightarrow> nat set \<Rightarrow> nat list list \<Rightarrow> bool" where
  "rounds_ok n A rs \<longleftrightarrow> rs \<noteq> [] \<and> last rs \<noteq> [] \<and> distinct (concat rs) \<and> set (concat rs) = {..<n} - A"

lemma concat_shift:
  "concat (map (\<lambda>i. f (k + i) ((x # xs) ! i)) [0..<length (x # xs)])
    = f k x @ concat (map (\<lambda>i. f (Suc k + i) (xs ! i)) [0..<length xs])"
  by (simp add: upt_conv_Cons map_Suc_upt [symmetric] comp_def del: upt_Suc)

lemma in_concat: "x \<in> set ys \<Longrightarrow> ys \<in> set xss \<Longrightarrow> x \<in> set (concat xss)"
  by auto

lemma rounds_ok_Cons:
  assumes "rounds_ok n A (B # B' # Bs)"
  shows "rounds_ok n (A \<union> set B) (B' # Bs)" and "distinct B" and "set B \<subseteq> {..<n} - A" and "A \<union> set B \<noteq> {..<n}"
proof -
  have r: "last (B' # Bs) \<noteq> []" "distinct (B @ concat (B' # Bs))" "set B \<union> set (concat (B' # Bs)) = {..<n} - A"
    using assms by (auto simp: rounds_ok_def)
  then show "rounds_ok n (A \<union> set B) (B' # Bs)" "distinct B" "set B \<subseteq> {..<n} - A"
    by (auto simp: rounds_ok_def)
  have "last (B' # Bs) \<in> set (B' # Bs)" by (rule last_in_set) simp
  moreover have "hd (last (B' # Bs)) \<in> set (last (B' # Bs))" using r(1) by simp
  ultimately have "hd (last (B' # Bs)) \<in> set (concat (B' # Bs))" by (rule in_concat [rotated])
  moreover from this have "hd (last (B' # Bs)) \<notin> set B" using r(2) unfolding distinct_append by blast
  moreover have "hd (last (B' # Bs)) \<in> {..<n} - A" using calculation(1) r(3) by blast
  ultimately show "A \<union> set B \<noteq> {..<n}" by blast
qed

lemma rounds_ok_last:
  assumes "rounds_ok n A [B]"
  shows "distinct B" and "set B = {..<n} - A" and "B \<noteq> []"
  using assms by (auto simp: rounds_ok_def)

section \<open>The interface\<close>

definition recv_good :: "file_env \<Rightarrow> bool" where
  "recv_good e \<longleftrightarrow> (\<forall>n. packet_room e n) \<and> (\<forall>a. ack_sent e a)"

text \<open>The receiver waits for window \<open>k\<close>, of which the places \<open>A\<close> have arrived.\<close>

definition waits :: "(nat \<Rightarrow> byte list list) \<Rightarrow> stCntrlData \<Rightarrow> nat \<Rightarrow> int \<Rightarrow> nat set \<Rightarrow> file_state \<Rightarrow> bool" where
  "waits win d k c A s \<longleftrightarrow> fMmapNo s = int k + 1 \<and> fCorrelater s = c \<and> A \<subseteq> {..<length (win k)}
   \<and> fExpected s = length (win k) - card A \<and> fPktsPerMap s = length (win k)
   \<and> rSlots (fRecv s) = map (\<lambda>i. if i \<in> A then win k ! i else []) [0..<cNoPktsPerMMap d]
   \<and> rStatus (fRecv s) = status_of (cNoPktsPerMMap d + 1) A
   \<and> iToNoOfPktsRecvd (fRecv s) = (\<Sum>j<k. length (win j)) + card A"

locale segmentation =
  fixes win :: "nat \<Rightarrow> byte list list" and d :: stCntrlData
  assumes some_window: "0 < iTotNoMaps d"
    and window_size: "k < iTotNoMaps d \<Longrightarrow> length (win k)
        = (if Suc k = iTotNoMaps d \<and> iNoExtraMapPackets d \<noteq> 0 then iNoExtraMapPackets d else cNoPktsPerMMap d)"
    and one_window: "iTotNoMaps d = 1 \<Longrightarrow> iNoExtraMapPackets d = 0"
    and total_packets: "(\<Sum>k<iTotNoMaps d. length (win k)) = iTotNoPkts d"
    and window_fits: "0 < cNoPktsPerMMap d" "iNoExtraMapPackets d \<le> cNoPktsPerMMap d"
    and packet_size: "k < iTotNoMaps d \<Longrightarrow> b \<in> set (win k) \<Longrightarrow> length b \<le> MAX_DATA_SIZE"
begin

lemma window_bounds: "k < iTotNoMaps d \<Longrightarrow> 0 < length (win k) \<and> length (win k) \<le> cNoPktsPerMMap d"
  using window_size window_fits by simp

lemma total_before: "k < iTotNoMaps d \<Longrightarrow> (\<Sum>j<Suc k. length (win j)) = iTotNoPkts d \<longleftrightarrow> Suc k = iTotNoMaps d"
proof
  assume k: "k < iTotNoMaps d" and eq: "(\<Sum>j<Suc k. length (win j)) = iTotNoPkts d"
  show "Suc k = iTotNoMaps d"
  proof (rule ccontr)
    assume "Suc k \<noteq> iTotNoMaps d"
    then have s: "Suc k < iTotNoMaps d" using k by simp
    have "{..<iTotNoMaps d} = {..<Suc k} \<union> {Suc k..<iTotNoMaps d}" using s by auto
    moreover have "(\<Sum>j\<in>{..<Suc k} \<union> {Suc k..<iTotNoMaps d}. length (win j))
        = (\<Sum>j<Suc k. length (win j)) + (\<Sum>j\<in>{Suc k..<iTotNoMaps d}. length (win j))"
      by (rule sum.union_disjoint) auto
    ultimately have "iTotNoPkts d = (\<Sum>j<Suc k. length (win j)) + (\<Sum>j\<in>{Suc k..<iTotNoMaps d}. length (win j))"
      using total_packets by metis
    moreover have "0 < (\<Sum>j\<in>{Suc k..<iTotNoMaps d}. length (win j))"
      using window_bounds s by (intro sum_pos) auto
    ultimately show False using eq by simp
  qed
qed (use total_packets in simp)

text \<open>The packets of a round as the receiver stores them.\<close>

lemma burst_fits:
  assumes "k < iTotNoMaps d" "set B \<subseteq> {..<length (win k)}" "recv_good e"
  shows "\<forall>p\<in>set (burst (cNoPktsPerMMap d) (win k) k c B).
    fits_window (packet_room e) (cNoPktsPerMMap d) (int k + 1) c p"
  using assms window_bounds [OF assms(1)] packet_size [OF assms(1)]
  by (fastforce simp: burst_def fits_window_def data_pkt_def place_def recv_good_def)

lemma burst_places: "places (cNoPktsPerMMap d) (int k + 1) (burst (cNoPktsPerMMap d) w k c B) = set B"
  by (auto simp: places_def burst_def data_pkt_def place_def image_image)

lemma burst_data: "\<forall>p\<in>set (burst (cNoPktsPerMMap d) w k c B). cData p = w ! nat (place (cNoPktsPerMMap d) (int k + 1) p)"
  by (auto simp: burst_def data_pkt_def place_def)

text \<open>A round on the arrays: the places of \<open>B\<close> are filled.\<close>

lemma round_stored:
  assumes "waits win d k c A s" "k < iTotNoMaps d" "distinct B" "set B \<subseteq> {..<length (win k)} - A"
  defines "r \<equiv> fold (store (cNoPktsPerMMap d) (int k + 1)) (burst (cNoPktsPerMMap d) (win k) k c B) (fRecv s)"
  shows "rSlots r = map (\<lambda>i. if i \<in> A \<union> set B then win k ! i else []) [0..<cNoPktsPerMMap d]"
    and "rStatus r = status_of (cNoPktsPerMMap d + 1) (A \<union> set B)"
    and "iToNoOfPktsRecvd r = (\<Sum>j<k. length (win j)) + card (A \<union> set B)"
    and "length B = card (A \<union> set B) - card A" and "card A \<le> card (A \<union> set B)"
proof -
  let ?n = "cNoPktsPerMMap d"
  have w: "rSlots (fRecv s) = map (\<lambda>i. if i \<in> A then win k ! i else []) [0..<?n]"
      "rStatus (fRecv s) = map (\<lambda>i. if i \<in> A then received else missing) [0..<?n + 1]"
      "iToNoOfPktsRecvd (fRecv s) = (\<Sum>j<k. length (win j)) + card A" "A \<subseteq> {..<length (win k)}"
    using assms(1) by (simp_all add: waits_def status_of_def)
  have fin: "finite A" using w(4) finite_subset by blast
  have card: "card (A \<union> set B) = card A + length B"
    using assms(3,4) fin by (subst card_Un_disjoint) (auto simp: distinct_card)
  show "rSlots r = map (\<lambda>i. if i \<in> A \<union> set B then win k ! i else []) [0..<?n]"
    unfolding r_def fold_store_slots [OF burst_data w(1)] burst_places by auto
  show "rStatus r = status_of (?n + 1) (A \<union> set B)"
    unfolding r_def fold_store_status [OF w(2)] burst_places status_of_def by auto
  show "iToNoOfPktsRecvd r = (\<Sum>j<k. length (win j)) + card (A \<union> set B)"
    unfolding r_def fold_store_total w(3) card by (simp add: burst_def)
  show "length B = card (A \<union> set B) - card A" "card A \<le> card (A \<union> set B)" using card by simp_all
qed

lemma card_missing:
  assumes "A \<subseteq> {..<n}"
  shows "count_missing (status_of n A) = n - card A"
proof -
  have "count_missing (status_of n A) = length (filter (\<lambda>i. i \<notin> A) [0..<n])"
    by (simp add: count_missing_def status_of_def filter_map comp_def)
  also have "\<dots> = card ({..<n} - A)" by (subst distinct_card [symmetric]) (auto intro: arg_cong [where f = card])
  also have "\<dots> = n - card A" using assms finite_subset by (subst card_Diff_subset) auto
  finally show ?thesis .
qed

text \<open>A round that leaves something missing, with the timeout after it.\<close>

lemma round_missing:
  assumes "waits win d k c A s" "k < iTotNoMaps d" "recv_good e" "length (win k) \<le> MAX_DATA_SIZE"
    and B: "distinct B" "set B \<subseteq> {..<length (win k)} - A" "A \<union> set B \<noteq> {..<length (win k)}"
    and t: "iNoOfTimeOuts s < 5"
  shows "\<exists>s'. recv_loop e d s (map Got (burst (cNoPktsPerMMap d) (win k) k c B) @ TimedOut # es) = recv_loop e d s' es
    \<and> waits win d k (c + 1) (A \<union> set B) s' \<and> iNoOfTimeOuts s' = iNoOfTimeOuts s + 1
    \<and> fWritten s' = fWritten s
    \<and> fAcks s' = fAcks s @ [ack_msg DATA_NEG_ACK (moduleId e) (int k + 1) c (status_of (length (win k)) (A \<union> set B))]"
proof -
  let ?n = "length (win k)" and ?N = "cNoPktsPerMMap d" and ?C = "A \<union> set B"
  let ?r = "fold (store ?N (int k + 1)) (burst ?N (win k) k c B) (fRecv s)"
  note st = round_stored [OF assms(1,2) B(1,2)]
  have w: "fMmapNo s = int k + 1" "fCorrelater s = c" "fExpected s = ?n - card A" "fPktsPerMap s = ?n" "A \<subseteq> {..<?n}"
    using assms(1) by (simp_all add: waits_def)
  have sub: "?C \<subseteq> {..<?n}" using w(5) B(2) by auto
  then have "card ?C < ?n" using psubset_card_mono [of "{..<?n}" ?C] B(3) by auto
  then have less: "length B < ?n - card A" using st(4,5) by linarith
  have len: "length (burst ?N (win k) k c B) = length B" by (simp add: burst_def)
  have "set B \<subseteq> {..<?n}" using sub by auto
  from burst_fits [OF assms(2) this assms(3)] have rx:
      "FileTrans_RecvDataPkt (packet_room e) ?N (fExpected s) (fMmapNo s) (fCorrelater s) 0 (fRecv s)
        (map Got (burst ?N (win k) k c B) @ TimedOut # es) = Inr (NASC_FILE_TRANS_TIME_OUT, ?r, es)"
    using less w(1-3) len by (subst recv_fitting) simp_all
  have bound: "?n \<le> ?N" using window_bounds [OF assms(2)] by simp
  have "take ?n (status_of (?N + 1) ?C) = status_of ?n ?C"
    using bound by (simp add: status_of_def take_map)
  then have ack: "FileTrans_SendDataAck (rStatus ?r) ?n (int k + 1) c DATA_NEG_ACK (moduleId e)
      = Inr (ack_msg DATA_NEG_ACK (moduleId e) (int k + 1) c (status_of ?n ?C), ?n - card ?C)"
    using assms(4) bound card_missing [OF sub] by (simp add: FileTrans_SendDataAck_def st(2)) (simp add: status_of_def)
  let ?s = "s\<lparr>fRecv := ?r, iNoOfTimeOuts := iNoOfTimeOuts s + 1, fExpected := ?n - card ?C, fCorrelater := c + 1,
      fAcks := fAcks s @ [ack_msg DATA_NEG_ACK (moduleId e) (int k + 1) c (status_of ?n ?C)]\<rparr>"
  have "recv_loop e d s (map Got (burst ?N (win k) k c B) @ TimedOut # es) = recv_loop e d ?s es"
    using rx ack w(1,2,4) t assms(3) by (subst recv_loop.simps) (simp add: Let_def recv_good_def)
  moreover have "waits win d k (c + 1) ?C ?s" using w sub st(1-3) by (simp add: waits_def)
  ultimately show ?thesis by (intro exI [of _ ?s]) simp
qed

text \<open>The round that completes the window.\<close>

lemma round_complete:
  assumes "waits win d k c A s" "k < iTotNoMaps d" "recv_good e"
    and B: "distinct B" "set B = {..<length (win k)} - A"
  shows "\<exists>s'. fWritten s' = fWritten s @ concat (win k) \<and> iNoOfTimeOuts s' = iNoOfTimeOuts s
    \<and> fAcks s' = fAcks s @ [ack_msg DATA_ACK (moduleId e) (int k + 1) c []]
    \<and> (if Suc k = iTotNoMaps d
        then recv_loop e d s (map Got (burst (cNoPktsPerMMap d) (win k) k c B) @ es) = Some (Inr (NASC_SUCCESS, s', es))
        else recv_loop e d s (map Got (burst (cNoPktsPerMMap d) (win k) k c B) @ es) = recv_loop e d s' es
          \<and> waits win d (Suc k) 1 {} s')"
proof -
  let ?n = "length (win k)" and ?N = "cNoPktsPerMMap d"
  let ?r = "fold (store ?N (int k + 1)) (burst ?N (win k) k c B) (fRecv s)"
  have w: "fMmapNo s = int k + 1" "fCorrelater s = c" "fExpected s = ?n - card A" "fPktsPerMap s = ?n" "A \<subseteq> {..<?n}"
    using assms(1) by (simp_all add: waits_def)
  have sub: "set B \<subseteq> {..<?n} - A" and all: "A \<union> set B = {..<?n}" using B(2) w(5) by auto
  note st = round_stored [OF assms(1,2) B(1) sub, unfolded all]
  have bound: "?n \<le> ?N" using window_bounds [OF assms(2)] by simp
  have len: "length (burst ?N (win k) k c B) = ?n - card A" using st(4) by (simp add: burst_def)
  have "set B \<subseteq> {..<?n}" using sub by auto
  from burst_fits [OF assms(2) this assms(3)] have rx:
      "FileTrans_RecvDataPkt (packet_room e) ?N (fExpected s) (fMmapNo s) (fCorrelater s) 0 (fRecv s)
        (map Got (burst ?N (win k) k c B) @ es) = Inr (NASC_SUCCESS, ?r, es)"
    using w(1-3) len by (subst recv_fitting) (simp_all add: recv_enough)
  have "take ?n (rSlots ?r) = map (\<lambda>i. win k ! i) [0..<?n]"
    unfolding st(1) using bound by (simp add: take_map)
  then have slots: "take ?n (rSlots ?r) = win k" by (simp add: map_nth)
  let ?d = "window_done d (s\<lparr>fRecv := ?r, fAcks := fAcks s @ [ack_msg DATA_ACK (moduleId e) (int k + 1) c []]\<rparr>)"
  have wd: "fWritten ?d = fWritten s @ concat (win k)" "iNoOfTimeOuts ?d = iNoOfTimeOuts s"
      "fAcks ?d = fAcks s @ [ack_msg DATA_ACK (moduleId e) (int k + 1) c []]"
    using slots w(4) by (simp_all add: window_done_def)
  have tot: "iToNoOfPktsRecvd ?r = iTotNoPkts d \<longleftrightarrow> Suc k = iTotNoMaps d"
    using total_before [OF assms(2)] st(3) by simp
  note step = recv_loop.simps [of e d s "map Got (burst ?N (win k) k c B) @ es"]
  show ?thesis
  proof (cases "Suc k = iTotNoMaps d")
    case True
    then have "recv_loop e d s (map Got (burst ?N (win k) k c B) @ es) = Some (Inr (NASC_SUCCESS, ?d, es))"
      using rx w(1,2,4) tot bound assms(3) by (subst step) (simp add: Let_def recv_good_def)
    then show ?thesis using True wd by (intro exI [of _ ?d]) simp
  next
    case False
    then have k1: "Suc k < iTotNoMaps d" using assms(2) by simp
    have "recv_loop e d s (map Got (burst ?N (win k) k c B) @ es) = recv_loop e d (window_next d ?d) es"
      using rx w(1,2,4) tot bound assms(3) False by (subst step) (simp add: Let_def recv_good_def)
    moreover have "waits win d (Suc k) 1 {} (window_next d ?d)"
      using window_size [OF k1] window_size [OF assms(2)] w(1,4) st(3) False
      by (auto simp: waits_def window_next_def window_done_def Let_def status_of_def map_replicate_const)
    ultimately show ?thesis using False wd by (intro exI [of _ "window_next d ?d"]) (simp add: window_next_def Let_def)
  qed
qed

text \<open>A whole window in its rounds.\<close>

lemma window_received:
  assumes "waits win d k c A s" "k < iTotNoMaps d" "recv_good e" "length (win k) \<le> MAX_DATA_SIZE"
    and "rounds_ok (length (win k)) A rs" and "iNoOfTimeOuts s + length rs \<le> 6"
  shows "\<exists>s'. fWritten s' = fWritten s @ concat (win k) \<and> iNoOfTimeOuts s' + 1 = iNoOfTimeOuts s + length rs
    \<and> fAcks s' = fAcks s @ round_acks (moduleId e) (length (win k)) k c A rs
    \<and> (if Suc k = iTotNoMaps d
        then recv_loop e d s (round_events (cNoPktsPerMMap d) (win k) k c rs @ es) = Some (Inr (NASC_SUCCESS, s', es))
        else recv_loop e d s (round_events (cNoPktsPerMMap d) (win k) k c rs @ es) = recv_loop e d s' es
          \<and> waits win d (Suc k) 1 {} s')"
  using assms(1,5,6)
proof (induction rs arbitrary: c A s rule: induct_list012)
  case 1
  then show ?case by (simp add: rounds_ok_def)
next
  case (2 B)
  from round_complete [OF 2(1) assms(2,3) rounds_ok_last(1,2) [OF 2(2)], of es] show ?case by auto
next
  case (3 B B' Bs)
  note ok = rounds_ok_Cons [OF 3(4)]
  have t: "iNoOfTimeOuts s < 5" using 3(5) by simp
  let ?rest = "round_events (cNoPktsPerMMap d) (win k) k (c + 1) (B' # Bs) @ es"
  obtain s1 where s1: "recv_loop e d s (map Got (burst (cNoPktsPerMMap d) (win k) k c B) @ TimedOut # ?rest)
        = recv_loop e d s1 ?rest" "waits win d k (c + 1) (A \<union> set B) s1"
      "iNoOfTimeOuts s1 = iNoOfTimeOuts s + 1" "fWritten s1 = fWritten s"
      "fAcks s1 = fAcks s @ [ack_msg DATA_NEG_ACK (moduleId e) (int k + 1) c (status_of (length (win k)) (A \<union> set B))]"
    using round_missing [OF 3(3) assms(2-4) ok(2-4) t] by blast
  have "iNoOfTimeOuts s1 + length (B' # Bs) \<le> 6" using 3(5) s1(3) by simp
  from 3(2) [OF s1(2) ok(1) this] s1 show ?case by (auto split: if_splits)
qed

text \<open>The rest of the file from window \<open>k\<close> on: \<open>rss\<close> has the rounds of each window.\<close>

lemma windows_received:
  assumes "waits win d k 1 {} s" "recv_good e" "cNoPktsPerMMap d \<le> MAX_DATA_SIZE"
    and "k + length rss = iTotNoMaps d" "rss \<noteq> []"
    and "\<forall>i<length rss. rounds_ok (length (win (k + i))) {} (rss ! i)"
    and "iNoOfTimeOuts s + (\<Sum>rs\<leftarrow>rss. length rs - 1) \<le> 5"
  shows "\<exists>s'. recv_loop e d s (concat (map (\<lambda>i. round_events (cNoPktsPerMMap d) (win (k + i)) (k + i) 1 (rss ! i))
        [0..<length rss])) = Some (Inr (NASC_SUCCESS, s', []))
    \<and> fWritten s' = fWritten s @ concat (map (\<lambda>i. concat (win (k + i))) [0..<length rss])
    \<and> fAcks s' = fAcks s @ concat (map (\<lambda>i. round_acks (moduleId e) (length (win (k + i))) (k + i) 1 {} (rss ! i))
        [0..<length rss])"
  using assms(1,4-7)
proof (induction rss arbitrary: k s)
  case (Cons rs rss)
  have k: "k < iTotNoMaps d" using Cons.prems(2) by simp
  have small: "length (win k) \<le> MAX_DATA_SIZE" using window_bounds [OF k] assms(3) by simp
  have ok: "rounds_ok (length (win k)) {} rs" using Cons.prems(4) by force
  then have "length rs \<noteq> 0" by (simp add: rounds_ok_def)
  then have t: "iNoOfTimeOuts s + length rs \<le> 6" using Cons.prems(5) by simp
  let ?ev = "\<lambda>k rss. concat (map (\<lambda>i. round_events (cNoPktsPerMMap d) (win (k + i)) (k + i) 1 (rss ! i)) [0..<length rss])"
  obtain s1 where s1: "fWritten s1 = fWritten s @ concat (win k)" "iNoOfTimeOuts s1 + 1 = iNoOfTimeOuts s + length rs"
      "fAcks s1 = fAcks s @ round_acks (moduleId e) (length (win k)) k 1 {} rs"
      "if Suc k = iTotNoMaps d
        then recv_loop e d s (round_events (cNoPktsPerMMap d) (win k) k 1 rs @ ?ev (Suc k) rss) = Some (Inr (NASC_SUCCESS, s1, ?ev (Suc k) rss))
        else recv_loop e d s (round_events (cNoPktsPerMMap d) (win k) k 1 rs @ ?ev (Suc k) rss) = recv_loop e d s1 (?ev (Suc k) rss)
          \<and> waits win d (Suc k) 1 {} s1"
    using window_received [OF Cons.prems(1) k assms(2) small ok t, of "?ev (Suc k) rss"] by blast
  show ?case
  proof (cases "rss = []")
    case True
    then have "Suc k = iTotNoMaps d" using Cons.prems(2) by simp
    then show ?thesis using s1 True by simp
  next
    case False
    then have "Suc k \<noteq> iTotNoMaps d" using Cons.prems(2) by (cases rss) auto
    then have s1': "recv_loop e d s (round_events (cNoPktsPerMMap d) (win k) k 1 rs @ ?ev (Suc k) rss)
        = recv_loop e d s1 (?ev (Suc k) rss)" "waits win d (Suc k) 1 {} s1"
      using s1(4) by simp_all
    have next_ok: "\<forall>i<length rss. rounds_ok (length (win (Suc k + i))) {} (rss ! i)" using Cons.prems(4) by force
    have next_t: "iNoOfTimeOuts s1 + (\<Sum>rs\<leftarrow>rss. length rs - 1) \<le> 5"
      using Cons.prems(5) s1(2) \<open>length rs \<noteq> 0\<close> by simp
    have next_k: "Suc k + length rss = iTotNoMaps d" using Cons.prems(2) by simp
    from Cons.IH [OF s1'(2) next_k False next_ok next_t] s1(1,3) s1'(1)
    show ?thesis
      unfolding concat_shift [where f = "\<lambda>k rs. round_events (cNoPktsPerMMap d) (win k) k 1 rs"]
        concat_shift [where f = "\<lambda>k rs. round_acks (moduleId e) (length (win k)) k 1 {} rs"]
        concat_shift [where f = "\<lambda>k rs. concat (win k)"]
      by auto
  qed
qed simp

lemma file_received:
  assumes "recv_good e" "cNoPktsPerMMap d \<le> MAX_DATA_SIZE"
    and "length rss = iTotNoMaps d" "\<forall>k<length rss. rounds_ok (length (win k)) {} (rss ! k)"
    and "(\<Sum>rs\<leftarrow>rss. length rs - 1) \<le> 5"
  shows "\<exists>s. recv_loop e d (recv_start d) (file_events (cNoPktsPerMMap d) win rss) = Some (Inr (NASC_SUCCESS, s, []))
    \<and> fWritten s = concat (map (\<lambda>k. concat (win k)) [0..<iTotNoMaps d])
    \<and> fAcks s = file_acks (moduleId e) win rss"
proof -
  have ne: "rss \<noteq> []" using some_window assms(3) by auto
  have "length (win 0) = cNoPktsPerMMap d"
    using window_size [OF some_window] one_window by (cases "iTotNoMaps d = 1") auto
  then have "waits win d 0 1 {} (recv_start d)"
    by (simp add: waits_def recv_start_def status_of_def map_replicate_const)
  from windows_received [OF this assms(1,2) _ ne] assms(3-5) show ?thesis
    by (simp add: file_events_def file_acks_def recv_start_def)
qed

end

end
