(* ===== verification/FilePages.thy ===== *)
theory FilePages
  imports FileTransfer
begin

text \<open>
  The windows the sender makes of a file, as an instance of \<open>segmentation\<close>, and the bursts it sends
  for them.
\<close>

section \<open>Division upwards\<close>

lemma less_mult_add:
  assumes "r < (b :: nat)"
  shows "i * b < q * b + r \<longleftrightarrow> i < q \<or> i = q \<and> r \<noteq> 0"
proof (cases "i < q")
  case True
  then have "i * b < q * b" using assms by simp
  with True show ?thesis by linarith
next
  case False
  show ?thesis
  proof (cases "i = q")
    case neq: False
    with False have "Suc q * b \<le> i * b" by (intro mult_right_mono) auto
    then show ?thesis using False neq assms by simp
  qed simp
qed

lemma less_cdiv:
  assumes "0 < b"
  shows "i < cdiv a b \<longleftrightarrow> i * b < a"
proof -
  have "i * b < a div b * b + a mod b \<longleftrightarrow> i < a div b \<or> i = a div b \<and> a mod b \<noteq> 0"
    by (rule less_mult_add) (simp add: assms)
  then show ?thesis unfolding div_mult_mod_eq by (auto simp: cdiv_def)
qed

lemma cdiv_eqI: "0 < b \<Longrightarrow> (\<And>i. i < n \<longleftrightarrow> i * b < a) \<Longrightarrow> cdiv a b = n"
  using less_cdiv by (metis linorder_neqE_nat order_less_irrefl)

lemma cdiv_add: "0 < b \<Longrightarrow> cdiv (q * b + a) b = q + cdiv a b"
  by (simp add: cdiv_def)

lemma cdiv_0 [simp]: "cdiv 0 b = 0"
  by (simp add: cdiv_def)

lemma cdiv_mult [simp]: "0 < b \<Longrightarrow> cdiv (q * b) b = q"
  using cdiv_add [of b q 0] by simp

lemma cdiv_pos: "0 < b \<Longrightarrow> 0 < cdiv a b \<longleftrightarrow> 0 < a"
  by (simp add: less_cdiv)

lemma cdiv_mono: "0 < b \<Longrightarrow> a \<le> a' \<Longrightarrow> cdiv a b \<le> cdiv a' b"
  by (metis less_cdiv linorder_not_less order.strict_trans1 order_less_irrefl)

text \<open>The last index.\<close>

lemma Suc_eq_cdiv: "0 < b \<Longrightarrow> Suc i = cdiv a b \<longleftrightarrow> i * b < a \<and> a \<le> Suc i * b"
  using less_cdiv [of b i a] less_cdiv [of b "Suc i" a] by (auto simp del: mult_Suc)

section \<open>Chunks\<close>

definition chunks :: "nat \<Rightarrow> 'a list \<Rightarrow> 'a list list" where
  "chunks n xs = map (\<lambda>i. take n (drop (i * n) xs)) [0..<cdiv (length xs) n]"

lemma chunks_Nil [simp]: "chunks n [] = []"
  by (simp add: chunks_def)

lemma chunks_Cons:
  assumes "0 < n" "xs \<noteq> []"
  shows "chunks n xs = take n xs # chunks n (drop n xs)"
proof -
  have "cdiv (length xs) n = Suc (cdiv (length (drop n xs)) n)"
  proof (rule cdiv_eqI [OF assms(1)])
    fix i
    show "i < Suc (cdiv (length (drop n xs)) n) \<longleftrightarrow> i * n < length xs"
      using assms less_cdiv [of n "i - 1" "length (drop n xs)"] by (cases i) auto
  qed
  then show ?thesis
    by (simp add: chunks_def upt_conv_Cons map_Suc_upt [symmetric] comp_def add.commute del: upt_Suc)
qed

lemma concat_chunks: "0 < n \<Longrightarrow> concat (chunks n xs) = xs"
proof (induction "length xs" arbitrary: xs rule: less_induct)
  case less
  then show ?case
  proof (cases "xs = []")
    case False
    then have "length (drop n xs) < length xs" using less.prems by simp
    from less.hyps [OF this less.prems] show ?thesis using chunks_Cons [OF less.prems False] by simp
  qed simp
qed

lemma length_chunks [simp]: "length (chunks n xs) = cdiv (length xs) n"
  by (simp add: chunks_def)

lemma nth_chunks: "i < cdiv (length xs) n \<Longrightarrow> chunks n xs ! i = take n (drop (i * n) xs)"
  by (simp add: chunks_def)

lemma length_chunk:
  assumes "0 < n" "i < cdiv (length xs) n"
  shows "length (chunks n xs ! i) = (if Suc i = cdiv (length xs) n \<and> length xs mod n \<noteq> 0 then length xs mod n else n)"
proof -
  have i: "i * n < length xs" using assms less_cdiv by blast
  have len: "length (chunks n xs ! i) = min n (length xs - i * n)" using assms(2) by (simp add: nth_chunks)
  show ?thesis
  proof (cases "Suc i = cdiv (length xs) n")
    case True
    then have "length xs \<le> Suc i * n" using Suc_eq_cdiv [OF assms(1)] by blast
    then have le: "length xs - i * n \<le> n" by simp
    have "length xs = i * n + (length xs - i * n)" using i by simp
    then have m: "length xs mod n = (length xs - i * n) mod n" by (metis mod_mult_self3)
    show ?thesis
    proof (cases "length xs - i * n = n")
      case False
      then have "(length xs - i * n) mod n = length xs - i * n" using le by simp
      then show ?thesis using True len le m i by simp
    qed (use m len in simp)
  next
    case False
    then have "Suc i < cdiv (length xs) n" using assms(2) by simp
    then have "Suc i * n < length xs" using less_cdiv [OF assms(1)] by blast
    then show ?thesis using len False by simp
  qed
qed

section \<open>Sending a window\<close>

lemma send_loop_window:
  assumes len: "\<And>i. i < N \<Longrightarrow> (if L + i + 1 = iTotNoOfPkts pl \<and> iLastPktSize pl \<noteq> 0 then iLastPktSize pl else iMsgSize pl)
      = length (w ! i)"
    and full: "\<And>i. Suc i < N \<Longrightarrow> length (w ! i) = iMsgSize pl"
    and data: "\<And>i. i < N \<Longrightarrow> i * iMsgSize pl + length (w ! i) \<le> length page
      \<and> take (length (w ! i)) (drop (i * iMsgSize pl) page) = w ! i"
    and st: "N \<le> length st" "\<And>p. sto p" and L: "L = k * n"
  shows "j \<le> N \<Longrightarrow> send_loop sto pl page st (int k + 1) c (L + j) (j * iMsgSize pl) j (N - j)
    = Inr (burst n w k c (filter (\<lambda>i. st ! i = missing) [j..<N]), NASC_SUCCESS)"
proof (induction "N - j" arbitrary: j)
  case 0
  then show ?case by (simp add: burst_def)
next
  case (Suc x)
  then have j: "j < N" "N - j = Suc (N - Suc j)" "Suc j \<le> N" "x = N - Suc j" by simp_all
  let ?len = "if L + j + 1 = iTotNoOfPkts pl \<and> iLastPktSize pl \<noteq> 0 then iLastPktSize pl else iMsgSize pl"
  have IH: "send_loop sto pl page st (int k + 1) c (L + j + 1) (j * iMsgSize pl + ?len) (j + 1) (N - Suc j)
      = Inr (burst n w k c (filter (\<lambda>i. st ! i = missing) [Suc j..<N]), NASC_SUCCESS)"
  proof (cases "Suc j < N")
    case True
    then show ?thesis using Suc.hyps(1) [OF j(4,3)] len [OF j(1)] full [OF True] by (simp add: add.commute)
  next
    case False
    then show ?thesis using j by (simp add: burst_def)
  qed
  have "st ! j = missing \<Longrightarrow> data_pkt n k c j (w ! j) = \<lparr>ePktType = DATA, eModuleId = 0, iPktNo = int (L + j + 1),
      iMmapNo = int k + 1, iCorrelater = c, cData = take ?len (drop (j * iMsgSize pl) page)\<rparr>"
    using data [OF j(1)] len [OF j(1)] L by (simp add: data_pkt_def)
  moreover have "j * iMsgSize pl + ?len \<le> length page" "j < length st"
    using data [OF j(1)] len [OF j(1)] j(1) st(1) by simp_all
  moreover have "[j..<N] = j # [Suc j..<N]" using j(1) by (rule upt_conv_Cons)
  ultimately show ?case unfolding j(2) using IH st(2)
    by (simp add: Let_def burst_def)
qed

section \<open>The windows of a file\<close>

definition window_of :: "byte list \<Rightarrow> nat \<Rightarrow> nat \<Rightarrow> nat \<Rightarrow> byte list list" where
  "window_of content page msg k = chunks msg (take page (drop (k * page) content))"

text \<open>
  The sizes for which the plan is right: messages of 1 to 1100 bytes that fill a page without a rest,
  unless the file is shorter than a page.
\<close>

definition sizes_ok :: "nat \<Rightarrow> nat \<Rightarrow> nat \<Rightarrow> bool" where
  "sizes_ok fsz page msg \<longleftrightarrow> 0 < fsz \<and> 0 < page \<and> 0 < msg \<and> msg \<le> MAX_DATA_SIZE \<and> (msg dvd page \<or> fsz < page)"

lemma plan_simps:
  assumes "0 < msg" "msg \<le> MAX_DATA_SIZE"
  shows "plan_of fsz page msg = \<lparr>iMsgSize = msg, iTotNoOfPkts = cdiv fsz msg, iNoOfMappingNeeded = cdiv fsz page,
         iNoPktsPerMMap = (if fsz \<le> page then cdiv fsz msg else cdiv page msg),
         iExtraPktsPerMap = (if fsz \<le> page then 0 else cdiv (fsz mod page) msg),
         iLastPktSize = (fsz mod page) mod msg\<rparr>"
  using assms by (simp add: plan_of_def Let_def)

text \<open>The number of bytes in page \<open>k\<close>, and of packets.\<close>

definition page_len :: "nat \<Rightarrow> nat \<Rightarrow> nat \<Rightarrow> nat" where
  "page_len fsz page k = min page (fsz - k * page)"

lemma window_length [simp]: "length (window_of content page msg k) = cdiv (page_len (length content) page k) msg"
  by (simp add: window_of_def page_len_def min.commute)

text \<open>A file of one page, and a file of several pages.\<close>

lemma one_page: "0 < page \<Longrightarrow> 0 < fsz \<Longrightarrow> fsz \<le> page \<Longrightarrow> cdiv fsz page = 1 \<and> page_len fsz page 0 = fsz"
  using Suc_eq_cdiv [of page 0 fsz] by (simp add: page_len_def)

lemma full_page: "0 < page \<Longrightarrow> Suc k < cdiv fsz page \<Longrightarrow> page_len fsz page k = page"
  using less_cdiv [of page "Suc k" fsz] by (simp add: page_len_def)

lemma last_page:
  assumes "0 < page" "Suc k = cdiv fsz page"
  shows "page_len fsz page k = (if fsz mod page = 0 then page else fsz mod page)"
    and "fsz = k * page + page_len fsz page k" and "0 < page_len fsz page k"
proof -
  have b: "k * page < fsz" "fsz \<le> Suc k * page" using Suc_eq_cdiv [OF assms(1)] assms(2) by blast+
  then have l: "page_len fsz page k = fsz - k * page" by (simp add: page_len_def)
  then show *: "fsz = k * page + page_len fsz page k" "0 < page_len fsz page k" using b by simp_all
  have m: "fsz mod page = page_len fsz page k mod page" using *(1) by (metis mod_mult_self3)
  have "page_len fsz page k \<le> page" by (simp add: page_len_def)
  then show "page_len fsz page k = (if fsz mod page = 0 then page else fsz mod page)"
    using m *(2) by (cases "page_len fsz page k = page") auto
qed

lemma page_len_mod:
  assumes "sizes_ok fsz page msg" "k < cdiv fsz page"
  shows "page_len fsz page k mod msg = (if Suc k = cdiv fsz page then (fsz mod page) mod msg else 0)"
proof (cases "Suc k = cdiv fsz page")
  case True
  have s: "0 < page" "msg dvd page \<or> fsz < page" using assms(1) by (auto simp: sizes_ok_def)
  show ?thesis
  proof (cases "fsz mod page = 0")
    case True
    have "\<not> fsz < page" using True assms(1) by (auto simp: sizes_ok_def)
    then show ?thesis using last_page(1) [OF s(1) \<open>Suc k = cdiv fsz page\<close>] True s(2) by auto
  next
    case False
    then show ?thesis using last_page(1) [OF s(1) True] True by simp
  qed
next
  case False
  then have "Suc k < cdiv fsz page" using assms(2) by simp
  moreover have "msg dvd page"
  proof (rule ccontr)
    assume "\<not> msg dvd page"
    then have "0 < page" "0 < fsz" "fsz \<le> page" using assms(1) by (auto simp: sizes_ok_def)
    from one_page [OF this] calculation show False by simp
  qed
  ultimately show ?thesis using full_page assms(1) False by (simp add: sizes_ok_def)
qed

lemma total_of_pages:
  assumes "sizes_ok fsz page msg"
  shows "(\<Sum>k<cdiv fsz page. cdiv (page_len fsz page k) msg) = cdiv fsz msg"
proof -
  have p: "0 < page" "0 < fsz" "0 < msg" using assms by (auto simp: sizes_ok_def)
  have "0 < cdiv fsz page" using cdiv_pos [OF p(1)] p(2) by simp
  then obtain K where K: "cdiv fsz page = Suc K" by (cases "cdiv fsz page") auto
  show ?thesis
  proof (cases "fsz \<le> page")
    case True
    then show ?thesis using one_page [OF p(1,2)] by simp
  next
    case False
    then obtain q where q: "page = q * msg" using assms by (auto simp: sizes_ok_def elim: dvdE)
    have "cdiv (page_len fsz page k) msg = q" if "k < K" for k
      using full_page [OF p(1), of k fsz] that K p(3) by (simp add: q)
    then have "(\<Sum>k<Suc K. cdiv (page_len fsz page k) msg) = K * q + cdiv (page_len fsz page K) msg" by simp
    also have "\<dots> = cdiv (K * q * msg + page_len fsz page K) msg" using cdiv_add [OF p(3)] by simp
    also have "K * q * msg + page_len fsz page K = fsz"
      using last_page(2) [OF p(1) K [symmetric]] by (simp add: q mult.assoc)
    finally show ?thesis using K by simp
  qed
qed

lemma window_count:
  assumes "sizes_ok fsz page msg" "k < cdiv fsz page"
  shows "cdiv (page_len fsz page k) msg =
    (if Suc k = cdiv fsz page \<and> iExtraPktsPerMap (plan_of fsz page msg) \<noteq> 0
     then iExtraPktsPerMap (plan_of fsz page msg) else iNoPktsPerMMap (plan_of fsz page msg))"
proof -
  have p: "0 < page" "0 < fsz" "0 < msg" "msg \<le> MAX_DATA_SIZE" using assms(1) by (auto simp: sizes_ok_def)
  show ?thesis
  proof (cases "fsz \<le> page")
    case True
    then show ?thesis using one_page [OF p(1,2)] assms(2) plan_simps [OF p(3,4), of fsz page] by simp
  next
    case False
    have "cdiv (fsz mod page) msg = 0 \<longleftrightarrow> fsz mod page = 0" using cdiv_pos [OF p(3)] by (metis neq0_conv)
    then show ?thesis using False full_page [OF p(1), of k fsz] last_page(1) [OF p(1), of k fsz] assms(2)
        plan_simps [OF p(3,4), of fsz page] by (cases "Suc k = cdiv fsz page") auto
  qed
qed

lemma plan_bounds:
  assumes "sizes_ok fsz page msg"
  shows "0 < iNoPktsPerMMap (plan_of fsz page msg)"
    and "iExtraPktsPerMap (plan_of fsz page msg) \<le> iNoPktsPerMMap (plan_of fsz page msg)"
    and "iNoOfMappingNeeded (plan_of fsz page msg) = 1 \<Longrightarrow> iExtraPktsPerMap (plan_of fsz page msg) = 0"
proof -
  have p: "0 < page" "0 < fsz" "0 < msg" "msg \<le> MAX_DATA_SIZE" using assms by (auto simp: sizes_ok_def)
  note pl = plan_simps [OF p(3,4), of fsz page]
  show "0 < iNoPktsPerMMap (plan_of fsz page msg)" using p cdiv_pos by (simp add: pl)
  have "cdiv (fsz mod page) msg \<le> cdiv page msg" using p by (intro cdiv_mono) auto
  then show "iExtraPktsPerMap (plan_of fsz page msg) \<le> iNoPktsPerMMap (plan_of fsz page msg)" by (simp add: pl)
  have "1 < cdiv fsz page" if "\<not> fsz \<le> page" using that less_cdiv [OF p(1), of 1 fsz] by simp
  then show "iNoOfMappingNeeded (plan_of fsz page msg) = 1 \<Longrightarrow> iExtraPktsPerMap (plan_of fsz page msg) = 0"
    by (auto simp: pl)
qed

section \<open>The sender provides the windows\<close>

lemma file_segmentation:
  assumes "sizes_ok (length content) page msg" "cntrl_data (plan_of (length content) page msg) name path = Some d"
  shows "segmentation (window_of content page msg) d"
proof -
  have p: "0 < page" "0 < length content" "0 < msg" "msg \<le> MAX_DATA_SIZE" using assms(1) by (auto simp: sizes_ok_def)
  let ?pl = "plan_of (length content) page msg"
  have d: "iTotNoMaps d = cdiv (length content) page" "iTotNoMaps d = iNoOfMappingNeeded ?pl"
      "iTotNoPkts d = cdiv (length content) msg" "cNoPktsPerMMap d = iNoPktsPerMMap ?pl"
      "iNoExtraMapPackets d = iExtraPktsPerMap ?pl"
    using assms(2) by (auto simp: cntrl_data_def plan_simps [OF p(3,4)] split: if_splits)
  show ?thesis
  proof
    show "0 < iTotNoMaps d" using d(1) cdiv_pos p by simp
    show "length (window_of content page msg k) = (if Suc k = iTotNoMaps d \<and> iNoExtraMapPackets d \<noteq> 0
        then iNoExtraMapPackets d else cNoPktsPerMMap d)" if "k < iTotNoMaps d" for k
      using window_count [OF assms(1), of k] that d(1,4,5) by simp
    show "iTotNoMaps d = 1 \<Longrightarrow> iNoExtraMapPackets d = 0" using plan_bounds(3) [OF assms(1)] d(2,5) by simp
    show "(\<Sum>k<iTotNoMaps d. length (window_of content page msg k)) = iTotNoPkts d"
      using total_of_pages [OF assms(1)] d(1,3) by simp
    show "0 < cNoPktsPerMMap d" "iNoExtraMapPackets d \<le> cNoPktsPerMMap d"
      using plan_bounds(1,2) [OF assms(1)] d(4,5) by simp_all
    show "length b \<le> MAX_DATA_SIZE" if "b \<in> set (window_of content page msg k)" for b k
      using that p(4) by (auto simp: window_of_def chunks_def)
  qed
qed

lemma concat_windows:
  assumes "0 < page" "0 < msg"
  shows "concat (map (\<lambda>k. concat (window_of content page msg k)) [0..<cdiv (length content) page]) = content"
  using concat_chunks [OF assms(1), of content]
  by (simp add: window_of_def concat_chunks [OF assms(2)] chunks_def [of page])

text \<open>
  The transfers for which this holds, with the names sent in the handshake, are a type; the interface
  is interpreted on all of them.
\<close>

typedef transfer = "{(content, page, msg, name, path) |(content :: byte list) page msg (name :: byte list) (path :: byte list option).
    sizes_ok (length content) page msg \<and> cntrl_data (plan_of (length content) page msg) name path \<noteq> None}"
  by (rule exI [of _ "([0], 1, 1, [], None)"]) (simp add: sizes_ok_def cntrl_data_def)

definition transfer_windows :: "transfer \<Rightarrow> nat \<Rightarrow> byte list list" where
  "transfer_windows t = (case Rep_transfer t of (content, page, msg, _, _) \<Rightarrow> window_of content page msg)"

definition transfer_cntrl :: "transfer \<Rightarrow> stCntrlData" where
  "transfer_cntrl t = (case Rep_transfer t of (content, page, msg, name, path) \<Rightarrow>
     the (cntrl_data (plan_of (length content) page msg) name path))"

interpretation fw: segmentation "transfer_windows t" "transfer_cntrl t" for t
proof -
  obtain content page msg name path where r: "Rep_transfer t = (content, page, msg, name, path)"
    by (cases "Rep_transfer t") auto
  have "Rep_transfer t \<in> {(content, page, msg, name, path) |content page msg name path.
      sizes_ok (length content) page msg \<and> cntrl_data (plan_of (length content) page msg) name path \<noteq> None}"
    by (rule Rep_transfer)
  then have "sizes_ok (length content) page msg" "cntrl_data (plan_of (length content) page msg) name path \<noteq> None"
    unfolding r by auto
  then show "segmentation (transfer_windows t) (transfer_cntrl t)"
    using file_segmentation by (auto simp: transfer_windows_def transfer_cntrl_def r)
qed

lemma transfer_of:
  assumes "sizes_ok (length content) page msg" "cntrl_data (plan_of (length content) page msg) name path = Some d"
  obtains t where "transfer_windows t = window_of content page msg" "transfer_cntrl t = d"
proof -
  have "Rep_transfer (Abs_transfer (content, page, msg, name, path)) = (content, page, msg, name, path)"
    by (rule Abs_transfer_inverse) (use assms in auto)
  then show ?thesis using that [of "Abs_transfer (content, page, msg, name, path)"] assms(2)
    by (simp add: transfer_windows_def transfer_cntrl_def)
qed

section \<open>The sender's bursts\<close>

definition send_good :: "send_env \<Rightarrow> bool" where
  "send_good e \<longleftrightarrow> (\<forall>p. sendto e p) \<and> (\<forall>k. mmap e k) \<and> status_room e \<and> copy_room e"

text \<open>The sender is at window \<open>k\<close>, of which the receiver has acknowledged the places \<open>A\<close>.\<close>

definition sends :: "send_env \<Rightarrow> nat \<Rightarrow> nat \<Rightarrow> int \<Rightarrow> nat set \<Rightarrow> send_state \<Rightarrow> bool" where
  "sends e msg k c A s \<longleftrightarrow>
     (let n = cdiv (page_len (length (fileData e)) (iPageSize e) k) msg;
          N = iNoPktsPerMMap (plan_of (length (fileData e)) (iPageSize e) msg) in
      iMmapCntr s = k \<and> sMmapNo s = int k + 1 \<and> sCorrelater s = c \<and> sLastPktNo s = k * N \<and> sPktsPerMMap s = n
      \<and> piPktStatus s = status_of n A @ replicate (N + 1 - n) missing)"

lemma packet_number:
  assumes "sizes_ok fsz page msg" "k < cdiv fsz page" "i < cdiv (page_len fsz page k) msg"
  shows "k * iNoPktsPerMMap (plan_of fsz page msg) + i + 1 = cdiv fsz msg
    \<longleftrightarrow> Suc k = cdiv fsz page \<and> Suc i = cdiv (page_len fsz page k) msg"
proof -
  let ?N = "iNoPktsPerMMap (plan_of fsz page msg)" and ?n = "\<lambda>k. cdiv (page_len fsz page k) msg"
  have p: "0 < page" "0 < fsz" "0 < msg" using assms(1) by (auto simp: sizes_ok_def)
  obtain K where K: "cdiv fsz page = Suc K" using assms(2) by (cases "cdiv fsz page") auto
  have "?n j = ?N" if "j < K" for j using window_count [OF assms(1), of j] that K by simp
  then have t: "cdiv fsz msg = K * ?N + ?n K" using total_of_pages [OF assms(1)] K by simp
  have last: "0 < ?n K" using last_page(3) [OF p(1) K [symmetric]] cdiv_pos [OF p(3)] by simp
  show ?thesis
  proof (cases "k = K")
    case True
    then show ?thesis using t K assms(3) by auto
  next
    case False
    then have k: "k < K" using assms(2) K by simp
    have "i < ?N" using assms(3) \<open>\<And>j. j < K \<Longrightarrow> ?n j = ?N\<close> [OF k] by simp
    moreover have "Suc k * ?N \<le> K * ?N" using k by (intro mult_right_mono) auto
    ultimately show ?thesis using t last K k by simp
  qed
qed

lemma take_in_page:
  assumes "y = take m (drop q xs)" "q + length y \<le> length xs"
  shows "q + length y \<le> length (xs @ zs) \<and> take (length y) (drop q (xs @ zs)) = y"
  using assms by (auto simp: min_def)

text \<open>The burst has the packets of the window the receiver misses.\<close>

lemma send_window:
  assumes "sizes_ok (length (fileData e)) (iPageSize e) msg" "send_good e"
    and "k < cdiv (length (fileData e)) (iPageSize e)" "sends e msg k c A s"
  defines "pl \<equiv> plan_of (length (fileData e)) (iPageSize e) msg" and "w \<equiv> window_of (fileData e) (iPageSize e) msg k"
  shows "FileTrans_SendActualData (copy_room e) (sendto e) pl (page_at (fileData e) (iPageSize e) (iMmapCntr s)) (piPktStatus s)
      (sMmapNo s) (sCorrelater s) (sLastPktNo s) (sPktsPerMMap s)
    = Inr (burst (iNoPktsPerMMap pl) w k c (filter (\<lambda>i. i \<notin> A) [0..<length w]), NASC_SUCCESS)"
proof -
  let ?L = "length (fileData e)" and ?page = "iPageSize e"
  let ?pg = "take ?page (drop (k * ?page) (fileData e))" and ?N = "iNoPktsPerMMap pl"
  have p: "0 < ?page" "0 < msg" "msg \<le> MAX_DATA_SIZE" using assms(1) by (auto simp: sizes_ok_def)
  have pl: "iMsgSize pl = msg" "iTotNoOfPkts pl = cdiv ?L msg" "iLastPktSize pl = (?L mod ?page) mod msg"
    by (simp_all add: pl_def plan_simps [OF p(2,3)])
  have pg: "length ?pg = page_len ?L ?page k" by (simp add: page_len_def min.commute)
  let ?n = "cdiv (page_len ?L ?page k) msg"
  have w: "w = chunks msg ?pg" "length w = ?n" by (simp only: w_def window_of_def, simp only: w_def window_length)
  have chunk: "length (w ! i) = (if Suc i = ?n \<and> page_len ?L ?page k mod msg \<noteq> 0 then page_len ?L ?page k mod msg else msg)"
    if "i < ?n" for i using length_chunk [OF p(2), of i ?pg] that w(1) pg by simp
  note modm = page_len_mod [OF assms(1,3)]
  have len: "(if k * ?N + i + 1 = iTotNoOfPkts pl \<and> iLastPktSize pl \<noteq> 0 then iLastPktSize pl else iMsgSize pl) = length (w ! i)"
    if "i < ?n" for i
    using packet_number [OF assms(1,3) that] chunk [OF that] modm pl by (auto simp: pl_def)
  have full: "length (w ! i) = iMsgSize pl" if "Suc i < ?n" for i using chunk [of i] that pl(1) by simp
  have data: "i * iMsgSize pl + length (w ! i) \<le> length (page_at (fileData e) ?page k)
      \<and> take (length (w ! i)) (drop (i * iMsgSize pl) (page_at (fileData e) ?page k)) = w ! i" if "i < ?n" for i
  proof -
    have wi: "w ! i = take msg (drop (i * msg) ?pg)" using that w pg by (simp add: nth_chunks)
    have "i * msg < length ?pg" using that pg less_cdiv [OF p(2)] by simp
    moreover have "length (w ! i) \<le> length ?pg - i * msg"
      unfolding wi length_take [of msg] length_drop [of "i * msg"] by (rule min.cobounded1)
    ultimately have "i * msg + length (w ! i) \<le> length ?pg" by linarith
    moreover have "page_at (fileData e) ?page k = ?pg @ replicate (?page - length ?pg) 0" by (simp add: page_at_def Let_def)
    ultimately show ?thesis using take_in_page [OF wi] pl(1) by simp
  qed
  have N: "?n \<le> ?N" using window_count [OF assms(1,3)] plan_bounds(2) [OF assms(1)] by (simp add: pl_def)
  have s: "iMmapCntr s = k" "sMmapNo s = int k + 1" "sCorrelater s = c" "sLastPktNo s = k * ?N" "sPktsPerMMap s = ?n"
      "piPktStatus s = status_of ?n A @ replicate (?N + 1 - ?n) missing"
    using assms(4) by (simp_all add: sends_def pl_def Let_def)
  have "filter (\<lambda>i. piPktStatus s ! i = missing) [0..<?n] = filter (\<lambda>i. i \<notin> A) [0..<?n]"
    by (rule filter_cong) (auto simp: s(6) status_of_def nth_append)
  moreover have "length (piPktStatus s) \<ge> ?n" by (simp add: s(6) status_of_def)
  moreover have "copy_room e" "\<And>p. sendto e p" using assms(2) by (simp_all add: send_good_def)
  ultimately show ?thesis
    using send_loop_window [OF len full data, of ?n "piPktStatus s" "sendto e" k ?N 0 c]
    by (simp add: FileTrans_SendActualData_def s w(2))
qed

text \<open>An answer to the burst: a negative one moves to the next round, the positive one to the next window.\<close>

lemma RecvAck_match:
  "length st' \<le> MAX_DATA_SIZE \<Longrightarrow> length st' \<le> length st \<Longrightarrow>
   FileTrans_RecvAck m c True st (Got (ack_msg ty mid m c st') # es)
     = Inr (NASC_SUCCESS, Some (ack_msg ty mid m c st'), st' @ drop (length st') st, es)"
  by (simp add: copy_status_def ack_msg_def)

lemma sends_next:
  assumes "sizes_ok (length (fileData e)) (iPageSize e) msg" "sends e msg k c A s"
    and "Suc k < cdiv (length (fileData e)) (iPageSize e)" "length st = length (piPktStatus s)"
  shows "sends e msg (Suc k) 1 {} (next_window (plan_of (length (fileData e)) (iPageSize e) msg) (s\<lparr>piPktStatus := st\<rparr>))"
proof -
  let ?pl = "plan_of (length (fileData e)) (iPageSize e) msg"
  let ?n = "\<lambda>k. cdiv (page_len (length (fileData e)) (iPageSize e) k) msg" and ?N = "iNoPktsPerMMap ?pl"
  have p: "0 < msg" "msg \<le> MAX_DATA_SIZE" using assms(1) by (auto simp: sizes_ok_def)
  have M: "iNoOfMappingNeeded ?pl = cdiv (length (fileData e)) (iPageSize e)" by (simp add: plan_simps [OF p])
  have k: "?n k = ?N" using window_count [OF assms(1), of k] assms(3) by simp
  have s: "iMmapCntr s = k" "sMmapNo s = int k + 1" "sLastPktNo s = k * ?N" "sPktsPerMMap s = ?N"
      "length (piPktStatus s) = ?N + 1"
    using assms(2) k by (simp_all add: sends_def Let_def status_of_def)
  have n: "?n (Suc k) \<le> ?N" using window_count [OF assms(1,3)] plan_bounds(2) [OF assms(1)] by simp
  have "sPktsPerMMap (next_window ?pl (s\<lparr>piPktStatus := st\<rparr>)) = ?n (Suc k)"
    using window_count [OF assms(1,3)] s by (simp add: next_window_def M)
  moreover have "replicate (?N + 1) missing = status_of (?n (Suc k)) {} @ replicate (?N + 1 - ?n (Suc k)) missing"
    using n by (simp add: status_of_def map_replicate_const flip: replicate_add)
  ultimately show ?thesis using s assms(4) by (simp add: sends_def Let_def next_window_def)
qed

lemma window_sent:
  assumes ok: "sizes_ok (length (fileData e)) (iPageSize e) msg" and good: "send_good e"
    and k: "k < cdiv (length (fileData e)) (iPageSize e)"
  defines "pl \<equiv> plan_of (length (fileData e)) (iPageSize e) msg" and "w \<equiv> window_of (fileData e) (iPageSize e) msg k"
  assumes small: "iNoPktsPerMMap pl \<le> MAX_DATA_SIZE"
  shows "sends e msg k c A s \<Longrightarrow> rs \<noteq> [] \<Longrightarrow> iNoOfRetries s + length rs \<le> 6 \<Longrightarrow>
    \<exists>s'. send_data e pl s (map Got (round_acks mid (length w) k c A rs) @ es)
      = (if Suc k = cdiv (length (fileData e)) (iPageSize e)
         then Inr (round_bursts (iNoPktsPerMMap pl) w k c A rs, NASC_SUCCESS)
         else rbind (send_data e pl s' es) (\<lambda>(bs, r). Inr (round_bursts (iNoPktsPerMMap pl) w k c A rs @ bs, r)))
    \<and> (Suc k \<noteq> cdiv (length (fileData e)) (iPageSize e) \<longrightarrow> sends e msg (Suc k) 1 {} s' \<and> iNoOfRetries s' = 0)"
proof (induction rs arbitrary: c A s rule: induct_list012)
  case (2 B)
  note send = send_window [OF ok good k 2(1), folded pl_def w_def]
  have p: "0 < msg" "msg \<le> MAX_DATA_SIZE" using ok by (auto simp: sizes_ok_def)
  have M: "iNoOfMappingNeeded pl = cdiv (length (fileData e)) (iPageSize e)" by (simp add: pl_def plan_simps [OF p])
  have s: "iMmapCntr s = k" "sMmapNo s = int k + 1" "sCorrelater s = c" using 2(1) by (simp_all add: sends_def Let_def)
  have ack: "FileTrans_RecvAck (int k + 1) c True (piPktStatus s) (Got (ack_msg DATA_ACK mid (int k + 1) c []) # es)
      = Inr (NASC_SUCCESS, Some (ack_msg DATA_ACK mid (int k + 1) c []), piPktStatus s, es)"
    using RecvAck_match [of "[]"] by simp
  let ?s = "next_window pl (s\<lparr>piPktStatus := piPktStatus s\<rparr>)"
  have "\<not> Suc k = iNoOfMappingNeeded pl \<Longrightarrow> sends e msg (Suc k) 1 {} ?s"
    using sends_next [OF ok 2(1) _ refl, folded pl_def] k M by simp
  moreover have "iNoOfRetries ?s = 0" by (simp add: next_window_def)
  moreover have "send_data e pl s (map Got (round_acks mid (length w) k c A [B]) @ es)
      = (if Suc k = iNoOfMappingNeeded pl then Inr (round_bursts (iNoPktsPerMMap pl) w k c A [B], NASC_SUCCESS)
         else rbind (send_data e pl ?s es) (\<lambda>(bs, r). Inr (round_bursts (iNoPktsPerMMap pl) w k c A [B] @ bs, r)))"
    using send s ack k M 2(3) good
    by (subst send_data.simps) (auto simp: Let_def ack_msg_def send_good_def rbind_def split: sum.split)
  ultimately show ?case unfolding M by blast
next
  case (3 B B' Bs)
  note send = send_window [OF ok good k 3(3), folded pl_def w_def]
  have p: "0 < msg" "msg \<le> MAX_DATA_SIZE" using ok by (auto simp: sizes_ok_def)
  have M: "iNoOfMappingNeeded pl = cdiv (length (fileData e)) (iPageSize e)" by (simp add: pl_def plan_simps [OF p])
  let ?n = "length w" and ?N = "iNoPktsPerMMap pl"
  have n: "?n \<le> ?N" using window_count [OF ok k] plan_bounds(2) [OF ok] by (simp add: pl_def w_def)
  have s: "iMmapCntr s = k" "sMmapNo s = int k + 1" "sCorrelater s = c"
      "piPktStatus s = status_of ?n A @ replicate (?N + 1 - ?n) missing"
    using 3(3) by (simp_all add: sends_def Let_def pl_def w_def)
  let ?st = "status_of ?n (A \<union> set B)"
  have st: "length ?st \<le> MAX_DATA_SIZE" "length ?st \<le> length (piPktStatus s)"
      "?st @ drop (length ?st) (piPktStatus s) = ?st @ replicate (?N + 1 - ?n) missing"
    using n small s(4) by (simp_all add: status_of_def)
  let ?a = "ack_msg DATA_NEG_ACK mid (int k + 1) c ?st"
  let ?s = "s\<lparr>piPktStatus := ?st @ replicate (?N + 1 - ?n) missing, sCorrelater := c + 1, iNoOfRetries := iNoOfRetries s + 1\<rparr>"
  have next_s: "sends e msg k (c + 1) (A \<union> set B) ?s"
    using 3(3) by (simp add: sends_def Let_def pl_def w_def)
  let ?es = "map Got (round_acks mid ?n k (c + 1) (A \<union> set B) (B' # Bs)) @ es"
  have "send_data e pl s (Got ?a # ?es) = rbind (send_data e pl ?s ?es)
      (\<lambda>(bs, r). Inr (burst ?N w k c (filter (\<lambda>i. i \<notin> A) [0..<?n]) # bs, r))"
    using send s(1-3) RecvAck_match [OF st(1,2), of "int k + 1" c DATA_NEG_ACK mid ?es] k M 3(5) st(3)
    by (subst send_data.simps) (simp add: Let_def ack_msg_def rbind_def split: sum.split)
  moreover obtain s' where "send_data e pl ?s ?es = (if Suc k = cdiv (length (fileData e)) (iPageSize e)
         then Inr (round_bursts ?N w k (c + 1) (A \<union> set B) (B' # Bs), NASC_SUCCESS)
         else rbind (send_data e pl s' es) (\<lambda>(bs, r). Inr (round_bursts ?N w k (c + 1) (A \<union> set B) (B' # Bs) @ bs, r)))"
      "Suc k \<noteq> cdiv (length (fileData e)) (iPageSize e) \<longrightarrow> sends e msg (Suc k) 1 {} s' \<and> iNoOfRetries s' = 0"
    using 3(2) [OF next_s] 3(5) by auto
  ultimately show ?case
    by (intro exI [of _ s']) (auto simp: rbind_def split: sum.split)
qed simp

end
