(* ===== verification/FileProps.thy ===== *)
theory FileProps
  imports FilePages
begin

text \<open>
  What a file transfer does: over a network that loses and reorders packets within the timeouts the
  receiver writes the file; and what happens when an acknowledgement is lost, when the two timeouts
  meet, or when the other side is not the sender.
\<close>

section \<open>The sender over all windows\<close>

lemma windows_sent:
  assumes ok: "sizes_ok (length (fileData e)) (iPageSize e) msg" and good: "send_good e"
  defines "pl \<equiv> plan_of (length (fileData e)) (iPageSize e) msg" and "win \<equiv> window_of (fileData e) (iPageSize e) msg"
  assumes small: "iNoPktsPerMMap pl \<le> MAX_DATA_SIZE"
    and "sends e msg k 1 {} s" "iNoOfRetries s = 0"
    and "k + length rss = cdiv (length (fileData e)) (iPageSize e)" "rss \<noteq> []"
    and "\<forall>rs\<in>set rss. rs \<noteq> [] \<and> length rs \<le> 6"
  shows "send_data e pl s (map Got (concat (map (\<lambda>i. round_acks mid (length (win (k + i))) (k + i) 1 {} (rss ! i))
        [0..<length rss])))
    = Inr (concat (map (\<lambda>i. round_bursts (iNoPktsPerMMap pl) (win (k + i)) (k + i) 1 {} (rss ! i)) [0..<length rss]),
        NASC_SUCCESS)"
  using assms(6-10)
proof (induction rss arbitrary: k s)
  case (Cons rs rss)
  have k: "k < cdiv (length (fileData e)) (iPageSize e)" using Cons.prems(3) by simp
  have rs: "rs \<noteq> []" "iNoOfRetries s + length rs \<le> 6" using Cons.prems(2,5) by simp_all
  let ?acks = "\<lambda>k rss. concat (map (\<lambda>i. round_acks mid (length (win (k + i))) (k + i) 1 {} (rss ! i)) [0..<length rss])"
  obtain s' where s': "send_data e pl s (map Got (round_acks mid (length (win k)) k 1 {} rs) @ map Got (?acks (Suc k) rss))
      = (if Suc k = cdiv (length (fileData e)) (iPageSize e)
         then Inr (round_bursts (iNoPktsPerMMap pl) (win k) k 1 {} rs, NASC_SUCCESS)
         else rbind (send_data e pl s' (map Got (?acks (Suc k) rss)))
           (\<lambda>(bs, r). Inr (round_bursts (iNoPktsPerMMap pl) (win k) k 1 {} rs @ bs, r)))"
    "Suc k \<noteq> cdiv (length (fileData e)) (iPageSize e) \<longrightarrow> sends e msg (Suc k) 1 {} s' \<and> iNoOfRetries s' = 0"
    using window_sent [OF ok good k small [unfolded pl_def] Cons.prems(1) rs] unfolding pl_def win_def by blast
  have shift: "map Got (?acks k (rs # rss)) = map Got (round_acks mid (length (win k)) k 1 {} rs) @ map Got (?acks (Suc k) rss)"
    unfolding concat_shift [where f = "\<lambda>k rs. round_acks mid (length (win k)) k 1 {} rs"] by simp
  show ?case
  proof (cases "rss = []")
    case True
    then have "Suc k = cdiv (length (fileData e)) (iPageSize e)" using Cons.prems(3) by simp
    then show ?thesis using s'(1) True by simp
  next
    case False
    then have "Suc k \<noteq> cdiv (length (fileData e)) (iPageSize e)" using Cons.prems(3) by (cases rss) auto
    moreover from this have "sends e msg (Suc k) 1 {} s'" "iNoOfRetries s' = 0" using s'(2) by simp_all
    note Cons.IH [OF this _ False]
    ultimately show ?thesis
      using Cons.prems(3,5) s'(1) unfolding shift concat_shift [where f = "\<lambda>k rs. round_bursts (iNoPktsPerMMap pl) (win k) k 1 {} rs"]
      by simp
  qed
qed simp

section \<open>The whole transfer\<close>

text \<open>What arrives in a round has been sent in its burst.\<close>

lemma burst_mono: "set B \<subseteq> set C \<Longrightarrow> set (burst n w k c B) \<subseteq> set (burst n w k c C)"
  by (auto simp: burst_def)

lemma events_sent:
  "rounds_ok (length w) A rs \<Longrightarrow> Got p \<in> set (round_events n w k c rs) \<Longrightarrow> p \<in> set (concat (round_bursts n w k c A rs))"
proof (induction rs arbitrary: c A rule: induct_list012)
  case (2 B)
  have "set B \<subseteq> set (filter (\<lambda>i. i \<notin> A) [0..<length w])" using rounds_ok_last(2) [OF 2(1)] by auto
  from burst_mono [OF this, of n w k c] 2(2) show ?case by auto
next
  case (3 B B' Bs)
  note ok = rounds_ok_Cons [OF 3(3)]
  have "set B \<subseteq> set (filter (\<lambda>i. i \<notin> A) [0..<length w])" using ok(3) by auto
  from burst_mono [OF this, of n w k c] 3(2) [OF ok(1), of "c + 1"] 3(4) show ?case by auto
qed simp

lemma file_events_sent:
  "\<forall>k<length rss. rounds_ok (length (win k)) {} (rss ! k)
   \<Longrightarrow> {p. Got p \<in> set (file_events n win rss)} \<subseteq> set (concat (file_bursts n win rss))"
  using events_sent [of _ "{}" _ _ n _ 1] by (fastforce simp: file_events_def file_bursts_def)

lemma first_burst:
  assumes ok: "sizes_ok (length (fileData e)) (iPageSize e) msg" and good: "send_good e"
  defines "pl \<equiv> plan_of (length (fileData e)) (iPageSize e) msg" and "w \<equiv> window_of (fileData e) (iPageSize e) msg 0"
  shows "sends e msg 0 1 {} (send_start pl)" and "iMmapCntr (send_start pl) < iNoOfMappingNeeded pl"
    and "length w = iNoPktsPerMMap pl"
    and "FileTrans_SendActualData (copy_room e) (sendto e) pl (page_at (fileData e) (iPageSize e) (iMmapCntr (send_start pl)))
      (piPktStatus (send_start pl)) (sMmapNo (send_start pl)) (sCorrelater (send_start pl))
      (sLastPktNo (send_start pl)) (sPktsPerMMap (send_start pl))
      = Inr (burst (length w) w 0 1 [0..<length w], NASC_SUCCESS)"
proof -
  have p: "0 < iPageSize e" "0 < length (fileData e)" "0 < msg" "msg \<le> MAX_DATA_SIZE" using ok by (auto simp: sizes_ok_def)
  have M: "0 < cdiv (length (fileData e)) (iPageSize e)" using p cdiv_pos by simp
  show n: "length w = iNoPktsPerMMap pl"
    using window_count [OF ok M] plan_bounds(3) [OF ok] ok
    by (cases "cdiv (length (fileData e)) (iPageSize e) = 1") (auto simp: w_def pl_def plan_of_def Let_def sizes_ok_def)
  then show s: "sends e msg 0 1 {} (send_start pl)"
    by (simp add: sends_def send_start_def Let_def pl_def w_def status_of_def map_replicate_const replicate_append_same)
  show "iMmapCntr (send_start pl) < iNoOfMappingNeeded pl" using M by (simp add: pl_def plan_simps [OF p(3,4)] send_start_def)
  show "FileTrans_SendActualData (copy_room e) (sendto e) pl (page_at (fileData e) (iPageSize e) (iMmapCntr (send_start pl)))
      (piPktStatus (send_start pl)) (sMmapNo (send_start pl)) (sCorrelater (send_start pl))
      (sLastPktNo (send_start pl)) (sPktsPerMMap (send_start pl))
      = Inr (burst (length w) w 0 1 [0..<length w], NASC_SUCCESS)"
    using send_window [OF ok good M s [unfolded pl_def]] n by (simp add: pl_def w_def)
qed

lemma file_sent:
  assumes ok: "sizes_ok (length (fileData e)) (iPageSize e) msg" and good: "send_good e"
  defines "pl \<equiv> plan_of (length (fileData e)) (iPageSize e) msg" and "win \<equiv> window_of (fileData e) (iPageSize e) msg"
  assumes "iNoPktsPerMMap pl \<le> MAX_DATA_SIZE" "length rss = cdiv (length (fileData e)) (iPageSize e)"
    and "\<forall>k<length rss. rounds_ok (length (win k)) {} (rss ! k)" "(\<Sum>rs\<leftarrow>rss. length rs - 1) \<le> 5"
  shows "FileTransfer_SendData e pl (map Got (file_acks mid win rss))
    = Inr (file_bursts (iNoPktsPerMMap pl) win rss, NASC_SUCCESS)"
proof -
  have "sends e msg 0 1 {} (send_start pl)" unfolding pl_def by (rule first_burst(1) [OF ok good])
  moreover have "\<forall>rs\<in>set rss. rs \<noteq> [] \<and> length rs \<le> 6"
  proof
    fix rs assume rs: "rs \<in> set rss"
    then have "length rs - 1 \<le> (\<Sum>rs\<leftarrow>rss. length rs - 1)" by (intro member_le_sum_list) auto
    moreover have "rs \<noteq> []" using rs assms(7) by (auto simp: in_set_conv_nth rounds_ok_def)
    ultimately show "rs \<noteq> [] \<and> length rs \<le> 6" using assms(8) by simp
  qed
  moreover have "0 < cdiv (length (fileData e)) (iPageSize e)"
    using ok by (intro cdiv_pos [THEN iffD2]) (simp_all add: sizes_ok_def)
  then have "rss \<noteq> []" using assms(6) by auto
  ultimately have "send_data e pl (send_start pl) (map Got (file_acks mid win rss))
      = Inr (file_bursts (iNoPktsPerMMap pl) win rss, NASC_SUCCESS)"
    using windows_sent [OF ok good, of 0 "send_start pl" rss mid] assms(5,6)
    by (simp add: pl_def win_def file_acks_def file_bursts_def send_start_def)
  then show ?thesis using good by (simp add: FileTransfer_SendData_def send_good_def)
qed

text \<open>A transfer for the examples: files of a few bytes, pages of four bytes and messages of two.\<close>

definition sample_sender :: "byte list \<Rightarrow> send_env" where
  "sample_sender b = \<lparr>sendto = \<lambda>_. True, mmap = \<lambda>_. True, fileData = b, iPageSize = 4, status_room = True, copy_room = True,
     bound = True, opened = True, statted = True, connected = True\<rparr>"

definition sample_receiver :: file_env where
  "sample_receiver = \<lparr>packet_room = \<lambda>_. True, name_room = True, can_open = \<lambda>_. True, status_mem = True, slots_mem = True,
     dir_exists = \<lambda>_. False, can_mkdir = \<lambda>_. False, ack_sent = \<lambda>_. True, moduleId = 0\<rparr>"

definition sample_cntrl :: "nat \<Rightarrow> stCntrlData" where
  "sample_cntrl n = (if n = 5
     then \<lparr>iTotNoPkts = 3, iTotNoMaps = 2, cNoPktsPerMMap = 2, iNoExtraMapPackets = 1, iMesgSizePerPkt = 2,
       iMesgSizeForLastPkt = 1, pcDestPath = [], pcFileName = [97]\<rparr>
     else \<lparr>iTotNoPkts = 2, iTotNoMaps = 1, cNoPktsPerMMap = 2, iNoExtraMapPackets = 0, iMesgSizePerPkt = 2,
       iMesgSizeForLastPkt = 1, pcDestPath = [], pcFileName = [97]\<rparr>)"

lemma sample_good:
  "send_good (sample_sender b)" "bound (sample_sender b)" "opened (sample_sender b)" "statted (sample_sender b)"
  "connected (sample_sender b)" "recv_good sample_receiver" "name_room sample_receiver" "status_mem sample_receiver"
  "slots_mem sample_receiver" "can_open sample_receiver p" "fileData (sample_sender b) = b" "iPageSize (sample_sender b) = 4"
  "moduleId sample_receiver = 0"
  by (simp_all add: sample_sender_def sample_receiver_def send_good_def recv_good_def)

lemma sample_names:
  "base_name [97] = Some [97]" "dest_path sample_receiver (sample_cntrl n) = Inr [46, 47, 97]"
  "cntrl_data (plan_of 5 4 2) [97] None = Some (sample_cntrl 5)"
  "cntrl_data (plan_of 3 4 2) [97] None = Some (sample_cntrl 3)"
  by (simp_all add: base_name_def dest_path_def sample_cntrl_def cntrl_data_def plan_of_def cdiv_def Let_def)

lemma sample_lengths:
  "length [1, 2, 3, 4, 5 :: byte] = 5" "length [1, 2, 3 :: byte] = 3" "length [[1, 2], [3 :: byte]] = 2"
  "[0..<2] = [0, 1]" "filter (\<lambda>x. x \<noteq> 1) [0, 1 :: nat] = [0]" "take 1 [[1, 2], [3 :: byte]] = [[1, 2]]"
  "drop (Suc 1) [[1, 2], [3 :: byte]] = []" "length [[0 :: nat]] = 1" "length [[1], [0 :: nat]] = 2"
  "length [[[1], [0]], [[0 :: nat]]] = 2"
  by (simp_all add: upt_rec)

lemma sample_fields:
  "cNoPktsPerMMap (sample_cntrl n) = 2" "iTotNoMaps (sample_cntrl 5) = 2"
  by (simp_all add: sample_cntrl_def)

lemma sample_windows:
  "window_of [1, 2, 3, 4, 5] 4 2 0 = [[1, 2], [3, 4]]" "window_of [1, 2, 3, 4, 5] 4 2 (Suc 0) = [[5]]"
  "window_of [1, 2, 3] 4 2 0 = [[1, 2], [3]]"
  by (simp_all add: window_of_def chunks_def cdiv_def upt_rec)

lemma sample_sizes: "sizes_ok 5 4 2" "sizes_ok 3 4 2"
  by (simp_all add: sizes_ok_def)

text \<open>With the handshake acknowledged, the data are sent.\<close>

lemma SendFile_data:
  assumes "bound e" "opened e" "statted e" "connected e" "base_name path = Some name"
    and "cntrl_data (plan_of (length (fileData e)) (iPageSize e) msg) name dpath = Some d"
  shows "FileTrans_SendFile e True path True dpath msg (Got (ack_msg HND_SHAKE_ACK mid 0 1 []) # es)
    = rbind (FileTransfer_SendData e (plan_of (length (fileData e)) (iPageSize e) msg) es) (\<lambda>(bs, r). Inr (1, bs, r))"
  using assms by (simp add: FileTrans_SendFile_def FileTransfer_InitHandshake_def handshake_loop.simps [of True 0]
      copy_status_def ack_msg_def Let_def)

text \<open>C16: What a transfer writes. The file is not empty, the message size is at most 1100 bytes and divides
  the page, unless the file is shorter than a page, and a window has at most 1100 packets. The network
  delivers the packets of a window in any order; memory suffices, the files can be opened and the
  acknowledgements arrive. Then both sides end with success, and the bytes sent are written over the
  start of the receiver's file: an older and longer file keeps its end, as it is not truncated. The
  sender, reading the acknowledgements, sends one handshake and bursts that have everything that arrived.

  When every window has one round nothing is lost and nobody waits in vain. More rounds are packets
  that were lost and noticed by the receiver: its wait of 7 seconds ends between two rounds, at most
  five times in all, and its request reaches the sender before the wait of the sender ends, which starts
  at the end of the burst and is 5 seconds long; so the burst must have taken more than two seconds.
  Otherwise the sender repeats its burst first, and \<open>lost_packet_unnoticed\<close> is what comes of it.
\<close>

theorem transfer_exact:
  assumes "sizes_ok (length (fileData e)) (iPageSize e) msg" "send_good e"
    and "bound e" "opened e" "statted e" "connected e"
    and "base_name path = Some name"
    and "cntrl_data (plan_of (length (fileData e)) (iPageSize e) msg) name dpath = Some d"
    and "recv_good r" "name_room r" "status_mem r" "slots_mem r" "dest_path r d = Inr out" "can_open r out"
    and "cNoPktsPerMMap d \<le> MAX_DATA_SIZE"
    and "length rss = iTotNoMaps d" "(\<Sum>rs\<leftarrow>rss. length rs - 1) \<le> 5"
    and "\<forall>k<length rss. rounds_ok (length (window_of (fileData e) (iPageSize e) msg k)) {} (rss ! k)"
  shows "\<exists>acks bursts.
      FileTrans_HandleRequest r old d (file_events (cNoPktsPerMMap d) (window_of (fileData e) (iPageSize e) msg) rss)
        = Some (Inr (NASC_SUCCESS, Some (out, overwrite (fileData e) (old out)), acks))
    \<and> FileTrans_SendFile e True path True dpath msg (map Got acks) = Inr (1, bursts, NASC_SUCCESS)
    \<and> {p. Got p \<in> set (file_events (cNoPktsPerMMap d) (window_of (fileData e) (iPageSize e) msg) rss)}
          \<subseteq> set (concat bursts)"
proof -
  let ?win = "window_of (fileData e) (iPageSize e) msg" and ?pl = "plan_of (length (fileData e)) (iPageSize e) msg"
  let ?acks = "file_acks (moduleId r) ?win rss" and ?bursts = "file_bursts (cNoPktsPerMMap d) ?win rss"
  have p: "0 < iPageSize e" "0 < msg" "msg \<le> MAX_DATA_SIZE" using assms(1) by (auto simp: sizes_ok_def)
  have d: "cNoPktsPerMMap d = iNoPktsPerMMap ?pl" "iTotNoMaps d = cdiv (length (fileData e)) (iPageSize e)"
    using assms(8) by (auto simp: cntrl_data_def plan_simps [OF p(2,3)] split: if_splits)
  obtain t where t: "transfer_windows t = ?win" "transfer_cntrl t = d" by (rule transfer_of [OF assms(1,8)])
  have recv: "FileTrans_HandleDataPkt r old d (file_events (cNoPktsPerMMap d) ?win rss)
      = Some (Inr (NASC_SUCCESS, Some (out, overwrite (fileData e) (old out)), ?acks))"
    using fw.file_received [of r t rss, unfolded t] assms(9-18) concat_windows [OF p(1,2), of "fileData e"] d(2)
    by (auto simp: FileTrans_HandleDataPkt_def lift_res_def)
  have sent: "FileTransfer_SendData e ?pl (map Got ?acks) = Inr (?bursts, NASC_SUCCESS)"
    unfolding d(1) using assms(15-18) d by (intro file_sent [OF assms(1,2)]) simp_all
  let ?a = "ack_msg HND_SHAKE_ACK (moduleId r) 0 1 []"
  show ?thesis
    using recv sent SendFile_data [OF assms(3-8), of "moduleId r" "map Got ?acks"] assms(9)
      file_events_sent [OF assms(18), of "cNoPktsPerMMap d"]
    by (intro exI [of _ "?a # ?acks"] exI [of _ ?bursts]) (simp add: FileTrans_HandleRequest_def recv_good_def Let_def)
qed

text \<open>A file of two pages, the first of which comes in two rounds.\<close>

theorem transfer_exact_witness:
  "\<exists>acks bursts.
      FileTrans_HandleRequest sample_receiver (\<lambda>_. []) (sample_cntrl 5)
        (file_events 2 (window_of [1, 2, 3, 4, 5] 4 2) [[[1], [0]], [[0]]])
        = Some (Inr (NASC_SUCCESS, Some ([46, 47, 97], [1, 2, 3, 4, 5]), acks))
    \<and> FileTrans_SendFile (sample_sender [1, 2, 3, 4, 5]) True [97] True None 2 (map Got acks) = Inr (1, bursts, NASC_SUCCESS)
    \<and> {p. Got p \<in> set (file_events 2 (window_of [1, 2, 3, 4, 5] 4 2) [[[1], [0]], [[0]]])} \<subseteq> set (concat bursts)"
proof -
  have "\<forall>k<2. rounds_ok (length (window_of [1, 2, 3, 4, 5 :: byte] 4 2 k)) {} ([[[1], [0]], [[0 :: nat]]] ! k)"
    by (auto simp: less_2_cases_iff sample_windows rounds_ok_def simp del: window_length)
  then show ?thesis
    using transfer_exact [of "sample_sender [1, 2, 3, 4, 5]" 2 "[97]" "[97]" None "sample_cntrl 5" sample_receiver
        "[46, 47, 97]" "[[[1], [0]], [[0]]]" "\<lambda>_. []"]
    by (simp add: sample_good sample_names sample_sizes sample_fields sample_lengths overwrite_def
        del: window_length set_concat One_nat_def list.size)
qed

section \<open>What goes wrong\<close>

text \<open>A file of one page, and arrivals of the window in any order and with repetitions.\<close>

lemma one_window:
  assumes "sizes_ok (length content) page msg" "length content \<le> page"
    and "cntrl_data (plan_of (length content) page msg) name dpath = Some d"
  shows "iTotNoMaps d = 1" "cNoPktsPerMMap d = cdiv (length content) msg" "iTotNoPkts d = cdiv (length content) msg"
    and "iNoExtraMapPackets d = 0" "length (window_of content page msg 0) = cdiv (length content) msg"
    and "concat (window_of content page msg 0) = content" "0 < cdiv (length content) msg"
    and "\<forall>b\<in>set (window_of content page msg 0). length b \<le> MAX_DATA_SIZE"
proof -
  have p: "0 < page" "0 < length content" "0 < msg" "msg \<le> MAX_DATA_SIZE" using assms(1) by (auto simp: sizes_ok_def)
  note o = one_page [OF p(1,2) assms(2)]
  show "iTotNoMaps d = 1" "cNoPktsPerMMap d = cdiv (length content) msg" "iTotNoPkts d = cdiv (length content) msg"
    "iNoExtraMapPackets d = 0"
    using assms(2,3) o by (auto simp: cntrl_data_def plan_simps [OF p(3,4)] split: if_splits)
  show "length (window_of content page msg 0) = cdiv (length content) msg" using o by simp
  show "concat (window_of content page msg 0) = content" using assms(2) by (simp add: window_of_def concat_chunks [OF p(3)])
  show "0 < cdiv (length content) msg" using p cdiv_pos by simp
  show "\<forall>b\<in>set (window_of content page msg 0). length b \<le> MAX_DATA_SIZE" using p(4) by (auto simp: window_of_def chunks_def)
qed

text \<open>As many arrivals as the window has packets complete it, whichever they are.\<close>

lemma arrivals_counted:
  assumes "cNoPktsPerMMap d = length w" "iTotNoPkts d = length w" "recv_good r"
    and "length B = length w" "set B \<subseteq> {..<length w}" "\<forall>b\<in>set w. length b \<le> MAX_DATA_SIZE"
  shows "\<exists>s. recv_loop r d (recv_start d) (map Got (burst (length w) w 0 1 B)) = Some (Inr (NASC_SUCCESS, s, []))
    \<and> fWritten s = concat (map (\<lambda>i. if i \<in> set B then w ! i else []) [0..<length w])
    \<and> fAcks s = [ack_msg DATA_ACK (moduleId r) 1 1 []]"
proof -
  let ?n = "length w" and ?ps = "burst (length w) w 0 1 B"
  let ?r = "fold (store ?n 1) ?ps (fRecv (recv_start d))"
  have fits: "\<forall>p\<in>set ?ps. fits_window (packet_room r) ?n 1 1 p"
    using assms(3,5,6) by (fastforce simp: burst_def fits_window_def data_pkt_def place_def recv_good_def)
  have len: "length ?ps = ?n" using assms(4) by (simp add: burst_def)
  have rx: "FileTrans_RecvDataPkt (packet_room r) ?n ?n 1 1 0 (fRecv (recv_start d)) (map Got ?ps) = Inr (NASC_SUCCESS, ?r, [])"
    using recv_fitting [OF fits, of 0 ?n "fRecv (recv_start d)" "[]"] len by (simp add: recv_enough)
  have data: "\<forall>p\<in>set ?ps. cData p = w ! nat (place ?n 1 p)" by (auto simp: burst_def data_pkt_def place_def)
  have places: "places ?n 1 ?ps = set B" by (auto simp: places_def burst_def data_pkt_def place_def image_image)
  have "rSlots (fRecv (recv_start d)) = map (\<lambda>_. []) [0..<?n]"
    using assms(1) by (simp add: recv_start_def map_replicate_const)
  from fold_store_slots [OF data this] have slots: "rSlots ?r = map (\<lambda>i. if i \<in> set B then w ! i else []) [0..<?n]"
    unfolding places .
  have tot: "iToNoOfPktsRecvd ?r = ?n" using fold_store_total [of ?n 1 ?ps "fRecv (recv_start d)"] len
    by (simp add: recv_start_def)
  show ?thesis
    using rx slots tot assms(1-3)
    by (subst recv_loop.simps) (simp add: Let_def recv_start_def recv_good_def window_done_def)
qed

lemma file_of_arrivals:
  assumes "sizes_ok (length content) page msg" "length content \<le> page"
    and d: "cntrl_data (plan_of (length content) page msg) name dpath = Some d"
    and env: "recv_good r" "name_room r" "status_mem r" "slots_mem r" "dest_path r d = Inr out" "can_open r out"
  defines "w \<equiv> window_of content page msg 0"
  assumes B: "length B = length w" "set B \<subseteq> {..<length w}"
  shows "FileTrans_HandleRequest r old d (map Got (burst (length w) w 0 1 B)) = Some (Inr (NASC_SUCCESS,
      Some (out, overwrite (concat (map (\<lambda>i. if i \<in> set B then w ! i else []) [0..<length w])) (old out)),
      [ack_msg HND_SHAKE_ACK (moduleId r) 0 1 [], ack_msg DATA_ACK (moduleId r) 1 1 []]))"
proof -
  note o = one_window [OF assms(1,2) d, folded w_def]
  obtain s where "recv_loop r d (recv_start d) (map Got (burst (length w) w 0 1 B)) = Some (Inr (NASC_SUCCESS, s, []))"
      "fWritten s = concat (map (\<lambda>i. if i \<in> set B then w ! i else []) [0..<length w])"
      "fAcks s = [ack_msg DATA_ACK (moduleId r) 1 1 []]"
    using arrivals_counted [of d w r B] o(2,3,5,8) env(1) B by auto
  then show ?thesis using env
    by (simp add: FileTrans_HandleRequest_def FileTrans_HandleDataPkt_def lift_res_def recv_good_def Let_def)
qed

text \<open>The sender when nothing arrives: the first window again and again.\<close>

lemma send_data_timeouts:
  assumes "FileTrans_SendActualData (copy_room e) (sendto e) pl (page_at (fileData e) (iPageSize e) (iMmapCntr s))
      (piPktStatus s) (sMmapNo s) (sCorrelater s) (sLastPktNo s) (sPktsPerMMap s) = Inr (ps, NASC_SUCCESS)"
    and "iMmapCntr s < iNoOfMappingNeeded pl" "iNoOfRetries s \<le> 6"
  shows "send_data e pl s [] = Inr (replicate (6 - iNoOfRetries s) ps, NASC_FAILURE)"
  using assms
proof (induction "6 - iNoOfRetries s" arbitrary: s)
  case 0
  then show ?case by (subst send_data.simps) simp
next
  case (Suc x)
  let ?s = "s\<lparr>iNoOfRetries := iNoOfRetries s + 1\<rparr>"
  have x: "6 - iNoOfRetries s = Suc (6 - iNoOfRetries ?s)" using Suc.hyps(2) by simp
  have "send_data e pl ?s [] = Inr (replicate (6 - iNoOfRetries ?s) ps, NASC_FAILURE)"
    using Suc.hyps(2) Suc.prems by (intro Suc.hyps(1)) simp_all
  then show ?case unfolding x using Suc.prems Suc.hyps(2) by (subst send_data.simps) (simp add: Let_def)
qed

text \<open>C17: The loss of a packet goes unnoticed. The sender waits 5 seconds for an answer, the receiver 7
  seconds for a packet, and the sender repeats its burst unchanged. When packet \<open>i\<close> of a file of one
  page is lost and packet \<open>j\<close> is the first of the repeated burst to arrive, the receiver has counted as many packets as
  the window has: it acknowledges, ends with success and leaves packet \<open>i\<close> out of the file. The sender
  ends with success too.
\<close>

theorem lost_packet_unnoticed:
  assumes "sizes_ok (length (fileData e)) (iPageSize e) msg" "length (fileData e) \<le> iPageSize e" "send_good e"
    and "bound e" "opened e" "statted e" "connected e"
    and "base_name path = Some name"
    and "cntrl_data (plan_of (length (fileData e)) (iPageSize e) msg) name dpath = Some d"
    and "recv_good r" "name_room r" "status_mem r" "slots_mem r" "dest_path r d = Inr out" "can_open r out"
    and "w = window_of (fileData e) (iPageSize e) msg 0"
    and "i < length w" "j < length w" "j \<noteq> i"
  shows "\<exists>a. FileTrans_HandleRequest r old d (map Got (burst (length w) w 0 1 (filter (\<lambda>x. x \<noteq> i) [0..<length w] @ [j])))
        = Some (Inr (NASC_SUCCESS, Some (out, overwrite (concat (take i w) @ concat (drop (Suc i) w)) (old out)),
            [ack_msg HND_SHAKE_ACK (moduleId r) 0 1 [], a]))
    \<and> FileTrans_SendFile e True path True dpath msg [Got (ack_msg HND_SHAKE_ACK (moduleId r) 0 1 []), TimedOut, Got a]
        = Inr (1, [burst (length w) w 0 1 [0..<length w], burst (length w) w 0 1 [0..<length w]], NASC_SUCCESS)"
proof -
  let ?pl = "plan_of (length (fileData e)) (iPageSize e) msg" and ?B = "filter (\<lambda>x. x \<noteq> i) [0..<length w] @ [j]"
  let ?a = "ack_msg DATA_ACK (moduleId r) 1 1 []" and ?s = "send_start (plan_of (length (fileData e)) (iPageSize e) msg)"
  have split: "[0..<length w] = [0..<i] @ i # [Suc i..<length w]"
    using upt_add_eq_append [of 0 i "length w - i"] assms(17) by (simp add: upt_conv_Cons)
  have w1: "map (\<lambda>x. if x \<in> set ?B then w ! x else []) [0..<length w] = take i w @ [] # drop (Suc i) w"
    unfolding split map_append list.map
    using assms(17,19) by (auto intro!: nth_equalityI simp: nth_append)
  have "length (filter (\<lambda>x. x \<noteq> i) [0..<length w]) = length w - 1" unfolding split using assms(17) by simp
  then have "length ?B = length w" "set ?B \<subseteq> {..<length w}" using assms(17,18) by auto
  then have recv: "FileTrans_HandleRequest r old d (map Got (burst (length w) w 0 1 ?B)) = Some (Inr (NASC_SUCCESS,
      Some (out, overwrite (concat (take i w) @ concat (drop (Suc i) w)) (old out)),
      [ack_msg HND_SHAKE_ACK (moduleId r) 0 1 [], ?a]))"
    using file_of_arrivals [OF assms(1,2,9-15), of ?B old, folded assms(16)] w1 by simp
  note burst = first_burst(4) [OF assms(1,3), folded assms(16)]
  have M: "iNoOfMappingNeeded ?pl = 1" using one_page assms(1,2) by (auto simp: plan_of_def Let_def sizes_ok_def)
  have start: "sMmapNo ?s = 1" "sCorrelater ?s = 1" "iMmapCntr ?s = 0" "iNoOfRetries ?s = 0" by (simp_all add: send_start_def)
  have ack: "send_data e ?pl (?s\<lparr>iNoOfRetries := 1\<rparr>) [Got ?a] = Inr ([burst (length w) w 0 1 [0..<length w]], NASC_SUCCESS)"
    using burst M start by (subst send_data.simps) (simp add: Let_def copy_status_def ack_msg_def)
  have "send_data e ?pl ?s [TimedOut, Got ?a] = Inr ([burst (length w) w 0 1 [0..<length w], burst (length w) w 0 1 [0..<length w]], NASC_SUCCESS)"
    using burst M start ack by (subst send_data.simps) (simp add: Let_def)
  then show ?thesis
    using recv SendFile_data [OF assms(4-9), of "moduleId r" "[TimedOut, Got ?a]"] assms(3)
    by (intro exI [of _ ?a]) (simp add: FileTransfer_SendData_def send_good_def)
qed

theorem lost_packet_unnoticed_witness:
  "\<exists>a. FileTrans_HandleRequest sample_receiver (\<lambda>_. []) (sample_cntrl 3) (map Got (burst 2 [[1, 2], [3]] 0 1 [0, 0]))
        = Some (Inr (NASC_SUCCESS, Some ([46, 47, 97], [1, 2]), [ack_msg HND_SHAKE_ACK 0 0 1 [], a]))
    \<and> FileTrans_SendFile (sample_sender [1, 2, 3]) True [97] True None 2 [Got (ack_msg HND_SHAKE_ACK 0 0 1 []), TimedOut, Got a]
        = Inr (1, [burst 2 [[1, 2], [3]] 0 1 [0, 1], burst 2 [[1, 2], [3]] 0 1 [0, 1]], NASC_SUCCESS)"
  using lost_packet_unnoticed [of "sample_sender [1, 2, 3]" 2 "[97]" "[97]" None "sample_cntrl 3" sample_receiver
      "[46, 47, 97]" "[[1, 2], [3]]" 1 0 "\<lambda>_. []"]
  by (simp add: sample_good sample_names sample_sizes sample_windows sample_lengths overwrite_def del: One_nat_def list.size)

text \<open>A lost acknowledgement fails a transfer that is complete. The receiver of a file of one page has
  written all of it, has ended with success and does not listen any more; the sender repeats the burst
  six times in all and reports a failure.
\<close>

theorem lost_ack_fails:
  assumes "sizes_ok (length (fileData e)) (iPageSize e) msg" "length (fileData e) \<le> iPageSize e" "send_good e"
    and "bound e" "opened e" "statted e" "connected e"
    and "base_name path = Some name"
    and "cntrl_data (plan_of (length (fileData e)) (iPageSize e) msg) name dpath = Some d"
    and "recv_good r" "name_room r" "status_mem r" "slots_mem r" "dest_path r d = Inr out" "can_open r out"
    and "w = window_of (fileData e) (iPageSize e) msg 0"
  shows "\<exists>a. FileTrans_HandleRequest r old d (map Got (burst (length w) w 0 1 [0..<length w]))
        = Some (Inr (NASC_SUCCESS, Some (out, overwrite (fileData e) (old out)), [ack_msg HND_SHAKE_ACK (moduleId r) 0 1 [], a]))
    \<and> FileTrans_SendFile e True path True dpath msg [Got (ack_msg HND_SHAKE_ACK (moduleId r) 0 1 [])]
        = Inr (1, replicate 6 (burst (length w) w 0 1 [0..<length w]), NASC_FAILURE)"
proof -
  have "map (\<lambda>i. if i \<in> set [0..<length w] then w ! i else []) [0..<length w] = w"
    by (auto intro: nth_equalityI)
  then have recv: "FileTrans_HandleRequest r old d (map Got (burst (length w) w 0 1 [0..<length w])) = Some (Inr (NASC_SUCCESS,
      Some (out, overwrite (fileData e) (old out)), [ack_msg HND_SHAKE_ACK (moduleId r) 0 1 [], ack_msg DATA_ACK (moduleId r) 1 1 []]))"
    using file_of_arrivals [OF assms(1,2,9-15), of "[0..<length w]" old, folded assms(16)]
      one_window(6) [OF assms(1,2,9), folded assms(16)] by (simp add: atLeast_upt)
  note burst = first_burst(2,4) [OF assms(1,3), folded assms(16)]
  show ?thesis
    using recv SendFile_data [OF assms(4-9), of "moduleId r" "[]"] assms(3) send_data_timeouts [OF burst(2,1)]
    by (simp add: FileTransfer_SendData_def send_good_def) (simp add: send_start_def)
qed

theorem lost_ack_fails_witness:
  "\<exists>a. FileTrans_HandleRequest sample_receiver (\<lambda>_. []) (sample_cntrl 3) (map Got (burst 2 [[1, 2], [3]] 0 1 [0, 1]))
        = Some (Inr (NASC_SUCCESS, Some ([46, 47, 97], [1, 2, 3]), [ack_msg HND_SHAKE_ACK 0 0 1 [], a]))
    \<and> FileTrans_SendFile (sample_sender [1, 2, 3]) True [97] True None 2 [Got (ack_msg HND_SHAKE_ACK 0 0 1 [])]
        = Inr (1, replicate 6 (burst 2 [[1, 2], [3]] 0 1 [0, 1]), NASC_FAILURE)"
  using lost_ack_fails [of "sample_sender [1, 2, 3]" 2 "[97]" "[97]" None "sample_cntrl 3" sample_receiver
      "[46, 47, 97]" "[[1, 2], [3]]" "\<lambda>_. []"]
  by (simp add: sample_good sample_names sample_sizes sample_windows sample_lengths overwrite_def del: One_nat_def list.size)

text \<open>C37: The number of a packet is not checked. A data packet for the first window with a number below 1
  or above the number of packets of a window is stored outside the receiver's arrays.
\<close>

theorem packet_number_unchecked:
  assumes "recv_good r" "name_room r" "status_mem r" "slots_mem r" "dest_path r d = Inr out" "can_open r out"
    and "0 < cNoPktsPerMMap d" "ePktType p = DATA" "iMmapNo p = 1" "iCorrelater p = 1" "length (cData p) \<le> MAX_DATA_SIZE"
    and "iPktNo p < 1 \<or> iPktNo p > int (cNoPktsPerMMap d)"
  shows "FileTrans_HandleRequest r old d (Got p # es) = Some (Inl (OutOfBounds (iPktNo p - 1)))"
proof -
  have "recv_loop r d (recv_start d) (Got p # es) = Some (Inl (OutOfBounds (iPktNo p - 1)))"
    using assms by (subst recv_loop.simps) (auto simp: recv_start_def recv_good_def place_def)
  then show ?thesis using assms(1-6)
    by (simp add: FileTrans_HandleRequest_def FileTrans_HandleDataPkt_def lift_res_def recv_good_def Let_def)
qed

theorem packet_number_unchecked_witness:
  "FileTrans_HandleRequest sample_receiver (\<lambda>_. []) (sample_cntrl 3)
     [Got \<lparr>ePktType = DATA, eModuleId = 0, iPktNo = 1000, iMmapNo = 1, iCorrelater = 1, cData = [1]\<rparr>]
   = Some (Inl (OutOfBounds 999))"
  using packet_number_unchecked [of sample_receiver "sample_cntrl 3" "[46, 47, 97]"
      "\<lparr>ePktType = DATA, eModuleId = 0, iPktNo = 1000, iMmapNo = 1, iCorrelater = 1, cData = [1]\<rparr>" "\<lambda>_. []" "[]"]
  by (simp add: sample_good sample_names) (simp add: sample_cntrl_def)

text \<open>No call that returns starts in such a window.\<close>

lemma empty_windows_loop:
  assumes "recv_loop e d s es = Some x"
  shows "recv_good e \<and> cNoPktsPerMMap d = 0 \<and> iNoExtraMapPackets d = 0 \<and> iTotNoPkts d \<noteq> 0
    \<longrightarrow> \<not> (fExpected s = 0 \<and> fPktsPerMap s = 0 \<and> iToNoOfPktsRecvd (fRecv s) = 0)"
proof (rule recv_loop.raw_induct [where P = "\<lambda>e d s es x. recv_good e \<and> cNoPktsPerMMap d = 0 \<and> iNoExtraMapPackets d = 0
      \<and> iTotNoPkts d \<noteq> 0 \<longrightarrow> \<not> (fExpected s = 0 \<and> fPktsPerMap s = 0 \<and> iToNoOfPktsRecvd (fRecv s) = 0)", OF _ assms],
    intro impI notI, goal_cases)
  case (1 loop e d s es x)
  let ?s = "window_next d (window_done d (s\<lparr>fAcks := fAcks s @ [ack_msg DATA_ACK (moduleId e) (fMmapNo s) (fCorrelater s) []]\<rparr>))"
  have "loop e d ?s es = Some x"
    using 1(2-4) by (simp add: recv_enough Let_def recv_good_def)
  from 1(1) [OF this] 1(3,4) show False
    by (simp add: window_next_def window_done_def Let_def)
qed

text \<open>C40: Windows without packets are acknowledged for ever. When the handshake announces no packets per
  window but a number of packets, the receiver's thread never ends: without waiting for anything it
  sends one acknowledgement after the other.
\<close>

theorem empty_windows_never_end:
  assumes "recv_good r" "name_room r" "status_mem r" "slots_mem r" "dest_path r d = Inr out" "can_open r out"
    and "cNoPktsPerMMap d = 0" "iNoExtraMapPackets d = 0" "iTotNoPkts d \<noteq> 0"
  shows "FileTrans_HandleRequest r old d es = None"
proof -
  have "recv_loop r d (recv_start d) es = None"
  proof (cases "recv_loop r d (recv_start d) es")
    case (Some x)
    have "fExpected (recv_start d) = 0" "fPktsPerMap (recv_start d) = 0" "iToNoOfPktsRecvd (fRecv (recv_start d)) = 0"
      using assms(7) by (simp_all add: recv_start_def)
    with empty_windows_loop [OF Some] assms(1,7-9) show ?thesis by blast
  qed simp
  then show ?thesis using assms(1-6)
    by (simp add: FileTrans_HandleRequest_def FileTrans_HandleDataPkt_def lift_res_def recv_good_def Let_def)
qed

theorem empty_windows_never_end_witness:
  "FileTrans_HandleRequest sample_receiver (\<lambda>_. []) (sample_cntrl 3\<lparr>cNoPktsPerMMap := 0\<rparr>) [] = None"
  using empty_windows_never_end [of sample_receiver "sample_cntrl 3\<lparr>cNoPktsPerMMap := 0\<rparr>" "[46, 47, 97]" "\<lambda>_. []" "[]"]
  by (simp add: sample_good dest_path_def sample_cntrl_def Let_def)

text \<open>Every datagram that arrives on the well-known port is taken for a handshake, whatever its type:
  the type that is tested is never set. An error of the socket is taken for one as well, and starts a
  handler with the control data of the last one.
\<close>

theorem every_datagram_is_a_request:
  "FileTrans_ProcessRecvMsg HND_SHAKE stData (map Got ps @ Failed # es)
    = (let ds = map (\<lambda>p. take CNTRL_SIZE (cData p @ replicate CNTRL_SIZE 0)) ps; lst = last (stData # ds) in
       ds @ lst # FileTrans_ProcessRecvMsg HND_SHAKE lst es)"
proof (induction ps arbitrary: stData)
  case Nil
  show ?case by (subst FileTrans_ProcessRecvMsg.simps) simp
next
  case (Cons p ps)
  show ?case
    using Cons [of "take CNTRL_SIZE (cData p @ replicate CNTRL_SIZE 0)"]
    by (subst FileTrans_ProcessRecvMsg.simps) (simp add: Let_def)
qed

end
