(* ===== verification/ProcMon.thy ===== *)
theory ProcMon
  imports RbmText
begin

text \<open>
  The process monitor of the agent (\<^verbatim>\<open>src/Group1/ProcMon/src/psMonitorTable.c\<close>, as built for Linux): one
  thread for each row of the table counts the processes of the row and sends an alert when the process
  comes, goes, is there too often or uses too much. A turn of the thread's loop is one step. What a turn
  reads and does not compute is an observation: the row it finds, the local time, the lists of processes
  the other thread has made, and what \<^verbatim>\<open>stat\<close> says of a path.
\<close>

section \<open>Rows and processes\<close>

record ps_cache_info =
  ps_pid :: int
  ps_time :: int
  ps_cputime :: int
  ps_cpu :: int
  ps_hcpu :: int
  ps_mem :: int
  ps_name :: string
  ps_args :: string

record psMonitor =
  psMonitorName :: string
  psMonitorParameter :: string
  psMonitorNumber :: int
  psMonitorCheckInterval :: int
  psMonitorReaction :: int
  psMonitorReactionPath :: string
  psMonitorStatus :: int
  psMonitorCPU :: int
  psMonitorMEM :: int
  psMonitorStartHour :: int
  psMonitorEndHour :: int

abbreviation (input) SNMP_ROW_ACTIVE :: int where "SNMP_ROW_ACTIVE \<equiv> 1"

datatype usage = CPU | MEM

text \<open>
  The alerts: up, down, too many processes and no longer so with the number of processes; and the
  usage of a process above its threshold (\<^const>\<open>True\<close>) or below it again, with its id or 0.
\<close>

datatype alert = Up int | Down int | Over int | Recovered int | Usage usage int bool

datatype act = Send alert | Restart string

section \<open>Thresholds\<close>

text \<open>The previous entry of a process.\<close>

fun searchPrePsInfo :: "int \<Rightarrow> ps_cache_info list \<Rightarrow> ps_cache_info option" where
  "searchPrePsInfo p [] = None"
| "searchPrePsInfo p (pci # pcis) = (if ps_pid pci = p then Some pci else searchPrePsInfo p pcis)"

text \<open>
  One threshold for a process that was not there before, and for one that was. The flag says that the
  threshold has been reported; it belongs to the row, which may have several processes.
\<close>

definition threshold_new :: "usage \<Rightarrow> int \<Rightarrow> int \<Rightarrow> int \<Rightarrow> int \<Rightarrow> int \<times> act list" where
  "threshold_new u limit val p flag =
    (if limit > 0 \<and> val \<ge> limit then (1, [Send (Usage u p True)]) else (flag, []))"

definition threshold_known :: "usage \<Rightarrow> int \<Rightarrow> int \<Rightarrow> int \<Rightarrow> int \<Rightarrow> int \<times> act list" where
  "threshold_known u limit val p flag =
    (if limit > 0 then
       if val \<ge> limit \<and> flag < 1 then (1, [Send (Usage u p True)])
       else if val < limit \<and> flag > 0 then (0, [Send (Usage u p False)])
       else (flag, [])
     else (flag, []))"

text \<open>The flags are \<open>thrcpu\<close> and \<open>thrmem\<close>.\<close>

definition checkThreshold :: "ps_cache_info list \<Rightarrow> psMonitor \<Rightarrow> ps_cache_info \<Rightarrow> int \<times> int \<Rightarrow> (int \<times> int) \<times> act list" where
  "checkThreshold gpstPrePsInfo row psinfo fl =
    (if psMonitorCPU row < 1 \<and> psMonitorMEM row < 1 then (fl, [])
     else let chk = (if searchPrePsInfo (ps_pid psinfo) gpstPrePsInfo = None then threshold_new else threshold_known);
              (thrcpu, as) = chk CPU (psMonitorCPU row) (ps_cpu psinfo) (ps_pid psinfo) (fst fl);
              (thrmem, bs) = chk MEM (psMonitorMEM row) (ps_mem psinfo) (ps_pid psinfo) (snd fl)
          in ((thrcpu, thrmem), as @ bs))"

section \<open>Counting processes\<close>

text \<open>
  \<open>matches args pattern\<close> is \<^verbatim>\<open>ProcMon_CheckPattern\<close>, a call of the regular expressions of the C library.
\<close>

definition of_row :: "(string \<Rightarrow> string \<Rightarrow> bool) \<Rightarrow> psMonitor \<Rightarrow> ps_cache_info \<Rightarrow> bool" where
  "of_row matches row ps =
    (let parameter = psMonitorParameter row;
         parameter = (if parameter \<noteq> [] \<and> hd parameter = CHR '' '' then tl parameter else parameter)
     in ps_name ps = psMonitorName row \<and> (parameter = [] \<or> ps_args ps \<noteq> [] \<and> matches (ps_args ps) parameter))"

fun check_procs :: "(string \<Rightarrow> string \<Rightarrow> bool) \<Rightarrow> ps_cache_info list \<Rightarrow> psMonitor \<Rightarrow> ps_cache_info list \<Rightarrow> int \<Rightarrow> int \<times> int
    \<Rightarrow> int \<times> (int \<times> int) \<times> act list" where
  "check_procs matches pre row [] iCount fl = (iCount, fl, [])"
| "check_procs matches pre row (ps # pss) iCount fl =
    (if of_row matches row ps
     then let (fl, as) = checkThreshold pre row ps fl; (n, fl, bs) = check_procs matches pre row pss (iCount + 1) fl
          in (n, fl, as @ bs)
     else check_procs matches pre row pss iCount fl)"

text \<open>Without a complete list the count is unknown: the code returns -99.\<close>

definition ProcMon_CheckProc :: "(string \<Rightarrow> string \<Rightarrow> bool) \<Rightarrow> ps_cache_info list \<Rightarrow> ps_cache_info list \<Rightarrow> bool \<Rightarrow> psMonitor
    \<Rightarrow> int \<times> int \<Rightarrow> int \<times> (int \<times> int) \<times> act list" where
  "ProcMon_CheckProc matches gpstPsInfo gpstPrePsInfo full_process_list row fl =
    (if gpstPsInfo = [] \<or> \<not> full_process_list then (- 99, fl, [])
     else check_procs matches gpstPrePsInfo row gpstPsInfo 0 fl)"

section \<open>The time of day\<close>

text \<open>Whether the row is monitored at the local time \<open>tm_hour\<close>, \<open>tm_min\<close>.\<close>

definition getMonitoringTime :: "int \<Rightarrow> int \<Rightarrow> int \<Rightarrow> int \<Rightarrow> bool" where
  "getMonitoringTime startHour endHour tm_hour tm_min =
    (if startHour = endHour \<or> startHour < 0 \<or> endHour < 0 \<or> startHour > 23 \<or> endHour > 23 then True
     else let starttime = startHour * 60;
              endtime = (if startHour > endHour then endHour * 60 + 23 * 60 else endHour * 60);
              curtime = tm_hour * 60 + tm_min;
              curtime = (if curtime < starttime then curtime + 23 * 60 else curtime)
          in curtime \<ge> starttime \<and> curtime \<le> endtime)"

section \<open>Reactions\<close>

text \<open>Before a down alert the thresholds are taken back, for no process in particular.\<close>

definition recover_usage :: "int \<times> int \<Rightarrow> (int \<times> int) \<times> act list" where
  "recover_usage fl =
    ((if fst fl > 0 then 0 else fst fl, if snd fl > 0 then 0 else snd fl),
     (if fst fl > 0 then [Send (Usage CPU 0 False)] else []) @ (if snd fl > 0 then [Send (Usage MEM 0 False)] else []))"

text \<open>
  The status is -1 as long as nothing is known, 0 for down, 1 for up and 2 for too many processes.
  Reaction 1 sends alerts only.
\<close>

definition react_alert :: "int \<Rightarrow> int \<Rightarrow> int \<Rightarrow> int \<times> int \<Rightarrow> int \<times> (int \<times> int) \<times> act list" where
  "react_alert number iProcCount iStatus fl =
    (if number \<noteq> 0 \<and> number < iProcCount \<and> iStatus \<noteq> 2
     then (2, fl, (if iStatus = 0 then [Send (Up iProcCount)] else []) @ [Send (Over iProcCount)])
     else if number \<noteq> 0 \<and> number \<ge> iProcCount \<and> iStatus = 2
     then if iProcCount = 0
          then let (fl, as) = recover_usage fl in (0, fl, Send (Recovered iProcCount) # as @ [Send (Down iProcCount)])
          else (1, fl, [Send (Recovered iProcCount)])
     else if iStatus \<noteq> 0 \<and> iProcCount = 0
     then let (fl, as) = recover_usage fl in (0, fl, as @ [Send (Down iProcCount)])
     else if iStatus < 1 \<and> iProcCount \<noteq> 0 then (1, fl, [Send (Up iProcCount)])
     else (iStatus, fl, []))"

text \<open>Reaction 2 restarts the process, reaction 3 does both.\<close>

definition react_restart :: "string \<Rightarrow> int \<Rightarrow> int \<Rightarrow> int \<times> int \<Rightarrow> int \<times> (int \<times> int) \<times> act list" where
  "react_restart path iProcCount iStatus fl =
    (if iStatus = - 1 \<and> iProcCount \<noteq> 0 then (1, fl, [Send (Up iProcCount)])
     else if iProcCount = 0 then (iStatus, fl, [Restart path, Send (Up iProcCount)])
     else (iStatus, fl, []))"

definition react_both :: "string \<Rightarrow> int \<Rightarrow> int \<Rightarrow> int \<times> int \<Rightarrow> int \<times> (int \<times> int) \<times> act list" where
  "react_both path iProcCount iStatus fl =
    (if iStatus = - 1 \<and> iProcCount \<noteq> 0 then (1, fl, [Send (Up iProcCount)])
     else if iProcCount = 0
     then if iStatus \<noteq> 0
          then let (fl, as) = recover_usage fl in (0, fl, as @ [Send (Down iProcCount), Restart path])
          else (0, fl, [Restart path])
     else if iStatus = 0 then (1, fl, [Send (Up iProcCount)])
     else (iStatus, fl, []))"

definition react :: "psMonitor \<Rightarrow> int \<Rightarrow> int \<Rightarrow> int \<times> int \<Rightarrow> int \<times> (int \<times> int) \<times> act list" where
  "react row iProcCount iStatus fl =
    (if psMonitorReaction row = 1 then react_alert (psMonitorNumber row) iProcCount iStatus fl
     else if psMonitorReaction row = 2 then react_restart (psMonitorReactionPath row) iProcCount iStatus fl
     else if psMonitorReaction row = 3 then react_both (psMonitorReactionPath row) iProcCount iStatus fl
     else (iStatus, fl, []))"

section \<open>Paths and commands\<close>

text \<open>
  \<^verbatim>\<open>getProcessName\<close> into an array of 200 bytes: the part of the path before the first blank. The
  \<^verbatim>\<open>memset\<close> before clears as many bytes as a pointer has, and \<^verbatim>\<open>strncpy\<close> writes no terminator.
\<close>

definition getProcessName :: "string \<Rightarrow> string \<Rightarrow> string res" where
  "getProcessName reactionPath psName =
    (let psName = replicate 4 NUL @ drop 4 psName;
         k = length (takeWhile (\<lambda>c. c \<noteq> CHR '' '') reactionPath)
     in if k = length reactionPath then poke psName 0 (reactionPath @ [NUL])
        else poke psName 0 (take k reactionPath))"

text \<open>
  \<^verbatim>\<open>getSeperatedCmd\<close>: the words of a command into \<^verbatim>\<open>psCmd[20]\<close>, with a NULL behind; \<^verbatim>\<open>strtok\<close> gives NULL
  when there is none.
\<close>

fun words_of :: "string \<Rightarrow> string \<Rightarrow> string list" where
  "words_of w [] = (if w = [] then [] else [w])"
| "words_of w (c # cs) =
    (if c = CHR '' '' \<or> c = newline then (if w = [] then words_of [] cs else w # words_of [] cs)
     else words_of (w @ [c]) cs)"

definition getSeperatedCmd :: "string \<Rightarrow> string list res" where
  "getSeperatedCmd com =
    (let ws = words_of [] com in
     if ws = [] then Inl (BadPtr NULL) else if length ws \<ge> 20 then Inl (OutOfBounds 20) else Inr ws)"

section \<open>A turn of the thread\<close>

text \<open>
  What a turn does to the outside: alerts sent and commands executed. A thread that sends an alert
  takes the mutex \<^verbatim>\<open>sendTrapLock\<close>, and returns it only when the message was delivered; the next one
  waits for ever. The numbers count what has been done before.
\<close>

datatype effect = Alerted alert | Executed "string list"

record mon_env =
  bind_room :: "nat \<Rightarrow> bool"
  delivered :: "nat \<Rightarrow> bool"
  re_match :: "string \<Rightarrow> string \<Rightarrow> bool"

record mon =
  iStatus :: int
  thr_flags :: "int \<times> int"
  psNamePath :: string
  sendTrapLock :: bool
  effects :: "effect list"

definition Common_SendAlert_And_Vars :: "mon_env \<Rightarrow> alert \<Rightarrow> mon \<Rightarrow> mon run" where
  "Common_SendAlert_And_Vars e al m =
    (if \<not> bind_room e (length (effects m)) then Some (Inl (BadPtr NULL))
     else if sendTrapLock m then None
     else Some (Inr (m\<lparr>sendTrapLock := \<not> delivered e (length (effects m)), effects := effects m @ [Alerted al]\<rparr>)))"

definition ProcMon_RestartProcess :: "string \<Rightarrow> mon \<Rightarrow> mon res" where
  "ProcMon_RestartProcess psProcName m =
    rbind (fits 255 psProcName) (\<lambda>reactionPath. rbind (getSeperatedCmd reactionPath) (\<lambda>psCmd.
    Inr (m\<lparr>effects := effects m @ [Executed psCmd]\<rparr>)))"

definition perform :: "mon_env \<Rightarrow> act \<Rightarrow> mon \<Rightarrow> mon run" where
  "perform e a m = (case a of
     Send al \<Rightarrow> Common_SendAlert_And_Vars e al m
   | Restart path \<Rightarrow> lift_res (ProcMon_RestartProcess path m))"

lemmas perform_defs = perform_def Common_SendAlert_And_Vars_def ProcMon_RestartProcess_def

fun perform_all :: "mon_env \<Rightarrow> act list \<Rightarrow> mon \<Rightarrow> mon run" where
  "perform_all e [] m = Some (Inr m)"
| "perform_all e (a # as) m = obind (perform e a m) (perform_all e as)"

text \<open>
  The row: the thread keeps a pointer to it, and reads the index from it before it looks it up; when
  another thread has deleted the row, the memory is freed.
\<close>

datatype row_lookup = Freed addr | Gone | Found psMonitor

datatype path_kind = NoFile | EmptyFile | Directory | Executable

record mon_obs =
  oRow :: row_lookup
  oHour :: int
  oMin :: int
  oStatMem :: bool
  oStat :: "string \<Rightarrow> path_kind"
  oPs :: "ps_cache_info list"
  oPrePs :: "ps_cache_info list"
  oFull :: bool

datatype outcome = Exited | Slept int

abbreviation (input) TIME_TO_SLEEP :: int where "TIME_TO_SLEEP \<equiv> 3"

text \<open>The tests that come before: \<^const>\<open>None\<close> when the turn goes on.\<close>

definition skip_row :: "psMonitor \<Rightarrow> mon_obs \<Rightarrow> outcome option" where
  "skip_row row ob =
    (if psMonitorStatus row \<noteq> SNMP_ROW_ACTIVE then Some Exited
     else if psMonitorName row = [] \<or> psMonitorCheckInterval row = 0 then Some (Slept TIME_TO_SLEEP)
     else if (psMonitorReaction row = 2 \<or> psMonitorReaction row = 3) \<and> psMonitorReactionPath row = []
     then Some (Slept TIME_TO_SLEEP)
     else if \<not> getMonitoringTime (psMonitorStartHour row) (psMonitorEndHour row) (oHour ob) (oMin ob)
     then Some (Slept TIME_TO_SLEEP)
     else None)"

text \<open>For the reactions that restart something, the path must be a file that is not empty.\<close>

definition check_path :: "psMonitor \<Rightarrow> mon_obs \<Rightarrow> mon \<Rightarrow> (outcome option \<times> mon) res" where
  "check_path row ob m =
    (if psMonitorReaction row = 1 then Inr (None, m)
     else if \<not> oStatMem ob then Inr (Some Exited, m)
     else rbind (getProcessName (psMonitorReactionPath row) (psNamePath m)) (\<lambda>psName.
       rbind (cstr psName 0) (\<lambda>s.
       Inr (if oStat ob s = Executable then None else Some (Slept TIME_TO_SLEEP), m\<lparr>psNamePath := psName\<rparr>))))"

definition mon_turn :: "mon_env \<Rightarrow> mon_obs \<Rightarrow> mon \<Rightarrow> (outcome \<times> mon) run" where
  "mon_turn e ob m = (case oRow ob of
     Freed a \<Rightarrow> Some (Inl (BadPtr a))
   | Gone \<Rightarrow> Some (Inr (Exited, m))
   | Found row \<Rightarrow> (case skip_row row ob of
       Some r \<Rightarrow> Some (Inr (r, m))
     | None \<Rightarrow> obind (lift_res (check_path row ob m)) (\<lambda>(r, m).
         case r of Some r \<Rightarrow> Some (Inr (r, m))
         | None \<Rightarrow>
           (let (iProcCount, fl, as) = ProcMon_CheckProc (re_match e) (oPs ob) (oPrePs ob) (oFull ob) row (thr_flags m) in
            obind (perform_all e as (m\<lparr>thr_flags := fl\<rparr>)) (\<lambda>m.
            if iProcCount = - 99 then Some (Inr (Slept TIME_TO_SLEEP, m))
            else let (st, fl, as) = react row iProcCount (iStatus m) (thr_flags m) in
              obind (perform_all e as (m\<lparr>iStatus := st, thr_flags := fl\<rparr>)) (\<lambda>m.
              Some (Inr (Slept (psMonitorCheckInterval row), m))))))))"

definition mon_start :: mon where
  "mon_start = \<lparr>iStatus = - 1, thr_flags = (0, 0), psNamePath = replicate 200 NUL, sendTrapLock = False, effects = []\<rparr>"

text \<open>The thread's life: turn after turn until it exits.\<close>

fun mon_run :: "mon_env \<Rightarrow> mon_obs list \<Rightarrow> mon \<Rightarrow> mon run" where
  "mon_run e [] m = Some (Inr m)"
| "mon_run e (ob # obs) m = obind (mon_turn e ob m) (\<lambda>(r, m). if r = Exited then Some (Inr m) else mon_run e obs m)"

section \<open>Turns that return\<close>

definition mon_good :: "mon_env \<Rightarrow> bool" where
  "mon_good e \<longleftrightarrow> (\<forall>n. bind_room e n) \<and> (\<forall>n. delivered e n)"

text \<open>The effect of an action, and the actions that do not fault.\<close>

definition effect_of :: "act \<Rightarrow> effect" where
  "effect_of a = (case a of Send al \<Rightarrow> Alerted al | Restart path \<Rightarrow> Executed (words_of [] path))"

definition act_ok :: "act \<Rightarrow> bool" where
  "act_ok a \<longleftrightarrow> (case a of Send al \<Rightarrow> True | Restart path \<Rightarrow> length path < 255 \<and> words_of [] path \<noteq> [] \<and> length (words_of [] path) < 20)"

lemma perform_good:
  "mon_good e \<Longrightarrow> \<not> sendTrapLock m \<Longrightarrow> act_ok a \<Longrightarrow> perform e a m = Some (Inr (m\<lparr>effects := effects m @ [effect_of a]\<rparr>))"
  by (cases m) (auto simp: perform_defs mon_good_def act_ok_def effect_of_def lift_res_def fits_def getSeperatedCmd_def Let_def
      split: act.splits)

lemma perform_all_good:
  "mon_good e \<Longrightarrow> \<not> sendTrapLock m \<Longrightarrow> \<forall>a\<in>set as. act_ok a
   \<Longrightarrow> perform_all e as m = Some (Inr (m\<lparr>effects := effects m @ map effect_of as\<rparr>))"
  by (induction as arbitrary: m) (simp_all add: perform_good)

lemma act_ok_Send [simp]: "act_ok (Send al)"
  by (simp add: act_ok_def)

text \<open>Counting sends usage alerts only, and counts the processes of the row.\<close>

fun usage_act :: "act \<Rightarrow> bool" where
  "usage_act (Send (Usage u p b)) = True"
| "usage_act a = False"

lemma usage_act_ok [simp]: "usage_act a \<Longrightarrow> act_ok a"
  by (cases a) auto

lemma checkThreshold_usage: "checkThreshold pre row ps fl = (fl', as) \<Longrightarrow> \<forall>a\<in>set as. usage_act a"
  by (auto simp: checkThreshold_def threshold_new_def threshold_known_def Let_def split: if_splits prod.splits)

lemma check_procs_count:
  "check_procs mt pre row pss k fl = (n, fl', as) \<Longrightarrow>
   n = k + int (length (filter (of_row mt row) pss)) \<and> (\<forall>a\<in>set as. usage_act a)"
proof (induction pss arbitrary: k fl n fl' as)
  case (Cons ps pss)
  show ?case
  proof (cases "of_row mt row ps")
    case True
    obtain fl1 as1 where c: "checkThreshold pre row ps fl = (fl1, as1)" by (cases "checkThreshold pre row ps fl")
    obtain n2 fl2 as2 where r: "check_procs mt pre row pss (k + 1) fl1 = (n2, fl2, as2)"
      by (cases "check_procs mt pre row pss (k + 1) fl1")
    from True c r Cons.prems have "n = n2" "as = as1 @ as2" by auto
    then show ?thesis using Cons.IH [OF r] checkThreshold_usage [OF c] True by auto
  next
    case False
    then show ?thesis using Cons by auto
  qed
qed simp

lemma recover_usage_acts: "recover_usage fl = (fl', as) \<Longrightarrow> \<forall>a\<in>set as. usage_act a"
  by (auto simp: recover_usage_def split: if_splits)

lemma react_alert_acts: "react_alert n c st fl = (st', fl', as) \<Longrightarrow> \<forall>a\<in>set as. act_ok a"
  using recover_usage_acts [of fl] by (cases "recover_usage fl") (auto simp: react_alert_def split: if_splits)

text \<open>The count a turn sees, when it gets that far.\<close>

definition count_in :: "mon_env \<Rightarrow> mon_obs \<Rightarrow> int option" where
  "count_in e ob = (case oRow ob of
     Found row \<Rightarrow> if skip_row row ob = None \<and> oPs ob \<noteq> [] \<and> oFull ob
       then Some (int (length (filter (of_row (re_match e) row) (oPs ob)))) else None
   | _ \<Rightarrow> None)"

text \<open>A turn of a thread whose row is active and sends alerts only.\<close>

definition alert_row :: "int \<Rightarrow> mon_obs \<Rightarrow> bool" where
  "alert_row n ob \<longleftrightarrow> (\<exists>row. oRow ob = Found row \<and> psMonitorStatus row = SNMP_ROW_ACTIVE \<and> psMonitorReaction row = 1
     \<and> psMonitorNumber row = n)"

lemma skip_active: "skip_row row ob = Some r \<Longrightarrow> psMonitorStatus row = SNMP_ROW_ACTIVE \<Longrightarrow> r = Slept TIME_TO_SLEEP"
  by (auto simp: skip_row_def split: if_splits)

lemma alert_turn:
  assumes "mon_good e" "\<not> sendTrapLock m" "alert_row n ob"
  shows "\<exists>k us m'. mon_turn e ob m = Some (Inr (Slept k, m')) \<and> \<not> sendTrapLock m' \<and> (\<forall>a\<in>set us. usage_act a)
    \<and> (case count_in e ob of
         None \<Rightarrow> us = [] \<and> effects m' = effects m \<and> iStatus m' = iStatus m
       | Some c \<Rightarrow> \<exists>fl fl' as. react_alert n c (iStatus m) fl = (iStatus m', fl', as)
           \<and> effects m' = effects m @ map effect_of (us @ as))"
proof -
  obtain row where row: "oRow ob = Found row" "psMonitorStatus row = SNMP_ROW_ACTIVE" "psMonitorReaction row = 1"
      "psMonitorNumber row = n" using assms(3) by (auto simp: alert_row_def)
  show ?thesis
  proof (cases "skip_row row ob")
    case (Some r)
    then show ?thesis using row skip_active [OF Some row(2)] assms(2)
      by (intro exI [of _ 3] exI [of _ "[]"] exI [of _ m]) (simp add: mon_turn_def count_in_def)
  next
    case None
    obtain c fl us where c: "ProcMon_CheckProc (re_match e) (oPs ob) (oPrePs ob) (oFull ob) row (thr_flags m) = (c, fl, us)"
      by (cases "ProcMon_CheckProc (re_match e) (oPs ob) (oPrePs ob) (oFull ob) row (thr_flags m)")
    have path: "check_path row ob m = Inr (None, m)" using row(3) by (simp add: check_path_def)
    show ?thesis
    proof (cases "oPs ob = [] \<or> \<not> oFull ob")
      case True
      then have "c = - 99" "fl = thr_flags m" "us = []" using c by (auto simp: ProcMon_CheckProc_def)
      then show ?thesis using row None path c True assms(2)
        by (intro exI [of _ 3] exI [of _ "[]"] exI [of _ m]) (auto simp: mon_turn_def count_in_def lift_res_def)
    next
      case False
      then have "check_procs (re_match e) (oPrePs ob) row (oPs ob) 0 (thr_flags m) = (c, fl, us)"
        using c by (simp add: ProcMon_CheckProc_def)
      from check_procs_count [OF this] have cnt: "count_in e ob = Some c" "c \<noteq> - 99" and us: "\<forall>a\<in>set us. usage_act a"
        using row None False by (simp_all add: count_in_def)
      obtain st fl' as where r: "react_alert n c (iStatus m) fl = (st, fl', as)" by (cases "react_alert n c (iStatus m) fl")
      have as: "\<forall>a\<in>set as. act_ok a"
        by (rule react_alert_acts [OF r])
      let ?m = "m\<lparr>iStatus := st, thr_flags := fl', effects := (effects m @ map effect_of us) @ map effect_of as\<rparr>"
      have "mon_turn e ob m = Some (Inr (Slept (psMonitorCheckInterval row), ?m))"
        using row None path c cnt(2) r us as assms(1,2) perform_all_good [of e "m\<lparr>thr_flags := fl\<rparr>" us]
          perform_all_good [of e "m\<lparr>effects := effects m @ map effect_of us, iStatus := st, thr_flags := fl'\<rparr>" as]
        by (simp add: mon_turn_def lift_res_def react_def)
      moreover have "\<exists>fl0 fl1 as0. react_alert n c (iStatus m) fl0 = (iStatus ?m, fl1, as0)
          \<and> effects ?m = effects m @ map effect_of (us @ as0)"
        using r by (intro exI [of _ fl] exI [of _ fl'] exI [of _ as]) simp
      ultimately show ?thesis using cnt us assms(2)
        by (intro exI [of _ "psMonitorCheckInterval row"] exI [of _ us] exI [of _ ?m]) simp
    qed
  qed
qed

section \<open>What the alerts tell\<close>

text \<open>
  Whoever reads the alerts knows two things of a row: whether its process runs, and whether there are
  too many of them.
\<close>

fun hears :: "bool \<times> bool \<Rightarrow> effect \<Rightarrow> bool \<times> bool" where
  "hears v (Alerted (Up n)) = (True, False)"
| "hears v (Alerted (Down n)) = (False, False)"
| "hears v (Alerted (Over n)) = (True, True)"
| "hears v (Alerted (Recovered n)) = (fst v, False)"
| "hears v (Alerted (Usage u p b)) = v"
| "hears v (Executed argv) = v"

definition told :: "effect list \<Rightarrow> bool \<times> bool" where
  "told es = foldl hears (False, False) es"

text \<open>The alerts up (\<^const>\<open>True\<close>) and down in order.\<close>

fun up_down :: "effect list \<Rightarrow> bool list" where
  "up_down [] = []"
| "up_down (Alerted (Up n) # es) = True # up_down es"
| "up_down (Alerted (Down n) # es) = False # up_down es"
| "up_down (e # es) = up_down es"

fun alternates :: "bool list \<Rightarrow> bool" where
  "alternates (a # b # bs) \<longleftrightarrow> a \<noteq> b \<and> alternates (b # bs)"
| "alternates bs \<longleftrightarrow> True"

lemma told_append [simp]: "told (es @ fs) = foldl hears (told es) fs"
  by (simp add: told_def)

lemma up_down_append [simp]: "up_down (es @ fs) = up_down es @ up_down fs"
  by (induction es rule: up_down.induct) auto

lemma alternates_snoc: "alternates (bs @ [b]) \<longleftrightarrow> alternates bs \<and> (bs = [] \<or> last bs \<noteq> b)"
  by (induction bs rule: alternates.induct) auto

lemma usage_quiet:
  "\<forall>a\<in>set us. usage_act a \<Longrightarrow> foldl hears v (map effect_of us) = v \<and> up_down (map effect_of us) = []"
proof (induction us arbitrary: v)
  case (Cons a us)
  then obtain u p b where "a = Send (Usage u p b)" by (cases a rule: usage_act.cases) auto
  then show ?case using Cons by (simp add: effect_of_def)
qed simp

text \<open>The status agrees with what the alerts tell.\<close>

definition status_told :: "int \<Rightarrow> int \<Rightarrow> effect list \<Rightarrow> bool" where
  "status_told n st es \<longleftrightarrow> st \<in> {- 1, 0, 1, 2} \<and> told es = (1 \<le> st, st = 2) \<and> (st = 2 \<longrightarrow> n \<noteq> 0)
   \<and> alternates (up_down es) \<and> (up_down es = [] \<or> last (up_down es) = (1 \<le> st)) \<and> (st = - 1 \<longrightarrow> up_down es = [])"

lemma react_alert_told:
  assumes "status_told n st es" "0 \<le> c" "0 \<le> n" "react_alert n c st fl = (st', fl', as)"
  shows "status_told n st' (es @ map effect_of as) \<and> (1 \<le> st') = (0 < c) \<and> (st' = 2) = (n \<noteq> 0 \<and> n < c) \<and> st' \<noteq> - 1"
proof -
  obtain fl1 us where u: "recover_usage fl = (fl1, us)" by (cases "recover_usage fl")
  note q = usage_quiet [OF recover_usage_acts [OF u], THEN conjunct1] usage_quiet [OF recover_usage_acts [OF u], THEN conjunct2]
  have st: "st = - 1 \<or> st = 0 \<or> st = 1 \<or> st = 2" using assms(1) by (auto simp: status_told_def)
  note s = assms(1) [unfolded status_told_def]
  consider (over) "n \<noteq> 0" "n < c" "st \<noteq> 2" | (stays) "n \<noteq> 0" "n < c" "st = 2" | (fewer) "n \<noteq> 0" "c \<le> n" "st = 2"
    | (rest) "n = 0 \<or> c \<le> n" "st \<noteq> 2" using s by fastforce
  then show ?thesis
  proof cases
    case over
    then have e: "st' = 2" "as = (if st = 0 then [Send (Up c)] else []) @ [Send (Over c)]"
      using assms(4) by (simp_all add: react_alert_def)
    show ?thesis using st s over assms(2,3) unfolding e
      by (elim disjE) (simp_all add: status_told_def effect_of_def alternates_snoc)
  next
    case stays
    then have e: "st' = 2" "as = []" using assms(2-4) by (simp_all add: react_alert_def split: if_splits)
    show ?thesis using s stays assms(2,3) unfolding e by (simp add: status_told_def)
  next
    case fewer
    show ?thesis
    proof (cases "c = 0")
      case True
      then have e: "st' = 0" "as = Send (Recovered c) # us @ [Send (Down c)]"
        using assms(4) fewer u by (simp_all add: react_alert_def)
      show ?thesis using s fewer assms(2,3) True unfolding e
        by (simp add: status_told_def effect_of_def q alternates_snoc)
    next
      case False
      then have e: "st' = 1" "as = [Send (Recovered c)]" using assms(4) fewer u by (simp_all add: react_alert_def)
      show ?thesis using s fewer assms(2,3) False unfolding e by (simp add: status_told_def effect_of_def)
    qed
  next
    case rest
    show ?thesis
    proof (cases "c = 0")
      case True
      then have e: "st' = 0" "as = (if st = 0 then [] else us @ [Send (Down c)])"
        using assms(2-4) rest u st by (auto simp: react_alert_def split: if_splits)
      show ?thesis using st s rest assms(2,3) True unfolding e
        by (elim disjE) (simp_all add: status_told_def effect_of_def q alternates_snoc)
    next
      case False
      then have e: "st' = 1" "as = (if st = 1 then [] else [Send (Up c)])"
        using assms(2-4) rest u st by (auto simp: react_alert_def split: if_splits)
      show ?thesis using st s rest assms(2,3) False unfolding e
        by (elim disjE) (simp_all add: status_told_def effect_of_def alternates_snoc)
    qed
  qed
qed

lemma status_told_usage:
  "status_told n st es \<Longrightarrow> \<forall>a\<in>set us. usage_act a \<Longrightarrow> status_told n st (es @ map effect_of us)"
  by (simp add: status_told_def usage_quiet)

text \<open>The count of the last turn that got one.\<close>

definition last_count :: "mon_env \<Rightarrow> mon_obs list \<Rightarrow> int option \<Rightarrow> int option" where
  "last_count e obs c = foldl (\<lambda>c ob. case count_in e ob of None \<Rightarrow> c | Some k \<Rightarrow> Some k) c obs"

definition count_told :: "int \<Rightarrow> int option \<Rightarrow> effect list \<Rightarrow> bool" where
  "count_told n c es \<longleftrightarrow> told es = (case c of None \<Rightarrow> (False, False) | Some k \<Rightarrow> (0 < k, n \<noteq> 0 \<and> n < k))"

lemma alert_run:
  assumes "mon_good e" "0 \<le> n"
  shows "\<forall>ob\<in>set obs. alert_row n ob \<Longrightarrow> \<not> sendTrapLock m \<Longrightarrow> status_told n (iStatus m) (effects m)
    \<Longrightarrow> count_told n c (effects m)
    \<Longrightarrow> \<exists>m'. mon_run e obs m = Some (Inr m') \<and> status_told n (iStatus m') (effects m')
      \<and> count_told n (last_count e obs c) (effects m')"
proof (induction obs arbitrary: m c)
  case (Cons ob obs)
  obtain k us m1 where m1: "mon_turn e ob m = Some (Inr (Slept k, m1))" "\<not> sendTrapLock m1" "\<forall>a\<in>set us. usage_act a"
      "case count_in e ob of None \<Rightarrow> us = [] \<and> effects m1 = effects m \<and> iStatus m1 = iStatus m
       | Some c \<Rightarrow> \<exists>fl fl' as. react_alert n c (iStatus m) fl = (iStatus m1, fl', as)
           \<and> effects m1 = effects m @ map effect_of (us @ as)"
    using alert_turn [OF assms(1) Cons.prems(2), of n ob] Cons.prems(1) by auto
  let ?c = "case count_in e ob of None \<Rightarrow> c | Some k \<Rightarrow> Some k"
  have "status_told n (iStatus m1) (effects m1) \<and> count_told n ?c (effects m1)"
  proof (cases "count_in e ob")
    case None
    then show ?thesis using m1(4) Cons.prems(3,4) by simp
  next
    case (Some i)
    then obtain fl fl' as where r: "react_alert n i (iStatus m) fl = (iStatus m1, fl', as)"
        "effects m1 = (effects m @ map effect_of us) @ map effect_of as" using m1(4) by auto
    have "0 \<le> i" using Some by (auto simp: count_in_def split: row_lookup.splits if_splits)
    note t = react_alert_told [OF status_told_usage [OF Cons.prems(3) m1(3)] this assms(2) r(1), folded r(2)]
    then have "told (effects m1) = (0 < i, n \<noteq> 0 \<and> n < i)" by (simp add: status_told_def)
    then show ?thesis using t Some by (simp add: count_told_def)
  qed
  from Cons.IH [OF _ m1(2) this [THEN conjunct1] this [THEN conjunct2]] Cons.prems(1) m1(1)
  show ?case by (simp add: last_count_def)
qed (simp add: last_count_def)

text \<open>A row and its processes for the examples.\<close>

definition sample_psrow :: psMonitor where
  "sample_psrow = \<lparr>psMonitorName = ''httpd'', psMonitorParameter = [], psMonitorNumber = 0, psMonitorCheckInterval = 30,
     psMonitorReaction = 1, psMonitorReactionPath = [], psMonitorStatus = SNMP_ROW_ACTIVE, psMonitorCPU = 50,
     psMonitorMEM = 0, psMonitorStartHour = 0, psMonitorEndHour = 0\<rparr>"

definition sample_ps :: "int \<Rightarrow> int \<Rightarrow> ps_cache_info" where
  "sample_ps p cpu = \<lparr>ps_pid = p, ps_time = 0, ps_cputime = 0, ps_cpu = cpu, ps_hcpu = 100 * cpu, ps_mem = 0,
     ps_name = (if p = 1 then ''init'' else ''httpd''), ps_args = []\<rparr>"

definition sample_obs :: "psMonitor \<Rightarrow> ps_cache_info list \<Rightarrow> mon_obs" where
  "sample_obs row pss = \<lparr>oRow = Found row, oHour = 12, oMin = 0, oStatMem = True, oStat = \<lambda>_. Executable, oPs = pss,
     oPrePs = pss, oFull = True\<rparr>"

definition sample_mon_env :: "(nat \<Rightarrow> bool) \<Rightarrow> mon_env" where
  "sample_mon_env d = \<lparr>bind_room = \<lambda>_. True, delivered = d, re_match = \<lambda>_ _. True\<rparr>"

lemmas sample_mon = sample_psrow_def sample_ps_def sample_obs_def sample_mon_env_def of_row_def skip_row_def count_in_def
  alert_row_def mon_good_def getMonitoringTime_def last_count_def

section \<open>Properties\<close>

text \<open>C18: The alerts of a thread tell the truth as long as every alert is delivered (there is memory for its
  variables and the message can be sent) and its row stays active, with reaction 1 (alerts only) and
  the same limit of \<open>n\<close> processes, or none (0). Through any number of such turns, whatever the lists of
  processes, the time of day and the thresholds, the thread returns from every turn, and who has read
  its alerts knows whether the process ran when it was last counted and whether there were more than
  \<open>n\<close> of them. Turns without a complete list change nothing. Alerts for up and down alternate. One alert
  that is lost ends this for good: \<open>lost_alert_blocks\<close>.
\<close>

theorem alerts_tell_processes:
  assumes "mon_good e" "0 \<le> n" "\<forall>ob\<in>set obs. alert_row n ob"
  shows "\<exists>m. mon_run e obs mon_start = Some (Inr m)
    \<and> told (effects m) = (case last_count e obs None of None \<Rightarrow> (False, False) | Some c \<Rightarrow> (0 < c, n \<noteq> 0 \<and> n < c))
    \<and> alternates (up_down (effects m))"
proof -
  have "status_told n (iStatus mon_start) (effects mon_start)" "count_told n None (effects mon_start)" "\<not> sendTrapLock mon_start"
    by (simp_all add: status_told_def count_told_def mon_start_def told_def)
  with alert_run [OF assms(1,2,3)] obtain m where "mon_run e obs mon_start = Some (Inr m)"
      "status_told n (iStatus m) (effects m)" "count_told n (last_count e obs None) (effects m)" by blast
  then show ?thesis by (auto simp: status_told_def count_told_def)
qed

theorem alerts_tell_processes_witness:
  "\<exists>m. mon_run (sample_mon_env (\<lambda>_. True)) [sample_obs sample_psrow [sample_ps 1 0], sample_obs sample_psrow [sample_ps 7 0]]
      mon_start = Some (Inr m)
    \<and> told (effects m) = (True, False) \<and> alternates (up_down (effects m))"
  using alerts_tell_processes [of "sample_mon_env (\<lambda>_. True)" 0
      "[sample_obs sample_psrow [sample_ps 1 0], sample_obs sample_psrow [sample_ps 7 0]]"]
  by (simp add: sample_mon)

text \<open>C33: The hours of monitoring. With valid and different hours the row is monitored from the first to
  the last, over midnight when the first is the later one, up to two exceptions that come from adding 23
  hours for a day: when the last hour is 0 it is not monitored in the minutes from 23:01 to 23:59, and when
  the last hour is 23 it is monitored at 0:00.\<close>

theorem monitoring_hours:
  assumes "0 \<le> h" "h < 24" "0 \<le> mi" "mi < 60"
  shows "getMonitoringTime s l h mi \<longleftrightarrow>
    s = l \<or> s < 0 \<or> l < 0 \<or> 23 < s \<or> 23 < l
    \<or> s < l \<and> (s * 60 \<le> h * 60 + mi \<and> h * 60 + mi \<le> l * 60 \<or> l = 23 \<and> h = 0 \<and> mi = 0)
    \<or> l < s \<and> (s * 60 \<le> h * 60 + mi \<and> \<not> (l = 0 \<and> h = 23 \<and> 0 < mi) \<or> h * 60 + mi \<le> l * 60)"
  using assms by (auto simp: getMonitoringTime_def Let_def)

theorem monitoring_hours_witness:
  "\<not> getMonitoringTime 22 0 23 30 \<and> getMonitoringTime 22 1 23 30 \<and> getMonitoringTime 8 23 0 0"
  using monitoring_hours [of 23 30 22 0] monitoring_hours [of 23 30 22 1] monitoring_hours [of 0 0 8 23] by simp

text \<open>Two processes of a row make the thresholds flap. The flag that a threshold has been reported
  belongs to the row: when one process of the row uses more than the limit and the next one does not, every
  turn sends an alert for the first and takes it back for the second, for ever.\<close>

theorem two_processes_flap:
  assumes "mon_good e" "alert_row 0 ob" "oRow ob = Found row" "skip_row row ob = None" "oFull ob" "oPs ob = [a, b]"
    and "of_row (re_match e) row a" "of_row (re_match e) row b"
    and "searchPrePsInfo (ps_pid a) (oPrePs ob) \<noteq> None" "searchPrePsInfo (ps_pid b) (oPrePs ob) \<noteq> None"
    and "0 < psMonitorCPU row" "psMonitorMEM row = 0" "psMonitorCPU row \<le> ps_cpu a" "ps_cpu b < psMonitorCPU row"
    and "iStatus m = 1" "fst (thr_flags m) = 0" "\<not> sendTrapLock m"
  shows "mon_run e (replicate k ob) m = Some (Inr (m\<lparr>effects := effects m
      @ concat (replicate k [Alerted (Usage CPU (ps_pid a) True), Alerted (Usage CPU (ps_pid b) False)])\<rparr>))"
proof -
  let ?as = "[Send (Usage CPU (ps_pid a) True), Send (Usage CPU (ps_pid b) False)]"
  obtain x y where pre: "searchPrePsInfo (ps_pid a) (oPrePs ob) = Some x" "searchPrePsInfo (ps_pid b) (oPrePs ob) = Some y"
    using assms(9,10) by auto
  have "check_procs (re_match e) (oPrePs ob) row [a, b] 0 (0, f) = (2, (0, f), ?as)" for f
    using assms(7,8,11-14) pre by (simp add: checkThreshold_def threshold_known_def)
  then have cnt: "ProcMon_CheckProc (re_match e) (oPs ob) (oPrePs ob) (oFull ob) row (0, f) = (2, (0, f), ?as)" for f
    using assms(5,6) by (simp add: ProcMon_CheckProc_def)
  have row: "psMonitorReaction row = 1" "psMonitorNumber row = 0" using assms(2,3) by (auto simp: alert_row_def)
  have turn: "mon_turn e ob m = Some (Inr (Slept (psMonitorCheckInterval row), m\<lparr>effects := effects m @ map effect_of ?as\<rparr>))"
    if "iStatus m = 1" "fst (thr_flags m) = 0" "\<not> sendTrapLock m" for m
  proof -
    have fl: "thr_flags m = (0, snd (thr_flags m))" using that(2) by (metis prod.collapse)
    have "m\<lparr>iStatus := 1, thr_flags := (0, snd (thr_flags m))\<rparr> = m" using that(1) fl by (cases m) simp
    then show ?thesis using assms(1,3,4) row that cnt [of "snd (thr_flags m)", folded fl]
        perform_all_good [of e "m\<lparr>thr_flags := (0, snd (thr_flags m))\<rparr>" ?as]
      by (cases m) (simp add: mon_turn_def check_path_def lift_res_def react_def react_alert_def)
  qed
  show ?thesis using assms(15-17)
  proof (induction k arbitrary: m)
    case (Suc k)
    let ?m = "m\<lparr>effects := effects m @ map effect_of ?as\<rparr>"
    have "mon_run e (replicate k ob) ?m = Some (Inr (?m\<lparr>effects := effects ?m
      @ concat (replicate k [Alerted (Usage CPU (ps_pid a) True), Alerted (Usage CPU (ps_pid b) False)])\<rparr>))"
      using Suc.prems by (intro Suc.IH) simp_all
    then show ?case using turn [OF Suc.prems] by (simp add: effect_of_def)
  qed simp
qed

theorem two_processes_flap_witness:
  "mon_run (sample_mon_env (\<lambda>_. True)) (replicate 2 (sample_obs sample_psrow [sample_ps 7 60, sample_ps 8 0]))
     (mon_start\<lparr>iStatus := 1\<rparr>)
   = Some (Inr (mon_start\<lparr>iStatus := 1, effects := [Alerted (Usage CPU 7 True), Alerted (Usage CPU 8 False),
       Alerted (Usage CPU 7 True), Alerted (Usage CPU 8 False)]\<rparr>))"
  using two_processes_flap [of "sample_mon_env (\<lambda>_. True)" "sample_obs sample_psrow [sample_ps 7 60, sample_ps 8 0]"
      sample_psrow "sample_ps 7 60" "sample_ps 8 0" "mon_start\<lparr>iStatus := 1\<rparr>" 2]
  by (simp add: sample_mon mon_start_def numeral_2_eq_2)

text \<open>C19: An alert that cannot be delivered ends the monitoring. The mutex is kept on that path: when the
  process goes down and the alert is lost, the thread never returns from the turn in which the process comes
  back, and no thread can send an alert any more.\<close>

theorem lost_alert_blocks:
  assumes "\<forall>n. bind_room e n" "\<not> delivered e (length (effects m))" "iStatus m = 1" "thr_flags m = (0, 0)" "\<not> sendTrapLock m"
    and "alert_row 0 ob" "count_in e ob = Some 0" "alert_row 0 ob'" "count_in e ob' = Some c" "0 < c"
  shows "\<exists>m'. mon_run e [ob] m = Some (Inr m') \<and> effects m' = effects m @ [Alerted (Down 0)]
    \<and> (\<forall>al. perform e (Send al) m' = None) \<and> mon_run e [ob, ob'] m = None"
proof -
  obtain row where row: "oRow ob = Found row" "psMonitorReaction row = 1" "psMonitorNumber row = 0"
    using assms(6) by (auto simp: alert_row_def)
  have ob: "skip_row row ob = None" "oPs ob \<noteq> []" "oFull ob" "filter (of_row (re_match e) row) (oPs ob) = []"
    using assms(7) row(1) by (auto simp: count_in_def split: if_splits)
  have none: "check_procs mt pre r pss k fl = (k, fl, [])" if "filter (of_row mt r) pss = []" for mt pre r pss k fl
    using that by (induction pss arbitrary: k) (auto split: if_splits)
  let ?m = "m\<lparr>iStatus := 0, sendTrapLock := True, effects := effects m @ [Alerted (Down 0)]\<rparr>"
  have "mon_turn e ob m = Some (Inr (Slept (psMonitorCheckInterval row), ?m))"
    using assms(1-5) row ob none [OF ob(4)]
    by (cases m) (simp add: mon_turn_def check_path_def lift_res_def ProcMon_CheckProc_def react_def react_alert_def
        recover_usage_def perform_defs)
  moreover have blocked: "perform e (Send al) ?m = None" for al using assms(1) by (simp add: perform_defs)
  moreover have "mon_turn e ob' ?m = None"
  proof -
    obtain row' where row': "oRow ob' = Found row'" "psMonitorReaction row' = 1" "psMonitorNumber row' = 0"
      using assms(8) by (auto simp: alert_row_def)
    have ob': "skip_row row' ob' = None" "oPs ob' \<noteq> []" "oFull ob'"
      using assms(9) row'(1) by (auto simp: count_in_def split: if_splits)
    obtain n fl as where r: "check_procs (re_match e) (oPrePs ob') row' (oPs ob') 0 (0, 0) = (n, fl, as)"
      by (cases "check_procs (re_match e) (oPrePs ob') row' (oPs ob') 0 (0, 0)")
    have n: "n = c" and us: "\<forall>a\<in>set as. usage_act a"
      using check_procs_count [OF r] assms(9) row'(1) by (auto simp: count_in_def split: if_splits)
    have stuck: "sendTrapLock q \<Longrightarrow> perform e (Send al) q = None" for q al using assms(1) by (simp add: perform_defs)
    have "perform_all e as (?m\<lparr>thr_flags := fl\<rparr>) = (if as = [] then Some (Inr (?m\<lparr>thr_flags := fl\<rparr>)) else None)"
    proof (cases as)
      case (Cons a as')
      then obtain u p b where "a = Send (Usage u p b)" using us by (cases a rule: usage_act.cases) auto
      then show ?thesis using Cons stuck by simp
    qed simp
    then show ?thesis using row' ob' r n assms(4,10) stuck
      by (simp add: mon_turn_def check_path_def lift_res_def ProcMon_CheckProc_def react_def react_alert_def)
  qed
  ultimately show ?thesis by (intro exI [of _ ?m]) simp
qed

theorem lost_alert_blocks_witness:
  "mon_run (sample_mon_env (\<lambda>_. False)) [sample_obs sample_psrow [sample_ps 1 0], sample_obs sample_psrow [sample_ps 7 0]]
     (mon_start\<lparr>iStatus := 1\<rparr>) = None"
proof -
  have a: "alert_row 0 (sample_obs sample_psrow pss)" for pss by (simp add: sample_mon)
  have c: "count_in (sample_mon_env d) (sample_obs sample_psrow [sample_ps 1 0]) = Some 0"
    "count_in (sample_mon_env d) (sample_obs sample_psrow [sample_ps 7 0]) = Some 1" for d by (simp_all add: sample_mon)
  have "\<forall>n. bind_room (sample_mon_env d) n" "delivered (sample_mon_env d) = d" for d by (simp_all add: sample_mon_env_def)
  moreover have "iStatus (mon_start\<lparr>iStatus := 1\<rparr>) = 1" "thr_flags (mon_start\<lparr>iStatus := 1\<rparr>) = (0, 0)"
    "\<not> sendTrapLock (mon_start\<lparr>iStatus := 1\<rparr>)" by (simp_all add: mon_start_def)
  ultimately show ?thesis
    using lost_alert_blocks [OF _ _ _ _ _ a c(1) a c(2), of "\<lambda>_. False" "mon_start\<lparr>iStatus := 1\<rparr>"] by (metis zero_less_one)
qed

text \<open>A shorter path keeps the end of a longer one. When the reaction path of a row is changed from a
  program without arguments to a shorter one, of four bytes at least, with arguments, the file that is looked
  for has the name of the new program with the rest of the old one behind it.\<close>

theorem stale_path_end:
  assumes "CHR '' '' \<notin> set old" "NUL \<notin> set old" "getProcessName old buf = Inr b"
    and "CHR '' '' \<notin> set new" "NUL \<notin> set new" "4 \<le> length new" "length new < length old"
  shows "\<exists>b'. getProcessName (new @ CHR '' '' # args) b = Inr b' \<and> cstr b' 0 = Inr (new @ drop (length new) old)"
proof -
  have tw: "takeWhile (\<lambda>c. c \<noteq> CHR '' '') old = old" "takeWhile (\<lambda>c. c \<noteq> CHR '' '') (new @ CHR '' '' # args) = new"
    using assms(1,4) by (auto simp: takeWhile_eq_all_conv takeWhile_append)
  obtain rest where b: "b = old @ NUL # rest"
    using assms(3) tw(1) by (auto simp: getProcessName_def poke_def Let_def split: if_splits)
  let ?b = "new @ drop (length new) old @ NUL # rest"
  have "getProcessName (new @ CHR '' '' # args) b = Inr ?b"
    using assms(6,7) tw(2) unfolding b by (simp add: getProcessName_def poke_def Let_def drop_Cons')
  moreover have "NUL \<notin> set (drop (length new) old)" using assms(2) in_set_dropD by fast
  then have "cstr ?b 0 = Inr (new @ drop (length new) old)"
    using assms(5) by (auto simp: cstr_def takeWhile_append)
  ultimately show ?thesis by blast
qed

theorem stale_path_end_witness:
  "\<exists>b b'. getProcessName ''/usr/bin/httpd'' (replicate 200 NUL) = Inr b \<and> getProcessName ''/bin/df -k'' b = Inr b'
    \<and> cstr b' 0 = Inr ''/bin/dfn/httpd''"
proof -
  have "getProcessName ''/usr/bin/httpd'' (replicate 200 NUL) = Inr (''/usr/bin/httpd'' @ replicate 186 NUL)"
    by (simp add: getProcessName_def poke_def Let_def numeral_eq_Suc)
  with stale_path_end [OF _ _ this, of "''/bin/df''" "''-k''"] show ?thesis by simp
qed

text \<open>The actions of a reaction over a number of counts.\<close>

fun react_run :: "(int \<Rightarrow> int \<Rightarrow> int \<times> int \<Rightarrow> int \<times> (int \<times> int) \<times> act list) \<Rightarrow> int list \<Rightarrow> int \<Rightarrow> int \<times> int \<Rightarrow> act list" where
  "react_run f [] st fl = []"
| "react_run f (c # cs) st fl = (let (st, fl, as) = f c st fl in as @ react_run f cs st fl)"

fun restart_act :: "act \<Rightarrow> bool" where
  "restart_act (Restart path) = True"
| "restart_act a = False"

lemma usage_no_restart: "\<forall>a\<in>set us. usage_act a \<Longrightarrow> filter restart_act us = []"
proof (induction us)
  case (Cons a us)
  then obtain u p b where "a = Send (Usage u p b)" by (cases a rule: usage_act.cases) auto
  then show ?case using Cons by simp
qed simp

lemma restart_steps:
  "c \<noteq> 0 \<Longrightarrow> react_restart path c (- 1) fl = (1, fl, [Send (Up c)])"
  "react_restart path 0 st fl = (st, fl, [Restart path, Send (Up 0)])"
  "c \<noteq> 0 \<Longrightarrow> st \<noteq> - 1 \<Longrightarrow> react_restart path c st fl = (st, fl, [])"
  by (simp_all add: react_restart_def)

lemma both_steps:
  "c \<noteq> 0 \<Longrightarrow> st \<noteq> 1 \<Longrightarrow> st \<in> {- 1, 0, 1} \<Longrightarrow> react_both path c st fl = (1, fl, [Send (Up c)])"
  "c \<noteq> 0 \<Longrightarrow> react_both path c 1 fl = (1, fl, [])"
  "react_both path 0 0 fl = (0, fl, [Restart path])"
  "st \<noteq> 0 \<Longrightarrow> recover_usage fl = (fl', us) \<Longrightarrow> react_both path 0 st fl = (0, fl', us @ [Send (Down 0), Restart path])"
  by (auto simp: react_both_def)

lemma restart_run_up:
  "foldl hears (True, False) (map effect_of (react_run (react_restart path) cs st fl)) = (True, False)
   \<and> length (filter restart_act (react_run (react_restart path) cs st fl)) = length (filter (\<lambda>c. c = 0) cs)"
proof (induction cs arbitrary: st fl)
  case (Cons c cs)
  consider "st = - 1" "c \<noteq> 0" | "c = 0" | "st \<noteq> - 1" "c \<noteq> 0" by blast
  then show ?case using Cons.IH by cases (simp_all add: restart_steps effect_of_def)
qed simp

lemma restart_run:
  assumes "cs \<noteq> []"
  shows "foldl hears (False, False) (map effect_of (react_run (react_restart path) cs (- 1) fl)) = (True, False)
   \<and> length (filter restart_act (react_run (react_restart path) cs (- 1) fl)) = length (filter (\<lambda>c. c = 0) cs)"
proof -
  obtain c cs' where c: "cs = c # cs'" using assms by (cases cs) auto
  then show ?thesis using restart_run_up [of path cs'] by (cases "c = 0") (simp_all add: restart_steps effect_of_def)
qed

lemma both_run:
  "\<forall>c\<in>set cs. 0 \<le> c \<Longrightarrow> st \<in> {- 1, 0, 1} \<Longrightarrow> v = (1 \<le> st, False) \<Longrightarrow>
   foldl hears v (map effect_of (react_run (react_both path) cs st fl)) = (if cs = [] then v else (0 < last cs, False))
   \<and> length (filter restart_act (react_run (react_both path) cs st fl)) = length (filter (\<lambda>c. c = 0) cs)"
proof (induction cs arbitrary: st fl v)
  case (Cons c cs)
  obtain fl1 us where u: "recover_usage fl = (fl1, us)" by (cases "recover_usage fl")
  note q = recover_usage_acts [OF u]
  have c: "0 \<le> c" "\<forall>c\<in>set cs. 0 \<le> c" using Cons.prems(1) by simp_all
  consider "c = 0" "st = 0" | "c = 0" "st \<noteq> 0" | "c \<noteq> 0" "st = 1" | "c \<noteq> 0" "st \<noteq> 1" by blast
  then show ?case
  proof cases
    case 1
    then show ?thesis using Cons.IH [OF c(2), of 0 "(False, False)" fl] Cons.prems(3) by (simp add: both_steps effect_of_def)
  next
    case 2
    then show ?thesis using Cons.IH [OF c(2), of 0 "(False, False)" fl1] usage_quiet [OF q] usage_no_restart [OF q]
      by (simp add: both_steps(4) [OF _ u] effect_of_def)
  next
    case 3
    then show ?thesis using Cons.IH [OF c(2), of 1 "(True, False)" fl] c(1) Cons.prems(3) by (simp add: both_steps)
  next
    case 4
    then show ?thesis using Cons.IH [OF c(2), of 1 "(True, False)" fl] c(1) both_steps(1) [OF 4 Cons.prems(2)]
      by (simp add: effect_of_def)
  qed
qed simp

text \<open>C34: Reactions that restart. Over any number of counts the program is started once for each count of
  zero. With reaction 3 the alerts tell after each count whether the process runs; with reaction 2 they
  tell from the first count on that it does, also while it does not: the up alert is sent with the restart.\<close>

theorem restart_reactions:
  assumes "cs \<noteq> []" "\<forall>c\<in>set cs. 0 \<le> c"
  shows "told (map effect_of (react_run (react_both path) cs (- 1) fl)) = (0 < last cs, False)
    \<and> told (map effect_of (react_run (react_restart path) cs (- 1) fl)) = (True, False)
    \<and> length (filter restart_act (react_run (react_both path) cs (- 1) fl)) = length (filter (\<lambda>c. c = 0) cs)
    \<and> length (filter restart_act (react_run (react_restart path) cs (- 1) fl)) = length (filter (\<lambda>c. c = 0) cs)"
  using both_run [OF assms(2), of "- 1" "(False, False)" path fl] restart_run [OF assms(1), of path fl] assms(1)
  by (simp add: told_def)

theorem restart_reactions_witness:
  "told (map effect_of (react_run (react_both ''/bin/a'') [1, 0] (- 1) (0, 0))) = (False, False)
   \<and> told (map effect_of (react_run (react_restart ''/bin/a'') [1, 0] (- 1) (0, 0))) = (True, False)"
  using restart_reactions [of "[1, 0]" "''/bin/a''" "(0, 0)"] by simp

end
