(* ===== verification/ProcList.thy ===== *)
theory ProcList
  imports ProcMon
begin

text \<open>
  The list of processes the monitor looks at (\<^verbatim>\<open>src/Group1/ProcMon/src/psMonitorTable.c\<close>, the part for
  Linux): what is read of a process from \<^verbatim>\<open>/proc\<close>, and the thread that makes a new list every ten seconds
  and keeps the last two. The files are arguments: the bytes that \<^verbatim>\<open>fgets\<close> leaves in its buffer.
\<close>

section \<open>The status line of a process\<close>

text \<open>\<^verbatim>\<open>while (*cp != ' ') ++cp; ++cp\<close>: the place behind the next blank. The loop does not look for the end.\<close>

definition next_field :: "string \<Rightarrow> nat \<Rightarrow> nat res" where
  "next_field buf cp =
    (if CHR '' '' \<in> set (drop cp buf) then Inr (cp + length (takeWhile (\<lambda>c. c \<noteq> CHR '' '') (drop cp buf)) + 1)
     else Inl (OutOfBounds (int (length buf))))"

text \<open>The loop of \<^verbatim>\<open>getPsStat\<close>: \<open>n\<close> fields are left, the field behind the 12th and 13th blank is added up.\<close>

fun stat_loop :: "string \<Rightarrow> nat \<Rightarrow> nat \<Rightarrow> nat \<Rightarrow> int \<Rightarrow> (nat \<times> int) res" where
  "stat_loop buf 0 i cp cputime = Inr (cp, cputime)"
| "stat_loop buf (Suc n) i cp cputime = rbind (next_field buf cp) (\<lambda>cp.
     stat_loop buf n (i + 1) cp (if i = 12 \<or> i = 13 then cputime + atoi (drop cp buf) else cputime))"

text \<open>The processor time and the memory; 0 when the file cannot be opened. \<open>page\<close> is \<^verbatim>\<open>getpagesize()\<close>.\<close>

definition getPsStat :: "int \<Rightarrow> string option \<Rightarrow> (int \<times> int) res" where
  "getPsStat page f = (case f of
     None \<Rightarrow> Inr (0, 0)
   | Some buf \<Rightarrow> rbind (stat_loop buf 23 0 0 0) (\<lambda>(cp, cputime). Inr (cputime, atoi (drop cp buf) * (page div 1024))))"

section \<open>The command line\<close>

text \<open>
  The arguments in \<^verbatim>\<open>szBuff\<close>, a NUL behind each and zeros behind them: the NULs become blanks until two of
  them follow each other. In the code the loop goes on at the blank it has written.
\<close>

function join_args :: "string \<Rightarrow> nat \<Rightarrow> string res" where
  "join_args buf cp =
    (let cp = cp + length (takeWhile (\<lambda>c. c \<noteq> NUL) (drop cp buf)) in
     if cp + 1 \<ge> length buf then Inl (OutOfBounds (int (length buf)))
     else if buf ! (cp + 1) = NUL then Inr buf
     else join_args (buf[cp := CHR '' '']) (cp + 1))"
  by pat_completeness auto

termination
  by (relation "measure (\<lambda>(buf, cp). length buf - cp)") (auto simp: Let_def)

declare join_args.simps [simp del]

text \<open>
  \<open>szBuff\<close> is what was read, 256 bytes with zeros behind; \<open>nothing\<close> says that nothing was read. The result
  has no blank at the front.
\<close>

definition command_args :: "string \<Rightarrow> string \<Rightarrow> bool \<Rightarrow> string res" where
  "command_args name szBuff nothing =
    rbind (if name = ''oracle'' then cstr szBuff 0
           else if nothing then Inr []
           else let cp = length (takeWhile (\<lambda>c. c \<noteq> NUL) szBuff) + 1 in
             rbind (join_args szBuff cp) (\<lambda>buf. cstr buf (length (takeWhile (\<lambda>c. c \<noteq> NUL) buf) + 1))) (\<lambda>szString.
    Inr (if szString \<noteq> [] \<and> hd szString = CHR '' '' then tl szString else szString))"

section \<open>A process\<close>

text \<open>
  The share of a processor in hundredths of a percent since the last list. The division is of floating
  point numbers, which are exact for numbers of this size, and cut to an integer.
\<close>

definition tdiv :: "int \<Rightarrow> int \<Rightarrow> int" where
  "tdiv a b = sgn a * sgn b * (\<bar>a\<bar> div \<bar>b\<bar>)"

fun getPercentCPU :: "ps_cache_info list \<Rightarrow> int \<Rightarrow> int \<Rightarrow> int \<Rightarrow> int \<Rightarrow> int res" where
  "getPercentCPU [] p tm cputime cpu_count = Inr 0"
| "getPercentCPU (psinfo # pss) p tm cputime cpu_count =
    (if ps_pid psinfo = p
     then if tm = ps_time psinfo then Inl DivByZero
       else Inr (tdiv (tdiv ((cputime - ps_cputime psinfo) * 10000) (tm - ps_time psinfo)) cpu_count)
     else getPercentCPU pss p tm cputime cpu_count)"

text \<open>What there is to read of a directory entry: its number, the files, and whether there is memory.\<close>

record proc_entry =
  iPid :: int
  nameWord :: "string option"           \<comment> \<open>the word behind \<^verbatim>\<open>Name:\<close>, if \<^verbatim>\<open>status\<close> can be read and has one\<close>
  entryMem :: bool
  cmdline :: "(string \<times> bool) option"  \<comment> \<open>the buffer, and whether the file is empty\<close>
  statLine :: "string option"
  csTime :: int

definition proc_info :: "int \<Rightarrow> int \<Rightarrow> ps_cache_info list \<Rightarrow> proc_entry \<Rightarrow> ps_cache_info option res" where
  "proc_info page cpuNo gpstPsInfo en =
    (if iPid en = 0 then Inr None
     else case nameWord en of None \<Rightarrow> Inr None
     | Some name \<Rightarrow>
       if \<not> entryMem en then Inr None
       else rbind (fits 255 name) (\<lambda>name. case cmdline en of None \<Rightarrow> Inr None
       | Some (szBuff, nothing) \<Rightarrow>
         rbind (command_args name szBuff nothing) (\<lambda>args.
         rbind (fits 255 args) (\<lambda>args.
         rbind (getPsStat page (statLine en)) (\<lambda>(cputime, mem).
         rbind (getPercentCPU gpstPsInfo (iPid en) (csTime en) cputime cpuNo) (\<lambda>hcpu.
         Inr (Some \<lparr>ps_pid = iPid en, ps_time = csTime en, ps_cputime = cputime, ps_cpu = tdiv hcpu 100, ps_hcpu = hcpu,
           ps_mem = mem, ps_name = name, ps_args = args\<rparr>)))))))"

text \<open>The list; \<^const>\<open>None\<close> for a directory that cannot be opened.\<close>

fun proc_list :: "int \<Rightarrow> int \<Rightarrow> ps_cache_info list \<Rightarrow> proc_entry list \<Rightarrow> ps_cache_info list res" where
  "proc_list page cpuNo old [] = Inr []"
| "proc_list page cpuNo old (en # ens) = rbind (proc_info page cpuNo old en) (\<lambda>ps.
     rbind (proc_list page cpuNo old ens) (\<lambda>pss. Inr (case ps of None \<Rightarrow> pss | Some ps \<Rightarrow> ps # pss)))"

definition ProcMon_GetProcessList :: "int \<Rightarrow> int \<Rightarrow> ps_cache_info list \<Rightarrow> proc_entry list option \<Rightarrow> (int \<times> ps_cache_info list) res" where
  "ProcMon_GetProcessList page cpuNo old dir = (case dir of
     None \<Rightarrow> Inr (0, [])
   | Some ens \<Rightarrow> rbind (proc_list page cpuNo old ens) (\<lambda>pss. Inr (1, pss)))"

section \<open>The thread\<close>

record proc_lists =
  gpstPsInfo :: "ps_cache_info list"
  gpstPrePsInfo :: "ps_cache_info list"
  full_process_list :: bool

text \<open>
  A turn: a complete list becomes the current one and the current one the previous one; after a
  failure the lists are marked as not complete. The lists are exchanged with the mutex held, and only
  the one that is dropped is freed.
\<close>

definition ProcMon_ProcCheck :: "int \<Rightarrow> int \<Rightarrow> proc_entry list option \<Rightarrow> proc_lists \<Rightarrow> proc_lists res" where
  "ProcMon_ProcCheck page cpuNo dir s =
    rbind (ProcMon_GetProcessList page cpuNo (gpstPsInfo s) dir) (\<lambda>(ret, new).
    Inr (if ret = 0 then s\<lparr>full_process_list := False\<rparr>
         else if new \<noteq> [] then s\<lparr>gpstPrePsInfo := gpstPsInfo s, gpstPsInfo := new, full_process_list := True\<rparr>
         else s))"

section \<open>Properties\<close>

lemma next_field_word:
  assumes "CHR '' '' \<notin> set w" "length pre = cp"
  shows "next_field (pre @ w @ CHR '' '' # rest) cp = Inr (cp + length w + 1)"
  using assms by (auto simp: next_field_def takeWhile_append)

text \<open>The number a field starts with is not changed by the blank behind it.\<close>

lemma scan_blank [simp]: "scan a (w @ CHR '' '' # rest) = scan a w"
  by (induction w arbitrary: a) (auto simp: isdigit_def)

text \<open>Words as they stand in these files: not empty, without white space.\<close>

definition word_ok :: "string \<Rightarrow> bool" where
  "word_ok w \<longleftrightarrow> w \<noteq> [] \<and> (\<forall>c\<in>set w. \<not> isspace c)"

lemma word_ok_blank: "word_ok w \<Longrightarrow> CHR '' '' \<notin> set w"
  by (auto simp: word_ok_def isspace_def)

lemma atoi_blank: "word_ok w \<Longrightarrow> atoi (w @ CHR '' '' # rest) = atoi w"
  by (cases w) (auto simp: word_ok_def atol_def strtol_def)

definition fields :: "string list \<Rightarrow> string" where
  "fields ws = concat (map (\<lambda>w. w @ '' '') ws)"

lemma fields_simps [simp]: "fields [] = []" "fields (w # ws) = w @ CHR '' '' # fields ws" "fields (ws @ vs) = fields ws @ fields vs"
  by (simp_all add: fields_def)

lemma stat_loop_fields:
  "\<forall>w\<in>set ws. word_ok w \<Longrightarrow> n < length ws \<Longrightarrow> cp = length (fields pre) \<Longrightarrow>
   stat_loop (fields pre @ fields ws @ rest) n i cp t
     = Inr (length (fields (pre @ take n ws)), t + (\<Sum>j<n. if i + j = 12 \<or> i + j = 13 then atoi (ws ! (j + 1)) else 0))"
proof (induction n arbitrary: pre ws i cp t)
  case (Suc n)
  obtain w w' vs where ws: "ws = w # w' # vs" using Suc.prems(2) by (cases ws; cases "tl ws") auto
  have ok: "word_ok w" "word_ok w'" "\<forall>w\<in>set (w' # vs). word_ok w" using Suc.prems(1) ws by simp_all
  have nf: "next_field (fields pre @ fields ws @ rest) cp = Inr (cp + length w + 1)"
    using next_field_word [OF word_ok_blank [OF ok(1)] Suc.prems(3) [symmetric], of "fields (w' # vs) @ rest"] ws by simp
  have at: "atoi (drop (cp + length w + 1) (fields pre @ fields ws @ rest)) = atoi w'"
    using atoi_blank [OF ok(2)] Suc.prems(3) ws by simp
  have cp: "cp + length w + 1 = length (fields (pre @ [w]))" using Suc.prems(3) by simp
  have IH: "stat_loop (fields (pre @ [w]) @ fields (w' # vs) @ rest) n (i + 1) (cp + length w + 1) u
      = Inr (length (fields ((pre @ [w]) @ take n (w' # vs))),
          u + (\<Sum>j<n. if i + 1 + j = 12 \<or> i + 1 + j = 13 then atoi ((w' # vs) ! (j + 1)) else 0))" for u
    using Suc.prems(2) ws by (intro Suc.IH [OF ok(3) _ cp]) simp
  have "(\<Sum>j<Suc n. if i + j = 12 \<or> i + j = 13 then atoi (ws ! (j + 1)) else 0)
      = (if i = 12 \<or> i = 13 then atoi w' else 0)
        + (\<Sum>j<n. if i + 1 + j = 12 \<or> i + 1 + j = 13 then atoi ((w' # vs) ! (j + 1)) else 0)"
    unfolding sum.lessThan_Suc_shift by (auto simp: ws intro!: sum.cong)
  moreover have "fields (pre @ [w]) @ fields (w' # vs) @ rest = fields pre @ fields ws @ rest" by (simp add: ws)
  ultimately show ?case using nf at IH by (simp add: ws)
qed simp

lemma sum_12_13: "(\<Sum>j<23. if j = 12 \<or> j = 13 then f j else 0) = f 12 + (f (13 :: nat) :: int)"
proof -
  have "(\<Sum>j<23. if j = 12 \<or> j = 13 then f j else 0) = sum f {12, 13}"
    by (rule sum.mono_neutral_cong_right) simp_all
  also have "\<dots> = f 12 + f 13" by simp
  finally show ?thesis .
qed

text \<open>What is read of a process's statistics. Of a line of words with one blank behind each, the 14th and
  15th are added up for the processor time and the 24th is the memory in pages.\<close>

lemma stat_line_fields:
  assumes "length ws = 24" "\<forall>w\<in>set ws. word_ok w"
  shows "getPsStat page (Some (fields ws @ rest)) = Inr (atoi (ws ! 13) + atoi (ws ! 14), atoi (ws ! 23) * (page div 1024))"
proof -
  have loop: "stat_loop (fields ws @ rest) 23 0 0 0 = Inr (length (fields (take 23 ws)), atoi (ws ! 13) + atoi (ws ! 14))"
    using stat_loop_fields [OF assms(2), of 23 0 "[]" rest 0 0] assms(1) sum_12_13 [of "\<lambda>j. atoi (ws ! (j + 1))"] by simp
  have "take 24 ws = take 23 ws @ [ws ! 23]" using take_Suc_conv_app_nth [of 23 ws] assms(1) by simp
  then have "fields ws = fields (take 23 ws @ [ws ! 23])" using assms(1) by simp
  then have "fields ws @ rest = fields (take 23 ws) @ (ws ! 23) @ CHR '' '' # rest" by simp
  then have "atoi (drop (length (fields (take 23 ws))) (fields ws @ rest)) = atoi (ws ! 23)"
    using atoi_blank assms by simp
  with loop show ?thesis by (simp add: getPsStat_def)
qed

text \<open>C36: A blank in the name of a process shifts its statistics by one. Behind the name come 22 fields, of
  which the 12th and 13th are the processor time in user and system mode and the 22nd the memory in pages;
  they are read when the name is one word. When it has a blank the processor time is the sum of the 11th
  and 12th, which starts with a number of page faults, and the memory is the size of the address space.\<close>

theorem blank_in_name_shifts:
  assumes "word_ok p" "word_ok n" "word_ok n'" "length fs = 22" "\<forall>w\<in>set fs. word_ok w"
  shows "getPsStat page (Some (fields ([p, n] @ fs) @ rest))
      = Inr (atoi (fs ! 11) + atoi (fs ! 12), atoi (fs ! 21) * (page div 1024))
    \<and> getPsStat page (Some (fields ([p, n, n'] @ fs) @ rest))
      = Inr (atoi (fs ! 10) + atoi (fs ! 11), atoi (fs ! 20) * (page div 1024))"
proof
  show "getPsStat page (Some (fields ([p, n] @ fs) @ rest))
      = Inr (atoi (fs ! 11) + atoi (fs ! 12), atoi (fs ! 21) * (page div 1024))"
    using stat_line_fields [of "[p, n] @ fs" page rest] assms by (simp add: numeral_eq_Suc)
  have "fs = take 21 fs @ [fs ! 21]" using take_Suc_conv_app_nth [of 21 fs] assms(4) by simp
  then have fs: "fields ([p, n, n'] @ fs) = fields ([p, n, n'] @ take 21 fs) @ fields [fs ! 21]"
    by (metis append.assoc fields_simps(3))
  have "\<forall>w\<in>set ([p, n, n'] @ take 21 fs). word_ok w" using assms by (auto dest: in_set_takeD)
  then show "getPsStat page (Some (fields ([p, n, n'] @ fs) @ rest))
      = Inr (atoi (fs ! 10) + atoi (fs ! 11), atoi (fs ! 20) * (page div 1024))"
    unfolding fs append.assoc using stat_line_fields [of "[p, n, n'] @ take 21 fs" page] assms(4) by (simp add: numeral_eq_Suc)
qed

theorem blank_in_name_shifts_witness:
  "getPsStat 4096 (Some (fields ([''42'', ''(a''] @ replicate 10 ''0'' @ [''500'', ''7'', ''3''] @ replicate 7 ''0'' @ [''9'', ''2'']) @ [newline]))
      = Inr (10, 8)
   \<and> getPsStat 4096 (Some (fields ([''42'', ''(a'', ''b)''] @ replicate 10 ''0'' @ [''500'', ''7'', ''3''] @ replicate 7 ''0'' @ [''9'', ''2'']) @ [newline]))
      = Inr (507, 36)"
proof -
  let ?fs = "replicate 10 ''0'' @ [''500'', ''7'', ''3''] @ replicate 7 ''0'' @ [''9'', ''2'']"
  have ok: "word_ok ''42''" "word_ok ''(a''" "word_ok ''b)''" "\<forall>w\<in>set ?fs. word_ok w"
    by (simp_all add: word_ok_def isspace_def)
  have v: "?fs ! 10 = ''500''" "?fs ! 11 = ''7''" "?fs ! 12 = ''3''" "?fs ! 20 = ''9''" "?fs ! 21 = ''2''"
    by (simp_all add: nth_append)
  have a: "atoi ''500'' = 500" "atoi ''7'' = 7" "atoi ''3'' = 3" "atoi ''9'' = 9" "atoi ''2'' = 2"
    by (simp_all add: text_eval isspace_def isdigit_def)
  show ?thesis using blank_in_name_shifts [OF ok(1-3) _ ok(4), of 4096 "[newline]"] unfolding v a by simp
qed

section \<open>Arguments\<close>

lemma join_args_words:
  "\<forall>w\<in>set (a # as). w \<noteq> [] \<and> NUL \<notin> set w \<Longrightarrow> cp = length pre \<Longrightarrow>
   join_args (pre @ concat (map (\<lambda>w. w @ [NUL]) (a # as)) @ NUL # rest) cp = Inr (pre @ unwords (a # as) @ NUL # NUL # rest)"
proof (induction as arbitrary: a pre cp)
  case Nil
  then show ?case by (subst join_args.simps) (auto simp: Let_def takeWhile_append nth_append)
next
  case (Cons b as)
  obtain c b' where b: "b = c # b'" "c \<noteq> NUL" using Cons.prems(1) by (cases b) auto
  let ?m = "pre @ concat (map (\<lambda>w. w @ [NUL]) (a # b # as)) @ NUL # rest"
  let ?m' = "(pre @ a @ [CHR '' '']) @ concat (map (\<lambda>w. w @ [NUL]) (b # as)) @ NUL # rest"
  have "join_args ?m' (length (pre @ a @ [CHR '' ''])) = Inr ((pre @ a @ [CHR '' '']) @ unwords (b # as) @ NUL # NUL # rest)"
    using Cons.prems(1) by (intro Cons.IH) auto
  moreover have "join_args ?m cp = join_args ?m' (length (pre @ a @ [CHR '' '']))"
    using Cons.prems b by (subst join_args.simps) (auto simp: Let_def takeWhile_append nth_append list_update_append)
  ultimately show ?case by simp
qed

text \<open>The arguments of a process are its words behind the first one with a blank between them, when none of
  them is empty.\<close>

theorem args_are_joined:
  assumes "name \<noteq> ''oracle''" "NUL \<notin> set argv0" "\<forall>w\<in>set args. w \<noteq> [] \<and> NUL \<notin> set w \<and> hd w \<noteq> CHR '' ''"
  shows "command_args name (argv0 @ NUL # concat (map (\<lambda>w. w @ [NUL]) args) @ NUL # NUL # rest) False = Inr (unwords args)"
proof (cases args)
  case Nil
  then show ?thesis using assms(1,2)
    by (simp add: command_args_def join_args.simps [of _ "Suc (length argv0)"] Let_def takeWhile_append nth_append cstr_def)
next
  case (Cons a as)
  let ?m = "argv0 @ NUL # concat (map (\<lambda>w. w @ [NUL]) args) @ NUL # NUL # rest"
  have tw: "takeWhile (\<lambda>c. c \<noteq> NUL) (argv0 @ NUL # cs) = argv0" for cs using assms(2) by (auto simp: takeWhile_append)
  have "join_args ((argv0 @ [NUL]) @ concat (map (\<lambda>w. w @ [NUL]) (a # as)) @ NUL # NUL # rest) (length (argv0 @ [NUL]))
      = Inr ((argv0 @ [NUL]) @ unwords (a # as) @ NUL # NUL # NUL # rest)"
    using assms(3) Cons by (intro join_args_words) auto
  then have j: "join_args ?m (length argv0 + 1) = Inr (argv0 @ NUL # unwords args @ NUL # NUL # NUL # rest)"
    using Cons by simp
  have n: "NUL \<notin> set (unwords args)" using assms(3) by (induction args rule: unwords.induct) auto
  then have c: "cstr (argv0 @ NUL # unwords args @ NUL # NUL # NUL # rest) (length argv0 + 1) = Inr (unwords args)"
    by (auto simp: cstr_def takeWhile_append)
  have "a \<noteq> []" "hd a \<noteq> CHR '' ''" using assms(3) Cons by auto
  then have "hd (unwords args) \<noteq> CHR '' ''" using Cons by (cases as; cases a) auto
  then show ?thesis using assms(1) j c tw by (simp add: command_args_def Let_def)
qed

theorem args_are_joined_witness:
  "command_args ''tar'' (''tar'' @ NUL # concat (map (\<lambda>w. w @ [NUL]) [''-x'', ''a.tar'']) @ NUL # NUL # replicate 239 NUL) False
    = Inr ''-x a.tar''"
  using args_are_joined [of "''tar''" "''tar''" "[''-x'', ''a.tar'']" "replicate 239 NUL"] by simp

section \<open>The two threads\<close>

text \<open>What a monitor thread sees of the lists.\<close>

definition seen_lists :: "proc_lists \<Rightarrow> mon_obs \<Rightarrow> mon_obs" where
  "seen_lists s ob = ob\<lparr>oPs := gpstPsInfo s, oPrePs := gpstPrePsInfo s, oFull := full_process_list s\<rparr>"

text \<open>C35: A list that could not be made causes no alert. After the directory of the processes could not be
  opened, a thread whose row sends alerts leaves its turn without an alert and without a change of its
  status, whatever it knew before, and the next list that can be made is used again.\<close>

theorem failed_list_is_ignored:
  assumes "alert_row n ob" "ProcMon_ProcCheck page cpuNo None s = Inr s'"
  shows "mon_turn e (seen_lists s' ob) m = Some (Inr (Slept TIME_TO_SLEEP, m))
    \<and> (\<forall>ens pss. proc_list page cpuNo (gpstPsInfo s) ens = Inr pss \<and> pss \<noteq> [] \<longrightarrow>
        ProcMon_ProcCheck page cpuNo (Some ens) s'
          = Inr \<lparr>gpstPsInfo = pss, gpstPrePsInfo = gpstPsInfo s, full_process_list = True\<rparr>)"
proof -
  obtain row where row: "oRow ob = Found row" "psMonitorStatus row = SNMP_ROW_ACTIVE" "psMonitorReaction row = 1"
    using assms(1) by (auto simp: alert_row_def)
  have s': "s' = s\<lparr>full_process_list := False\<rparr>"
    using assms(2) by (simp add: ProcMon_ProcCheck_def ProcMon_GetProcessList_def)
  have "skip_row row (seen_lists s' ob) = skip_row row ob" by (simp add: skip_row_def seen_lists_def)
  then show ?thesis using row skip_active [of row ob]
    by (cases "skip_row row ob")
      (simp_all add: s' mon_turn_def seen_lists_def check_path_def lift_res_def ProcMon_CheckProc_def
        ProcMon_ProcCheck_def ProcMon_GetProcessList_def)
qed

theorem failed_list_is_ignored_witness:
  "mon_turn (sample_mon_env (\<lambda>_. True)) (seen_lists \<lparr>gpstPsInfo = [sample_ps 1 0], gpstPrePsInfo = [], full_process_list = False\<rparr>
     (sample_obs sample_psrow [])) (mon_start\<lparr>iStatus := 1\<rparr>) = Some (Inr (Slept TIME_TO_SLEEP, mon_start\<lparr>iStatus := 1\<rparr>))"
proof -
  have "alert_row 0 (sample_obs sample_psrow [])" by (simp add: sample_mon)
  moreover have "ProcMon_ProcCheck 4096 1 None \<lparr>gpstPsInfo = [sample_ps 1 0], gpstPrePsInfo = [], full_process_list = True\<rparr>
      = Inr \<lparr>gpstPsInfo = [sample_ps 1 0], gpstPrePsInfo = [], full_process_list = False\<rparr>"
    by (simp add: ProcMon_ProcCheck_def ProcMon_GetProcessList_def)
  ultimately show ?thesis by (rule failed_list_is_ignored [THEN conjunct1])
qed

end
