(* ===== verification/RbmSet.thy ===== *)
theory RbmSet
  imports RbmTable
begin

text \<open>
  Whole SETs on the policy table: its callbacks (\<^verbatim>\<open>initialize_table_monitorPolicyTable\<close> registers them)
  interpret the locale of the SET helper, which gives that a failed SET changes nothing and that
  every row at rest is active or not in service. What a COMMIT changes beside the rows is the file
  the table is saved to.
\<close>

section \<open>The callbacks\<close>

text \<open>
  What succeeds in a SET: memory for the new row, for the copy and for the insertion of the row with an
  index, opening the file, and the k-th write to it.
\<close>

record set_env =
  new_ok :: "long list \<Rightarrow> bool"
  dup_ok :: "long list \<Rightarrow> bool"
  ins_ok :: "long list \<Rightarrow> bool"
  open_ok :: bool
  write_ok :: "nat \<Rightarrow> bool"

text \<open>\<open>clone\<close> is whether there is memory for the index of a row that is restored.\<close>

definition policy_cb :: "set_env \<Rightarrow> bool
    \<Rightarrow> (monitorPolicyTable_context list, monitorPolicyTable_context) table_cb" where
  "policy_cb m clone = \<lparr>row_index = index_oids,
     create_row = (\<lambda>i. monitorPolicyTable_create_row (new_ok m i) i),
     duplicate_row = (\<lambda>r. monitorPolicyTable_duplicate_row (dup_ok m (index_oids r)) r),
     set_reserve1 = monitorPolicyTable_set_reserve1,
     set_reserve2 = monitorPolicyTable_set_reserve2,
     set_action = (\<lambda>f rg. rbind (monitorPolicyTable_set_action rg) (\<lambda>rg. Inr (f, rg))),
     set_commit = (\<lambda>f rs. rbind (monitorPolicyTable_set_commit (open_ok m) (write_ok m) rs f) (\<lambda>(rs, f). Inr (f, rs))),
     row_copy = monitorPolicyTable_row_copy clone,
     insert_ok = ins_ok m\<rparr>"

lemma policy_cb_simps [simp]:
  "row_index (policy_cb m clone) = index_oids"
  "create_row (policy_cb m clone) = (\<lambda>i. monitorPolicyTable_create_row (new_ok m i) i)"
  "duplicate_row (policy_cb m clone) = (\<lambda>r. monitorPolicyTable_duplicate_row (dup_ok m (index_oids r)) r)"
  "set_reserve1 (policy_cb m clone) = monitorPolicyTable_set_reserve1"
  "set_reserve2 (policy_cb m clone) = monitorPolicyTable_set_reserve2"
  "row_copy (policy_cb m clone) = monitorPolicyTable_row_copy clone"
  "insert_ok (policy_cb m clone) = ins_ok m"
  by (simp_all add: policy_cb_def)

text \<open>What GET shows of a row, and the states of a row at rest.\<close>

definition policy_view :: "monitorPolicyTable_context \<Rightarrow> int \<Rightarrow> asn_value res option" where
  "policy_view row c = monitorPolicyTable_get_value c row"

definition at_rest :: "(int \<Rightarrow> asn_value res option) \<Rightarrow> bool" where
  "at_rest v \<longleftrightarrow> v 34 = Some (Inr (AsnLong ASN_INTEGER 1)) \<or> v 34 = Some (Inr (AsnLong ASN_INTEGER 2))"

lemma policy_view_row: "policy_view r = policy_view r' \<longleftrightarrow> (\<forall>c. monitorPolicyTable_get_value c r = monitorPolicyTable_get_value c r')"
  by (auto simp: policy_view_def fun_eq_iff)

section \<open>The laws of the helper\<close>

lemma create_row_ok:
  assumes "monitorPolicyTable_create_row mem i = Some r" shows "row_ok r \<and> index_oids r = i"
proof -
  from assms obtain n where "i = [n]" "r = zero_row\<lparr>index_oids := i, monitorPolicyIndex := n\<rparr>"
    by (auto simp: monitorPolicyTable_create_row_def monitorPolicyTable_extract_index_def Let_def
        split: if_splits list.splits)
  with zero_row_ok show ?thesis by (simp add: row_ok_def del: zero_row_ok)
qed

lemma row_copy_Inr: "row_ok dst \<Longrightarrow> row_ok src \<Longrightarrow> monitorPolicyTable_row_copy True dst src = Inr (e, r) \<Longrightarrow>
  e = 0 \<and> row_ok r \<and> policy_view r = policy_view src \<and> index_oids r = index_oids src"
  using row_copy_ok [of src dst] by (auto simp: policy_view_row)

lemma duplicate_row_ok: "row_ok r \<Longrightarrow> monitorPolicyTable_duplicate_row mem r = Inr (Some u) \<Longrightarrow>
  row_ok u \<and> policy_view u = policy_view r \<and> index_oids u = index_oids r"
  by (auto simp: monitorPolicyTable_duplicate_row_def rbind_eq_Inr split: if_splits dest: row_copy_Inr [OF zero_row_ok])

lemma action_col_row: "action_col var col row = Inr row' \<Longrightarrow> row_ok row \<Longrightarrow> row_ok row' \<and> index_oids row' = index_oids row"
proof (cases "2 \<le> col \<and> col \<le> 34")
  case True
  assume a: "action_col var col row = Inr row'" "row_ok row"
  have "index_oids row' = index_oids row"
    using writable_cases [OF conjunct1 [OF True] conjunct2 [OF True]] a(1)
    by (elim insertE emptyE) (auto simp: action_defs rbind_eq_Inr)
  with action_row_ok [OF _ _ a(2,1)] True show ?thesis by simp
next
  case False
  then have "\<forall>i\<in>{2..34}. col \<noteq> i" by auto
  moreover assume "action_col var col row = Inr row'" "row_ok row"
  ultimately show ?thesis by (simp add: action_defs)
qed

lemma action_loop_row: "action_loop rs row = Inr row' \<Longrightarrow> row_ok row \<Longrightarrow> row_ok row' \<and> index_oids row' = index_oids row"
  by (induction rs arbitrary: row) (auto simp: rbind_eq_Inr dest!: action_col_row)

lemma set_action_row:
  assumes "existing_row g = Some r" "row_ok r" "monitorPolicyTable_set_action g = Inr g'"
  shows "\<exists>r' d. g' = g\<lparr>existing_row := Some r', row_deleted := row_deleted g \<or> d\<rparr> \<and> row_ok r' \<and> index_oids r' = index_oids r
    \<and> (d \<or> at_rest (policy_view r'))"
proof -
  from assms(3) obtain r1 where r1: "action_loop (rg_list g) r = Inr r1"
    and g': "g' = g\<lparr>existing_row := Some (r1\<lparr>monitorPolicyStatus := settled_status (monitorPolicyStatus r1)\<rparr>),
      row_deleted := row_deleted g \<or> monitorPolicyStatus r1 = 6\<rparr>"
    by (auto simp: set_action_eq [OF assms(1)] rbind_eq_Inr)
  have "row_ok (r1\<lparr>monitorPolicyStatus := settled_status (monitorPolicyStatus r1)\<rparr>) \<and> index_oids r1 = index_oids r"
    using action_loop_row [OF r1 assms(2)] by (simp add: row_ok_def)
  then show ?thesis unfolding g'
    by (intro exI [of _ "r1\<lparr>monitorPolicyStatus := settled_status (monitorPolicyStatus r1)\<rparr>"] exI [of _ "monitorPolicyStatus r1 = 6"])
       (simp add: at_rest_def policy_view_def get_status settled_status_def)
qed

abbreviation same_row :: "monitorPolicyTable_context \<Rightarrow> monitorPolicyTable_context \<Rightarrow> bool" where
  "same_row r r' \<equiv> index_oids r' = index_oids r \<and> policy_view r' = policy_view r \<and> (row_ok r \<longrightarrow> row_ok r')"

lemma set_idx_keep: "set_idx r = Inr r' \<Longrightarrow> same_row r r'"
proof -
  have "monitorPolicyTable_get_value c (r\<lparr>idx := i\<rparr>) = monitorPolicyTable_get_value c r" for c i
    by (simp add: get_defs)
  moreover assume "set_idx r = Inr r'"
  ultimately show ?thesis by (auto simp: set_idx_def policy_view_row row_ok_def split: list.splits)
qed

lemma commit_rows_keep: "commit_rows ok k rs = Inr (rs', f) \<Longrightarrow> list_all2 same_row rs rs'"
proof (induction rs arbitrary: k rs' f)
  case (Cons r rs)
  from Cons.prems obtain r1 where r1: "set_idx r = Inr r1"
    and t: "(\<not> ok k \<and> rs' = r1 # rs) \<or> (\<exists>rs1 f1. commit_rows ok (Suc k) rs = Inr (rs1, f1) \<and> rs' = r1 # rs1)"
    by (auto simp: rbind_eq_Inr split: if_splits)
  from t show ?case
  proof
    assume "\<not> ok k \<and> rs' = r1 # rs"
    with set_idx_keep [OF r1] show ?thesis by (simp add: list_all2_same)
  next
    assume "\<exists>rs1 f1. commit_rows ok (Suc k) rs = Inr (rs1, f1) \<and> rs' = r1 # rs1"
    with set_idx_keep [OF r1] Cons.IH show ?thesis by auto
  qed
qed simp

interpretation policy: governed_table "policy_cb m True" row_ok policy_view at_rest
proof (unfold_locales, simp_all only: policy_cb_simps)
  show "\<exists>rs st. g' = g\<lparr>rg_list := rs, rg_status := st\<rparr>" if "monitorPolicyTable_set_reserve1 g = Inr g'" for g g'
    using that by (auto simp: monitorPolicyTable_set_reserve1_def rbind_eq_Inr)
  show "\<exists>rs st. monitorPolicyTable_set_reserve2 g = g\<lparr>rg_list := rs, rg_status := st\<rparr>" for g
    by (rule exI, rule exI [of _ "rg_status g"]) (simp add: monitorPolicyTable_set_reserve2_def)
  show "\<exists>r' rs d. g' = g\<lparr>existing_row := Some r', rg_list := rs, row_deleted := d\<rparr> \<and> row_ok r' \<and> index_oids r' = index_oids r"
    if "existing_row g = Some r" "row_ok r" "set_action (policy_cb m True) w g = Inr (w', g')" for g r w w' g'
  proof -
    from that(3) have "monitorPolicyTable_set_action g = Inr g'" by (auto simp: policy_cb_def rbind_eq_Inr)
    from set_action_row [OF that(1,2) this] obtain r' d
      where r': "g' = g\<lparr>existing_row := Some r', row_deleted := d\<rparr>" "row_ok r'" "index_oids r' = index_oids r" by blast
    have "g' = g\<lparr>existing_row := Some r', rg_list := rg_list g, row_deleted := d\<rparr>" unfolding r'(1) by simp
    with r'(2,3) show ?thesis by blast
  qed
  show "at_rest (policy_view (the (existing_row g')))"
    if "existing_row g = Some r" "row_ok r" "set_action (policy_cb m True) w g = Inr (w', g')" "\<not> row_deleted g'"
    for g r w w' g'
  proof -
    from that(3) have "monitorPolicyTable_set_action g = Inr g'" by (auto simp: policy_cb_def rbind_eq_Inr)
    from set_action_row [OF that(1,2) this] that(4) show ?thesis by auto
  qed
  show "list_all2 same_row rs rs'"
    if "set_commit (policy_cb m True) w rs = Inr (w', rs')" for w rs w' rs'
    using that commit_rows_keep
    by (auto simp: policy_cb_def monitorPolicyTable_set_commit_def rbind_eq_Inr list_all2_same split: if_splits)
qed (auto dest: create_row_ok duplicate_row_ok row_copy_Inr)

section \<open>SETs on the table\<close>

text \<open>C7: A SET that is answered with a failure leaves the policy table as it was, every row with every column as
  GET shows it, in whatever phase of RESERVE1, RESERVE2 or ACTION a request was refused and wherever
  memory for a new row was missing, provided the insertion of new rows in COMMIT has memory. Not
  covered are the SETs in which the agent faults and gives no answer (a copy of a row that cannot be
  made is freed through NULL), and restoring a row in UNDO is taken to have memory. An insertion that
  fails leaves what was committed before it: \<open>failed_insertion_keeps_others\<close>.\<close>

theorem failed_set_changes_nothing:
  assumes "distinct (map index_oids rs)" and "\<forall>r\<in>set rs. row_ok r" and "\<forall>i. ins_ok m i"
    and "set_pdu (policy_cb m True) f rs reqs = Inr (st, False, s)"
  shows "map (\<lambda>r. (index_oids r, policy_view r)) (ag_rows s) = map (\<lambda>r. (index_oids r, policy_view r)) rs"
  using policy.atomic [OF _ _ assms(4)] assms(1-3) by (simp add: policy.shows_rows_def)

definition active_row :: monitorPolicyTable_context where
  "active_row = empty_row\<lparr>monitorPolicyStatus := 1\<rparr>"

definition all_ok :: set_env where
  "all_ok = \<lparr>new_ok = (\<lambda>_. True), dup_ok = (\<lambda>_. True), ins_ok = (\<lambda>_. True), open_ok = True, write_ok = (\<lambda>_. True)\<rparr>"

text \<open>A name for the policy, an expression code that is out of range, and a row there is no memory for.\<close>

definition bad_pdu :: "request list" where
  "bad_pdu = [set_request 3 4 [65, 66] 0, (set_request 8 2 [0, 0, 0, 6] 6)\<lparr>rindex := 2\<rparr>,
     (set_request 34 2 [0, 0, 0, 4] 4)\<lparr>rindex := 3, index_oid := [7]\<rparr>]"

theorem failed_set_changes_nothing_witness:
  "\<exists>s. set_pdu (policy_cb (all_ok\<lparr>new_ok := \<lambda>_. False\<rparr>) True) [] [active_row] bad_pdu = Inr (10, False, s)
    \<and> map (\<lambda>r. (index_oids r, policy_view r)) (ag_rows s) = [([5], policy_view active_row)]"
proof -
  have "case set_pdu (policy_cb (all_ok\<lparr>new_ok := \<lambda>_. False\<rparr>) True) [] [active_row] bad_pdu of
    Inr (st, fin, s) \<Rightarrow> st = 10 \<and> \<not> fin | _ \<Rightarrow> False" by code_simp
  then obtain s where s: "set_pdu (policy_cb (all_ok\<lparr>new_ok := \<lambda>_. False\<rparr>) True) [] [active_row] bad_pdu = Inr (10, False, s)"
    by (auto split: sum.splits)
  have "row_ok active_row" using empty_row_ok by (simp add: active_row_def row_ok_def)
  with failed_set_changes_nothing [OF _ _ _ s] s show ?thesis by (simp add: active_row_def empty_row_def all_ok_def)
qed

text \<open>Two rows are made in one SET and there is no memory to insert the second: the SET fails in COMMIT, for
  which there is no way back, and the first row stays.\<close>

theorem failed_insertion_keeps_others:
  "\<exists>s. set_pdu (policy_cb (all_ok\<lparr>ins_ok := \<lambda>i. i \<noteq> [7]\<rparr>) True) [] []
      [set_request 34 2 [0, 0, 0, 4] 4, (set_request 34 2 [0, 0, 0, 4] 4)\<lparr>rindex := 2, index_oid := [7]\<rparr>] = Inr (14, False, s)
    \<and> map index_oids (ag_rows s) = [[5]]"
proof -
  have "case set_pdu (policy_cb (all_ok\<lparr>ins_ok := \<lambda>i. i \<noteq> [7]\<rparr>) True) [] []
      [set_request 34 2 [0, 0, 0, 4] 4, (set_request 34 2 [0, 0, 0, 4] 4)\<lparr>rindex := 2, index_oid := [7]\<rparr>] of
    Inr (st, fin, s) \<Rightarrow> st = 14 \<and> \<not> fin \<and> map index_oids (ag_rows s) = [[5]] | _ \<Rightarrow> False" by code_simp
  then show ?thesis by (auto split: sum.splits)
qed

text \<open>PDUs one after the other, each with what succeeds in it.\<close>

fun policy_sets :: "(set_env \<times> request list) list
    \<Rightarrow> monitorPolicyTable_context list \<times> monitorPolicyTable_context list
    \<Rightarrow> (monitorPolicyTable_context list \<times> monitorPolicyTable_context list) res" where
  "policy_sets [] x = Inr x"
| "policy_sets ((m, p) # ps) (f, rs) = rbind (set_pdu (policy_cb m True) f rs p)
     (\<lambda>(_, _, s). policy_sets ps (ag_world s, ag_rows s))"

lemma policy_sets_keep:
  "distinct (map index_oids rs) \<Longrightarrow> \<forall>r\<in>set rs. row_ok r \<and> at_rest (policy_view r) \<Longrightarrow>
   policy_sets ps (f, rs) = Inr (f', rs') \<Longrightarrow>
   distinct (map index_oids rs') \<and> (\<forall>r\<in>set rs'. row_ok r \<and> at_rest (policy_view r))"
proof (induction ps arbitrary: f rs)
  case (Cons mp ps)
  obtain m p where mp: "mp = (m, p)" by (cases mp)
  from Cons.prems(3) obtain st fin s where s: "set_pdu (policy_cb m True) f rs p = Inr (st, fin, s)"
    and t: "policy_sets ps (ag_world s, ag_rows s) = Inr (f', rs')" by (auto simp: mp rbind_eq_Inr)
  have "distinct (map index_oids (ag_rows s)) \<and> (\<forall>r\<in>set (ag_rows s). row_ok r \<and> at_rest (policy_view r))"
    using policy.stays_good [OF _ _ s] Cons.prems(1,2) by simp
  with Cons.IH [OF _ _ t] show ?case by blast
qed simp

text \<open>C8: Whatever SETs the policy table has seen since it was empty, failed or not and whatever memory and file
  operations failed in them, its rows are well formed (the arrays have their sizes and no length
  exceeds its array), there is one for each index, and each is active or not in service: no other
  state stays in the table.\<close>

theorem rows_stay_at_rest:
  assumes "policy_sets pdus ([], []) = Inr (f, rs)"
  shows "distinct (map index_oids rs) \<and> (\<forall>r\<in>set rs. row_ok r \<and> at_rest (policy_view r))"
  using policy_sets_keep [OF _ _ assms] by simp

text \<open>A row made by createAndGo, and made anew, which is refused.\<close>

definition some_pdus :: "(set_env \<times> request list) list" where
  "some_pdus = [(all_ok, [set_request 34 2 [0, 0, 0, 4] 4]), (all_ok, [set_request 34 2 [0, 0, 0, 4] 4])]"

theorem rows_stay_at_rest_witness:
  "\<exists>f r. policy_sets some_pdus ([], []) = Inr (f, [r]) \<and> row_ok r \<and> at_rest (policy_view r)"
proof -
  have "case policy_sets some_pdus ([], []) of
    Inr (f, rs) \<Rightarrow> length rs = 1 | _ \<Rightarrow> False" by code_simp
  then obtain f r where "policy_sets some_pdus ([], []) = Inr (f, [r])"
    by (auto split: sum.splits simp: length_Suc_conv)
  with rows_stay_at_rest [OF this] show ?thesis by simp
qed

end
