(* ===== verification/SysStats.thy ===== *)
theory SysStats
  imports Complex_Main TableArray RbmText
begin

text \<open>
  Statistics of the variables the agent watches (\<^verbatim>\<open>src/Group1/sysStats/src/sysStatisticsTable.c\<close>): every
  row collects the readings of one variable and, after \<^verbatim>\<open>sysStatisticsPeriod\<close> readings, publishes their
  largest, smallest and mean value and their deviation. \<^verbatim>\<open>int\<close> and \<^verbatim>\<open>long\<close> have 32 bits and wrap
  around. The numbers of \<^verbatim>\<open>float\<close> and \<^verbatim>\<open>double\<close> are rationals; how the machine rounds is an argument.
\<close>

section \<open>Floating point\<close>

record fpu =
  flt :: "rat \<Rightarrow> rat"   \<comment> \<open>to the nearest \<^verbatim>\<open>float\<close>\<close>
  dbl :: "rat \<Rightarrow> rat"   \<comment> \<open>to the nearest \<^verbatim>\<open>double\<close>\<close>

text \<open>
  What is relied on: rounding keeps the order; integers up to 2^24 are floats and up to 2^53 doubles;
  doubling a float between 1 and 2^64, or halving it up to ten times, is exact.
\<close>

definition fpu_ok :: "fpu \<Rightarrow> bool" where
  "fpu_ok fp \<longleftrightarrow> (\<forall>x y. x \<le> y \<longrightarrow> flt fp x \<le> flt fp y) \<and> (\<forall>x y. x \<le> y \<longrightarrow> dbl fp x \<le> dbl fp y)
   \<and> (\<forall>i. \<bar>i\<bar> \<le> 2 ^ 24 \<longrightarrow> flt fp (of_int i) = of_int i) \<and> (\<forall>i. \<bar>i\<bar> \<le> 2 ^ 53 \<longrightarrow> dbl fp (of_int i) = of_int i)
   \<and> (\<forall>x. 1 \<le> x \<longrightarrow> x \<le> 2 ^ 64 \<longrightarrow> flt fp x = x \<longrightarrow> flt fp (2 * x) = 2 * x \<and> dbl fp x = x
        \<and> (\<forall>k\<le>10. flt fp (x / 2 ^ k) = x / 2 ^ k \<and> dbl fp (x / 2 ^ k) = x / 2 ^ k))"

text \<open>A conversion to \<^verbatim>\<open>long\<close> cuts the fraction; \<^const>\<open>None\<close> is an infinity or no number.\<close>

definition to_long :: "rat option \<Rightarrow> long" where
  "to_long x = (case x of None \<Rightarrow> 0x80000000
     | Some q \<Rightarrow> let i = (if 0 \<le> q then \<lfloor>q\<rfloor> else \<lceil>q\<rceil>) in
         if - (2 ^ 31) \<le> i \<and> i < 2 ^ 31 then word_of_int i else 0x80000000)"

text \<open>Ten steps of Newton's method from 1, whatever the number.\<close>

fun newton :: "fpu \<Rightarrow> nat \<Rightarrow> rat \<Rightarrow> rat \<Rightarrow> rat option" where
  "newton fp 0 a x = Some x"
| "newton fp (Suc n) a x = (if x = 0 then None
     else newton fp n a (flt fp (dbl fp (flt fp (x + flt fp (a / x)) / 2))))"

definition getSquareRoot :: "fpu \<Rightarrow> rat \<Rightarrow> rat option" where
  "getSquareRoot fp a = newton fp 10 a 1"

section \<open>Rows\<close>

record sysStatisticsTable_context =
  stat_oids :: "long list"
  sysStatisticsIndex :: long
  sysStatisticsVariable :: string
  sysStatisticsPeriod :: long
  sysStatisticsMaxValue :: long
  sysStatisticsMinValue :: long
  sysStatisticsAvgValue :: long
  sysStatisticsStd :: long
  sysStatTotalValue :: long
  lastMaxValue :: long
  lastMinValue :: long
  lastTime :: long
  sampleCount :: long
  sysStatSquaresTotal :: rat

abbreviation (input) SYSSTAT_DEFAULT_PERIOD :: long where "SYSSTAT_DEFAULT_PERIOD \<equiv> 60"
abbreviation (input) RTM_DEFAULT_INTERVAL :: long where "RTM_DEFAULT_INTERVAL \<equiv> 1"

definition zero_stat :: sysStatisticsTable_context where
  "zero_stat = \<lparr>stat_oids = [], sysStatisticsIndex = 0, sysStatisticsVariable = [], sysStatisticsPeriod = 0,
     sysStatisticsMaxValue = 0, sysStatisticsMinValue = 0, sysStatisticsAvgValue = 0, sysStatisticsStd = 0,
     sysStatTotalValue = 0, lastMaxValue = 0, lastMinValue = 0, lastTime = 0, sampleCount = 0,
     sysStatSquaresTotal = 0\<rparr>"

definition sysStatisticsTable_extract_index ::
  "bool \<Rightarrow> sysStatisticsTable_context \<Rightarrow> long list \<Rightarrow> int \<times> sysStatisticsTable_context" where
  "sysStatisticsTable_extract_index mem ctx hdr =
    (if \<not> mem then (-1, ctx)
     else let ctx = ctx\<lparr>stat_oids := hdr\<rparr> in
       case hdr of [i] \<Rightarrow> (SNMP_ERR_NOERROR, ctx\<lparr>sysStatisticsIndex := i\<rparr>) | _ \<Rightarrow> (SNMP_ERR_GENERR, ctx))"

definition sysStatisticsTable_create_row :: "bool \<Rightarrow> long list \<Rightarrow> sysStatisticsTable_context option" where
  "sysStatisticsTable_create_row mem hdr =
    (if \<not> mem then None
     else let (err, ctx) = sysStatisticsTable_extract_index mem zero_stat hdr in
       if err \<noteq> 0 then None
       else Some (ctx\<lparr>sysStatisticsPeriod := SYSSTAT_DEFAULT_PERIOD, sysStatTotalValue := 0,
         sysStatSquaresTotal := 0, lastMaxValue := 0, lastMinValue := 0, lastTime := 0\<rparr>))"

section \<open>A reading\<close>

definition add_sample :: "fpu \<Rightarrow> long \<Rightarrow> sysStatisticsTable_context \<Rightarrow> sysStatisticsTable_context" where
  "add_sample fp val r =
    (let r = r\<lparr>sampleCount := sampleCount r + 1, lastTime := lastTime r + RTM_DEFAULT_INTERVAL\<rparr>;
         r = (if sint (lastMaxValue r) < sint val then r\<lparr>lastMaxValue := val\<rparr> else r);
         r = (if sint (lastMinValue r) > sint val \<or> lastMinValue r = 0 then r\<lparr>lastMinValue := val\<rparr> else r)
     in r\<lparr>sysStatTotalValue := sysStatTotalValue r + val,
          sysStatSquaresTotal := dbl fp (sysStatSquaresTotal r + of_int (sint (val * val)))\<rparr>)"

text \<open>The argument of the square root; the sum before the squares is unsigned.\<close>

definition deviation_arg :: "fpu \<Rightarrow> sysStatisticsTable_context \<Rightarrow> rat" where
  "deviation_arg fp r =
    (let avg = sysStatisticsAvgValue r; n = sampleCount r in
     flt fp (dbl fp (dbl fp (of_int (uint (2 * avg * sysStatTotalValue r + n * avg * avg)) - sysStatSquaresTotal r)
       / of_int (sint n))))"

definition end_period :: "fpu \<Rightarrow> sysStatisticsTable_context \<Rightarrow> sysStatisticsTable_context res" where
  "end_period fp r =
    (let r = r\<lparr>sysStatisticsMaxValue := lastMaxValue r, lastMaxValue := 0\<rparr>;
         r = r\<lparr>sysStatisticsMinValue := lastMinValue r, lastMinValue := 0\<rparr> in
     if sampleCount r = 0 then Inl DivByZero
     else let r = r\<lparr>sysStatisticsAvgValue := sysStatTotalValue r div sampleCount r\<rparr>;
              r = r\<lparr>sysStatisticsStd := to_long (getSquareRoot fp (deviation_arg fp r))\<rparr>
          in Inr (r\<lparr>sysStatTotalValue := 0, sampleCount := 0, lastTime := 0, sysStatSquaresTotal := 0\<rparr>))"

definition update_stat :: "fpu \<Rightarrow> long \<Rightarrow> sysStatisticsTable_context \<Rightarrow> sysStatisticsTable_context res" where
  "update_stat fp val r =
    (let r = add_sample fp val r in
     if sint (lastTime r) \<ge> sint (sysStatisticsPeriod r) then end_period fp r else Inr r)"

type_synonym stat_table = "sysStatisticsTable_context list"

definition stat_find :: "long \<Rightarrow> stat_table \<Rightarrow> sysStatisticsTable_context option" where
  "stat_find i ts = find (\<lambda>r. stat_oids r = [i]) ts"

definition stat_put :: "sysStatisticsTable_context \<Rightarrow> stat_table \<Rightarrow> stat_table" where
  "stat_put r' ts = map (\<lambda>r. if stat_oids r = stat_oids r' then r' else r) ts"

definition updateRow :: "fpu \<Rightarrow> long \<Rightarrow> long \<Rightarrow> stat_table \<Rightarrow> stat_table res" where
  "updateRow fp index' val ts = (case stat_find index' ts of None \<Rightarrow> Inr ts
     | Some r \<Rightarrow> rbind (update_stat fp val r) (\<lambda>r'. Inr (stat_put r' ts)))"

definition destroySysStatRow :: "long \<Rightarrow> stat_table \<Rightarrow> stat_table" where
  "destroySysStatRow index' ts = (case stat_find index' ts of None \<Rightarrow> ts
     | Some _ \<Rightarrow> filter (\<lambda>r. stat_oids r \<noteq> [index']) ts)"

text \<open>
  The text of the variable is built in an array of 255 bytes, number by number in one of 10. \<open>mem\<close>
  is whether memory suffices for a new row.
\<close>

fun variable_text :: "long list \<Rightarrow> string \<Rightarrow> string res" where
  "variable_text [] s = Inr s"
| "variable_text (v # vs) s = rbind (fits 10 (CHR ''.'' # print_int (sint v))) (\<lambda>temp.
     rbind (fits 255 (s @ temp)) (variable_text vs))"

definition createSysStatRow :: "bool \<Rightarrow> long \<Rightarrow> long list \<Rightarrow> stat_table \<Rightarrow> stat_table res" where
  "createSysStatRow mem index' variable ts =
    (case stat_find index' ts of
       Some r \<Rightarrow> rbind (variable_text variable []) (\<lambda>s. Inr (stat_put (r\<lparr>sysStatisticsVariable := s\<rparr>) ts))
     | None \<Rightarrow> (case sysStatisticsTable_create_row mem [index'] of
         None \<Rightarrow> Inl (BadPtr NULL)
       | Some r \<Rightarrow> rbind (variable_text variable []) (\<lambda>s.
           Inr (insort_key stat_oids (r\<lparr>sysStatisticsVariable := s\<rparr>) ts))))"

section \<open>Periods\<close>

fun feed :: "fpu \<Rightarrow> long list \<Rightarrow> sysStatisticsTable_context \<Rightarrow> sysStatisticsTable_context res" where
  "feed fp [] r = Inr r"
| "feed fp (v # vs) r = rbind (update_stat fp v r) (feed fp vs)"

lemma feed_append: "feed fp (us @ vs) r = rbind (feed fp us r) (feed fp vs)"
  by (induction us arbitrary: r) (auto simp: rbind_def split: sum.splits)

text \<open>A row that has taken the readings \<open>us\<close> of a period of \<open>p\<close>, and one that has published a period.\<close>

definition collecting :: "nat \<Rightarrow> long list \<Rightarrow> sysStatisticsTable_context \<Rightarrow> bool" where
  "collecting p us r \<longleftrightarrow> sysStatisticsPeriod r = of_nat p \<and> lastTime r = of_nat (length us)
   \<and> sampleCount r = of_nat (length us) \<and> sysStatTotalValue r = sum_list us
   \<and> sint (lastMaxValue r) = (if us = [] then 0 else Max (sint ` set us))
   \<and> sint (lastMinValue r) = (if us = [] then 0 else Min (sint ` set us))"

definition published :: "long list \<Rightarrow> sysStatisticsTable_context \<Rightarrow> bool" where
  "published b r \<longleftrightarrow> sint (sysStatisticsMaxValue r) = Max (sint ` set b)
   \<and> sint (sysStatisticsMinValue r) = Min (sint ` set b)
   \<and> sint (sysStatisticsAvgValue r) = (\<Sum>v\<leftarrow>b. sint v) div int (length b)"

definition same_figures :: "sysStatisticsTable_context \<Rightarrow> sysStatisticsTable_context \<Rightarrow> bool" where
  "same_figures r r' \<longleftrightarrow> sysStatisticsMaxValue r' = sysStatisticsMaxValue r
   \<and> sysStatisticsMinValue r' = sysStatisticsMinValue r \<and> sysStatisticsAvgValue r' = sysStatisticsAvgValue r
   \<and> sysStatisticsStd r' = sysStatisticsStd r"

lemma sint_cases: "sint (v :: long) = uint v - 2 ^ 32 * of_bool (bit (uint v) 31)"
  by (simp add: sint_uint signed_take_bit_eq_take_bit_minus take_bit_int_eq_self uint_lt2p [of v, simplified])

lemma sint_small: "uint (v :: long) < 2 ^ 31 \<Longrightarrow> sint v = uint v"
  by (simp add: sint_cases bit_iff_odd)

lemma sint_of_nat_small: "n < 2 ^ 31 \<Longrightarrow> sint (of_nat n :: long) = int n"
  by (subst sint_small) (simp_all add: unsigned_of_nat take_bit_nat_eq_self of_nat_take_bit take_bit_int_eq_self)

lemma uint_sum_list: "uint (sum_list us :: long) = (\<Sum>v\<leftarrow>us. uint v) mod 2 ^ 32"
  by (induction us) (simp_all add: uint_word_ariths mod_simps)

lemma positive_uint: "0 < sint (v :: long) \<Longrightarrow> uint v = sint v \<and> sint v < 2 ^ 31"
  using sint_lt [of v] uint_lt2p [of v] by (cases "bit (uint v) 31") (simp_all add: sint_cases)

lemma sum_uint_sint: "\<forall>v\<in>set us. 0 < sint (v :: long) \<Longrightarrow> (\<Sum>v\<leftarrow>us. uint v) = (\<Sum>v\<leftarrow>us. sint v)"
  by (induction us) (auto dest: positive_uint)

lemma sum_bound: "\<forall>v\<in>set us. sint (v :: long) \<le> m \<Longrightarrow> (\<Sum>v\<leftarrow>us. sint v) \<le> int (length us) * m"
  by (induction us) (auto simp: algebra_simps)

lemma sum_positive: "\<forall>v\<in>set us. 0 < sint (v :: long) \<Longrightarrow> 0 \<le> (\<Sum>v\<leftarrow>us. sint v)"
  by (induction us) auto

lemma mean_long:
  assumes pos: "\<forall>v\<in>set us. 0 < sint (v :: long)" and n: "us \<noteq> []" "length us < 2 ^ 31"
    and sum: "(\<Sum>v\<leftarrow>us. sint v) < 2 ^ 32"
  shows "sint (sum_list us div of_nat (length us)) = (\<Sum>v\<leftarrow>us. sint v) div int (length us)"
proof -
  let ?s = "\<Sum>v\<leftarrow>us. sint v" and ?n = "int (length us)"
  have s: "uint (sum_list us) = ?s"
    using sum sum_positive [OF pos] by (simp add: uint_sum_list sum_uint_sint [OF pos])
  have l: "uint (of_nat (length us) :: long) = ?n"
    using n(2) by (simp add: unsigned_of_nat take_bit_nat_eq_self)
  have d: "uint (sum_list us div of_nat (length us)) = ?s div ?n" by (simp add: uint_div s l)
  have "\<forall>v\<in>set us. sint v \<le> 2 ^ 31 - 1" using pos positive_uint by fastforce
  from sum_bound [OF this] have "?s \<le> ?n * (2 ^ 31 - 1)" .
  then have "?s div ?n \<le> 2 ^ 31 - 1" using n(1) by (metis div_le_mono nonzero_mult_div_cancel_left length_0_conv of_nat_eq_0_iff of_nat_0_le_iff zdiv_mono1 zero_less_iff_neq_zero of_nat_0_less_iff)
  with d show ?thesis using sint_small by simp
qed

lemma add_sample_collecting:
  assumes c: "collecting p us r" and v: "0 < sint v" "\<forall>v\<in>set us. 0 < sint v"
  shows "collecting p (us @ [v]) (add_sample fp v r) \<and> same_figures r (add_sample fp v r)"
proof (cases "us = []")
  case True
  have "sint (lastMinValue r) = 0 \<longleftrightarrow> lastMinValue r = 0" using signed_word_eqI [of "lastMinValue r" 0] by auto
  with True c v show ?thesis by (simp add: collecting_def add_sample_def Let_def same_figures_def)
next
  case False
  obtain hi lo where h: "hi = Max (sint ` set us)" and l: "lo = Min (sint ` set us)" by blast
  have "lo \<in> sint ` set us" unfolding l using False by (intro Min_in) auto
  then have "0 < lo" using v(2) by auto
  moreover have "Max (sint ` set (us @ [v])) = max (sint v) hi" "Min (sint ` set (us @ [v])) = min (sint v) lo"
    using False by (simp_all add: h l)
  moreover have "sint (lastMaxValue r) = hi" "sint (lastMinValue r) = lo" using c False h l by (simp_all add: collecting_def)
  moreover from this \<open>0 < lo\<close> have "lastMinValue r \<noteq> 0" by auto
  ultimately show ?thesis using c
    by (auto simp: collecting_def add_sample_def Let_def same_figures_def max_def min_def)
qed

text \<open>A reading inside a period, and the one that ends it.\<close>

lemma update_stat_collects:
  assumes "collecting p us r" "Suc (length us) < p" "p < 2 ^ 31" "0 < sint v" "\<forall>v\<in>set us. 0 < sint v"
  shows "update_stat fp v r = Inr (add_sample fp v r) \<and> collecting p (us @ [v]) (add_sample fp v r)
    \<and> same_figures r (add_sample fp v r)"
proof -
  note a = add_sample_collecting [OF assms(1,4,5), of fp]
  then have "lastTime (add_sample fp v r) = of_nat (Suc (length us))"
    and "sysStatisticsPeriod (add_sample fp v r) = of_nat p" by (simp_all add: collecting_def)
  with assms(2,3) have "\<not> sint (lastTime (add_sample fp v r)) \<ge> sint (sysStatisticsPeriod (add_sample fp v r))"
    by (simp add: sint_of_nat_small del: of_nat_Suc)
  with a show ?thesis by (simp add: update_stat_def)
qed

lemma update_stat_ends:
  assumes c: "collecting p us r" and n: "Suc (length us) = p" "p < 2 ^ 31" and v: "0 < sint v" "\<forall>v\<in>set us. 0 < sint v"
  shows "update_stat fp v r = end_period fp (add_sample fp v r)" and "sampleCount (add_sample fp v r) \<noteq> 0"
    and "collecting p (us @ [v]) (add_sample fp v r)"
proof -
  let ?b = "us @ [v]" and ?r = "add_sample fp v r"
  show a: "collecting p ?b ?r" using add_sample_collecting [OF c v] by blast
  have l: "length ?b = p" using n(1) by simp
  have "sint (lastTime ?r) \<ge> sint (sysStatisticsPeriod ?r)"
    using a unfolding collecting_def l by simp
  then show "update_stat fp v r = end_period fp ?r" by (simp add: update_stat_def)
  show "sampleCount ?r \<noteq> 0"
  proof
    assume "sampleCount ?r = 0"
    then have "sint (of_nat p :: long) = 0" using a unfolding collecting_def l by simp
    with n show False by (simp add: sint_of_nat_small)
  qed
qed

lemma update_stat_publishes:
  assumes c: "collecting p us r" and n: "Suc (length us) = p" "p < 2 ^ 31" and v: "0 < sint v" "\<forall>v\<in>set us. 0 < sint v"
    and sum: "(\<Sum>v\<leftarrow>us @ [v]. sint v) < 2 ^ 32"
  shows "\<exists>r'. update_stat fp v r = Inr r' \<and> collecting p [] r' \<and> published (us @ [v]) r'"
proof -
  let ?b = "us @ [v]"
  note u = update_stat_ends [OF c n v, of fp]
  have l: "length ?b = p" using n(1) by simp
  have "sint (sum_list ?b div of_nat (length ?b)) = (\<Sum>v\<leftarrow>?b. sint v) div int (length ?b)"
    using v n by (intro mean_long sum) auto
  with l u show ?thesis
    by (simp add: end_period_def Let_def collecting_def published_def del: append_assoc set_append length_append sum_list_append map_append)
qed

text \<open>The last full period in a sequence of readings.\<close>

definition last_period :: "nat \<Rightarrow> long list \<Rightarrow> long list" where
  "last_period p vs = take p (drop (p * (length vs div p - 1)) vs)"

lemma drop_snoc: "m \<le> length vs \<Longrightarrow> drop m (vs @ [v]) = drop m vs @ [v]"
  by simp

lemma take_drop_snoc: "m + p \<le> length vs \<Longrightarrow> take p (drop m (vs @ [v])) = take p (drop m vs)"
  by simp

lemma le_div_iff_mult: "0 < p \<Longrightarrow> x * p < 2 ^ 32 \<Longrightarrow> x \<le> (2 ^ 32 - 1) div (p :: int)"
  using zdiv_mono1 [of "x * p" "2 ^ 32 - 1" p] by simp

lemma feed_periods:
  assumes "0 < p" "p < 2 ^ 31" "collecting p [] r"
  shows "\<forall>v\<in>set vs. 0 < sint v \<and> sint v * int p < 2 ^ 32 \<Longrightarrow> \<exists>r'. feed fp vs r = Inr r'
    \<and> collecting p (drop (p * (length vs div p)) vs) r'
    \<and> (if length vs < p then same_figures r r' else published (last_period p vs) r')"
proof (induction vs rule: rev_induct)
  case Nil
  with assms show ?case by (simp add: same_figures_def)
next
  case (snoc v vs)
  let ?k = "length vs div p" and ?us = "drop (p * (length vs div p)) vs"
  have "\<forall>v\<in>set vs. 0 < sint v \<and> sint v * int p < 2 ^ 32" using snoc.prems by simp
  from snoc.IH [OF this] obtain r1 where r1: "feed fp vs r = Inr r1" "collecting p ?us r1"
    "if length vs < p then same_figures r r1 else published (last_period p vs) r1" by blast
  have l: "length ?us = length vs mod p" by (simp add: minus_mult_div_eq_mod [symmetric] mult.commute)
  have pos: "0 < sint v" "\<forall>v\<in>set ?us. 0 < sint v" using snoc.prems by (auto dest: in_set_dropD)
  have f: "feed fp (vs @ [v]) r = update_stat fp v r1"
    by (cases "update_stat fp v r1") (simp_all add: feed_append r1(1))
  have k: "p * ?k \<le> length vs" by simp
  show ?case
  proof (cases "Suc (length vs mod p) < p")
    case True
    then have d: "Suc (length vs) div p = ?k" by (simp add: div_Suc mod_Suc)
    have b: "drop (p * ?k) (vs @ [v]) = ?us @ [v]" by (rule drop_snoc [OF k])
    have "last_period p (vs @ [v]) = last_period p vs" if "\<not> length vs < p"
    proof -
      have "0 < ?k" using that assms(1) by (simp add: div_greater_zero_iff)
      then obtain j where j: "?k = Suc j" by (cases ?k) auto
      have "p * j + p \<le> length vs" using k unfolding j by (simp add: algebra_simps)
      then show ?thesis
        unfolding last_period_def length_append_singleton d j diff_Suc_1 by (rule take_drop_snoc)
    qed
    moreover have "length vs < p \<longleftrightarrow> Suc (length vs) < p"
      using d assms(1) div_eq_0_iff [of "length vs" p] div_eq_0_iff [of "Suc (length vs)" p] by simp
    moreover obtain r' where "update_stat fp v r1 = Inr r'" "collecting p (?us @ [v]) r'" "same_figures r1 r'"
      using update_stat_collects [OF r1(2) _ assms(2) pos] True l by metis
    ultimately show ?thesis using r1(3) f d b
      by (auto simp: same_figures_def published_def split: if_splits)
  next
    case False
    then have e: "Suc (length vs mod p) = p" using assms(1) by (metis Suc_lessI mod_less_divisor)
    then have d: "Suc (length vs) div p = Suc ?k" by (simp add: div_Suc mod_Suc)
    have "p * ?k + Suc (length vs mod p) = Suc (length vs)" by simp
    then have d2: "p * Suc ?k = Suc (length vs)" unfolding e by simp
    have "take p (?us @ [v]) = ?us @ [v]" using e l by (intro take_all) simp
    then have b: "last_period p (vs @ [v]) = ?us @ [v]"
      unfolding last_period_def length_append_singleton d diff_Suc_1 drop_snoc [OF k] .
    let ?m = "(2 ^ 32 - 1) div int p"
    have "\<forall>v\<in>set (vs @ [v]). sint v \<le> ?m"
      using snoc.prems assms(1) by (intro ballI le_div_iff_mult) auto
    then have "\<forall>v\<in>set (?us @ [v]). sint v \<le> ?m" by (auto dest: in_set_dropD)
    moreover have lb: "length (?us @ [v]) = p" using e by (simp only: length_append_singleton l)
    ultimately have "(\<Sum>v\<leftarrow>?us @ [v]. sint v) \<le> int p * ?m" using sum_bound by metis
    also have "int p * ?m \<le> 2 ^ 32 - 1"
      using mult_div_mod_eq [of "int p" "2 ^ 32 - 1"] pos_mod_sign [of "int p" "2 ^ 32 - 1"] assms(1) by linarith
    finally have sum: "(\<Sum>v\<leftarrow>?us @ [v]. sint v) < 2 ^ 32" by simp
    obtain r' where "update_stat fp v r1 = Inr r'" "collecting p [] r'" "published (?us @ [v]) r'"
      using update_stat_publishes [OF r1(2) _ assms(2) pos sum] e l by metis
    moreover have "\<not> Suc (length vs) < p" unfolding d2 [symmetric] by simp
    moreover have "drop (p * (length (vs @ [v]) div p)) (vs @ [v]) = []" using d d2 by simp
    ultimately show ?thesis using f b by auto
  qed
qed

section \<open>The deviation\<close>

lemma fpu_okD:
  assumes "fpu_ok fp"
  shows "x \<le> y \<Longrightarrow> flt fp x \<le> flt fp y" and "x \<le> y \<Longrightarrow> dbl fp x \<le> dbl fp y"
    and "\<bar>i\<bar> \<le> 2 ^ 24 \<Longrightarrow> flt fp (of_int i) = of_int i" and "\<bar>i\<bar> \<le> 2 ^ 53 \<Longrightarrow> dbl fp (of_int i) = of_int i"
    and "1 \<le> x \<Longrightarrow> x \<le> 2 ^ 64 \<Longrightarrow> flt fp x = x \<Longrightarrow> flt fp (2 * x) = 2 * x \<and> dbl fp x = x"
    and "1 \<le> x \<Longrightarrow> x \<le> 2 ^ 64 \<Longrightarrow> flt fp x = x \<Longrightarrow> k \<le> 10 \<Longrightarrow> flt fp (x / 2 ^ k) = x / 2 ^ k \<and> dbl fp (x / 2 ^ k) = x / 2 ^ k"
  using assms by (simp_all only: fpu_ok_def)

lemma newton_step:
  assumes fp: "fpu_ok fp" and a: "flt fp a = a" "1024 \<le> a" "a \<le> 2 ^ 24" and k: "Suc k \<le> 10"
    and x: "a / 2 ^ k \<le> x + flt fp (a / x)" "1 \<le> x" "x \<le> a"
  shows "a / 2 ^ Suc k \<le> flt fp (dbl fp (flt fp (x + flt fp (a / x)) / 2))
    \<and> flt fp (dbl fp (flt fp (x + flt fp (a / x)) / 2)) \<le> a"
proof -
  let ?q = "flt fp (a / x)" and ?b = "a / 2 ^ k" and ?c = "a / 2 ^ Suc k"
  have r: "1 \<le> a" "a \<le> 2 ^ 64" using a by simp_all
  note h = fpu_okD(6) [OF fp r a(1)]
  have "a / x \<le> a" using x(2) a(2) by (simp add: divide_le_eq mult_le_cancel_left1)
  from fpu_okD(1) [OF fp this] have "?q \<le> a" using a(1) by simp
  then have "x + ?q \<le> 2 * a" using x(3) by simp
  from fpu_okD(1) [OF fp this] have u: "flt fp (x + ?q) \<le> 2 * a" using fpu_okD(5) [OF fp r a(1)] by simp
  have l: "?b \<le> flt fp (x + ?q)" using fpu_okD(1) [OF fp x(1)] h [of k] k by simp
  have "?c \<le> flt fp (x + ?q) / 2" using l by simp
  from fpu_okD(2) [OF fp this] have l2: "?c \<le> dbl fp (flt fp (x + ?q) / 2)" using h [OF k] by simp
  have "flt fp (x + ?q) / 2 \<le> a" using u by simp
  from fpu_okD(2) [OF fp this] have u2: "dbl fp (flt fp (x + ?q) / 2) \<le> a" using fpu_okD(5) [OF fp r a(1)] by simp
  from fpu_okD(1) [OF fp l2] fpu_okD(1) [OF fp u2] show ?thesis using h [OF k] a(1) by simp
qed

lemma newton_bounds:
  assumes fp: "fpu_ok fp" and a: "flt fp a = a" "1024 \<le> a" "a \<le> 2 ^ 24"
  shows "k + n \<le> 10 \<Longrightarrow> a / 2 ^ k \<le> x \<Longrightarrow> x \<le> a \<Longrightarrow> \<exists>y. newton fp n a x = Some y \<and> a / 2 ^ (k + n) \<le> y \<and> y \<le> a"
proof (induction n arbitrary: k x)
  case (Suc n)
  have "(2 :: rat) ^ k \<le> 2 ^ 10" using Suc.prems(1) by (intro power_increasing) simp_all
  then have "1 \<le> a / 2 ^ k" using a(2) by (simp add: le_divide_eq)
  then have x: "1 \<le> x" using Suc.prems(2) by linarith
  then have "flt fp 0 \<le> flt fp (a / x)" using a(2) by (intro fpu_okD(1) [OF fp]) simp
  moreover have "flt fp 0 = 0" using fpu_okD(3) [OF fp, of 0] by simp
  ultimately have "a / 2 ^ k \<le> x + flt fp (a / x)" using Suc.prems(2) by linarith
  from newton_step [OF fp a _ this x Suc.prems(3)] Suc.prems(1)
  have "a / 2 ^ Suc k \<le> flt fp (dbl fp (flt fp (x + flt fp (a / x)) / 2))"
    and "flt fp (dbl fp (flt fp (x + flt fp (a / x)) / 2)) \<le> a" by simp_all
  from Suc.IH [OF _ this] Suc.prems(1) x show ?case by simp
qed simp

text \<open>Ten steps only halve a large number ten times.\<close>

lemma square_root_bounds:
  assumes fp: "fpu_ok fp" and a: "flt fp a = a" "1024 \<le> a" "a \<le> 2 ^ 24"
  shows "\<exists>y. getSquareRoot fp a = Some y \<and> a / 1024 \<le> y \<and> y \<le> a"
proof -
  have "a / 2 ^ 0 \<le> 1 + flt fp (a / 1)" using a by simp
  from newton_step [OF fp a _ this] a(2)
  have "a / 2 ^ Suc 0 \<le> flt fp (dbl fp (flt fp (1 + flt fp (a / 1)) / 2))"
    and "flt fp (dbl fp (flt fp (1 + flt fp (a / 1)) / 2)) \<le> a" by simp_all
  moreover have "getSquareRoot fp a = newton fp 9 a (flt fp (dbl fp (flt fp (1 + flt fp (a / 1)) / 2)))"
    using newton.simps(2) [of fp 9 a 1] by (simp add: getSquareRoot_def)
  ultimately show ?thesis using newton_bounds [OF fp a, of "Suc 0" 9] by simp
qed

lemma to_long_small: "0 \<le> y \<Longrightarrow> y \<le> 2 ^ 24 \<Longrightarrow> sint (to_long (Some y)) = \<lfloor>y\<rfloor>"
proof -
  assume y: "0 \<le> y" "y \<le> 2 ^ 24"
  then have "0 \<le> \<lfloor>y\<rfloor>" "\<lfloor>y\<rfloor> \<le> 2 ^ 24" by (simp_all add: floor_le_iff)
  moreover from this have "uint (word_of_int \<lfloor>y\<rfloor> :: long) = \<lfloor>y\<rfloor>" by (simp add: uint_word_of_int)
  ultimately show ?thesis using y(1) sint_small [of "word_of_int \<lfloor>y\<rfloor>"] by (simp add: to_long_def Let_def)
qed

lemma sint_word_of_int: "- (2 ^ 31) \<le> i \<Longrightarrow> i < 2 ^ 31 \<Longrightarrow> sint (word_of_int i :: long) = i"
  by (simp add: signed_of_int signed_take_bit_int_eq_self)

lemma square_range: "0 < v \<Longrightarrow> v \<le> 2896 \<Longrightarrow> v * v \<le> (8386816 :: int)"
  using mult_mono [of v 2896 v 2896] by simp

lemma sint_square: "0 < v \<Longrightarrow> v \<le> 2896 \<Longrightarrow> sint (word_of_int v * word_of_int v :: long) = v * v"
proof -
  assume v: "0 < v" "v \<le> 2896"
  have "- (2 ^ 31) \<le> v * v" by (rule order_trans [of _ 0]) simp_all
  moreover have "v * v < 2 ^ 31" by (rule le_less_trans [OF square_range [OF v]]) simp
  ultimately show ?thesis unfolding wi_hom_mult by (rule sint_word_of_int)
qed

text \<open>Equal readings up to the end of the period.\<close>

lemma feed_equal:
  assumes fp: "fpu_ok fp" and v: "0 < v" "v \<le> 2896" and p: "p < 2 ^ 31" and sq: "int p * (v * v) \<le> 2 ^ 53"
    and r: "collecting p [] r" "sysStatSquaresTotal r = 0"
  shows "k < p \<Longrightarrow> \<exists>r'. feed fp (replicate k (word_of_int v)) r = Inr r'
    \<and> collecting p (replicate k (word_of_int v)) r' \<and> sysStatSquaresTotal r' = of_int (int k * (v * v))"
proof (induction k)
  case (Suc k)
  let ?w = "word_of_int v :: long"
  from Suc obtain r1 where r1: "feed fp (replicate k ?w) r = Inr r1" "collecting p (replicate k ?w) r1"
    "sysStatSquaresTotal r1 = of_int (int k * (v * v))" by auto
  have w: "sint ?w = v" using v by (intro sint_word_of_int) simp_all
  have s: "sint (?w * ?w) = v * v" by (rule sint_square [OF v])
  have "int (Suc k) * (v * v) \<le> int p * (v * v)" using Suc.prems by (intro mult_right_mono) simp_all
  then have "\<bar>int (Suc k) * (v * v)\<bar> \<le> 2 ^ 53" using sq by simp
  from fpu_okD(4) [OF fp this] have "sysStatSquaresTotal (add_sample fp ?w r1) = of_int (int (Suc k) * (v * v))"
    using r1(3) s by (simp add: add_sample_def Let_def algebra_simps)
  moreover have "feed fp (replicate (Suc k) ?w) r = update_stat fp ?w r1"
    by (cases "update_stat fp ?w r1") (simp_all add: replicate_append_same [symmetric] feed_append r1(1) del: replicate_append_same)
  moreover have "replicate (Suc k) ?w = replicate k ?w @ [?w]" by (simp add: replicate_append_same)
  ultimately show ?case using update_stat_collects [OF r1(2) _ p, of ?w fp] Suc.prems v w by (simp del: replicate_Suc)
qed (use r in simp)

lemma deviation_arg_equal:
  assumes fp: "fpu_ok fp" and v: "0 < v" "v \<le> 2896" and p: "0 < p" "p < 2 ^ 31" and sq: "3 * int p * (v * v) < 2 ^ 32"
    and r: "sysStatisticsAvgValue r = word_of_int v" "sysStatTotalValue r = word_of_int (int p * v)"
      "sampleCount r = of_nat p" "sysStatSquaresTotal r = of_int (int p * (v * v))"
  shows "deviation_arg fp r = of_int (2 * (v * v))"
proof -
  let ?s = "int p * (v * v)"
  have e: "2 * word_of_int v * word_of_int (int p * v) + of_nat p * word_of_int v * word_of_int v = (word_of_int (3 * ?s) :: long)"
    by (simp add: algebra_simps)
  have nn: "0 \<le> ?s" by simp
  then have u: "uint (word_of_int (3 * ?s) :: long) = 3 * ?s"
    unfolding uint_word_of_int using sq by (intro mod_pos_pos_trivial) (simp_all add: mult.assoc)
  have d: "uint (2 * sysStatisticsAvgValue r * sysStatTotalValue r
      + sampleCount r * sysStatisticsAvgValue r * sysStatisticsAvgValue r) = 3 * ?s"
    unfolding r e u ..
  have d: "of_int (uint (2 * sysStatisticsAvgValue r * sysStatTotalValue r
      + sampleCount r * sysStatisticsAvgValue r * sysStatisticsAvgValue r)) - sysStatSquaresTotal r = (of_int (2 * ?s) :: rat)"
    unfolding d r(4) by simp
  have "0 \<le> v * v" by simp
  with square_range [OF v] have v2: "\<bar>2 * (v * v)\<bar> \<le> 2 ^ 24" "\<bar>2 * (v * v)\<bar> \<le> 2 ^ 53" by simp_all
  have "?s \<le> 4503599627370496" using sq nn by (simp add: mult.assoc)
  with nn have "\<bar>2 * ?s\<bar> \<le> 9007199254740992" by linarith
  then have "\<bar>2 * ?s\<bar> \<le> 2 ^ 53" by (rule order_trans) simp
  from fpu_okD(4) [OF fp this] have "dbl fp (of_int (2 * ?s)) / of_int (sint (sampleCount r)) = of_int (2 * (v * v))"
    using p by (simp add: r sint_of_nat_small)
  then show ?thesis using fpu_okD(3) [OF fp v2(1)] fpu_okD(4) [OF fp v2(2)]
    unfolding deviation_arg_def Let_def d by simp
qed

lemma equal_readings:
  assumes fp: "fpu_ok fp" and v: "23 \<le> v" "v \<le> 2896" and p: "0 < p" "p < 2 ^ 31" and sq: "3 * int p * (v * v) < 2 ^ 32"
    and r: "collecting p [] r" "sysStatSquaresTotal r = 0"
  shows "\<exists>r'. feed fp (replicate p (word_of_int v)) r = Inr r' \<and> sint (sysStatisticsAvgValue r') = v
    \<and> v * v div 512 \<le> sint (sysStatisticsStd r')"
proof -
  let ?w = "word_of_int v :: long" and ?a = "of_int (2 * (v * v)) :: rat"
  obtain q where q: "p = Suc q" using p(1) by (cases p) auto
  have nn: "0 \<le> int p * (v * v)" "0 \<le> v * v" by simp_all
  have b: "int p * (v * v) \<le> 2 ^ 53" using sq nn by (simp add: mult.assoc)
  have v0: "0 < v" using v by simp
  obtain r1 where r1: "feed fp (replicate q ?w) r = Inr r1" "collecting p (replicate q ?w) r1"
    "sysStatSquaresTotal r1 = of_int (int q * (v * v))"
    using feed_equal [OF fp v0 v(2) p(2) b r, of q] q by auto
  have w: "sint ?w = v" using v by (intro sint_word_of_int) simp_all
  let ?r = "add_sample fp ?w r1"
  have s: "sint (?w * ?w) = v * v" by (rule sint_square [OF v0 v(2)])
  note u = update_stat_ends [OF r1(2) _ p(2), of ?w fp]
  have e: "replicate q ?w @ [?w] = replicate p ?w" by (simp add: q replicate_append_same)
  have c: "collecting p (replicate p ?w) ?r" "sampleCount ?r \<noteq> 0" "update_stat fp ?w r1 = end_period fp ?r"
    using u v0 w q e by auto
  have tot: "sysStatTotalValue ?r = word_of_int (int p * v)" "sampleCount ?r = of_nat p"
    using c(1) by (simp_all add: collecting_def sum_list_replicate)
  have "v \<le> v * v" using v by (simp add: mult_le_cancel_left1)
  then have "int p * v \<le> int p * (v * v)" by (intro mult_left_mono) simp_all
  then have "int p * v < 2 ^ 32" using sq nn by (simp add: mult.assoc)
  then have "sint (sum_list (replicate p ?w) div of_nat (length (replicate p ?w))) = (\<Sum>v\<leftarrow>replicate p ?w. sint v) div int (length (replicate p ?w))"
    using p w v0 by (intro mean_long) (auto simp: sum_list_replicate)
  then have "sint (sysStatTotalValue ?r div sampleCount ?r) = v"
    using c(1) w p by (simp add: collecting_def sum_list_replicate)
  from arg_cong [OF this, of "word_of_int :: int \<Rightarrow> long"] have avg: "sysStatTotalValue ?r div sampleCount ?r = ?w" by simp
  let ?r2 = "?r\<lparr>sysStatisticsMaxValue := lastMaxValue ?r, lastMaxValue := 0, sysStatisticsMinValue := lastMinValue ?r,
    lastMinValue := 0, sysStatisticsAvgValue := ?w\<rparr>"
  have "dbl fp (of_int (int q * (v * v)) + of_int (v * v)) = of_int (int p * (v * v))"
    using fpu_okD(4) [OF fp, of "int p * (v * v)"] b nn by (simp add: q algebra_simps)
  then have "sysStatSquaresTotal ?r = of_int (int p * (v * v))"
    using r1(3) s by (simp add: add_sample_def Let_def)
  then have d: "deviation_arg fp ?r2 = ?a"
    using tot by (intro deviation_arg_equal [OF fp v0 v(2) p sq]) simp_all
  have "529 \<le> v * v" using mult_mono [of 23 v 23 v] v by simp
  moreover note square_range [OF v0 v(2)]
  ultimately have n: "1024 \<le> 2 * (v * v)" "2 * (v * v) \<le> 2 ^ 24" by simp_all
  from n fpu_okD(3) [OF fp, of "2 * (v * v)"] have "flt fp ?a = ?a" by simp
  moreover from n have "1024 \<le> ?a" "?a \<le> 2 ^ 24"
    using of_int_le_iff [of 1024 "2 * (v * v)", where ?'a = rat] of_int_le_iff [of "2 * (v * v)" "2 ^ 24", where ?'a = rat]
    by simp_all
  ultimately obtain y where y: "getSquareRoot fp ?a = Some y" "?a / 1024 \<le> y" "y \<le> ?a" "?a \<le> 2 ^ 24"
    using square_root_bounds [OF fp, of ?a] by blast
  have "v * v div 512 = \<lfloor>of_int (v * v) / (512 :: rat)\<rfloor>"
    using floor_divide_of_int_eq [of "v * v" 512, where ?'a = rat] by simp
  also have "\<dots> \<le> \<lfloor>y\<rfloor>" using y(2) by (intro floor_mono) simp
  also have "\<lfloor>y\<rfloor> = sint (to_long (Some y))"
    using y n by (intro to_long_small [symmetric]) (simp_all add: order_trans [of 0])
  finally have "v * v div 512 \<le> sint (to_long (getSquareRoot fp (deviation_arg fp ?r2)))" using y(1) d by simp
  moreover have "feed fp (replicate p ?w) r = end_period fp ?r"
    unfolding e [symmetric] feed_append r1(1) by (cases "end_period fp ?r") (simp_all add: c(3))
  moreover have "end_period fp ?r = Inr (?r2\<lparr>sysStatisticsStd := to_long (getSquareRoot fp (deviation_arg fp ?r2)),
      sysStatTotalValue := 0, sampleCount := 0, lastTime := 0, sysStatSquaresTotal := 0\<rparr>)"
    using c(2) avg by (simp add: end_period_def Let_def)
  ultimately show ?thesis using w by simp
qed

section \<open>The table\<close>

fun updateRows :: "fpu \<Rightarrow> long \<Rightarrow> long list \<Rightarrow> stat_table \<Rightarrow> stat_table res" where
  "updateRows fp i [] ts = Inr ts"
| "updateRows fp i (v # vs) ts = rbind (updateRow fp i v ts) (updateRows fp i vs)"

lemma stat_find_oids: "stat_find i ts = Some r \<Longrightarrow> stat_oids r = [i]"
  by (auto simp: stat_find_def find_Some_iff)

lemma stat_find_put: "stat_oids r' = [i] \<Longrightarrow> stat_find i ts \<noteq> None \<Longrightarrow> stat_find i (stat_put r' ts) = Some r'"
  by (induction ts) (auto simp: stat_find_def stat_put_def)

lemma stat_find_put_other: "stat_oids r' = [i] \<Longrightarrow> j \<noteq> i \<Longrightarrow> stat_find j (stat_put r' ts) = stat_find j ts"
  by (induction ts) (auto simp: stat_find_def stat_put_def)

lemma update_stat_oids: "update_stat fp v r = Inr r' \<Longrightarrow> stat_oids r' = stat_oids r"
  by (auto simp: update_stat_def end_period_def add_sample_def Let_def split: if_splits)

lemma find_insort: "stat_oids r = [i] \<Longrightarrow> stat_find i ts = None \<Longrightarrow> stat_find i (insort_key stat_oids r ts) = Some r"
  by (induction ts) (auto simp: stat_find_def split: if_splits)

lemma find_insort_other: "stat_oids r = [i] \<Longrightarrow> j \<noteq> i \<Longrightarrow> stat_find j (insort_key stat_oids r ts) = stat_find j ts"
  by (induction ts) (auto simp: stat_find_def)

text \<open>The row takes the readings; the other rows keep what they hold.\<close>

lemma updateRows_feed:
  "stat_find i ts = Some r \<Longrightarrow> feed fp vs r = Inr r' \<Longrightarrow> \<exists>ts'. updateRows fp i vs ts = Inr ts' \<and> stat_find i ts' = Some r'
    \<and> (\<forall>j. j \<noteq> i \<longrightarrow> stat_find j ts' = stat_find j ts)"
proof (induction vs arbitrary: ts r)
  case (Cons v vs)
  from Cons.prems(2) obtain r1 where r1: "update_stat fp v r = Inr r1" "feed fp vs r1 = Inr r'"
    by (cases "update_stat fp v r") auto
  have o: "stat_oids r1 = [i]" using update_stat_oids [OF r1(1)] stat_find_oids [OF Cons.prems(1)] by simp
  have "stat_find i (stat_put r1 ts) = Some r1" using stat_find_put [OF o] Cons.prems(1) by simp
  from Cons.IH [OF this r1(2)] stat_find_put_other [OF o] show ?case
    using Cons.prems(1) r1(1) by (simp add: updateRow_def)
qed simp

lemma created_row:
  assumes "stat_find i ts = None" "createSysStatRow True i variable ts = Inr ts1"
  shows "\<exists>r. stat_find i ts1 = Some r \<and> collecting 60 [] r \<and> sysStatSquaresTotal r = 0"
    and "j \<noteq> i \<Longrightarrow> stat_find j ts1 = stat_find j ts"
  using assms by (auto simp: createSysStatRow_def sysStatisticsTable_create_row_def sysStatisticsTable_extract_index_def
      zero_stat_def collecting_def find_insort find_insort_other Let_def rbind_eq_Inr)

lemma new_row: "\<exists>ts1. createSysStatRow True 1 [1, 3] [] = Inr ts1"
proof -
  have "case createSysStatRow True 1 [1, 3] [] of Inl e \<Rightarrow> False | Inr ts1 \<Rightarrow> True" by code_simp
  then show ?thesis by (cases "createSysStatRow True 1 [1, 3] []") simp_all
qed

text \<open>C21: A row newly created for a variable, with the period of 60 readings it is created with, and readings
  that are all positive and at most 71582788 = (2^32 - 1) / 60, so that their unsigned total does not
  wrap around: once 60 readings have come it publishes the largest, the smallest and the mean value of
  the readings of its last full period. Nothing is left over from an earlier period, and the rows of
  other variables keep what they hold. With readings of 0 the smallest value may be wrong, and with
  negative ones all three.
\<close>

theorem statistics_of_last_period:
  assumes "stat_find i ts = None" "createSysStatRow True i variable ts = Inr ts1" "60 \<le> length vs"
    and "\<forall>v\<in>set vs. 0 < sint v \<and> sint v \<le> 71582788"
  shows "\<exists>ts2 r. updateRows fp i vs ts1 = Inr ts2 \<and> stat_find i ts2 = Some r \<and> published (last_period 60 vs) r
    \<and> (\<forall>j. j \<noteq> i \<longrightarrow> stat_find j ts2 = stat_find j ts)"
proof -
  from created_row(1) [OF assms(1,2)] obtain r where r: "stat_find i ts1 = Some r" "collecting 60 [] r" by blast
  have "\<forall>v\<in>set vs. 0 < sint v \<and> sint v * int 60 < 2 ^ 32" using assms(4) by force
  from feed_periods [OF _ _ r(2) this, of fp] assms(3)
  obtain r' where "feed fp vs r = Inr r'" "published (last_period 60 vs) r'" by auto
  with updateRows_feed [OF r(1)] created_row(2) [OF assms(1,2)] show ?thesis by metis
qed

theorem statistics_of_last_period_witness:
  "\<exists>ts1 ts2 r. createSysStatRow True 1 [1, 3] [] = Inr ts1
    \<and> updateRows \<lparr>flt = \<lambda>x. x, dbl = \<lambda>x. x\<rparr> 1 (replicate 10 9 @ replicate 30 5 @ replicate 30 7) ts1 = Inr ts2
    \<and> stat_find 1 ts2 = Some r \<and> sint (sysStatisticsMaxValue r) = 9 \<and> sint (sysStatisticsMinValue r) = 5
    \<and> sint (sysStatisticsAvgValue r) = 6"
proof -
  let ?vs = "replicate 10 9 @ replicate 30 5 @ replicate 30 7 :: long list"
  obtain ts1 where c: "createSysStatRow True 1 [1, 3] [] = Inr ts1" using new_row by blast
  have v: "\<forall>v\<in>set ?vs. 0 < sint v \<and> sint v \<le> 71582788" by simp
  from statistics_of_last_period [OF _ c _ v, of "\<lparr>flt = \<lambda>x. x, dbl = \<lambda>x. x\<rparr>"]
  obtain ts2 r where u: "updateRows \<lparr>flt = \<lambda>x. x, dbl = \<lambda>x. x\<rparr> 1 ?vs ts1 = Inr ts2" "stat_find 1 ts2 = Some r"
    and p: "published (last_period 60 ?vs) r" by (auto simp: stat_find_def)
  have b: "last_period 60 ?vs = replicate 10 9 @ replicate 30 5 @ replicate 20 7" by code_simp
  from p have "sint (sysStatisticsMaxValue r) = 9 \<and> sint (sysStatisticsMinValue r) = 5 \<and> sint (sysStatisticsAvgValue r) = 6"
    unfolding published_def b by (simp add: sum_list_replicate)
  with c u show ?thesis by blast
qed

text \<open>The published deviation is no deviation: after 60 equal readings \<open>v\<close> between 23 and 2896 the mean is
  \<open>v\<close>, and the deviation, which should be 0, at least \<open>v * v div 512\<close>, whatever the machine's rounding. The
  formula adds the terms it should subtract, and ten steps of Newton's method only halve
  its large result ten times.
\<close>

theorem deviation_of_equal_readings:
  assumes "fpu_ok fp" "stat_find i ts = None" "createSysStatRow True i variable ts = Inr ts1" "23 \<le> v" "v \<le> 2896"
  shows "\<exists>ts2 r. updateRows fp i (replicate 60 (word_of_int v)) ts1 = Inr ts2 \<and> stat_find i ts2 = Some r
    \<and> sint (sysStatisticsAvgValue r) = v \<and> v * v div 512 \<le> sint (sysStatisticsStd r)"
proof -
  from created_row(1) [OF assms(2,3)]
  obtain r where r: "stat_find i ts1 = Some r" "collecting 60 [] r" "sysStatSquaresTotal r = 0" by blast
  have "3 * int 60 * (v * v) < 2 ^ 32" using square_range [of v] assms(4,5) by simp
  from equal_readings [OF assms(1,4,5) _ _ this r(2,3)] updateRows_feed [OF r(1)] show ?thesis by fastforce
qed

theorem deviation_of_equal_readings_witness:
  "\<exists>ts1 ts2 r. createSysStatRow True 1 [1, 3] [] = Inr ts1
    \<and> updateRows \<lparr>flt = \<lambda>x. x, dbl = \<lambda>x. x\<rparr> 1 (replicate 60 1000) ts1 = Inr ts2
    \<and> stat_find 1 ts2 = Some r \<and> sint (sysStatisticsAvgValue r) = 1000 \<and> 1953 \<le> sint (sysStatisticsStd r)"
proof -
  obtain ts1 where c: "createSysStatRow True 1 [1, 3] [] = Inr ts1" using new_row by blast
  have "fpu_ok \<lparr>flt = \<lambda>x. x, dbl = \<lambda>x. x\<rparr>" by (simp add: fpu_ok_def)
  from deviation_of_equal_readings [OF this _ c, of 1000] c show ?thesis by (simp add: stat_find_def)
qed

end
