(* ===== verification/TrapTable.thy ===== *)
theory TrapTable
  imports SysStats
begin

text \<open>
  The trap table of the collector (\<^verbatim>\<open>src/Group1/RTCM/src/trapTable.c\<close>): a row names a variable of the host, a
  comparison with a threshold, and the policy a trap is sent for when it holds. The row structure, the
  phases of an SNMP SET, GET, copying a row, and saving and loading. A row that goes into service gets
  a row in the statistics table (\<open>SysStats\<close>), which is therefore part of what ACTION changes. \<^verbatim>\<open>long\<close>
  has 32 bits and \<^verbatim>\<open>MAX_OID_LEN\<close> is 128. The callbacks interpret the locale of the SET helper.
\<close>

section \<open>Rows\<close>

record trapTable_context =
  trap_oids :: "long list"
  trapIndex :: long
  trapPolicyID :: long
  trapType :: long
  trapVariable :: octets
  trapExpression :: long
  trapValue :: long
  trapDescription :: octets
  trapDestinationIP :: long
  trapPort :: long
  trapTransport :: long
  trapMessage :: octets
  trapStatus :: long
  trap_idx :: long

definition trap_row_ok :: "trapTable_context \<Rightarrow> bool" where
  "trap_row_ok r \<longleftrightarrow> octets_ok 512 (trapVariable r) \<and> octets_ok 255 (trapDescription r) \<and> octets_ok 255 (trapMessage r)"

definition zero_trap :: trapTable_context where
  "zero_trap = \<lparr>trap_oids = [], trapIndex = 0, trapPolicyID = 0, trapType = 0, trapVariable = empty_octets 512,
     trapExpression = 0, trapValue = 0, trapDescription = empty_octets 255, trapDestinationIP = 0, trapPort = 0,
     trapTransport = 0, trapMessage = empty_octets 255, trapStatus = 0, trap_idx = 0\<rparr>"

text \<open>The sub-identifiers in an array of four-byte numbers, low byte first.\<close>

definition long_at :: "byte list \<Rightarrow> nat \<Rightarrow> long" where
  "long_at bs k = foldr (\<lambda>b w. ucast b + 256 * w) (take 4 (drop (4 * k) bs)) 0"

definition oids_of :: "octets \<Rightarrow> long list" where
  "oids_of o' = map (long_at (oBuf o')) [0..<oLen o' div 4]"

text \<open>Ranges and column numbers.\<close>

abbreviation (input) TRAPINDEX_MIN :: int where "TRAPINDEX_MIN \<equiv> 0"
abbreviation (input) TRAPINDEX_MAX :: int where "TRAPINDEX_MAX \<equiv> 65535"
abbreviation (input) COLUMN_TRAPINDEX :: int where "COLUMN_TRAPINDEX \<equiv> 1"
abbreviation (input) COLUMN_TRAPPOLICYID :: int where "COLUMN_TRAPPOLICYID \<equiv> 2"
abbreviation (input) COLUMN_TRAPTYPE :: int where "COLUMN_TRAPTYPE \<equiv> 3"
abbreviation (input) COLUMN_TRAPVARIABLE :: int where "COLUMN_TRAPVARIABLE \<equiv> 4"
abbreviation (input) COLUMN_TRAPEXPRESSION :: int where "COLUMN_TRAPEXPRESSION \<equiv> 5"
abbreviation (input) COLUMN_TRAPVALUE :: int where "COLUMN_TRAPVALUE \<equiv> 6"
abbreviation (input) COLUMN_TRAPDESCRIPTION :: int where "COLUMN_TRAPDESCRIPTION \<equiv> 7"
abbreviation (input) COLUMN_TRAPDESTINATIONIP :: int where "COLUMN_TRAPDESTINATIONIP \<equiv> 8"
abbreviation (input) COLUMN_TRAPPORT :: int where "COLUMN_TRAPPORT \<equiv> 9"
abbreviation (input) COLUMN_TRAPTRANSPORT :: int where "COLUMN_TRAPTRANSPORT \<equiv> 10"
abbreviation (input) COLUMN_TRAPMESSAGE :: int where "COLUMN_TRAPMESSAGE \<equiv> 11"
abbreviation (input) COLUMN_TRAPSTATUS :: int where "COLUMN_TRAPSTATUS \<equiv> 12"

section \<open>RESERVE1 and RESERVE2\<close>

text \<open>A number out of its range is a wrong value, whatever its type and size: it is read before either is looked at.\<close>

definition ranged :: "varbind \<Rightarrow> int \<Rightarrow> int \<Rightarrow> int \<Rightarrow> int res" where
  "ranged var ty low high = rbind (read_long var) (\<lambda>v.
     Inr (if sint v < low \<or> sint v > high then SNMP_ERR_WRONGVALUE else check_vb_type_and_size var ty 4))"

text \<open>A longer description or message is cut to 255 bytes in the request itself.\<close>

definition cut_255 :: "varbind \<Rightarrow> varbind" where
  "cut_255 var = (if val_len var > 255 then var\<lparr>val_len := 255\<rparr> else var)"

definition trap_reserve1_col :: "varbind \<Rightarrow> int \<Rightarrow> (varbind \<times> int) res" where
  "trap_reserve1_col var col =
    (let checked = (\<lambda>var ty size. Inr (var, check_vb_type_and_size var ty size));
         in_range = (\<lambda>ty low high. rbind (ranged var ty low high) (\<lambda>rc. Inr (var, rc)))
     in if col = COLUMN_TRAPINDEX then in_range ASN_UNSIGNED TRAPINDEX_MIN TRAPINDEX_MAX
     else if col = COLUMN_TRAPPOLICYID then checked var ASN_UNSIGNED 4
     else if col = COLUMN_TRAPTYPE then in_range ASN_INTEGER 1 3
     else if col = COLUMN_TRAPVARIABLE then checked var ASN_OBJECT_ID (val_len var)
     else if col = COLUMN_TRAPEXPRESSION then in_range ASN_INTEGER 0 5
     else if col = COLUMN_TRAPVALUE then checked var ASN_INTEGER 4
     else if col = COLUMN_TRAPDESCRIPTION then
       (let var = cut_255 var in checked var ASN_OCTET_STR (val_len var))
     else if col = COLUMN_TRAPDESTINATIONIP then checked var ASN_IPADDRESS 4
     else if col = COLUMN_TRAPPORT then checked var ASN_INTEGER 4
     else if col = COLUMN_TRAPTRANSPORT then in_range ASN_INTEGER 0 1
     else if col = COLUMN_TRAPMESSAGE then
       (let var = cut_255 var in checked var ASN_OCTET_STR (val_len var))
     else if col = COLUMN_TRAPSTATUS then checked var ASN_INTEGER 4
     else Inr (var, SNMP_ERR_GENERR))"

fun trap_reserve1_loop :: "request list \<Rightarrow> int \<Rightarrow> (request list \<times> int) res" where
  "trap_reserve1_loop [] st = Inr ([], st)"
| "trap_reserve1_loop (r # rs) st = rbind (trap_reserve1_col (requestvb r) (colnum r)) (\<lambda>(var, rc).
     let r = r\<lparr>requestvb := var\<rparr>;
         r = (if rc \<noteq> 0 then request_set_error rc r else r)
     in rbind (trap_reserve1_loop rs (max st (rstatus r))) (\<lambda>(rs, st). Inr (r # rs, st)))"

definition trapTable_set_reserve1 :: "trapTable_context request_group \<Rightarrow> trapTable_context request_group res" where
  "trapTable_set_reserve1 rg = rbind (trap_reserve1_loop (rg_list rg) (rg_status rg)) (\<lambda>(rs, st).
     Inr (rg\<lparr>rg_list := rs, rg_status := st\<rparr>))"

text \<open>The index is checked only when the status is set, and then in place of the status.\<close>

definition trap_reserve2_rc :: "trapTable_context option \<Rightarrow> request \<Rightarrow> int" where
  "trap_reserve2_rc undo_ctx r =
    (if colnum r = COLUMN_TRAPSTATUS then
       (let rc = check_vb_rowstatus (requestvb r) (case undo_ctx of Some u \<Rightarrow> trapStatus u | None \<Rightarrow> 0) in
        case index_oid r of i # _ \<Rightarrow> if uint i > TRAPINDEX_MAX then SNMP_ERR_WRONGVALUE else rc | [] \<Rightarrow> rc)
     else SNMP_ERR_NOERROR)"

definition trapTable_set_reserve2 :: "trapTable_context request_group \<Rightarrow> trapTable_context request_group" where
  "trapTable_set_reserve2 rg =
     rg\<lparr>rg_list := map (\<lambda>r. let rc = trap_reserve2_rc (undo_info rg) r in
        if rc \<noteq> 0 then request_set_error rc r else r) (rg_list rg)\<rparr>"

section \<open>ACTION\<close>

text \<open>
  A row whose status is active, or asks for it, gets its row of statistics; \<open>mem i\<close> is whether there is
  memory for that of index \<open>i\<close>.
\<close>

definition wants_statistics :: "trapTable_context \<Rightarrow> bool" where
  "wants_statistics row \<longleftrightarrow> trapStatus row = 1 \<or> trapStatus row = 4"

definition note_statistics :: "(long \<Rightarrow> bool) \<Rightarrow> trapTable_context \<Rightarrow> stat_table \<Rightarrow> stat_table res" where
  "note_statistics mem row ts = createSysStatRow (mem (trapIndex row)) (trapIndex row) (oids_of (trapVariable row)) ts"

definition trap_action_col ::
  "(long \<Rightarrow> bool) \<Rightarrow> varbind \<Rightarrow> int \<Rightarrow> trapTable_context \<times> stat_table \<Rightarrow> (trapTable_context \<times> stat_table) res" where
  "trap_action_col mem var col = (\<lambda>(row, ts).
    if col = COLUMN_TRAPINDEX then Inr (row\<lparr>trapIndex := val_integer var\<rparr>, ts)
    else if col = COLUMN_TRAPPOLICYID then Inr (row\<lparr>trapPolicyID := val_integer var\<rparr>, ts)
    else if col = COLUMN_TRAPTYPE then Inr (row\<lparr>trapType := val_integer var\<rparr>, ts)
    else if col = COLUMN_TRAPVARIABLE then
      rbind (store_bytes var (trapVariable row)) (\<lambda>b. let row = row\<lparr>trapVariable := b\<rparr> in
        if wants_statistics row then rbind (note_statistics mem row ts) (\<lambda>ts. Inr (row, ts)) else Inr (row, ts))
    else if col = COLUMN_TRAPEXPRESSION then Inr (row\<lparr>trapExpression := val_integer var\<rparr>, ts)
    else if col = COLUMN_TRAPVALUE then Inr (row\<lparr>trapValue := val_integer var\<rparr>, ts)
    else if col = COLUMN_TRAPDESCRIPTION then
      rbind (store_bytes var (trapDescription row)) (\<lambda>b. Inr (row\<lparr>trapDescription := b\<rparr>, ts))
    else if col = COLUMN_TRAPDESTINATIONIP then Inr (row\<lparr>trapDestinationIP := val_integer var\<rparr>, ts)
    else if col = COLUMN_TRAPPORT then Inr (row\<lparr>trapPort := val_integer var\<rparr>, ts)
    else if col = COLUMN_TRAPTRANSPORT then Inr (row\<lparr>trapTransport := val_integer var\<rparr>, ts)
    else if col = COLUMN_TRAPMESSAGE then
      rbind (store_bytes var (trapMessage row)) (\<lambda>b. Inr (row\<lparr>trapMessage := b\<rparr>, ts))
    else if col = COLUMN_TRAPSTATUS then
      (let row = row\<lparr>trapStatus := val_integer var\<rparr> in
       if wants_statistics row then rbind (note_statistics mem row ts) (\<lambda>ts. Inr (row, ts))
       else if trapStatus row = 6 then Inr (row, destroySysStatRow (trapIndex row) ts)
       else Inr (row, ts))
    else Inr (row, ts))"

fun trap_action_loop ::
  "(long \<Rightarrow> bool) \<Rightarrow> request list \<Rightarrow> trapTable_context \<times> stat_table \<Rightarrow> (trapTable_context \<times> stat_table) res" where
  "trap_action_loop mem [] s = Inr s"
| "trap_action_loop mem (r # rs) s = rbind (trap_action_col mem (requestvb r) (colnum r) s) (trap_action_loop mem rs)"

definition trapTable_can_activate :: bool where "trapTable_can_activate = True"
definition trapTable_can_deactivate :: bool where "trapTable_can_deactivate = True"
definition trapTable_can_delete :: bool where
  "trapTable_can_delete = (if \<not> trapTable_can_deactivate then False else True)"

definition trap_methods :: row_methods where
  "trap_methods = \<lparr>can_activate = trapTable_can_activate, can_deactivate = trapTable_can_deactivate,
     can_delete = trapTable_can_delete\<rparr>"

lemma trap_methods_always [simp]: "trap_methods = always"
  by (simp add: trap_methods_def always_def trapTable_can_activate_def trapTable_can_deactivate_def trapTable_can_delete_def)

definition trapTable_set_action ::
  "(long \<Rightarrow> bool) \<Rightarrow> stat_table \<Rightarrow> trapTable_context request_group \<Rightarrow> (stat_table \<times> trapTable_context request_group) res" where
  "trapTable_set_action mem ts rg =
    (case existing_row rg of
       None \<Rightarrow> if rg_list rg = [] then Inr (ts, rg) else Inl (BadPtr NULL)
     | Some row \<Rightarrow> rbind (trap_action_loop mem (rg_list rg) (row, ts)) (\<lambda>(row', ts).
         let (row_err, rs_new, del) = check_row_status trap_methods (trapStatus row') (map_option trapStatus (undo_info rg));
             rg = rg\<lparr>existing_row := Some (row'\<lparr>trapStatus := rs_new\<rparr>), row_deleted := row_deleted rg \<or> del\<rparr>
         in Inr (ts, if row_err \<noteq> 0 then row_status_error COLUMN_TRAPSTATUS row_err rg else rg)))"

section \<open>GET, copies and new rows\<close>

definition trapTable_get_value :: "int \<Rightarrow> trapTable_context \<Rightarrow> asn_value res option" where
  "trapTable_get_value col row =
    (if col = COLUMN_TRAPINDEX then Some (Inr (AsnLong ASN_UNSIGNED (trapIndex row)))
     else if col = COLUMN_TRAPPOLICYID then Some (Inr (AsnLong ASN_UNSIGNED (trapPolicyID row)))
     else if col = COLUMN_TRAPTYPE then Some (Inr (AsnLong ASN_INTEGER (trapType row)))
     else if col = COLUMN_TRAPVARIABLE then Some (read_bytes ASN_OBJECT_ID (trapVariable row))
     else if col = COLUMN_TRAPEXPRESSION then Some (Inr (AsnLong ASN_INTEGER (trapExpression row)))
     else if col = COLUMN_TRAPVALUE then Some (Inr (AsnLong ASN_INTEGER (trapValue row)))
     else if col = COLUMN_TRAPDESCRIPTION then Some (read_bytes ASN_OCTET_STR (trapDescription row))
     else if col = COLUMN_TRAPDESTINATIONIP then Some (Inr (AsnLong ASN_IPADDRESS (trapDestinationIP row)))
     else if col = COLUMN_TRAPPORT then Some (Inr (AsnLong ASN_INTEGER (trapPort row)))
     else if col = COLUMN_TRAPTRANSPORT then Some (Inr (AsnLong ASN_INTEGER (trapTransport row)))
     else if col = COLUMN_TRAPMESSAGE then Some (read_bytes ASN_OCTET_STR (trapMessage row))
     else if col = COLUMN_TRAPSTATUS then Some (Inr (AsnLong ASN_INTEGER (trapStatus row)))
     else None)"

definition trapTable_row_copy ::
  "bool \<Rightarrow> trapTable_context \<Rightarrow> trapTable_context \<Rightarrow> (int \<times> trapTable_context) res" where
  "trapTable_row_copy clone_ok dst src =
    (if \<not> clone_ok then Inr (1, dst\<lparr>trap_oids := []\<rparr>)
     else
     let dst = dst\<lparr>trap_oids := trap_oids src, trapIndex := trapIndex src, trapPolicyID := trapPolicyID src,
       trapType := trapType src\<rparr> in
     rbind (copy_bytes (trapVariable dst) (trapVariable src)) (\<lambda>b.
     let dst = dst\<lparr>trapVariable := b, trapExpression := trapExpression src, trapValue := trapValue src\<rparr> in
     rbind (copy_bytes (trapDescription dst) (trapDescription src)) (\<lambda>b.
     let dst = dst\<lparr>trapDescription := b, trapDestinationIP := trapDestinationIP src, trapPort := trapPort src,
       trapTransport := trapTransport src\<rparr> in
     rbind (copy_bytes (trapMessage dst) (trapMessage src)) (\<lambda>b.
     Inr (0, dst\<lparr>trapMessage := b, trapStatus := trapStatus src\<rparr>)))))"

definition trapTable_extract_index :: "bool \<Rightarrow> trapTable_context \<Rightarrow> long list \<Rightarrow> int \<times> trapTable_context" where
  "trapTable_extract_index mem ctx hdr =
    (if \<not> mem then (-1, ctx)
     else let ctx = ctx\<lparr>trap_oids := hdr\<rparr> in
       case hdr of [i] \<Rightarrow> (SNMP_ERR_NOERROR, ctx\<lparr>trapIndex := i\<rparr>) | _ \<Rightarrow> (SNMP_ERR_GENERR, ctx))"

definition trapTable_create_row :: "bool \<Rightarrow> long list \<Rightarrow> trapTable_context option" where
  "trapTable_create_row mem hdr =
    (if \<not> mem then None
     else let (err, ctx) = trapTable_extract_index mem zero_trap hdr in
       if err \<noteq> 0 then None else Some (ctx\<lparr>trapType := 1\<rparr>))"

definition trapTable_duplicate_row :: "bool \<Rightarrow> trapTable_context \<Rightarrow> trapTable_context option res" where
  "trapTable_duplicate_row mem row_ctx =
    (if \<not> mem then Inr None
     else rbind (trapTable_row_copy mem zero_trap row_ctx) (\<lambda>(err, dup). Inr (if err \<noteq> 0 then None else Some dup)))"

section \<open>COMMIT and loading\<close>

definition trap_set_idx :: "trapTable_context \<Rightarrow> trapTable_context res" where
  "trap_set_idx ctx = (case trap_oids ctx of [] \<Rightarrow> Inl (BadPtr NULL) | i # _ \<Rightarrow> Inr (ctx\<lparr>trap_idx := i\<rparr>))"

text \<open>\<open>ok k\<close> is whether the k-th row can be written; the rows behind one that cannot are missing from the file.\<close>

fun trap_commit_rows ::
  "(nat \<Rightarrow> bool) \<Rightarrow> nat \<Rightarrow> trapTable_context list \<Rightarrow> (trapTable_context list \<times> trapTable_context list) res" where
  "trap_commit_rows ok k [] = Inr ([], [])"
| "trap_commit_rows ok k (ctx # rest) = rbind (trap_set_idx ctx) (\<lambda>ctx.
     if \<not> ok k then Inr (ctx # rest, [])
     else rbind (trap_commit_rows ok (Suc k) rest) (\<lambda>(rows, file). Inr (ctx # rows, ctx # file)))"

definition trapTable_set_commit ::
  "bool \<Rightarrow> (nat \<Rightarrow> bool) \<Rightarrow> trapTable_context list \<Rightarrow> trapTable_context list
     \<Rightarrow> (trapTable_context list \<times> trapTable_context list) res" where
  "trapTable_set_commit open_ok ok container file =
    (if \<not> open_ok then Inr (container, file) else trap_commit_rows ok 0 container)"

text \<open>
  Loading: the text of the variable is built in an array of 128 bytes for a debug message; the index is
  cloned from \<open>trap_idx\<close> alone; a row whose index is there is refused by the container and lost. Every
  row gets a row of statistics. \<open>mem k\<close> is whether memory suffices for the k-th row, \<open>clone k\<close> for its index.
\<close>

definition oid_lu_text :: "long list \<Rightarrow> string" where
  "oid_lu_text os = concat (map (\<lambda>x. ''.'' @ print_int (uint x)) os)"

fun trap_load_rows ::
  "(nat \<Rightarrow> bool) \<Rightarrow> (nat \<Rightarrow> bool) \<Rightarrow> nat \<Rightarrow> trapTable_context list \<Rightarrow> trapTable_context list \<times> stat_table
     \<Rightarrow> (trapTable_context list \<times> stat_table) res" where
  "trap_load_rows mem clone k [] s = Inr s"
| "trap_load_rows mem clone k (r # file) (rows, ts) =
     rbind (fits 128 (oid_lu_text (oids_of (trapVariable r)))) (\<lambda>_.
     if \<not> mem k then Inl (BadPtr NULL)
     else if length (trap_oids r) > 1 then Inl (OutOfBounds (int (length (trap_oids r))))
     else if \<not> clone k then Inr (rows, ts)
     else let r = r\<lparr>trap_oids := take (length (trap_oids r)) [trap_idx r]\<rparr>;
              rows = (if trap_oids r \<in> trap_oids ` set rows then rows else insort_key trap_oids r rows)
          in rbind (note_statistics (\<lambda>_. mem k) r ts) (\<lambda>ts. trap_load_rows mem clone (Suc k) file (rows, ts)))"

definition RTM_Load_Container_From_File ::
  "bool \<Rightarrow> (nat \<Rightarrow> bool) \<Rightarrow> (nat \<Rightarrow> bool) \<Rightarrow> trapTable_context list \<Rightarrow> (trapTable_context list \<times> stat_table) res" where
  "RTM_Load_Container_From_File open_ok mem clone file =
    (if \<not> open_ok then Inr ([], []) else trap_load_rows mem clone 0 file ([], []))"

section \<open>The laws of the helper\<close>

text \<open>
  What succeeds in a SET: memory for the new row, for the copy and for the insertion of the row with an
  index, for the row of statistics of an index, opening the file, and the k-th write to it. \<open>clone\<close> is
  whether there is memory for the index of a row that is restored. What the callbacks change beside the
  rows are the statistics and the file.
\<close>

record trap_set_env =
  trap_new_ok :: "long list \<Rightarrow> bool"
  trap_dup_ok :: "long list \<Rightarrow> bool"
  trap_ins_ok :: "long list \<Rightarrow> bool"
  trap_stat_ok :: "long \<Rightarrow> bool"
  trap_open_ok :: bool
  trap_write_ok :: "nat \<Rightarrow> bool"

definition trap_cb :: "trap_set_env \<Rightarrow> bool
    \<Rightarrow> (stat_table \<times> trapTable_context list, trapTable_context) table_cb" where
  "trap_cb m clone = \<lparr>row_index = trap_oids,
     create_row = (\<lambda>i. trapTable_create_row (trap_new_ok m i) i),
     duplicate_row = (\<lambda>r. trapTable_duplicate_row (trap_dup_ok m (trap_oids r)) r),
     set_reserve1 = trapTable_set_reserve1,
     set_reserve2 = trapTable_set_reserve2,
     set_action = (\<lambda>(ts, f) rg. rbind (trapTable_set_action (trap_stat_ok m) ts rg) (\<lambda>(ts, rg). Inr ((ts, f), rg))),
     set_commit = (\<lambda>(ts, f) rs. rbind (trapTable_set_commit (trap_open_ok m) (trap_write_ok m) rs f) (\<lambda>(rs, f).
       Inr ((ts, f), rs))),
     row_copy = trapTable_row_copy clone,
     insert_ok = trap_ins_ok m\<rparr>"

lemma trap_cb_simps [simp]:
  "row_index (trap_cb m clone) = trap_oids"
  "create_row (trap_cb m clone) = (\<lambda>i. trapTable_create_row (trap_new_ok m i) i)"
  "duplicate_row (trap_cb m clone) = (\<lambda>r. trapTable_duplicate_row (trap_dup_ok m (trap_oids r)) r)"
  "set_reserve1 (trap_cb m clone) = trapTable_set_reserve1"
  "set_reserve2 (trap_cb m clone) = trapTable_set_reserve2"
  "row_copy (trap_cb m clone) = trapTable_row_copy clone"
  "insert_ok (trap_cb m clone) = trap_ins_ok m"
  by (simp_all add: trap_cb_def)

definition trap_view :: "trapTable_context \<Rightarrow> int \<Rightarrow> asn_value res option" where
  "trap_view row c = trapTable_get_value c row"

definition trap_at_rest :: "(int \<Rightarrow> asn_value res option) \<Rightarrow> bool" where
  "trap_at_rest v \<longleftrightarrow> v 12 = Some (Inr (AsnLong ASN_INTEGER 1)) \<or> v 12 = Some (Inr (AsnLong ASN_INTEGER 2))"

lemma zero_trap_ok [simp]: "trap_row_ok zero_trap"
  by (simp add: trap_row_ok_def zero_trap_def)

lemma trap_create_ok: "trapTable_create_row mem i = Some r \<Longrightarrow> trap_row_ok r \<and> trap_oids r = i"
  using zero_trap_ok
  by (auto simp: trapTable_create_row_def trapTable_extract_index_def Let_def trap_row_ok_def
      split: if_splits list.splits prod.splits)

lemma trap_copy_Inr:
  assumes "trap_row_ok dst" "trap_row_ok src" "trapTable_row_copy True dst src = Inr (e, r)"
  shows "e = 0 \<and> trap_row_ok r \<and> trap_view r = trap_view src \<and> trap_oids r = trap_oids src"
proof -
  have v: "octets_ok 512 (trapVariable dst)" "octets_ok 512 (trapVariable src)"
    and d: "octets_ok 255 (trapDescription dst)" "octets_ok 255 (trapDescription src)"
    and m: "octets_ok 255 (trapMessage dst)" "octets_ok 255 (trapMessage src)"
    using assms(1,2) by (simp_all add: trap_row_ok_def)
  note cp = copy_bytes_ok [OF v] copy_bytes_ok [OF d] copy_bytes_ok [OF m]
  from assms(3) show ?thesis
    by (auto simp: trapTable_row_copy_def Let_def cp trap_row_ok_def trap_view_def trapTable_get_value_def fun_eq_iff)
qed

lemma trap_duplicate_ok: "trap_row_ok r \<Longrightarrow> trapTable_duplicate_row mem r = Inr (Some u) \<Longrightarrow>
  trap_row_ok u \<and> trap_view u = trap_view r \<and> trap_oids u = trap_oids r"
  by (auto simp: trapTable_duplicate_row_def rbind_eq_Inr split: if_splits dest: trap_copy_Inr [OF zero_trap_ok])

lemma trap_action_col_row:
  "trap_action_col mem var col (row, ts) = Inr (row', ts') \<Longrightarrow> trap_row_ok row \<Longrightarrow> trap_row_ok row' \<and> trap_oids row' = trap_oids row"
  by (auto simp: trap_action_col_def rbind_eq_Inr Let_def trap_row_ok_def split: if_splits dest: store_bytes_ok)

lemma trap_action_loop_row:
  "trap_action_loop mem rs (row, ts) = Inr (row', ts') \<Longrightarrow> trap_row_ok row \<Longrightarrow> trap_row_ok row' \<and> trap_oids row' = trap_oids row"
  by (induction rs arbitrary: row ts) (auto simp: rbind_eq_Inr dest!: trap_action_col_row)

lemma trap_set_action_eq:
  "existing_row rg = Some row \<Longrightarrow> trapTable_set_action mem ts rg = rbind (trap_action_loop mem (rg_list rg) (row, ts)) (\<lambda>(row', ts).
     Inr (ts, rg\<lparr>existing_row := Some (row'\<lparr>trapStatus := (if wants_statistics row' then 1 else if trapStatus row' = 6 then 6 else 2)\<rparr>),
       row_deleted := row_deleted rg \<or> trapStatus row' = 6\<rparr>))"
  by (auto simp: trapTable_set_action_def check_row_status_always wants_statistics_def rbind_def Let_def split: sum.split)

lemma trap_set_action_row:
  assumes "existing_row g = Some r" "trap_row_ok r" "trapTable_set_action mem ts g = Inr (ts', g')"
  shows "\<exists>r' d. g' = g\<lparr>existing_row := Some r', row_deleted := row_deleted g \<or> d\<rparr> \<and> trap_row_ok r' \<and> trap_oids r' = trap_oids r
    \<and> (d \<or> trap_at_rest (trap_view r'))"
proof -
  from assms(3) obtain r1 where r1: "trap_action_loop mem (rg_list g) (r, ts) = Inr (r1, ts')"
    and g': "g' = g\<lparr>existing_row := Some (r1\<lparr>trapStatus := (if wants_statistics r1 then 1 else if trapStatus r1 = 6 then 6 else 2)\<rparr>),
      row_deleted := row_deleted g \<or> trapStatus r1 = 6\<rparr>"
    by (auto simp: trap_set_action_eq [OF assms(1)] rbind_eq_Inr)
  show ?thesis unfolding g' using trap_action_loop_row [OF r1 assms(2)]
    by (intro exI [of _ "r1\<lparr>trapStatus := (if wants_statistics r1 then 1 else if trapStatus r1 = 6 then 6 else 2)\<rparr>"]
        exI [of _ "trapStatus r1 = 6"])
       (auto simp: trap_at_rest_def trap_view_def trapTable_get_value_def trap_row_ok_def wants_statistics_def)
qed

abbreviation same_trap :: "trapTable_context \<Rightarrow> trapTable_context \<Rightarrow> bool" where
  "same_trap r r' \<equiv> trap_oids r' = trap_oids r \<and> trap_view r' = trap_view r \<and> (trap_row_ok r \<longrightarrow> trap_row_ok r')"

lemma trap_commit_keep: "trap_commit_rows ok k rs = Inr (rs', f) \<Longrightarrow> list_all2 same_trap rs rs'"
proof (induction rs arbitrary: k rs' f)
  case (Cons r rs)
  from Cons.prems obtain r1 where r1: "trap_set_idx r = Inr r1"
    and t: "(\<not> ok k \<and> rs' = r1 # rs) \<or> (\<exists>rs1 f1. trap_commit_rows ok (Suc k) rs = Inr (rs1, f1) \<and> rs' = r1 # rs1)"
    by (auto simp: rbind_eq_Inr split: if_splits)
  have "same_trap r r1"
    using r1 by (auto simp: trap_set_idx_def trap_view_def trapTable_get_value_def trap_row_ok_def split: list.splits)
  with t Cons.IH show ?case by (auto simp: list_all2_same)
qed simp

interpretation traps: governed_table "trap_cb m True" trap_row_ok trap_view trap_at_rest
proof (unfold_locales, simp_all only: trap_cb_simps)
  show "\<exists>rs st. g' = g\<lparr>rg_list := rs, rg_status := st\<rparr>" if "trapTable_set_reserve1 g = Inr g'" for g g'
    using that by (auto simp: trapTable_set_reserve1_def rbind_eq_Inr)
  show "\<exists>rs st. trapTable_set_reserve2 g = g\<lparr>rg_list := rs, rg_status := st\<rparr>" for g
    by (rule exI, rule exI [of _ "rg_status g"]) (simp add: trapTable_set_reserve2_def)
  show "\<exists>r' rs d. g' = g\<lparr>existing_row := Some r', rg_list := rs, row_deleted := d\<rparr> \<and> trap_row_ok r' \<and> trap_oids r' = trap_oids r"
    if "existing_row g = Some r" "trap_row_ok r" "set_action (trap_cb m True) w g = Inr (w', g')" for g r w w' g'
  proof -
    from that(3) obtain ts ts' where "trapTable_set_action (trap_stat_ok m) ts g = Inr (ts', g')"
      by (auto simp: trap_cb_def rbind_eq_Inr split: prod.splits)
    from trap_set_action_row [OF that(1,2) this] obtain r' d
      where r': "g' = g\<lparr>existing_row := Some r', row_deleted := d\<rparr>" "trap_row_ok r'" "trap_oids r' = trap_oids r" by blast
    have "g' = g\<lparr>existing_row := Some r', rg_list := rg_list g, row_deleted := d\<rparr>" unfolding r'(1) by simp
    with r'(2,3) show ?thesis by blast
  qed
  show "trap_at_rest (trap_view (the (existing_row g')))"
    if "existing_row g = Some r" "trap_row_ok r" "set_action (trap_cb m True) w g = Inr (w', g')" "\<not> row_deleted g'"
    for g r w w' g'
  proof -
    from that(3) obtain ts ts' where "trapTable_set_action (trap_stat_ok m) ts g = Inr (ts', g')"
      by (auto simp: trap_cb_def rbind_eq_Inr split: prod.splits)
    from trap_set_action_row [OF that(1,2) this] that(4) show ?thesis by auto
  qed
  show "list_all2 same_trap rs rs'"
    if "set_commit (trap_cb m True) w rs = Inr (w', rs')" for w rs w' rs'
    using that trap_commit_keep
    by (auto simp: trap_cb_def trapTable_set_commit_def rbind_eq_Inr list_all2_same split: if_splits prod.splits)
qed (auto dest: trap_create_ok trap_duplicate_ok trap_copy_Inr)

text \<open>As for the policy table, a SET that is answered with a failure leaves every row and column as GET shows it,
  while the insertion of new rows and the restoring of a row have memory.\<close>

theorem failed_set_keeps_traps:
  assumes "distinct (map trap_oids rs)" and "\<forall>r\<in>set rs. trap_row_ok r" and "\<forall>i. trap_ins_ok m i"
    and "set_pdu (trap_cb m True) w rs reqs = Inr (st, False, s)"
  shows "map (\<lambda>r. (trap_oids r, trap_view r)) (ag_rows s) = map (\<lambda>r. (trap_oids r, trap_view r)) rs"
  using traps.atomic [OF _ _ assms(4)] assms(1-3) by (simp add: traps.shows_rows_def)

section \<open>Rows and their statistics\<close>

lemma variable_text_Inr: "variable_text vs s = Inr t \<Longrightarrow> t = s @ oid_text vs"
proof (induction vs arbitrary: s)
  case (Cons v vs)
  then have "variable_text vs (s @ CHR ''.'' # print_int (sint v)) = Inr t" by (simp add: rbind_eq_Inr)
  from Cons.IH [OF this] show ?case by (simp add: oid_text_def)
qed (simp add: oid_text_def)

lemma create_extract: "sysStatisticsTable_create_row mem hdr = Some r \<Longrightarrow> stat_oids r = hdr"
  by (auto simp: sysStatisticsTable_create_row_def sysStatisticsTable_extract_index_def Let_def split: if_splits list.splits)

lemma createSysStatRow_Inr:
  assumes "createSysStatRow mem i vs ts = Inr ts'"
  shows "\<exists>s. stat_find i ts' = Some s \<and> sysStatisticsVariable s = oid_text vs"
    and "j \<noteq> i \<Longrightarrow> stat_find j ts' = stat_find j ts"
proof -
  have "(\<exists>s. stat_find i ts' = Some s \<and> sysStatisticsVariable s = oid_text vs)
    \<and> (j \<noteq> i \<longrightarrow> stat_find j ts' = stat_find j ts)"
  proof (cases "stat_find i ts")
    case None
    with assms obtain r t where r: "sysStatisticsTable_create_row mem [i] = Some r" "variable_text vs [] = Inr t"
      and ts': "ts' = insort_key stat_oids (r\<lparr>sysStatisticsVariable := t\<rparr>) ts"
      by (auto simp: createSysStatRow_def rbind_eq_Inr split: option.splits)
    have "stat_oids (r\<lparr>sysStatisticsVariable := t\<rparr>) = [i]" using create_extract [OF r(1)] by simp
    from find_insort [OF this None] find_insort_other [OF this, of j ts] variable_text_Inr [OF r(2)]
    show ?thesis unfolding ts' by simp
  next
    case (Some r)
    with assms obtain t where t: "variable_text vs [] = Inr t" "ts' = stat_put (r\<lparr>sysStatisticsVariable := t\<rparr>) ts"
      by (auto simp: createSysStatRow_def rbind_eq_Inr)
    have o: "stat_oids (r\<lparr>sysStatisticsVariable := t\<rparr>) = [i]" using stat_find_oids [OF Some] by simp
    from stat_find_put [OF o] stat_find_put_other [OF o, of j ts] variable_text_Inr [OF t(1)] Some
    show ?thesis unfolding t(2) by simp
  qed
  then show "\<exists>s. stat_find i ts' = Some s \<and> sysStatisticsVariable s = oid_text vs"
    and "j \<noteq> i \<Longrightarrow> stat_find j ts' = stat_find j ts" by blast+
qed

lemma destroySysStatRow_find: "stat_find j (destroySysStatRow i ts) = (if j = i then None else stat_find j ts)"
proof -
  have "stat_find j (filter (\<lambda>r. stat_oids r \<noteq> [i]) ts) = (if j = i then None else stat_find j ts)"
    by (induction ts) (auto simp: stat_find_def)
  then show ?thesis by (cases "j = i"; cases "stat_find i ts") (simp_all add: destroySysStatRow_def)
qed

text \<open>A row in service has a row of statistics that names its variable; one that is to be destroyed has none.\<close>

definition kept_statistics :: "trapTable_context \<Rightarrow> stat_table \<Rightarrow> bool" where
  "kept_statistics row ts \<longleftrightarrow>
    (wants_statistics row \<longrightarrow> (\<exists>s. stat_find (trapIndex row) ts = Some s
       \<and> sysStatisticsVariable s = oid_text (oids_of (trapVariable row))))
    \<and> (trapStatus row = 6 \<longrightarrow> stat_find (trapIndex row) ts = None)"

lemma trap_action_col_keeps:
  assumes "trap_action_col mem var col (row, ts) = Inr (row', ts')" "col \<noteq> 1" "kept_statistics row ts"
  shows "kept_statistics row' ts' \<and> trapIndex row' = trapIndex row
    \<and> (\<forall>j. j \<noteq> trapIndex row \<longrightarrow> stat_find j ts' = stat_find j ts)"
proof (cases "col = 4 \<or> col = 12")
  case False
  with assms show ?thesis
    by (auto simp: trap_action_col_def rbind_eq_Inr kept_statistics_def wants_statistics_def split: if_splits)
next
  case True
  with assms show ?thesis
    by (auto simp: trap_action_col_def rbind_eq_Inr kept_statistics_def note_statistics_def Let_def destroySysStatRow_find
        wants_statistics_def dest: createSysStatRow_Inr split: if_splits)
qed

lemma trap_action_loop_keeps:
  "trap_action_loop mem rs (row, ts) = Inr (row', ts') \<Longrightarrow> \<forall>r\<in>set rs. colnum r \<noteq> 1 \<Longrightarrow> kept_statistics row ts \<Longrightarrow>
   kept_statistics row' ts' \<and> trapIndex row' = trapIndex row
    \<and> (\<forall>j. j \<noteq> trapIndex row \<longrightarrow> stat_find j ts' = stat_find j ts)"
proof (induction rs arbitrary: row ts)
  case (Cons r rs)
  from Cons.prems(1) obtain row1 ts1 where c: "trap_action_col mem (requestvb r) (colnum r) (row, ts) = Inr (row1, ts1)"
    and l: "trap_action_loop mem rs (row1, ts1) = Inr (row', ts')" by (auto simp: rbind_eq_Inr)
  from trap_action_col_keeps [OF c] Cons.IH [OF l] Cons.prems(2,3) show ?case by simp
qed simp

text \<open>ACTION keeps rows and statistics together: after any requests for a row that leave its index alone, in
  whatever order they set the status and the variable, the row has a row of statistics naming its
  present variable when it is active, and none when it is destroyed; the statistics of other rows stay as
  they are.\<close>

theorem action_keeps_statistics:
  assumes "existing_row rg = Some row" and "kept_statistics row ts" and "\<forall>r\<in>set (rg_list rg). colnum r \<noteq> 1"
    and "trapTable_set_action mem ts rg = Inr (ts', rg')"
  shows "\<exists>row'. existing_row rg' = Some row' \<and> trapIndex row' = trapIndex row \<and> kept_statistics row' ts'
    \<and> (\<forall>j. j \<noteq> trapIndex row \<longrightarrow> stat_find j ts' = stat_find j ts)"
proof -
  from assms(4) obtain row1 where r: "trap_action_loop mem (rg_list rg) (row, ts) = Inr (row1, ts')"
    and rg': "existing_row rg' = Some (row1\<lparr>trapStatus := (if wants_statistics row1 then 1 else if trapStatus row1 = 6 then 6 else 2)\<rparr>)"
    by (auto simp: trap_set_action_eq [OF assms(1)] rbind_eq_Inr)
  from trap_action_loop_keeps [OF r assms(3,2)] show ?thesis unfolding rg'
    by (auto simp: kept_statistics_def wants_statistics_def)
qed

text \<open>A new row is made with createAndGo, which comes first, and gets its variable in the same request.\<close>

definition new_trap :: "trapTable_context request_group" where
  "new_trap = \<lparr>rg_index = [5], rg_list =
     [\<lparr>rindex = 1, colnum = 12, index_oid = [5], requestvb = \<lparr>vtype = 2, val_len = 4, val_bytes = [4, 0, 0, 0], val_integer = 4\<rparr>, rstatus = 0\<rparr>,
      \<lparr>rindex = 2, colnum = 4, index_oid = [5],
        requestvb = \<lparr>vtype = 6, val_len = 8, val_bytes = [1, 0, 0, 0, 3, 0, 0, 0], val_integer = 1\<rparr>, rstatus = 0\<rparr>],
     rg_status = 0, existing_row = trapTable_create_row True [5], undo_info = None, row_created = True, row_deleted = False\<rparr>"

theorem action_keeps_statistics_witness:
  "\<exists>ts rg row s. trapTable_set_action (\<lambda>_. True) [] new_trap = Inr (ts, rg) \<and> existing_row rg = Some row \<and> trapStatus row = 1
    \<and> stat_find 5 ts = Some s \<and> sysStatisticsVariable s = ''.1.3''"
proof -
  have "case trapTable_set_action (\<lambda>_. True) [] new_trap of Inl e \<Rightarrow> False | Inr (ts, rg) \<Rightarrow>
    (case existing_row rg of None \<Rightarrow> False | Some row \<Rightarrow> trapStatus row = 1 \<and> oids_of (trapVariable row) = [1, 3])" by code_simp
  then obtain ts rg row where a: "trapTable_set_action (\<lambda>_. True) [] new_trap = Inr (ts, rg)"
    "existing_row rg = Some row" "trapStatus row = 1" "oids_of (trapVariable row) = [1, 3]"
    by (auto split: sum.splits option.splits)
  let ?row = "zero_trap\<lparr>trap_oids := [5], trapIndex := 5, trapType := 1\<rparr>"
  have g: "existing_row new_trap = Some ?row" "kept_statistics ?row []" "\<forall>r\<in>set (rg_list new_trap). colnum r \<noteq> 1"
    by (simp_all add: new_trap_def trapTable_create_row_def trapTable_extract_index_def kept_statistics_def wants_statistics_def zero_trap_def)
  from action_keeps_statistics [OF g a(1)] a show ?thesis
    by (auto simp: kept_statistics_def wants_statistics_def zero_trap_def text_eval)
qed

end
