(* ===== verification/RtmMonitor.thy ===== *)
theory RtmMonitor
  imports TrapTable RbmPolicy
begin

text \<open>
  The monitor of the collector (\<^verbatim>\<open>RTM_callback\<close> in \<^verbatim>\<open>src/Group1/RTCM/src/trapTable.c\<close>): at every alarm it
  reads the variable of each row in service, adds the reading to the statistics, compares it with the
  threshold of the row and sends a trap to the rule-based monitor when the comparison holds. The log of
  \<^verbatim>\<open>RTM_LOG_FILE\<close> is not compiled in.
\<close>

section \<open>What comes from outside\<close>

text \<open>
  \<open>subtree_find\<close> is the registration a name belongs to, \<open>old_api\<close> how its variable is read when its
  handler is the old interface; \<open>rtm_parse s n\<close> is \<^verbatim>\<open>snmp_parse_oid\<close> on the text \<open>s\<close> with room for \<open>n\<close>
  numbers, as \<open>read_objid\<close> in \<open>rbm_env\<close>.
\<close>

record subtree =
  chain_ok :: bool
  handler_name :: string
  myvoid :: "(long list \<Rightarrow> long option) option"

record rtm_env =
  subtree_find :: "long list \<Rightarrow> subtree option"
  rtm_parse :: "string \<Rightarrow> nat \<Rightarrow> bool \<times> long list"
  sess_open :: "long \<Rightarrow> long \<Rightarrow> bool"
  sess_send :: "(long list \<times> trap_value) list \<Rightarrow> bool"
  float_unit :: fpu

section \<open>A reading\<close>

definition RTM_Fetch_Var_Val :: "rtm_env \<Rightarrow> long list \<Rightarrow> int + long" where
  "RTM_Fetch_Var_Val env nm =
    (case subtree_find env nm of None \<Rightarrow> Inl 1
     | Some t \<Rightarrow> if \<not> chain_ok t then Inl 1
         else if handler_name t \<noteq> ''old_api'' then Inl 2
         else case myvoid t of None \<Rightarrow> Inl 1
         | Some findVar \<Rightarrow> (case findVar nm of None \<Rightarrow> Inl 1 | Some v \<Rightarrow> Inr v))"

definition Validate_trapVariable :: "string \<Rightarrow> trapTable_context \<Rightarrow> bool" where
  "Validate_trapVariable trapVar pstCtx =
    (let trapVarVal = atol trapVar; e = sint (trapExpression pstCtx); t = sint (trapValue pstCtx) in
     if e = 0 then trapVarVal < t
     else if e = 1 then trapVarVal > t
     else if e = 2 then trapVarVal \<le> t
     else if e = 3 then trapVarVal \<ge> t
     else if e = 4 then trapVarVal \<noteq> t
     else if e = 5 then trapVarVal = t
     else False)"

section \<open>The trap\<close>

definition NURI_ENTERPRISE_OID :: string where
  "NURI_ENTERPRISE_OID = ''.1.3.6.1.4.1.3204''"

definition NURI_TRAP_ENTRY_OID :: string where
  "NURI_TRAP_ENTRY_OID = ''.1.3.6.1.4.1.3204.1.3.35.4.1''"

definition objid_sysuptime :: "long list" where
  "objid_sysuptime = [1, 3, 6, 1, 2, 1, 1, 3, 0]"

definition objid_snmptrap :: "long list" where
  "objid_snmptrap = [1, 3, 6, 1, 6, 3, 1, 1, 4, 1, 0]"

text \<open>The variable, type and value of an argument; the columns are 9, 2 and 11 of the table.\<close>

definition arg_variable :: "string \<Rightarrow> trapTable_context \<Rightarrow> string res" where
  "arg_variable col pstCtx = fits 128 (NURI_TRAP_ENTRY_OID @ col @ ''.'' @ print_int (uint (trapIndex pstCtx)))"

definition chars_of :: "byte list \<Rightarrow> string" where
  "chars_of bs = map (\<lambda>b. char_of (unat b)) bs"

text \<open>The message gets its terminator in the row, one byte behind its text, and is copied with it into 255 bytes.\<close>

definition end_message :: "trapTable_context \<Rightarrow> trapTable_context res" where
  "end_message pstCtx = (let m = trapMessage pstCtx in
     if oLen m < 255 then Inr (pstCtx\<lparr>trapMessage := m\<lparr>oBuf := (oBuf m)[oLen m := 0]\<rparr>\<rparr>) else Inl (OutOfBounds 255))"

definition trap_args :: "int \<Rightarrow> trapTable_context \<Rightarrow> (trapTable_context \<times> (string \<times> char \<times> string) list) res" where
  "trap_args giMyPort pstCtx =
    rbind (arg_variable ''.9'' pstCtx) (\<lambda>v0.
    rbind (fits 255 (print_int giMyPort)) (\<lambda>p.
    rbind (arg_variable ''.2'' pstCtx) (\<lambda>v1.
    rbind (fits 255 (print_int (uint (trapPolicyID pstCtx)))) (\<lambda>i.
    rbind (arg_variable ''.11'' pstCtx) (\<lambda>v2.
    rbind (end_message pstCtx) (\<lambda>pstCtx.
    let m = takeWhile (\<lambda>c. c \<noteq> NUL) (chars_of (take (oLen (trapMessage pstCtx) + 1) (oBuf (trapMessage pstCtx)))) in
    Inr (pstCtx, [(v0, CHR ''i'', p), (v1, CHR ''u'', i), (v2, CHR ''s'', m)])))))))"

text \<open>
  \<^verbatim>\<open>snmp_add_var\<close> of net-snmp for a name no MIB describes: a number must take up its whole text.
\<close>

definition number_rest :: "string \<Rightarrow> string" where
  "number_rest s = (let t = dropWhile isspace s;
     d = (case t of [] \<Rightarrow> [] | c # cs \<Rightarrow> if c = CHR ''-'' \<or> c = CHR ''+'' then cs else c # cs) in
     case d of [] \<Rightarrow> s | c # cs \<Rightarrow> if isdigit c then dropWhile isdigit cs else s)"

definition snmp_add_var :: "char \<Rightarrow> string \<Rightarrow> trap_value option" where
  "snmp_add_var ty val =
    (if ty = CHR ''i'' then (if val = [] \<or> number_rest val \<noteq> [] then None else Some (TInteger (word_of_int (atol val))))
     else if ty = CHR ''u'' then (if val = [] \<or> number_rest val \<noteq> [] then None else Some (TUnsigned (of_nat (strtoul val))))
     else if ty = CHR ''s'' then Some (TOctetStr val)
     else Some TOther)"

text \<open>The room for the numbers of a name is what the name before has left.\<close>

fun add_args :: "rtm_env \<Rightarrow> nat \<Rightarrow> (string \<times> char \<times> string) list \<Rightarrow> (long list \<times> trap_value) list option" where
  "add_args env name_length [] = Some []"
| "add_args env name_length ((v, ty, val) # args) =
    (let (ok, name) = rtm_parse env v name_length in
     if \<not> ok then None
     else case snmp_add_var ty val of None \<Rightarrow> None
       | Some x \<Rightarrow> map_option (Cons (name, x)) (add_args env (length name) args))"

datatype rtm_action = SendTrap long long "(long list \<times> trap_value) list"

definition send_snmptrap :: "rtm_env \<Rightarrow> (string \<times> char \<times> string) list \<Rightarrow> trapTable_context \<Rightarrow> rtm_action list \<times> int" where
  "send_snmptrap env args ctx =
    (if \<not> sess_open env (trapDestinationIP ctx) (trapPort ctx) then ([], 1)
     else if \<not> fst (rtm_parse env NURI_ENTERPRISE_OID 128) then ([], 1)
     else case add_args env 128 args of None \<Rightarrow> ([], 1)
     | Some vars \<Rightarrow> let pdu = (objid_sysuptime, TOther) # (objid_snmptrap, TOther) # vars in
         if sess_send env pdu then ([SendTrap (trapDestinationIP ctx) (trapPort ctx) pdu], 0) else ([], 1))"

section \<open>The alarm\<close>

text \<open>One row; the text of the variable is built before anything is decided.\<close>

definition monitor_row :: "rtm_env \<Rightarrow> int \<Rightarrow> trapTable_context \<Rightarrow> stat_table
    \<Rightarrow> (trapTable_context \<times> stat_table \<times> rtm_action list) res" where
  "monitor_row env giMyPort pstCtx ts =
    (if trapStatus pstCtx \<noteq> 1 then Inr (pstCtx, ts, [])
     else rbind (fits 128 (oid_lu_text (oids_of (trapVariable pstCtx)))) (\<lambda>_.
       if long_at (oBuf (trapVariable pstCtx)) 0 = 0 then Inr (pstCtx, ts, [])
       else case RTM_Fetch_Var_Val env (oids_of (trapVariable pstCtx)) of
         Inl iErr \<Rightarrow> Inr (pstCtx, ts, [])
       | Inr ulVal \<Rightarrow> rbind (updateRow (float_unit env) (trapIndex pstCtx) ulVal ts) (\<lambda>ts.
           let szTmpStr = print_int (sint ulVal) in
           if \<not> Validate_trapVariable szTmpStr pstCtx then Inr (pstCtx, ts, [])
           else rbind (trap_args giMyPort pstCtx) (\<lambda>(pstCtx, aArgs).
             Inr (pstCtx, ts, fst (send_snmptrap env aArgs pstCtx))))))"

fun monitor_rows :: "rtm_env \<Rightarrow> int \<Rightarrow> trapTable_context list \<Rightarrow> stat_table
    \<Rightarrow> (trapTable_context list \<times> stat_table \<times> rtm_action list) res" where
  "monitor_rows env giMyPort [] ts = Inr ([], ts, [])"
| "monitor_rows env giMyPort (r # rs) ts = rbind (monitor_row env giMyPort r ts) (\<lambda>(r, ts, acts).
     rbind (monitor_rows env giMyPort rs ts) (\<lambda>(rs, ts, acts'). Inr (r # rs, ts, acts @ acts')))"

record rtm_state =
  rt_rows :: "trapTable_context list"
  rt_stats :: stat_table
  rtm_regid :: "int option"      \<comment> \<open>the interval of the alarm that is registered\<close>

definition RTM_callback :: "rtm_env \<Rightarrow> int \<Rightarrow> int \<Rightarrow> rtm_state \<Rightarrow> (rtm_state \<times> rtm_action list) res" where
  "RTM_callback env giMyPort interval s = (let s = s\<lparr>rtm_regid := None\<rparr> in
     rbind (monitor_rows env giMyPort (rt_rows s) (rt_stats s)) (\<lambda>(rs, ts, acts).
       Inr (s\<lparr>rt_rows := rs, rt_stats := ts, rtm_regid := Some interval\<rparr>, acts)))"

section \<open>What an alarm does\<close>

text \<open>The reading of a row, the comparison with the threshold, and the trap, without the texts between them.\<close>

definition reading :: "rtm_env \<Rightarrow> trapTable_context \<Rightarrow> long option" where
  "reading env row = (if trapStatus row = 1 \<and> long_at (oBuf (trapVariable row)) 0 \<noteq> 0
     then (case RTM_Fetch_Var_Val env (oids_of (trapVariable row)) of Inl _ \<Rightarrow> None | Inr v \<Rightarrow> Some v) else None)"

definition exceeds :: "long \<Rightarrow> trapTable_context \<Rightarrow> bool" where
  "exceeds v row = (let k = sint (trapExpression row) in 0 \<le> k \<and> k < 6 \<and>
     ([(<), (>), (\<le>), (\<ge>), (\<noteq>), (=)] ! nat k) (sint v) (sint (trapValue row)))"

definition trap_entry :: "long list" where
  "trap_entry = [1, 3, 6, 1, 4, 1, 3204, 1, 3, 35, 4, 1]"

definition trap_text :: "trapTable_context \<Rightarrow> string" where
  "trap_text row = takeWhile (\<lambda>c. c \<noteq> NUL) (chars_of (take (oLen (trapMessage row)) (oBuf (trapMessage row))))"

definition trap_vars :: "int \<Rightarrow> trapTable_context \<Rightarrow> (long list \<times> trap_value) list" where
  "trap_vars port row = [(objid_sysuptime, TOther), (objid_snmptrap, TOther),
     (trap_entry @ [9, trapIndex row], TInteger (word_of_int port)),
     (trap_entry @ [2, trapIndex row], TUnsigned (trapPolicyID row)),
     (trap_entry @ [11, trapIndex row], TOctetStr (trap_text row))]"

definition traps_of :: "rtm_env \<Rightarrow> int \<Rightarrow> trapTable_context \<Rightarrow> rtm_action list" where
  "traps_of env port row = (case reading env row of None \<Rightarrow> [] | Some v \<Rightarrow>
     if exceeds v row \<and> sess_open env (trapDestinationIP row) (trapPort row) \<and> sess_send env (trap_vars port row)
     then [SendTrap (trapDestinationIP row) (trapPort row) (trap_vars port row)] else [])"

definition ended :: "rtm_env \<Rightarrow> trapTable_context \<Rightarrow> trapTable_context" where
  "ended env row = (case reading env row of None \<Rightarrow> row | Some v \<Rightarrow> if exceeds v row
     then row\<lparr>trapMessage := (trapMessage row)\<lparr>oBuf := (oBuf (trapMessage row))[oLen (trapMessage row) := 0]\<rparr>\<rparr> else row)"

fun count_readings :: "rtm_env \<Rightarrow> trapTable_context list \<Rightarrow> stat_table \<Rightarrow> stat_table res" where
  "count_readings env [] ts = Inr ts"
| "count_readings env (r # rs) ts = rbind (case reading env r of None \<Rightarrow> Inr ts
     | Some v \<Rightarrow> updateRow (float_unit env) (trapIndex r) v ts) (count_readings env rs)"

text \<open>Rows the monitor handles within its arrays.\<close>

definition monitorable :: "trapTable_context \<Rightarrow> bool" where
  "monitorable row \<longleftrightarrow> trap_row_ok row \<and> 0 \<le> sint (trapIndex row) \<and> oLen (trapMessage row) < 255
   \<and> length (oid_lu_text (oids_of (trapVariable row))) < 128"

lemma uint_nonneg: "0 \<le> sint (x :: long) \<Longrightarrow> uint x = sint x"
  using uint_lt2p [of x] by (cases "bit (uint x) 31") (simp_all add: sint_cases)

lemma Validate_exceeds: "Validate_trapVariable (print_int (sint v)) row = exceeds v row"
proof -
  have "atol (print_int (sint (v :: long))) = sint v"
    using sint_lt [of v] sint_ge [of v] by (intro atol_print_int) simp_all
  moreover have "0 \<le> k \<and> k < 6 \<longleftrightarrow> k \<in> {0, 1, 2, 3, 4, 5}" for k :: int by auto
  ultimately show ?thesis by (auto simp: Validate_trapVariable_def exceeds_def Let_def)
qed

lemma number_rest_print: "number_rest (print_int i) = []"
proof -
  have d: "number_rest (digits n) = [] \<and> (\<exists>c cs. digits n = c # cs \<and> isdigit c \<and> dropWhile isdigit cs = [])" for n
  proof -
    obtain c cs where c: "digits n = c # cs" by (cases "digits n") auto
    then have "isdigit c" "\<forall>x\<in>set cs. isdigit x" using digits_are_digits [of _ n] by auto
    with c isdigit_neq [of c] show ?thesis by (simp add: number_rest_def)
  qed
  show ?thesis
  proof (cases "i < 0")
    case True
    from d [of "nat (- i)"] obtain c cs where "digits (nat (- i)) = c # cs" "isdigit c" "dropWhile isdigit cs = []" by blast
    with True show ?thesis by (simp add: print_int_def number_rest_def isspace_def)
  qed (simp add: print_int_def d)
qed

lemma print_int_nonempty [simp]: "print_int i \<noteq> []"
  by (simp add: print_int_def)

lemma add_var_integer: "- (2 ^ 31) \<le> i \<Longrightarrow> i < 2 ^ 31 \<Longrightarrow> snmp_add_var CHR ''i'' (print_int i) = Some (TInteger (word_of_int i))"
  by (simp add: snmp_add_var_def number_rest_print atol_print_int)

lemma add_var_unsigned: "snmp_add_var CHR ''u'' (print_int (uint w)) = Some (TUnsigned w)"
proof -
  have "unat w \<le> 2 ^ 32 - 1" using unsigned_less [of w, where ?'a = nat] by simp
  then have "strtoul (print_int (uint w)) = unat w" by (simp add: strtoul_def strtol_print_int)
  then show ?thesis by (simp add: snmp_add_var_def number_rest_print)
qed

text \<open>The names of the arguments.\<close>

lemma arg_variable_text:
  assumes "0 \<le> sint (trapIndex row)" and "col = ''.'' @ print_int (sint c)" "length col \<le> 3"
  shows "arg_variable col row = Inr (oid_text (trap_entry @ [c, trapIndex row]))"
proof -
  have "oid_text trap_entry = NURI_TRAP_ENTRY_OID"
    by (simp add: trap_entry_def NURI_TRAP_ENTRY_OID_def text_eval)
  moreover have "length (print_int (uint (trapIndex row))) \<le> 11" by (rule print_long_fits)
  moreover have "length NURI_TRAP_ENTRY_OID = 28" by (simp add: NURI_TRAP_ENTRY_OID_def)
  ultimately show ?thesis using assms
    by (simp add: arg_variable_def oid_text_append oid_text_def [of "[_, _]"] uint_nonneg)
qed

lemma column_texts:
  "''.9'' = ''.'' @ print_int (sint (9 :: long))" "''.2'' = ''.'' @ print_int (sint (2 :: long))"
  "''.11'' = ''.'' @ print_int (sint (11 :: long))"
  by (simp_all add: print_int_def digits.simps digit_chars)

lemma arg_variables:
  assumes "0 \<le> sint (trapIndex row)"
  shows "arg_variable ''.9'' row = Inr (oid_text (trap_entry @ [9, trapIndex row]))"
    and "arg_variable ''.2'' row = Inr (oid_text (trap_entry @ [2, trapIndex row]))"
    and "arg_variable ''.11'' row = Inr (oid_text (trap_entry @ [11, trapIndex row]))"
  by (rule arg_variable_text [OF assms column_texts(1)] arg_variable_text [OF assms column_texts(2)]
      arg_variable_text [OF assms column_texts(3)]; simp)+

lemma chars_of_0: "takeWhile (\<lambda>c. c \<noteq> NUL) (chars_of (bs @ [0])) = takeWhile (\<lambda>c. c \<noteq> NUL) (chars_of bs)"
proof -
  have "char_of (0 :: nat) = NUL" by (simp add: char_of_def)
  then show ?thesis by (induction bs) (simp_all add: chars_of_def)
qed

lemma take_update_0: "n < length xs \<Longrightarrow> take (n + 1) (xs[n := x]) = take n xs @ [x]"
  by (simp add: take_Suc_conv_app_nth)

lemma trap_args_text:
  assumes "monitorable row" and "- (2 ^ 31) \<le> port" "port < 2 ^ 31"
  shows "trap_args port row = Inr (row\<lparr>trapMessage := (trapMessage row)\<lparr>oBuf := (oBuf (trapMessage row))[oLen (trapMessage row) := 0]\<rparr>\<rparr>,
    [(oid_text (trap_entry @ [9, trapIndex row]), CHR ''i'', print_int port),
     (oid_text (trap_entry @ [2, trapIndex row]), CHR ''u'', print_int (uint (trapPolicyID row))),
     (oid_text (trap_entry @ [11, trapIndex row]), CHR ''s'', trap_text row)])"
proof -
  from assms(1) have m: "oLen (trapMessage row) < 255" "length (oBuf (trapMessage row)) = 255" and i: "0 \<le> sint (trapIndex row)"
    by (simp_all add: monitorable_def trap_row_ok_def octets_ok_def)
  have "length (print_int port) \<le> 11" using length_print_int [of port] assms(2,3) by simp
  moreover have "length (print_int (uint (trapPolicyID row))) \<le> 11" by (rule print_long_fits)
  ultimately have f: "fits 255 (print_int port) = Inr (print_int port)"
    "fits 255 (print_int (uint (trapPolicyID row))) = Inr (print_int (uint (trapPolicyID row)))" by (simp_all add: fits_def)
  have "takeWhile (\<lambda>c. c \<noteq> NUL) (chars_of (take (oLen (trapMessage row) + 1) ((oBuf (trapMessage row))[oLen (trapMessage row) := 0])))
    = trap_text row"
    using m by (subst take_update_0) (simp_all add: trap_text_def chars_of_0)
  then show ?thesis
    by (simp add: trap_args_def arg_variables [OF i] f end_message_def m(1) Let_def del: Suc_eq_plus1 add_Suc_right)
qed

lemma parse_entry:
  assumes "parses_oids (rtm_parse env)" "0 \<le> sint i" "0 \<le> sint c" "14 \<le> n"
  shows "rtm_parse env (oid_text (trap_entry @ [c, i])) n = (True, trap_entry @ [c, i])"
proof -
  have "nonneg_oid (trap_entry @ [c, i])" using assms(2,3) by (simp add: nonneg_oid_def trap_entry_def)
  moreover have "length (trap_entry @ [c, i]) = 14" by (simp add: trap_entry_def)
  ultimately show ?thesis using assms(1,4) unfolding parses_oids_def by simp
qed

lemma parse_enterprise: "parses_oids (rtm_parse env) \<Longrightarrow> fst (rtm_parse env NURI_ENTERPRISE_OID 128)"
proof -
  assume p: "parses_oids (rtm_parse env)"
  have e: "NURI_ENTERPRISE_OID = oid_text [1, 3, 6, 1, 4, 1, 3204]"
    by (simp add: NURI_ENTERPRISE_OID_def text_eval)
  have "nonneg_oid [1, 3, 6, 1, 4, 1, 3204]" by (simp add: nonneg_oid_def)
  from p [unfolded parses_oids_def, rule_format, OF this] show ?thesis unfolding e by simp
qed

lemma send_snmptrap_vars:
  assumes "parses_oids (rtm_parse env)" "0 \<le> sint (trapIndex row)" "- (2 ^ 31) \<le> port" "port < 2 ^ 31"
  shows "fst (send_snmptrap env
    [(oid_text (trap_entry @ [9, trapIndex row]), CHR ''i'', print_int port),
     (oid_text (trap_entry @ [2, trapIndex row]), CHR ''u'', print_int (uint (trapPolicyID row))),
     (oid_text (trap_entry @ [11, trapIndex row]), CHR ''s'', trap_text row)] row')
    = (if sess_open env (trapDestinationIP row') (trapPort row') \<and> sess_send env (trap_vars port row)
       then [SendTrap (trapDestinationIP row') (trapPort row') (trap_vars port row)] else [])"
proof -
  note pe = parse_entry [OF assms(1,2)]
  have l: "length (trap_entry @ [c, i]) = 14" for c i by (simp add: trap_entry_def)
  have "add_args env 128
    [(oid_text (trap_entry @ [9, trapIndex row]), CHR ''i'', print_int port),
     (oid_text (trap_entry @ [2, trapIndex row]), CHR ''u'', print_int (uint (trapPolicyID row))),
     (oid_text (trap_entry @ [11, trapIndex row]), CHR ''s'', trap_text row)] = Some (drop 2 (trap_vars port row))"
    unfolding add_args.simps Let_def
    by (simp add: pe l add_var_integer [OF assms(3,4)] add_var_unsigned trap_vars_def del: length_append)
       (simp add: snmp_add_var_def)
  then show ?thesis using parse_enterprise [OF assms(1)]
    by (simp add: send_snmptrap_def Let_def trap_vars_def del: add_args.simps)
qed

lemma monitor_row_does:
  assumes "parses_oids (rtm_parse env)" "monitorable row" "- (2 ^ 31) \<le> port" "port < 2 ^ 31"
  shows "monitor_row env port row ts = rbind (count_readings env [row] ts) (\<lambda>ts. Inr (ended env row, ts, traps_of env port row))"
proof (cases "reading env row")
  case None
  then show ?thesis using assms(2)
    by (auto simp: monitor_row_def reading_def monitorable_def ended_def traps_of_def fits_def split: if_splits sum.splits)
next
  case (Some v)
  then have r: "trapStatus row = 1" "long_at (oBuf (trapVariable row)) 0 \<noteq> 0"
    "RTM_Fetch_Var_Val env (oids_of (trapVariable row)) = Inr v"
    by (auto simp: reading_def split: if_splits sum.splits)
  have f: "fits 128 (oid_lu_text (oids_of (trapVariable row))) = Inr (oid_lu_text (oids_of (trapVariable row)))"
    and i: "0 \<le> sint (trapIndex row)" using assms(2) by (simp_all add: monitorable_def fits_def)
  let ?row = "row\<lparr>trapMessage := (trapMessage row)\<lparr>oBuf := (oBuf (trapMessage row))[oLen (trapMessage row) := 0]\<rparr>\<rparr>"
  show ?thesis
  proof (cases "updateRow (float_unit env) (trapIndex row) v ts")
    case (Inr ts1)
    show ?thesis
      unfolding monitor_row_def r(3) f rbind_simps Inr sum.case Let_def Validate_exceeds trap_args_text [OF assms(2-4)]
      using r(1,2) Some Inr send_snmptrap_vars [OF assms(1) i assms(3,4), of ?row]
      by (simp add: ended_def traps_of_def)
  qed (simp add: monitor_row_def r f Some)
qed

lemma monitor_rows_does:
  assumes "parses_oids (rtm_parse env)" "- (2 ^ 31) \<le> port" "port < 2 ^ 31"
  shows "\<forall>row\<in>set rs. monitorable row \<Longrightarrow> monitor_rows env port rs ts = rbind (count_readings env rs ts) (\<lambda>ts.
    Inr (map (ended env) rs, ts, concat (map (traps_of env port) rs)))"
proof (induction rs arbitrary: ts)
  case (Cons row rs)
  have m: "monitor_row env port row ts = rbind (count_readings env [row] ts) (\<lambda>ts. Inr (ended env row, ts, traps_of env port row))" for ts
    using Cons.prems by (intro monitor_row_does assms) simp
  have c: "count_readings env (row # rs) ts = rbind (count_readings env [row] ts) (count_readings env rs)" for ts
    by (cases "case reading env row of None \<Rightarrow> Inr ts | Some v \<Rightarrow> updateRow (float_unit env) (trapIndex row) v ts") simp_all
  show ?case
  proof (cases "count_readings env [row] ts")
    case (Inr ts1)
    have "monitor_rows env port rs ts1 = rbind (count_readings env rs ts1) (\<lambda>ts.
      Inr (map (ended env) rs, ts, concat (map (traps_of env port) rs)))" using Cons by simp
    with Inr show ?thesis unfolding monitor_rows.simps m c
      by (cases "count_readings env rs ts1") (simp_all del: count_readings.simps)
  qed (unfold monitor_rows.simps m c, simp del: count_readings.simps)
qed simp

section \<open>Alarm after alarm\<close>

fun RTM_alarms :: "int \<Rightarrow> int \<Rightarrow> rtm_env list \<Rightarrow> rtm_state \<Rightarrow> (rtm_state \<times> rtm_action list) res" where
  "RTM_alarms port interval [] s = Inr (s, [])"
| "RTM_alarms port interval (e # es) s = rbind (RTM_callback e port interval s) (\<lambda>(s, acts).
     rbind (RTM_alarms port interval es s) (\<lambda>(s, acts'). Inr (s, acts @ acts')))"

lemma RTM_callback_does:
  assumes "parses_oids (rtm_parse env)" "- (2 ^ 31) \<le> port" "port < 2 ^ 31" "\<forall>row\<in>set (rt_rows s). monitorable row"
  shows "RTM_callback env port interval s = rbind (count_readings env (rt_rows s) (rt_stats s)) (\<lambda>ts.
    Inr (\<lparr>rt_rows = map (ended env) (rt_rows s), rt_stats = ts, rtm_regid = Some interval\<rparr>,
      concat (map (traps_of env port) (rt_rows s))))"
proof -
  have m: "monitor_rows env port (rt_rows s) ts = rbind (count_readings env (rt_rows s) ts) (\<lambda>ts.
    Inr (map (ended env) (rt_rows s), ts, concat (map (traps_of env port) (rt_rows s))))" for ts
    by (rule monitor_rows_does [OF assms])
  show ?thesis
    by (cases "count_readings env (rt_rows s) (rt_stats s)") (simp_all add: RTM_callback_def m)
qed

lemma alarm_rows:
  assumes "parses_oids (rtm_parse env)" "- (2 ^ 31) \<le> port" "port < 2 ^ 31" "\<forall>row\<in>set (rt_rows s). monitorable row"
  shows "RTM_callback env port interval s = Inr (s', acts) \<Longrightarrow> a \<in> set acts \<Longrightarrow> \<exists>row\<in>set (rt_rows s). a \<in> set (traps_of env port row)"
  using RTM_callback_does [OF assms, of interval] by (auto simp: rbind_eq_Inr)

lemma updated_oids: "stat_find i ts = Some sr \<Longrightarrow> update_stat fp v sr = Inr sr' \<Longrightarrow> stat_oids sr' = [i]"
  using stat_find_oids update_stat_oids by simp

lemma updateRow_other: "updateRow fp j v ts = Inr ts' \<Longrightarrow> i \<noteq> j \<Longrightarrow> stat_find i ts' = stat_find i ts"
  by (auto simp: updateRow_def rbind_eq_Inr split: option.splits intro!: stat_find_put_other elim: updated_oids)

lemma count_readings_other: "count_readings env rs ts = Inr ts' \<Longrightarrow> i \<notin> trapIndex ` set rs \<Longrightarrow> stat_find i ts' = stat_find i ts"
  by (induction rs arbitrary: ts) (auto simp: rbind_eq_Inr split: option.splits dest: updateRow_other)

lemma updateRow_own: "updateRow fp i v ts = Inr ts' \<Longrightarrow> stat_find i ts = Some sr \<Longrightarrow>
  \<exists>sr'. update_stat fp v sr = Inr sr' \<and> stat_find i ts' = Some sr'"
  by (auto simp: updateRow_def rbind_eq_Inr intro!: stat_find_put elim: updated_oids)

lemma count_readings_own:
  "count_readings env rs ts = Inr ts' \<Longrightarrow> row \<in> set rs \<Longrightarrow> distinct (map trapIndex rs) \<Longrightarrow> reading env row = Some v \<Longrightarrow>
   stat_find (trapIndex row) ts = Some sr \<Longrightarrow>
   \<exists>sr'. update_stat (float_unit env) v sr = Inr sr' \<and> stat_find (trapIndex row) ts' = Some sr'"
proof (induction rs arbitrary: ts)
  case (Cons r rs)
  from Cons.prems(1) obtain ts1 where u: "(case reading env r of None \<Rightarrow> Inr ts | Some v \<Rightarrow> updateRow (float_unit env) (trapIndex r) v ts) = Inr ts1"
    and c: "count_readings env rs ts1 = Inr ts'" by (auto simp: rbind_eq_Inr)
  show ?case
  proof (cases "r = row")
    case True
    with u Cons.prems(4) have "updateRow (float_unit env) (trapIndex row) v ts = Inr ts1" by simp
    from updateRow_own [OF this Cons.prems(5)] count_readings_other [OF c, of "trapIndex row"] Cons.prems(3) True
    show ?thesis by auto
  next
    case False
    with Cons.prems(2) have "row \<in> set rs" by simp
    then have "trapIndex row \<in> trapIndex ` set rs" by (rule imageI)
    with Cons.prems(3) have "trapIndex row \<noteq> trapIndex r" by auto
    with u Cons.prems(5) have "stat_find (trapIndex row) ts1 = Some sr"
      by (auto split: option.splits dest: updateRow_other)
    with Cons.IH [OF c \<open>row \<in> set rs\<close>] Cons.prems(3,4) show ?thesis by simp
  qed
qed simp

lemma ended_keeps [simp]:
  "trapIndex (ended e row) = trapIndex row" "reading e' (ended e row) = reading e' row"
  "monitorable (ended e row) = monitorable row"
proof -
  have "ended e row = row \<or> ended e row =
      row\<lparr>trapMessage := (trapMessage row)\<lparr>oBuf := (oBuf (trapMessage row))[oLen (trapMessage row) := 0]\<rparr>\<rparr>"
    by (simp add: ended_def split: option.split)
  then show "trapIndex (ended e row) = trapIndex row" "reading e' (ended e row) = reading e' row"
    "monitorable (ended e row) = monitorable row"
    by (auto simp: reading_def monitorable_def trap_row_ok_def octets_ok_def)
qed

text \<open>The readings of a row go to its statistics, whatever the other rows do.\<close>

lemma RTM_alarms_feed:
  assumes "- (2 ^ 31) \<le> port" "port < 2 ^ 31"
  shows "RTM_alarms port interval es s = Inr (s', acts) \<Longrightarrow> distinct (map trapIndex (rt_rows s)) \<Longrightarrow>
   \<forall>r\<in>set (rt_rows s). monitorable r \<Longrightarrow> row \<in> set (rt_rows s) \<Longrightarrow>
   \<forall>e\<in>set es. parses_oids (rtm_parse e) \<and> float_unit e = fp \<Longrightarrow> map (\<lambda>e. reading e row) es = map Some vs \<Longrightarrow>
   stat_find (trapIndex row) (rt_stats s) = Some sr \<Longrightarrow> feed fp vs sr = Inr sr' \<Longrightarrow>
   stat_find (trapIndex row) (rt_stats s') = Some sr'"
proof (induction es arbitrary: s acts vs sr row)
  case (Cons e es)
  from Cons.prems(6) obtain v ws where vs: "vs = v # ws" "reading e row = Some v" "map (\<lambda>e. reading e row) es = map Some ws"
    by (cases vs) auto
  from Cons.prems(1) obtain s1 a1 a2 where c: "RTM_callback e port interval s = Inr (s1, a1)"
    and l: "RTM_alarms port interval es s1 = Inr (s', a2)" by (auto simp: rbind_eq_Inr)
  from c RTM_callback_does [OF _ assms Cons.prems(3), of e interval] Cons.prems(5) obtain ts1
    where ts1: "count_readings e (rt_rows s) (rt_stats s) = Inr ts1"
    and s1: "s1 = \<lparr>rt_rows = map (ended e) (rt_rows s), rt_stats = ts1, rtm_regid = Some interval\<rparr>"
    by (auto simp: rbind_eq_Inr)
  from count_readings_own [OF ts1 Cons.prems(4,2) vs(2) Cons.prems(7)] Cons.prems(5,8) vs(1)
  obtain sr1 where sr1: "stat_find (trapIndex row) ts1 = Some sr1" "feed fp ws sr1 = Inr sr'" by (auto simp: rbind_eq_Inr)
  have "stat_find (trapIndex (ended e row)) (rt_stats s') = Some sr'"
    using Cons.IH [OF l, of "ended e row" ws sr1] Cons.prems(2-5) vs(3) sr1
    by (simp add: s1 comp_def)
  then show ?case by simp
qed simp

text \<open>A table of one row always returns.\<close>

lemma one_row_alarms:
  assumes "- (2 ^ 31) \<le> port" "port < 2 ^ 31"
  shows "rt_rows s = [row] \<Longrightarrow> monitorable row \<Longrightarrow> \<forall>e\<in>set es. parses_oids (rtm_parse e) \<and> float_unit e = fp \<Longrightarrow>
   map (\<lambda>e. reading e row) es = map Some vs \<Longrightarrow> stat_find (trapIndex row) (rt_stats s) = Some sr \<Longrightarrow>
   feed fp vs sr = Inr sr' \<Longrightarrow> \<exists>s' acts. RTM_alarms port interval es s = Inr (s', acts)"
proof (induction es arbitrary: s vs sr row)
  case (Cons e es)
  from Cons.prems(4) obtain v ws where vs: "vs = v # ws" "reading e row = Some v" "map (\<lambda>e. reading e row) es = map Some ws"
    by (cases vs) auto
  from Cons.prems(6) vs(1) obtain sr1 where sr1: "update_stat fp v sr = Inr sr1" "feed fp ws sr1 = Inr sr'"
    by (auto simp: rbind_eq_Inr)
  let ?ts = "stat_put sr1 (rt_stats s)"
  have "count_readings e (rt_rows s) (rt_stats s) = Inr ?ts"
    using Cons.prems(1,3,5) vs(2) sr1(1) by (simp add: updateRow_def)
  with RTM_callback_does [OF _ assms, of e s interval] Cons.prems(1-3)
  have c: "RTM_callback e port interval s = Inr (\<lparr>rt_rows = [ended e row], rt_stats = ?ts, rtm_regid = Some interval\<rparr>, traps_of e port row)"
    by simp
  have "stat_find (trapIndex row) ?ts = Some sr1"
    using updated_oids [OF Cons.prems(5) sr1(1)] Cons.prems(5) by (intro stat_find_put) simp_all
  with Cons.IH [of "\<lparr>rt_rows = [ended e row], rt_stats = ?ts, rtm_regid = Some interval\<rparr>" "ended e row" ws sr1]
    Cons.prems(2,3) vs(3) sr1(2) c
  show ?case by auto
qed simp

section \<open>Properties\<close>

text \<open>C38: An alarm reads the variable of every active row whose variable is set, adds each reading to the
  statistics, and sends for each row whose reading stands in the row's relation to its threshold (both
  taken as signed 32-bit numbers) exactly one trap to the row's destination, with the port of the agent,
  the policy and the message of the row, when the session can be opened and the message sent; then the
  next alarm is set. It faults exactly when adding a reading to the statistics does. The rows have
  indices below 2^31, messages of less than 255 bytes and variables whose text has less than 128
  characters, and \<^verbatim>\<open>snmp_parse_oid\<close> reads a printed OID back: then the texts the code goes through (numbers
  and names printed and parsed again) lose nothing. Outside these limits arrays overflow: \<open>end_message\<close>
  and \<open>monitor_row\<close> fault.\<close>

theorem alarm_sends_traps:
  assumes "parses_oids (rtm_parse env)" and "- (2 ^ 31) \<le> port" "port < 2 ^ 31"
    and "\<forall>row\<in>set (rt_rows s). monitorable row"
  shows "RTM_callback env port interval s = rbind (count_readings env (rt_rows s) (rt_stats s)) (\<lambda>ts.
    Inr (\<lparr>rt_rows = map (ended env) (rt_rows s), rt_stats = ts, rtm_regid = Some interval\<rparr>,
      concat (map (traps_of env port) (rt_rows s))))"
  by (rule RTM_callback_does [OF assms])

definition exact_unit :: fpu where
  "exact_unit = \<lparr>flt = \<lambda>x. x, dbl = \<lambda>x. x\<rparr>"

text \<open>The variable \<^verbatim>\<open>.1.3.6\<close> has the value \<open>v\<close>; row 5 asks for a trap when it is more than 10.\<close>

definition sample_rtm :: "long \<Rightarrow> rtm_env" where
  "sample_rtm v = \<lparr>subtree_find = \<lambda>_. Some \<lparr>chain_ok = True, handler_name = ''old_api'', myvoid = Some (\<lambda>_. Some v)\<rparr>,
     rtm_parse = parse_oid, sess_open = \<lambda>_ _. True, sess_send = \<lambda>_. True, float_unit = exact_unit\<rparr>"

definition sample_trap :: trapTable_context where
  "sample_trap = zero_trap\<lparr>trap_oids := [5], trapIndex := 5, trapPolicyID := 7,
     trapVariable := \<lparr>oBuf = [1, 0, 0, 0, 3, 0, 0, 0, 6, 0, 0, 0] @ replicate 500 0, oLen = 12\<rparr>,
     trapExpression := 1, trapValue := 10, trapDestinationIP := 16777343, trapPort := 162,
     trapMessage := \<lparr>oBuf = 104 # 105 # replicate 253 0, oLen = 2\<rparr>, trapStatus := 1\<rparr>"

lemma sample_oids: "oids_of (trapVariable sample_trap) = [1, 3, 6]" "long_at (oBuf (trapVariable sample_trap)) 0 = 1"
  by code_simp+

lemma sample_monitorable: "monitorable sample_trap"
proof -
  have "trap_row_ok sample_trap" "0 \<le> sint (trapIndex sample_trap)" "oLen (trapMessage sample_trap) < 255"
    by (simp_all add: sample_trap_def trap_row_ok_def octets_ok_def zero_trap_def empty_octets_def)
  then show ?thesis by (simp add: monitorable_def sample_oids oid_lu_text_def text_eval)
qed

lemma sample_reading: "reading (sample_rtm v) sample_trap = Some v"
  by (simp add: reading_def sample_oids RTM_Fetch_Var_Val_def sample_rtm_def) (simp add: sample_trap_def)

lemma sample_env_ok: "parses_oids (rtm_parse (sample_rtm v))" "float_unit (sample_rtm v) = exact_unit"
  by (simp_all add: sample_rtm_def parse_oid_ok)

definition sample_rtm_state :: rtm_state where
  "sample_rtm_state = \<lparr>rt_rows = [sample_trap], rt_stats = [zero_stat\<lparr>stat_oids := [5], sysStatisticsPeriod := 3\<rparr>], rtm_regid = None\<rparr>"

lemma sample_exceeds: "exceeds 11 sample_trap" "\<not> exceeds (- 1) sample_trap"
  by (simp_all add: exceeds_def sample_trap_def)

lemma sample_sends: "exceeds v sample_trap \<Longrightarrow> traps_of (sample_rtm v) 163 sample_trap = [SendTrap 16777343 162 (trap_vars 163 sample_trap)]"
  by (simp add: traps_of_def sample_reading) (simp add: sample_rtm_def sample_trap_def)

lemma sample_state_rows: "rt_rows sample_rtm_state = [sample_trap]" "\<forall>row\<in>set (rt_rows sample_rtm_state). monitorable row"
  by (simp_all add: sample_rtm_state_def sample_monitorable)

lemma sample_count: "\<exists>ts. count_readings (sample_rtm v) [sample_trap] (rt_stats sample_rtm_state) = Inr ts"
proof -
  have "updateRow exact_unit 5 v (rt_stats sample_rtm_state)
    = Inr [add_sample exact_unit v (zero_stat\<lparr>stat_oids := [5], sysStatisticsPeriod := 3\<rparr>)]"
    by (simp add: updateRow_def sample_rtm_state_def stat_find_def update_stat_def add_sample_def Let_def stat_put_def zero_stat_def)
  then show ?thesis by (simp add: sample_reading sample_env_ok) (simp add: sample_trap_def)
qed

theorem alarm_sends_traps_witness:
  "(\<exists>s. RTM_callback (sample_rtm 11) 163 1 sample_rtm_state = Inr (s, [SendTrap 16777343 162 (trap_vars 163 sample_trap)])
    \<and> rtm_regid s = Some 1)
   \<and> (\<exists>s. RTM_callback (sample_rtm (- 1)) 163 1 sample_rtm_state = Inr (s, []))"
proof -
  have "traps_of (sample_rtm (- 1)) 163 sample_trap = []" by (simp add: traps_of_def sample_reading sample_exceeds)
  moreover note a = alarm_sends_traps [OF sample_env_ok(1) _ _ sample_state_rows(2), of 163 _ 1, unfolded sample_state_rows(1)]
  from sample_count [of 11] sample_count [of "- 1"] a [of 11] a [of "- 1"] sample_sends [OF sample_exceeds(1)] calculation
  show ?thesis by (auto simp del: count_readings.simps)
qed

text \<open>What the rule-based monitor takes from the varbinds of a trap.\<close>

definition trap_noted :: "int \<Rightarrow> trapTable_context \<Rightarrow> rbm_state \<Rightarrow> rbm_state" where
  "trap_noted port row st = st\<lparr>giSAPort := port, uiPolicyId := trapPolicyID row,
     szTrapMessage := trap_text row @ replicate (255 - length (trap_text row)) NUL\<rparr>"

lemma trap_text_length: "monitorable row \<Longrightarrow> length (trap_text row) < 255"
proof -
  assume "monitorable row"
  then have "length (chars_of (take (oLen (trapMessage row)) (oBuf (trapMessage row)))) < 255"
    by (auto simp: monitorable_def chars_of_def)
  then show ?thesis unfolding trap_text_def by (rule le_less_trans [OF length_takeWhile_le])
qed

lemma read_trap_vars:
  assumes "monitorable row" "- (2 ^ 31) \<le> port" "port < 2 ^ 31"
  shows "read_trap 0 (trap_vars port row) st = Inr (trap_noted port row st, True)"
proof -
  have t: "in_policy_tree (trap_entry @ xs)" "\<not> in_policy_tree objid_sysuptime" "\<not> in_policy_tree objid_snmptrap" for xs
    by (simp_all add: in_policy_tree_def trap_entry_def aulNuriPolicy_variables_oid_def objid_sysuptime_def objid_snmptrap_def)
  have "takeWhile (\<lambda>c. c \<noteq> NUL) (trap_text row) = trap_text row" by (simp add: trap_text_def takeWhile_idem)
  with trap_text_length [OF assms(1)] have "copy_trap_message (trap_text row)
    = Inr (trap_text row @ replicate (255 - length (trap_text row)) NUL)" by (simp add: copy_trap_message_def Let_def del: takeWhile_eq_all_conv)
  then show ?thesis using sint_word_of_int [OF assms(2,3)] by (simp add: trap_vars_def t Let_def trap_noted_def)
qed

text \<open>C39: Every trap that an alarm sends (on rows within the limits of \<open>alarm_sends_traps\<close>) comes from an active row
  whose reading stands in the relation, and the rule-based monitor that receives it, from a sender whose
  address has less than 25 characters, does not reject it: it takes the agent's port, the policy and the
  message from the trap and goes on with them to evaluate the policy that the row names.\<close>

theorem traps_reach_policies:
  assumes "parses_oids (rtm_parse env)" and "- (2 ^ 31) \<le> port" "port < 2 ^ 31"
    and "\<forall>row\<in>set (rt_rows s). monitorable row"
    and "RTM_callback env port interval s = Inr (s', acts)" and "SendTrap ip p vars \<in> set acts" and "length addr < 25"
  shows "\<exists>row\<in>set (rt_rows s). trapStatus row = 1 \<and> ip = trapDestinationIP row \<and> p = trapPort row
    \<and> (\<exists>v. reading env row = Some v \<and> exceeds v row)
    \<and> snmp_input renv \<lparr>variables = vars, received = True, is_trap2 = True, numeric_ip = False, sender = addr\<rparr> st
      = (let st' = (trap_noted port row st)\<lparr>num_received := num_received st + 1, szRemAddress := addr\<rparr> in
         rbind (evaluate_policy renv st') (\<lambda>(acts, r). Inr (st', acts, r)))"
proof -
  from assms(5,6) alarm_rows [OF assms(1-4)] obtain row where row: "row \<in> set (rt_rows s)" "SendTrap ip p vars \<in> set (traps_of env port row)"
    by blast
  then obtain v where v: "reading env row = Some v" "exceeds v row" "ip = trapDestinationIP row" "p = trapPort row"
    and vars: "vars = trap_vars port row" by (cases "reading env row") (auto simp: traps_of_def split: if_splits)
  have m: "monitorable row" using assms(4) row(1) by blast
  have "NUL \<in> set (drop 0 (szTrapMessage (trap_noted port row st)))" using trap_text_length [OF m] by (simp add: trap_noted_def)
  then have "\<exists>x. cstr (szTrapMessage (trap_noted port row st)) 0 = Inr x" by (simp add: cstr_def)
  with assms(7) read_trap_vars [OF m assms(2,3)] have "snmp_input renv \<lparr>variables = vars, received = True, is_trap2 = True, numeric_ip = False, sender = addr\<rparr> st
      = (let st' = (trap_noted port row st)\<lparr>num_received := num_received st + 1, szRemAddress := addr\<rparr> in
         rbind (evaluate_policy renv st') (\<lambda>(acts, r). Inr (st', acts, r)))"
    by (auto simp: snmp_input_def note_sender_def vars Let_def fits_def trap_noted_def)
  with row(1) v show ?thesis by (auto simp: reading_def split: if_splits)
qed

theorem traps_reach_policies_witness:
  "\<exists>s vars. RTM_callback (sample_rtm 11) 163 1 sample_rtm_state = Inr (s, [SendTrap 16777343 162 vars])
    \<and> snmp_input (sample_env False)
        \<lparr>variables = vars, received = True, is_trap2 = True, numeric_ip = False, sender = ''10.0.0.2''\<rparr> sample_state
      = (let st' = (trap_noted 163 sample_trap sample_state)\<lparr>num_received := 1, szRemAddress := ''10.0.0.2''\<rparr> in
         rbind (evaluate_policy (sample_env False) st') (\<lambda>(acts, r). Inr (st', acts, r)))"
proof -
  have "\<exists>s. RTM_callback (sample_rtm 11) 163 1 sample_rtm_state
    = Inr (s, [SendTrap 16777343 162 (trap_vars 163 sample_trap)])"
    using RTM_callback_does [OF sample_env_ok(1) _ _ sample_state_rows(2), of 163 11 1, unfolded sample_state_rows(1)]
      sample_count [of 11] sample_sends [OF sample_exceeds(1)] by (auto simp del: count_readings.simps)
  then obtain s where s: "RTM_callback (sample_rtm 11) 163 1 sample_rtm_state
    = Inr (s, [SendTrap 16777343 162 (trap_vars 163 sample_trap)])" by blast
  have n: "num_received sample_state + 1 = 1" by (simp add: sample_state_def)
  from traps_reach_policies [OF sample_env_ok(1) _ _ sample_state_rows(2) s, of 16777343 162 "trap_vars 163 sample_trap" "''10.0.0.2''"
      "sample_env False" sample_state] s sample_state_rows(1) n
  show ?thesis by auto
qed

text \<open>After enough alarms the statistics of an active row show the largest, smallest and mean value of
  the last full period of its own readings: when the index of each row is its own, no reading of
  another row gets into them, and none is lost, whatever traps are sent between.\<close>

theorem monitored_statistics:
  assumes "- (2 ^ 31) \<le> port" "port < 2 ^ 31" and "distinct (map trapIndex (rt_rows s))"
    and "\<forall>r\<in>set (rt_rows s). monitorable r" and "row \<in> set (rt_rows s)"
    and "stat_find (trapIndex row) (rt_stats s) = Some sr" "collecting p [] sr" "0 < p" "p < 2 ^ 31"
    and "\<forall>e\<in>set es. rtm_parse e = pars \<and> float_unit e = fp" "parses_oids pars"
    and "map (\<lambda>e. reading e row) es = map Some vs" "\<forall>v\<in>set vs. 0 < sint v \<and> sint v * int p < 2 ^ 32" "p \<le> length vs"
    and "RTM_alarms port interval es s = Inr (s', acts)"
  shows "\<exists>sr'. stat_find (trapIndex row) (rt_stats s') = Some sr' \<and> published (last_period p vs) sr'"
proof -
  from feed_periods [OF assms(8,9,7,13), of fp] assms(14)
  obtain sr' where "feed fp vs sr = Inr sr'" "published (last_period p vs) sr'" by auto
  moreover have "\<forall>e\<in>set es. parses_oids (rtm_parse e) \<and> float_unit e = fp" using assms(10,11) by auto
  ultimately show ?thesis using RTM_alarms_feed [OF assms(1,2,15,3,4,5) _ assms(12,6)] by blast
qed

theorem monitored_statistics_witness:
  "\<exists>s acts sr. RTM_alarms 163 1 (map sample_rtm [4, 20, 6]) sample_rtm_state = Inr (s, acts)
    \<and> stat_find 5 (rt_stats s) = Some sr \<and> sint (sysStatisticsMaxValue sr) = 20
    \<and> sint (sysStatisticsMinValue sr) = 4 \<and> sint (sysStatisticsAvgValue sr) = 10"
proof -
  let ?sr = "zero_stat\<lparr>stat_oids := [5], sysStatisticsPeriod := 3\<rparr>"
  have i: "trapIndex sample_trap = 5" by (simp add: sample_trap_def)
  have f: "stat_find (trapIndex sample_trap) (rt_stats sample_rtm_state) = Some ?sr" "collecting 3 [] ?sr"
    by (simp_all add: i sample_rtm_state_def stat_find_def collecting_def zero_stat_def)
  then obtain sr' where "feed exact_unit [4, 20, 6] ?sr = Inr sr'" using feed_periods [OF _ _ f(2), of "[4, 20, 6]" exact_unit] by auto
  with one_row_alarms [OF _ _ sample_state_rows(1) sample_monitorable _ _ f(1), of 163 "map sample_rtm [4, 20, 6]" exact_unit "[4, 20, 6]" sr' 1]
  obtain s acts where s: "RTM_alarms 163 1 (map sample_rtm [4, 20, 6]) sample_rtm_state = Inr (s, acts)"
    using sample_env_ok sample_reading by auto
  have r: "distinct (map trapIndex (rt_rows sample_rtm_state))" "\<forall>r\<in>set (rt_rows sample_rtm_state). monitorable r"
    "sample_trap \<in> set (rt_rows sample_rtm_state)"
    by (simp_all add: sample_rtm_state_def sample_monitorable)
  have e: "\<forall>e\<in>set (map sample_rtm [4, 20, 6]). rtm_parse e = parse_oid \<and> float_unit e = exact_unit"
    "map (\<lambda>e. reading e sample_trap) (map sample_rtm [4, 20, 6]) = map Some [4, 20, 6]"
    by (simp add: sample_rtm_def) (simp add: sample_reading)
  from monitored_statistics [OF _ _ r f _ _ e(1) parse_oid_ok e(2) _ _ s]
  obtain sr where "stat_find (trapIndex sample_trap) (rt_stats s) = Some sr" "published (last_period 3 [4, 20, 6]) sr" by auto
  with s show ?thesis by (auto simp: i last_period_def published_def)
qed

end
