(* ===== verification/Spec2Isabelle.thy ===== *)
theory Spec2Isabelle
  imports Prelude ListSort SchedTypes SchedMaster SchedStore SchedExec SchedLoop RtcCollect Blowfish RbmTable
    RbmText RbmPolicy JobList JobSched TrapQueue FileSend FileRecv FileTransfer FilePages FileProps ProcMon ProcList
    TableArray RbmSet SysStats TrapTable RtmMonitor
begin

text \<open>
  \<^bold>\<open>The program.\<close> EVE is a network monitor. Agents (\<^verbatim>\<open>src/Group1\<close>) run on the hosts that are watched: a
  master agent and sub-agents that serve MIB tables over SNMP and act on them. Services
  (\<^verbatim>\<open>src/Group2/Unix\<close>) run tasks on behalf of the centre: they listen to the traps the agents send when
  a table row changes and plan, run and report. Both sides share the task scheduler of \<^verbatim>\<open>src/Common\<close>.
  The development models the components that decide something, in C as built for a 32-bit Unix: the
  scheduler, the collector of real-time data and the statistics kept beside it, the monitor of variables
  with its trap table, the rule-based monitor with its policy table, the process monitor, the cipher of the
  master agent, the job scheduler service and the file transfer. The two tables are modelled together with
  the part of net-snmp that takes a SET request through its phases.

  \<^bold>\<open>How the parts interact.\<close> A trap about a row of the job table is put in a queue by the thread of the
  SNMP library (\<^verbatim>\<open>JS_ListenTrap\<close>) and taken out by the main thread (\<^verbatim>\<open>JS_ProcessTrapMsg\<close>). The handler
  (\<^verbatim>\<open>JS_ParseTrap\<close>) builds a job and adds, modifies or deletes it by calls of the scheduler
  (\<^verbatim>\<open>SCH_AddTask\<close>, \<^verbatim>\<open>SCH_DeleteTask\<close>, \<^verbatim>\<open>SCH_GetTask\<close>), and keeps the ids it gets in a list of its own. The
  scheduler's thread makes at each full hour a list of what is due in the hour, sorts it and calls the
  tasks back at their seconds. The alarm of the collector (\<^verbatim>\<open>RTM_callback\<close>) reads the variable of each active row
  of the trap table, adds the reading to the statistics and, when it stands in the row's relation to its
  threshold, sends a trap that names a policy to the rule-based monitor. A policy of the rule-based monitor is a row of a table, written by SNMP
  SET requests and read back, over SNMP, by the process that evaluates it when a trap comes. The log
  files the services write go to the centre by the file transfer.

  \<^bold>\<open>The theories.\<close>

  \<^item> \<open>Prelude\<close>: faults of C code as values (a NULL, dangling or freed pointer, an index outside an array,
    an unterminated text); results that may fault (\<open>res\<close>) and runs that may also not return (\<open>run\<close>,
    where \<^const>\<open>None\<close> is the run that never returns); linked lists on a heap of live structures; allocators.
    \<open>ListSort\<close>: the bubble sort of linked lists that the scheduler and the collector both contain,
    proved once to be a stable sort.
  \<^item> \<open>SchedTypes\<close>, \<open>SchedMaster\<close>, \<open>SchedStore\<close>, \<open>SchedExec\<close>, \<open>SchedLoop\<close>: \<^verbatim>\<open>src/Common/NASCenter_Scheduler.c\<close>.
    \<open>SchedMaster\<close> has the table of 25 task lists and its public operations; \<open>SchedStore\<close> states what its
    clients rely on as the locale \<open>task_store\<close> and proves that the table refines a finite map from ids to
    tasks; \<open>SchedExec\<close> makes and sorts the list of the hour; \<open>SchedLoop\<close> is the thread, one turn of
    its loop at a time, with the states reachable by turns and by the operations other threads call.
  \<^item> \<open>RtcCollect\<close>: the planning part of \<^verbatim>\<open>src/Group1/RTCM/src/collectDataTable.c\<close>: the intervals of the
    active rows, the list of readings until the next alarm, and the readings when it goes off.
  \<^item> \<open>Blowfish\<close>: \<^verbatim>\<open>src/Group1/MasterAgent/src/blowfish.c\<close>: block cipher, key setup and the padding of
    messages (\<^verbatim>\<open>NAS_Encrypt\<close>, \<^verbatim>\<open>NAS_Decrypt\<close>).
  \<^item> \<open>SysStats\<close>: \<^verbatim>\<open>src/Group1/sysStats/src/sysStatisticsTable.c\<close>: the largest, smallest and mean value of a
    variable over a period, and its deviation. The machine's floating-point rounding is an argument.
    \<open>TrapTable\<close>, \<open>RtmMonitor\<close>: \<^verbatim>\<open>src/Group1/RTCM/src/trapTable.c\<close>: the trap table, an instance of the locale
    \<open>governed_table\<close> below, whose ACTION keeps the rows of statistics; and the alarm, from the reading to the trap
    and on to the rule-based monitor that takes it in.
  \<^item> \<open>TableArray\<close>: how net-snmp takes a SET request to a table through its phases (\<^verbatim>\<open>handle_set_loop\<close> of
    \<^verbatim>\<open>agent/snmp_agent.c\<close>, \<^verbatim>\<open>agent/helpers/table_array.c\<close> under \<^verbatim>\<open>src/Group1/net-snmp-5.8\<close>), for any table that
    supplies its callbacks. The locale \<open>row_table\<close> says what a table must promise for a SET to happen wholly or
    not at all; \<open>governed_table\<close> adds what it must promise for row states to be sound.
    \<open>RbmTable\<close>: the policy table (\<^verbatim>\<open>src/Group1/RBM/src/monitorPolicyTable.c\<close>): making and copying rows, the
    callbacks of the SET phases, GET, and saving and loading. \<open>RbmSet\<close>: the policy table as an instance of both
    locales; what memory and file operations of a SET succeed is a record of its own (\<open>set_env\<close>). \<open>RbmText\<close>, \<open>RbmPolicy\<close>: \<^verbatim>\<open>src/Group1/RBM/src/rbm.c\<close>: C texts in a flat block, and
    the evaluation of a policy from the trap to the alert message, the command and the script.
  \<^item> \<open>ProcMon\<close>, \<open>ProcList\<close>: the process monitor (\<^verbatim>\<open>src/Group1/ProcMon/src/psMonitorTable.c\<close>): the thread of a
    row, one turn at a time, with its alerts and reactions; and what is read of the processes of the host.
  \<^item> \<open>JobList\<close>, \<open>TrapQueue\<close>, \<open>JobSched\<close>: the job scheduler service (\<^verbatim>\<open>src/Group2/Unix/JobSched\<close>): the list
    of jobs and their task ids (locale \<open>job_index\<close>), the queue of traps (locale \<open>bounded_fifo\<close>), and the
    handling of a trap, on the scheduler's model through the interface \<open>task_store\<close>, beside the task that
    sends the log file (\<^verbatim>\<open>JS_ScheduleLogInfo\<close>), whose argument is never set.
  \<^item> \<open>FileSend\<close>, \<open>FileRecv\<close>, \<open>FileTransfer\<close>, \<open>FilePages\<close>, \<open>FileProps\<close>: the file transfer
    (\<^verbatim>\<open>src/Group2/Unix/common/src/NASCenter_FileTrans*.c\<close>): the two sides; the locale \<open>segmentation\<close>, which is
    what the receiver needs of the sender's windows; its instance for the pages of a file; and what the
    two sides do together.

  \<^bold>\<open>State and operations.\<close> A definition has the name of the function it models; a loop in a function
  has a name of its own. Structures are records with the fields of the code, where a name is taken
  already with a short prefix. Linked lists live on a heap of addresses; a function that changes a list
  returns the new heap, and faults when it reads an address that is not live. Integers are words of
  their width where the code's arithmetic can wrap, and integers or natural numbers elsewhere. What the
  code gets from outside is an argument: the clock readings, the allocator (which returns NULL or an
  address not in use), the replies of the SNMP library, the events a socket delivers, the contents of
  uninitialised locals where they are read. Loops over pointers and loops that wait are
  \<^verbatim>\<open>partial_function (option)\<close>: there is no fuel, and that they return is a theorem where it is one.

  \<^bold>\<open>What the lemmas show.\<close> Each component has an invariant (\<open>slot_ok\<close>, \<open>exec_linked\<close>, the representation
  of the job list, the fill state of the queue, \<open>waits\<close> and \<open>sends\<close> for the two sides of a transfer) that its
  operations keep, lemmas that say what an operation does on every branch, and properties on top of
  them. The numbered properties are the theorems with a number C1, C2, and so on. They cover memory
  safety of the scheduler and of the job scheduler over all reachable states; refinement of the task
  table to a map and of the trap queue to a list; that callbacks follow the plan of the hour and
  readings their schedule; that a SET to the policy table is atomic and leaves its rows in a sound
  state; round trips of messages, tables, jobs and files; the exact conditions under
  which requests and traps are accepted; and, where the code does not do what it means to, a theorem
  that says what it does instead.

  \<^bold>\<open>Bounds.\<close> \<^verbatim>\<open>long\<close> and pointers have 32 bits and memory is little-endian. Sizes of files and counts of
  packets are below $2^{31}$. The properties of the file transfer ask for windows of at most 1100 packets,
  since a packet carries the status of a window, and for at most five timeouts, which is the limit of the
  receiver; packets that are lost are followed where the receiver's wait ends before the sender's, and in
  one schedule where it does not. The trap queue delivers everything while at most 13 traps wait, which is one less than its size.

  \<^bold>\<open>Not modelled.\<close> The creation and joining of threads, sockets and sessions, signals and log output, which
  call the system only; interleavings inside an operation of the scheduler, since its operations hold
  their mutex throughout, but for the making of the list of the hour, which reads the table without the
  mutex: a turn of the thread is one step all the same, which the property on memory safety states as a
  condition, and a theorem of \<open>SchedLoop\<close> shows the fault that a deletion meanwhile leads to; reading the tables over SNMP when a
  service starts; running a job's process; the variants for Windows; the MIB tables of the other
  sub-agents and the handlers of the modelled ones but those of the policy and the trap table, which are generated handlers
  around system calls; net-snmp but for its SET processing, which is third-party code; and the user
  interface and installers.
\<close>

end
